(* ===== verification/Prelude.thy ===== *)
theory Prelude
  imports Main
begin

text \<open>
  What every component shares: the results of fallible operations, the option and array
  operations the sources call, and the interfaces of the state machines.

  An \<open>Effect.Effect<A, E>\<close> or a \<open>Result.Result<A, E>\<close> of the sources is a value of
  \<open>'e + 'a\<close>, the error on the left. \<open>and_then\<close> is \<open>flatMap\<close>, \<open>each_r\<close> is
  \<open>Effect.forEach\<close> at concurrency 1 and \<open>Result.all\<close>: the first failure is the answer.
\<close>

named_theorems result_simps "how results flow"

section \<open>Results\<close>

fun and_then :: "'e + 'a \<Rightarrow> ('a \<Rightarrow> 'e + 'b) \<Rightarrow> 'e + 'b" where
  "and_then (Inl e) k = Inl e"
| "and_then (Inr x) k = k x"

lemma and_then_eq_Inr [result_simps]:
  "and_then m k = Inr y \<longleftrightarrow> (\<exists>x. m = Inr x \<and> k x = Inr y)"
  by (cases m) auto

lemma and_then_eq_Inl [result_simps]:
  "and_then m k = Inl e \<longleftrightarrow> m = Inl e \<or> (\<exists>x. m = Inr x \<and> k x = Inl e)"
  by (cases m) auto

lemma and_then_assoc: "and_then (and_then m k) l = and_then m (\<lambda>x. and_then (k x) l)"
  by (cases m) auto

lemma and_then_Inr [simp]: "and_then m Inr = m"
  by (cases m) auto

definition map_r :: "('a \<Rightarrow> 'b) \<Rightarrow> 'e + 'a \<Rightarrow> 'e + 'b" where
  "map_r f m = and_then m (\<lambda>x. Inr (f x))"

lemma map_r_simps [simp]: "map_r f (Inl e) = Inl e" "map_r f (Inr x) = Inr (f x)"
  by (simp_all add: map_r_def)

lemma map_r_eq_Inr [result_simps]: "map_r f m = Inr y \<longleftrightarrow> (\<exists>x. m = Inr x \<and> y = f x)"
  by (cases m) auto

fun each_r :: "('a \<Rightarrow> 'e + 'b) \<Rightarrow> 'a list \<Rightarrow> 'e + 'b list" where
  "each_r f [] = Inr []"
| "each_r f (x # xs) = and_then (f x) (\<lambda>y. and_then (each_r f xs) (\<lambda>ys. Inr (y # ys)))"

lemma each_r_length: "each_r f xs = Inr ys \<Longrightarrow> length ys = length xs"
  by (induction xs arbitrary: ys) (auto simp: result_simps)

lemma each_r_nth: "each_r f xs = Inr ys \<Longrightarrow> i < length xs \<Longrightarrow> f (xs ! i) = Inr (ys ! i)"
proof (induction xs arbitrary: ys i)
  case (Cons x xs)
  then show ?case by (cases i) (auto simp: result_simps)
qed simp

lemma each_r_cong [fundef_cong]:
  "xs = ys \<Longrightarrow> (\<And>x. x \<in> set ys \<Longrightarrow> f x = g x) \<Longrightarrow> each_r f xs = each_r g ys"
  by (induction ys arbitrary: xs) auto

lemma each_r_Inr_map [simp]: "each_r (\<lambda>x. Inr (f x)) xs = Inr (map f xs)"
  by (induction xs) auto

lemma each_r_append: "each_r f (xs @ ys) = and_then (each_r f xs) (\<lambda>a. map_r ((@) a) (each_r f ys))"
proof (induction xs)
  case (Cons x xs)
  then show ?case by (cases "f x"; cases "each_r f xs"; cases "each_r f ys") simp_all
qed (cases "each_r f ys"; simp)

definition or_fail :: "'e \<Rightarrow> 'a option \<Rightarrow> 'e + 'a" where
  "or_fail e x = (case x of None \<Rightarrow> Inl e | Some y \<Rightarrow> Inr y)"

lemma or_fail_simps [simp]: "or_fail e None = Inl e" "or_fail e (Some x) = Inr x"
  by (simp_all add: or_fail_def)

section \<open>Options and arrays\<close>

text \<open>\<open>Option.exists\<close>, \<open>Option.orElse\<close>, \<open>Option.getOrElse\<close>, \<open>Option.filter\<close>, \<open>Array.at(-1)\<close>.\<close>

definition opt_exists :: "('a \<Rightarrow> bool) \<Rightarrow> 'a option \<Rightarrow> bool" where
  "opt_exists p x = (case x of None \<Rightarrow> False | Some y \<Rightarrow> p y)"

lemma opt_exists_simps [simp]: "opt_exists p None = False" "opt_exists p (Some x) = p x"
  by (simp_all add: opt_exists_def)

lemma opt_exists_iff: "opt_exists p x \<longleftrightarrow> (\<exists>y. x = Some y \<and> p y)"
  by (cases x) auto

fun or_else :: "'a option \<Rightarrow> 'a option \<Rightarrow> 'a option" where
  "or_else None y = y"
| "or_else (Some x) y = Some x"

fun get_or_else :: "'a \<Rightarrow> 'a option \<Rightarrow> 'a" where
  "get_or_else d None = d"
| "get_or_else d (Some x) = x"

definition opt_filter :: "('a \<Rightarrow> bool) \<Rightarrow> 'a option \<Rightarrow> 'a option" where
  "opt_filter p x = (case x of None \<Rightarrow> None | Some y \<Rightarrow> if p y then Some y else None)"

lemma opt_filter_simps [simp]:
  "opt_filter p None = None" "opt_filter p (Some x) = (if p x then Some x else None)"
  by (simp_all add: opt_filter_def)

lemma opt_filter_eq_Some: "opt_filter p x = Some y \<longleftrightarrow> x = Some y \<and> p y"
  by (cases x) auto

lemma bind_Some_map: "Option.bind m (\<lambda>x. Some (f x)) = map_option f m"
  by (cases m) simp_all

definition at_last :: "'a list \<Rightarrow> 'a option" where
  "at_last xs = (if xs = [] then None else Some (last xs))"

lemma at_last_Nil [simp]: "at_last [] = None"
  by (simp add: at_last_def)

lemma at_last_snoc [simp]: "at_last (xs @ [x]) = Some x"
  by (simp add: at_last_def)

lemma at_last_in_set: "at_last xs = Some x \<Longrightarrow> x \<in> set xs"
  by (auto simp: at_last_def split: if_splits)

lemma at_last_map: "at_last (map f xs) = map_option f (at_last xs)"
  by (simp add: at_last_def last_map)

lemma all_nat_Suc: "(\<forall>i. P i) \<longleftrightarrow> P 0 \<and> (\<forall>i. P (Suc i))"
  by (metis not0_implies_Suc)

lemma find_SomeD: "find p xs = Some x \<Longrightarrow> x \<in> set xs \<and> p x"
  by (auto simp: find_Some_iff)

lemma find_NoneD: "find p xs = None \<Longrightarrow> x \<in> set xs \<Longrightarrow> \<not> p x"
  by (simp add: find_None_iff)

text \<open>\<open>Array.prototype.findIndex\<close>, \<open>None\<close> for -1.\<close>

definition findIndex :: "('a \<Rightarrow> bool) \<Rightarrow> 'a list \<Rightarrow> nat option" where
  "findIndex p xs = (let i = length (takeWhile (\<lambda>x. \<not> p x) xs) in if i < length xs then Some i else None)"

lemma findIndex_simps: "findIndex p [] = None" "findIndex p (x # xs) = (if p x then Some 0 else map_option Suc (findIndex p xs))"
  by (simp_all add: findIndex_def Let_def)

lemma findIndex_append: "findIndex p (xs @ ys) = (case findIndex p xs of Some i \<Rightarrow> Some i | None \<Rightarrow> map_option ((+) (length xs)) (findIndex p ys))"
  by (induction xs; cases "findIndex p ys") (auto simp: findIndex_simps split: option.split)

lemma find_append: "find p (xs @ ys) = (case find p xs of None \<Rightarrow> find p ys | Some x \<Rightarrow> Some x)"
  by (induction xs) auto

lemma find_Some_ex: "x \<in> set xs \<Longrightarrow> p x \<Longrightarrow> \<exists>y. find p xs = Some y"
  by (cases "find p xs") (auto simp: find_None_iff)

section \<open>Maps, sets and scans\<close>

text \<open>
  \<open>new Map(pairs)\<close>: the last pair of a key is its value; \<open>values()\<close> come in the order the keys
  first appeared. \<open>new Set(xs)\<close> keeps the first of equal elements. \<open>Array.scan\<close> gives every
  intermediate state, the first included. \<open>slice(from)\<close> counts from the end when negative.
\<close>

definition js_map :: "('k \<times> 'v) list \<Rightarrow> 'k \<Rightarrow> 'v option" where
  "js_map ps = map_of (rev ps)"

definition js_distinct :: "'a list \<Rightarrow> 'a list" where
  "js_distinct xs = rev (remdups (rev xs))"

definition js_values :: "('k \<times> 'v) list \<Rightarrow> 'v list" where
  "js_values ps = concat (map (\<lambda>k. case js_map ps k of None \<Rightarrow> [] | Some v \<Rightarrow> [v]) (js_distinct (map fst ps)))"

lemma js_distinct_simps [simp]: "set (js_distinct xs) = set xs" "distinct (js_distinct xs)"
  by (simp_all add: js_distinct_def)

lemma js_map_append: "js_map (ps @ qs) k = (case js_map qs k of None \<Rightarrow> js_map ps k | Some v \<Rightarrow> Some v)"
  by (auto simp: js_map_def map_add_def split: option.split)

lemma js_map_Nil [simp]: "js_map [] k = None"
  by (simp add: js_map_def)

lemma js_map_None: "js_map ps k = None \<longleftrightarrow> k \<notin> fst ` set ps"
  by (simp add: js_map_def map_of_eq_None_iff)

lemma js_map_SomeD: "js_map ps k = Some v \<Longrightarrow> (k, v) \<in> set ps"
  by (auto simp: js_map_def dest: map_of_SomeD)

fun scan :: "('s \<Rightarrow> 'a \<Rightarrow> 's) \<Rightarrow> 's \<Rightarrow> 'a list \<Rightarrow> 's list" where
  "scan f s [] = [s]"
| "scan f s (x # xs) = s # scan f (f s x) xs"

lemma length_scan [simp]: "length (scan f s xs) = Suc (length xs)"
  by (induction xs arbitrary: s) auto

lemma scan_nth_0 [simp]: "scan f s xs ! 0 = s"
  by (cases xs) auto

lemma scan_nth: "i \<le> length xs \<Longrightarrow> scan f s xs ! i = foldl f s (take i xs)"
proof (induction xs arbitrary: s i)
  case (Cons x xs)
  then show ?case by (cases i) auto
qed simp

definition slice_from :: "int \<Rightarrow> 'a list \<Rightarrow> 'a list" where
  "slice_from n xs = (if n < 0 then drop (length xs - nat (- n)) xs else drop (nat n) xs)"

definition toList :: "'a option \<Rightarrow> 'a list" where
  "toList x = (case x of None \<Rightarrow> [] | Some y \<Rightarrow> [y])"

lemma toList_simps [simp]: "toList None = []" "toList (Some x) = [x]"
  by (simp_all add: toList_def)

section \<open>State machines\<close>

text \<open>
  A component whose state is moved only by its transitions is a step function over its
  events; a run is the fold of the steps. Two contracts recur: an invariant every step keeps,
  and a set of states no step leaves.
\<close>

locale invariant_machine =
  fixes step :: "'s \<Rightarrow> 'e \<Rightarrow> 's"
    and inv :: "'s \<Rightarrow> bool"
  assumes inv_step: "inv s \<Longrightarrow> inv (step s e)"
begin

lemma inv_run: "inv s \<Longrightarrow> inv (foldl step s es)"
  by (induction es arbitrary: s) (auto simp: inv_step)

end

locale absorbing_machine =
  fixes step :: "'s \<Rightarrow> 'e \<Rightarrow> 's"
    and halted :: "'s \<Rightarrow> bool"
  assumes halted_step: "halted s \<Longrightarrow> step s e = s"
begin

lemma halted_run: "halted s \<Longrightarrow> foldl step s es = s"
  by (induction es) (auto simp: halted_step)

lemma halted_prefix: "halted (foldl step s es) \<Longrightarrow> foldl step s (es @ fs) = foldl step s es"
  by (simp add: halted_run)

end

sublocale absorbing_machine \<subseteq> invariant_machine step halted
  by unfold_locales (simp add: halted_step)

text \<open>A machine one of whose observations never decreases along a run (a sequence number, a revision).\<close>

locale monotone_machine =
  fixes step :: "'s \<Rightarrow> 'e \<Rightarrow> 's"
    and rank :: "'s \<Rightarrow> 'n::linorder"
  assumes rank_step: "rank s \<le> rank (step s e)"
begin

lemma rank_run: "rank s \<le> rank (foldl step s es)"
proof (induction es arbitrary: s)
  case (Cons e es)
  have "rank s \<le> rank (step s e)" by (rule rank_step)
  also have "\<dots> \<le> rank (foldl step (step s e) es)" by (rule Cons.IH)
  finally show ?case by simp
qed simp

end

lemma foldl_invariant: "P s \<Longrightarrow> (\<And>s x. P s \<Longrightarrow> x \<in> set xs \<Longrightarrow> P (f s x)) \<Longrightarrow> P (foldl f s xs)"
  by (induction xs arbitrary: s) auto

end
