(* ===== verification/JsText.thy ===== *)
theory JsText
  imports Prelude
begin

text \<open>
  The string operations of JavaScript the sources call, over any type of code units: a string is
  a list, \<open>slice\<close>, \<open>indexOf\<close>, \<open>split\<close>, \<open>join\<close>, \<open>replaceAll\<close> and \<open>includes\<close> are those of
  \<open>String.prototype\<close> for the arguments the sources give them (indices that are not negative).
  Numbers print in decimal (\<open>dec\<close>), as template literals print an integer.
\<close>

section \<open>Slices\<close>

definition slice :: "nat \<Rightarrow> nat \<Rightarrow> 'a list \<Rightarrow> 'a list" where
  "slice from to xs = take (to - from) (drop from xs)"

lemma slice_append_rest: "a \<le> b \<Longrightarrow> slice a b xs @ drop b xs = drop a xs"
  by (simp add: slice_def) (metis append_take_drop_id drop_drop le_add_diff_inverse2)

lemma slice_slice_append: "a \<le> b \<Longrightarrow> b \<le> c \<Longrightarrow> slice a b xs @ slice b c xs = slice a c xs"
proof -
  assume "a \<le> b" "b \<le> c"
  then have "take (c - a) (drop a xs) = take ((b - a) + (c - b)) (drop a xs)" by simp
  also have "\<dots> = take (b - a) (drop a xs) @ take (c - b) (drop b xs)"
    using \<open>a \<le> b\<close> by (simp only: take_add drop_drop) simp
  finally show ?thesis by (simp add: slice_def)
qed

lemma length_slice: "length (slice a b xs) = min (b - a) (length xs - a)"
  by (simp add: slice_def min.commute)

lemma slice_0: "slice 0 n xs = take n xs"
  by (simp add: slice_def)

lemma slice_all: "length xs \<le> b \<Longrightarrow> slice a b xs = drop a xs"
  by (simp add: slice_def)

section \<open>Searching\<close>

fun starts_with :: "'a list \<Rightarrow> 'a list \<Rightarrow> bool" where
  "starts_with [] ys = True"
| "starts_with (x # xs) [] = False"
| "starts_with (x # xs) (y # ys) = (x = y \<and> starts_with xs ys)"

lemma starts_with_take: "starts_with p s \<longleftrightarrow> take (length p) s = p"
  by (induction p s rule: starts_with.induct) auto

lemma starts_with_iff: "starts_with p s \<longleftrightarrow> (\<exists>r. s = p @ r)"
  by (metis append_eq_conv_conj append_take_drop_id starts_with_take)

lemma starts_with_length: "starts_with p s \<Longrightarrow> length p \<le> length s"
  by (auto simp: starts_with_iff)

definition ends_with :: "'a list \<Rightarrow> 'a list \<Rightarrow> bool" where
  "ends_with p s \<longleftrightarrow> length p \<le> length s \<and> drop (length s - length p) s = p"

text \<open>\<open>indexOf\<close>: the first position at or after \<open>i\<close>; \<open>None\<close> for -1.\<close>

fun index_of_from :: "nat \<Rightarrow> 'a list \<Rightarrow> 'a list \<Rightarrow> nat option" where
  "index_of_from i p [] = (if p = [] then Some i else None)"
| "index_of_from i p (x # xs) = (if starts_with p (x # xs) then Some i else index_of_from (Suc i) p xs)"

definition index_of :: "'a list \<Rightarrow> 'a list \<Rightarrow> nat option" where
  "index_of p s = index_of_from 0 p s"

definition index_of_after :: "nat \<Rightarrow> 'a list \<Rightarrow> 'a list \<Rightarrow> nat option" where
  "index_of_after n p s = index_of_from n p (drop n s)"

definition contains :: "'a list \<Rightarrow> 'a list \<Rightarrow> bool" where
  "contains p s \<longleftrightarrow> index_of p s \<noteq> None"

lemma index_of_from_SomeD:
  "index_of_from i p s = Some j \<Longrightarrow>
     i \<le> j \<and> j - i \<le> length s \<and> starts_with p (drop (j - i) s) \<and> (\<forall>k < j - i. \<not> starts_with p (drop k s))"
proof (induction i p s rule: index_of_from.induct)
  case (1 i p)
  then show ?case by (auto split: if_splits)
next
  case (2 i p x xs)
  show ?case
  proof (cases "starts_with p (x # xs)")
    case True
    with 2 show ?thesis by simp
  next
    case False
    with 2 have IH: "Suc i \<le> j \<and> j - Suc i \<le> length xs \<and> starts_with p (drop (j - Suc i) xs)
        \<and> (\<forall>k < j - Suc i. \<not> starts_with p (drop k xs))" by auto
    from IH have "Suc i \<le> j" by blast
    then have eq: "j - i = Suc (j - Suc i)" by simp
    show ?thesis unfolding eq using IH False
      by (auto simp: less_Suc_eq_0_disj)
  qed
qed

lemma index_of_from_None: "index_of_from i p s = None \<longleftrightarrow> (\<forall>k \<le> length s. \<not> starts_with p (drop k s))"
proof (induction i p s rule: index_of_from.induct)
  case (1 i p)
  then show ?case by (cases p) auto
next
  case (2 i p x xs)
  show ?case
  proof (cases "starts_with p (x # xs)")
    case True
    then show ?thesis by (auto intro!: exI [of _ 0])
  next
    case False
    have "(\<forall>k \<le> length (x # xs). \<not> starts_with p (drop k (x # xs)))
        \<longleftrightarrow> (\<forall>k \<le> length xs. \<not> starts_with p (drop k xs))" (is "?l \<longleftrightarrow> ?r")
    proof
      assume ?l
      show ?r
      proof (intro allI impI)
        fix k assume "k \<le> length xs"
        then have "Suc k \<le> length (x # xs)" by simp
        with \<open>?l\<close> have "\<not> starts_with p (drop (Suc k) (x # xs))" by blast
        then show "\<not> starts_with p (drop k xs)" by simp
      qed
    next
      assume ?r
      with False show ?l by (auto simp: drop_Cons split: nat.splits)
    qed
    with 2 False show ?thesis by simp
  qed
qed

lemma index_of_Some:
  "index_of p s = Some j \<Longrightarrow> starts_with p (drop j s) \<and> (\<forall>k < j. \<not> starts_with p (drop k s)) \<and> j + length p \<le> length s"
  using index_of_from_SomeD [of 0 p s j] starts_with_length [of p "drop j s"]
  by (auto simp: index_of_def)

lemma index_of_split: "index_of p s = Some j \<Longrightarrow> s = take j s @ p @ drop (j + length p) s"
  using index_of_Some [of p s j] starts_with_take [of p "drop j s"]
  by (metis add.commute append_take_drop_id drop_drop)

section \<open>Splitting and joining\<close>

text \<open>\<open>split\<close> by one separator character, \<open>join\<close> with a separator string.\<close>

fun split_on :: "'a \<Rightarrow> 'a list \<Rightarrow> 'a list list" where
  "split_on c [] = [[]]"
| "split_on c (x # xs) =
     (if x = c then [] # split_on c xs
      else (case split_on c xs of [] \<Rightarrow> [[x]] | w # ws \<Rightarrow> (x # w) # ws))"

fun join :: "'a list \<Rightarrow> 'a list list \<Rightarrow> 'a list" where
  "join sep [] = []"
| "join sep [x] = x"
| "join sep (x # y # zs) = x @ sep @ join sep (y # zs)"

lemma split_on_not_Nil [simp]: "split_on c xs \<noteq> []"
  by (induction xs) (auto split: list.splits)

lemma join_Cons: "ws \<noteq> [] \<Longrightarrow> join sep (w # ws) = w @ sep @ join sep ws"
  by (cases ws) simp_all

lemma join_split_on: "join [c] (split_on c xs) = xs"
proof (induction xs)
  case (Cons x xs)
  show ?case
  proof (cases "x = c")
    case True
    with Cons show ?thesis by (simp add: join_Cons)
  next
    case False
    obtain w ws where "split_on c xs = w # ws" by (cases "split_on c xs") auto
    with Cons False show ?thesis by (cases ws) auto
  qed
qed simp

lemma split_on_no_sep: "w \<in> set (split_on c xs) \<Longrightarrow> c \<notin> set w"
proof (induction xs arbitrary: w)
  case (Cons x xs)
  obtain v vs where "split_on c xs = v # vs" by (cases "split_on c xs") auto
  with Cons show ?case by (auto split: if_splits)
qed simp

lemma split_on_id: "c \<notin> set xs \<Longrightarrow> split_on c xs = [xs]"
  by (induction xs) auto

lemma split_on_append: "c \<notin> set xs \<Longrightarrow> split_on c (xs @ c # ys) = xs # split_on c ys"
  by (induction xs) auto

lemma split_on_append_sep: "split_on c (xs @ c # ys) = split_on c xs @ split_on c ys"
proof (induction xs)
  case (Cons x xs)
  then show ?case by (cases "split_on c xs") auto
qed simp

lemma split_on_join: "ws \<noteq> [] \<Longrightarrow> \<forall>w \<in> set ws. c \<notin> set w \<Longrightarrow> split_on c (join [c] ws) = ws"
proof (induction ws rule: induct_list012)
  case (3 x y zs)
  then show ?case by (simp add: split_on_append)
qed (auto simp: split_on_id)

lemma length_join:
  "ws \<noteq> [] \<Longrightarrow> length (join sep ws) = sum_list (map length ws) + (length ws - 1) * length sep"
  by (induction ws rule: induct_list012) auto

section \<open>Replacing\<close>

text \<open>\<open>replaceAll\<close> of one character by a string, and of the pair \<open>c1 c2\<close> by one character.\<close>

definition replace_char :: "'a \<Rightarrow> 'a list \<Rightarrow> 'a list \<Rightarrow> 'a list" where
  "replace_char c r xs = concat (map (\<lambda>x. if x = c then r else [x]) xs)"

fun replace_pair :: "'a \<Rightarrow> 'a \<Rightarrow> 'a list \<Rightarrow> 'a list \<Rightarrow> 'a list" where
  "replace_pair c1 c2 r (x # y # zs) =
     (if x = c1 \<and> y = c2 then r @ replace_pair c1 c2 r zs else x # replace_pair c1 c2 r (y # zs))"
| "replace_pair c1 c2 r xs = xs"

section \<open>Numbers in decimal\<close>

fun dec_nat :: "nat \<Rightarrow> string" where
  "dec_nat n = (if n < 10 then [char_of (48 + n)] else dec_nat (n div 10) @ [char_of (48 + n mod 10)])"

declare dec_nat.simps [simp del]

definition dec :: "int \<Rightarrow> string" where
  "dec i = (if i < 0 then ''-'' @ dec_nat (nat (- i)) else dec_nat (nat i))"

lemma dec_nat_not_Nil [simp]: "dec_nat n \<noteq> []"
  by (subst dec_nat.simps) simp

lemma dec_nat_length_mono: "m \<le> n \<Longrightarrow> length (dec_nat m) \<le> length (dec_nat n)"
proof (induction n arbitrary: m rule: less_induct)
  case (less n)
  show ?case
  proof (cases "m < 10")
    case True
    then have "length (dec_nat m) = 1" by (subst dec_nat.simps) simp
    moreover have "1 \<le> length (dec_nat n)" by (subst dec_nat.simps) simp
    ultimately show ?thesis by simp
  next
    case False
    with less.prems have "length (dec_nat (m div 10)) \<le> length (dec_nat (n div 10))"
      by (intro less.IH) (auto simp: div_le_mono)
    with False less.prems show ?thesis by (subst (1 2) dec_nat.simps) auto
  qed
qed

fun dec_value :: "string \<Rightarrow> nat" where
  "dec_value s = foldl (\<lambda>n c. n * 10 + (of_char c - 48)) 0 s"

lemma dec_value_dec_nat: "dec_value (dec_nat n) = n"
proof (induction n rule: dec_nat.induct)
  case (1 n)
  show ?case
  proof (cases "n < 10")
    case True
    then show ?thesis by (subst dec_nat.simps) simp
  next
    case False
    with 1 have "dec_value (dec_nat (n div 10)) = n div 10" by simp
    with False show ?thesis by (subst dec_nat.simps) simp
  qed
qed

lemma dec_nat_inj: "dec_nat m = dec_nat n \<longleftrightarrow> m = n"
  by (metis dec_value_dec_nat)

section \<open>Line breaks\<close>

abbreviation nl :: char where
  "nl \<equiv> CHR 0x0A"

abbreviation cr :: char where
  "cr \<equiv> CHR 0x0D"

end
