(* ===== verification/ModelText.thy ===== *)
theory ModelText
  imports JsText
begin

text \<open>
  The text the model reads that no user typed (\<open>core/src/turn/model-text.ts\<close>): host notes, frames
  around untrusted text and counted clip markers. A text is a \<open>char\<close> list with one \<open>char\<close> for each
  code unit; the few characters of the sources' literals that are not Latin-1 stand at their
  Windows-1252 position (the ellipsis at 0x85, the dash at 0x97). The lemmas show that a clip
  never exceeds its bound and that framed text cannot close or reopen its frame.
\<close>

section \<open>Notes and clips\<close>

definition ellipsis :: char where
  "ellipsis = CHR 0x85"

definition hostNote :: "string \<Rightarrow> string" where
  "hostNote text = ''[Host note: '' @ text @ '']''"

definition clippedMarker :: "int \<Rightarrow> string" where
  "clippedMarker dropped = ''['' @ [ellipsis] @ '' '' @ dec dropped @ '' characters clipped]''"

definition clipTo :: "string \<Rightarrow> int \<Rightarrow> string" where
  "clipTo text limit =
     (if int (length text) \<le> limit then text
      else let room = limit - int (length (clippedMarker (int (length text)))) - 1
           in if room \<le> 0 then take (nat limit) text
              else take (nat room) text @ [nl] @ clippedMarker (int (length text) - room))"

lemma length_clippedMarker_mono:
  "0 \<le> m \<Longrightarrow> m \<le> n \<Longrightarrow> length (clippedMarker m) \<le> length (clippedMarker n)"
  by (simp add: clippedMarker_def dec_def dec_nat_length_mono)

lemma clipTo_short: "int (length text) \<le> limit \<Longrightarrow> clipTo text limit = text"
  by (simp add: clipTo_def)

lemma clipTo_length_le: "int (length (clipTo text limit)) \<le> (if limit < 0 then 0 else limit)"
proof -
  define room where "room = limit - int (length (clippedMarker (int (length text)))) - 1"
  show ?thesis
  proof (cases "int (length text) \<le> limit")
    case True
    then show ?thesis by (simp add: clipTo_def)
  next
    case long: False
    show ?thesis
    proof (cases "room \<le> 0")
      case True
      with long show ?thesis by (simp add: clipTo_def Let_def room_def)
    next
      case False
      with long have pos: "0 < room" "room < int (length text)" by (auto simp: room_def)
      then have "length (clippedMarker (int (length text) - room)) \<le> length (clippedMarker (int (length text)))"
        by (intro length_clippedMarker_mono) auto
      with pos long show ?thesis
        unfolding clipTo_def Let_def room_def [symmetric] by (auto simp: room_def)
    qed
  qed
qed

section \<open>Frames\<close>

text \<open>
  The pattern \<open><\s*/?\s*tag(?![\w-])[^>]*>\<close> in any letter case, at the start of a text:
  what it matches and what follows. \<open>tag\<close> is a lowercase name, so nothing it matches after the
  spaces can also be a space or a slash and the match never backtracks.
\<close>

definition is_space :: "char \<Rightarrow> bool" where
  "is_space c \<longleftrightarrow> c \<in> {CHR 0x09, CHR 0x0A, CHR 0x0B, CHR 0x0C, CHR 0x0D, CHR '' '', CHR 0xA0}"

definition is_word :: "char \<Rightarrow> bool" where
  "is_word c \<longleftrightarrow> (let n = (of_char c :: nat) in
     48 \<le> n \<and> n \<le> 57 \<or> 65 \<le> n \<and> n \<le> 90 \<or> 97 \<le> n \<and> n \<le> 122 \<or> n = 95)"

definition lower_char :: "char \<Rightarrow> char" where
  "lower_char c = (let n = (of_char c :: nat) in if 65 \<le> n \<and> n \<le> 90 then char_of (n + 32) else c)"

definition skip_slash :: "string \<Rightarrow> string" where
  "skip_slash s = (case s of [] \<Rightarrow> [] | c # r \<Rightarrow> if c = CHR ''/'' then r else s)"

definition tag_start :: "string \<Rightarrow> string" where
  "tag_start r = dropWhile is_space (skip_slash (dropWhile is_space r))"

definition tag_here :: "string \<Rightarrow> string \<Rightarrow> bool" where
  "tag_here tag r \<longleftrightarrow> length tag \<le> length r \<and> map lower_char (take (length tag) r) = tag
     \<and> (case drop (length tag) r of [] \<Rightarrow> True | c # _ \<Rightarrow> \<not> is_word c \<and> c \<noteq> CHR ''-'')"

definition frameMatch :: "string \<Rightarrow> string \<Rightarrow> (string \<times> string) option" where
  "frameMatch tag s = (case s of
     [] \<Rightarrow> None
   | c # r \<Rightarrow>
      if c = CHR ''<'' \<and> tag_here tag (tag_start r) \<and> CHR ''>'' \<in> set (drop (length tag) (tag_start r))
      then (let after = tl (dropWhile (\<lambda>c. c \<noteq> CHR ''>'') (drop (length tag) (tag_start r)))
            in Some (take (length s - length after) s, after))
      else None)"

definition inert :: "string \<Rightarrow> string" where
  "inert found = map (\<lambda>c. if c = CHR ''-'' then CHR ''_'' else c) found"

lemma dropWhile_suffix: "\<exists>p. s = p @ dropWhile P s"
  by (metis takeWhile_dropWhile_id)

lemma skip_slash_suffix: "\<exists>p. s = p @ skip_slash s"
proof (cases s)
  case (Cons a l)
  show ?thesis
  proof (cases "a = CHR ''/''")
    case True
    with Cons show ?thesis by (intro exI [of _ "[a]"]) (simp add: skip_slash_def)
  next
    case False
    with Cons show ?thesis by (intro exI [of _ "[]"]) (simp add: skip_slash_def)
  qed
qed (simp add: skip_slash_def)

lemma tag_start_suffix: "\<exists>p. r = p @ tag_start r"
proof -
  obtain p1 where p1: "r = p1 @ dropWhile is_space r" using dropWhile_suffix by blast
  obtain p2 where p2: "dropWhile is_space r = p2 @ skip_slash (dropWhile is_space r)"
    using skip_slash_suffix by blast
  obtain p3 where "skip_slash (dropWhile is_space r) = p3 @ tag_start r"
    unfolding tag_start_def using dropWhile_suffix by blast
  with p1 p2 show ?thesis by (metis append.assoc)
qed

lemma tl_dropWhile_suffix: "\<exists>q. s = q @ tl (dropWhile P s)"
proof -
  obtain p where p: "s = p @ dropWhile P s" using dropWhile_suffix by blast
  show ?thesis
  proof (cases "dropWhile P s")
    case Nil
    show ?thesis unfolding Nil by (intro exI [of _ s]) simp
  next
    case (Cons y ys)
    with p have "s = (p @ [y]) @ tl (dropWhile P s)" by simp
    then show ?thesis by blast
  qed
qed

lemma frameMatch_split:
  assumes "frameMatch tag s = Some (found, rest)"
  shows "s = found @ rest" "found \<noteq> []"
proof -
  from assms obtain r where s: "s = CHR ''<'' # r"
    and rest: "rest = tl (dropWhile (\<lambda>c. c \<noteq> CHR ''>'') (drop (length tag) (tag_start r)))"
    and found: "found = take (length s - length rest) s"
    by (auto simp: frameMatch_def Let_def split: list.splits if_splits)
  obtain p where p: "r = p @ tag_start r" using tag_start_suffix by blast
  obtain q where q: "drop (length tag) (tag_start r) = q @ rest"
    unfolding rest using tl_dropWhile_suffix by blast
  have "tag_start r = take (length tag) (tag_start r) @ q @ rest"
    using q by (metis append_take_drop_id)
  with p have "r = p @ take (length tag) (tag_start r) @ q @ rest" by metis
  moreover define m where "m = CHR ''<'' # p @ take (length tag) (tag_start r) @ q"
  ultimately have split: "s = m @ rest" using s by simp
  have "found = m" unfolding found using split by simp
  with split show "s = found @ rest" "found \<noteq> []" by (simp_all add: m_def)
qed

lemma frameMatch_shorter: "frameMatch tag s = Some (found, rest) \<Longrightarrow> length rest < length s"
  using frameMatch_split [of tag s found rest] by (cases found) auto

function escapeFrame :: "string \<Rightarrow> string \<Rightarrow> string" where
  "escapeFrame tag s = (case s of
     [] \<Rightarrow> []
   | c # r \<Rightarrow> (case frameMatch tag s of
        Some (found, rest) \<Rightarrow> inert found @ escapeFrame tag rest
      | None \<Rightarrow> c # escapeFrame tag r))"
  by pat_completeness auto
termination
  by (relation "measure (\<lambda>(tag, s). length s)") (auto dest: frameMatch_shorter)

declare escapeFrame.simps [simp del]

definition framed :: "string \<Rightarrow> string \<Rightarrow> string" where
  "framed tag text =
     ''<'' @ tag @ ''>'' @ [nl] @ escapeFrame tag text @ [nl] @ ''</'' @ tag @ ''>''"

section \<open>No frame tag is left\<close>

definition frame_tag :: "string \<Rightarrow> bool" where
  "frame_tag tag \<longleftrightarrow> CHR ''-'' \<in> set tag \<and>
     list_all (\<lambda>c. c = CHR ''-'' \<or> (97 \<le> (of_char c :: nat) \<and> (of_char c :: nat) \<le> 122)) tag"

definition no_tag :: "string \<Rightarrow> string \<Rightarrow> bool" where
  "no_tag tag s \<longleftrightarrow> (\<forall>i. frameMatch tag (drop i s) = None)"

lemma no_tag_Nil [simp]: "no_tag tag []"
  by (simp add: no_tag_def frameMatch_def)

lemma no_tag_Cons: "no_tag tag (c # s) \<longleftrightarrow> frameMatch tag (c # s) = None \<and> no_tag tag s"
proof
  assume n: "no_tag tag (c # s)"
  have "frameMatch tag (drop 0 (c # s)) = None" "\<And>i. frameMatch tag (drop (Suc i) (c # s)) = None"
    using n unfolding no_tag_def by blast+
  then show "frameMatch tag (c # s) = None \<and> no_tag tag s" by (simp add: no_tag_def)
next
  assume a: "frameMatch tag (c # s) = None \<and> no_tag tag s"
  show "no_tag tag (c # s)" unfolding no_tag_def
  proof
    fix i
    show "frameMatch tag (drop i (c # s)) = None" using a by (cases i) (simp_all add: no_tag_def)
  qed
qed

lemma frame_tag_chars:
  assumes "frame_tag tag"
  shows "CHR ''-'' \<in> set tag" "CHR ''<'' \<notin> set tag" "CHR ''>'' \<notin> set tag"
proof -
  have all: "\<And>c. c \<in> set tag \<Longrightarrow> c = CHR ''-'' \<or> 97 \<le> (of_char c :: nat)"
    using assms unfolding frame_tag_def list_all_iff by blast
  show "CHR ''-'' \<in> set tag" using assms unfolding frame_tag_def by (rule conjunct1)
  show "CHR ''<'' \<notin> set tag" using all [of "CHR ''<''"] by auto
  show "CHR ''>'' \<notin> set tag" using all [of "CHR ''>''"] by auto
qed

lemma lower_char_fixed [simp]:
  "lower_char (CHR ''<'') = CHR ''<''" "lower_char (CHR ''>'') = CHR ''>''"
  "is_space (CHR ''<'') = False" "is_space (CHR ''>'') = False"
  "is_word (CHR ''<'') = False" "is_word (CHR ''>'') = False"
  by (simp_all add: lower_char_def is_space_def is_word_def)

lemma lower_char_dash: "lower_char c = CHR ''-'' \<longleftrightarrow> c = CHR ''-''"
proof
  assume l: "lower_char c = CHR ''-''"
  show "c = CHR ''-''"
  proof (cases "65 \<le> (of_char c :: nat) \<and> (of_char c :: nat) \<le> 90")
    case True
    with l have "char_of ((of_char c :: nat) + 32) = CHR ''-''" by (simp add: lower_char_def Let_def)
    then have "(of_char (char_of ((of_char c :: nat) + 32)) :: nat) = of_char (CHR ''-'')" by simp
    with True show ?thesis by simp
  next
    case False
    with l show ?thesis by (auto simp: lower_char_def Let_def split: if_splits)
  qed
qed (simp add: lower_char_def)

text \<open>What a scan sees of a text before a \<open><\<close>, and of one holding a \<open>>\<close>, does not depend on the rest.\<close>

lemma tag_start_append_lt:
  assumes "w = [] \<or> hd w = CHR ''<''"
  shows "tag_start (u @ w) = tag_start u @ w"
proof -
  have dw: "dropWhile is_space (v @ w) = dropWhile is_space v @ w" for v
    using assms by (cases w; induction v) auto
  have "skip_slash (v @ w) = skip_slash v @ w" for v
    using assms by (cases v; cases w) (auto simp: skip_slash_def)
  with dw show ?thesis by (simp add: tag_start_def)
qed

lemma tag_here_append_lt:
  assumes "frame_tag tag" "w = [] \<or> hd w = CHR ''<''"
  shows "tag_here tag (x @ w) \<longleftrightarrow> tag_here tag x"
proof (cases "length tag \<le> length x")
  case True
  with assms(2) show ?thesis
    by (cases w; cases "drop (length tag) x") (auto simp: tag_here_def)
next
  case False
  have "\<not> tag_here tag (x @ w)"
  proof
    assume h: "tag_here tag (x @ w)"
    with False have "w \<noteq> []" by (auto simp: tag_here_def)
    with assms(2) obtain w' where w: "w = CHR ''<'' # w'" by (cases w) auto
    from h have "map lower_char (take (length tag) (x @ w)) = tag" by (simp add: tag_here_def)
    moreover have "CHR ''<'' \<in> set (take (length tag) (x @ w))"
      using False w by (cases "length tag - length x") auto
    ultimately have "lower_char (CHR ''<'') \<in> set tag" by (metis image_eqI set_map)
    with frame_tag_chars(2) [OF assms(1)] show False by simp
  qed
  with False show ?thesis by (simp add: tag_here_def)
qed

lemma frameMatch_lt_None:
  assumes "frame_tag tag" "CHR ''<'' \<notin> set u" "w = [] \<or> hd w = CHR ''<''"
  shows "frameMatch tag (CHR ''<'' # u @ w) = None \<longleftrightarrow>
     \<not> (tag_here tag (tag_start u) \<and>
        (CHR ''>'' \<in> set (drop (length tag) (tag_start u)) \<or> CHR ''>'' \<in> set w))"
proof -
  have "tag_here tag (tag_start u) \<Longrightarrow> length tag \<le> length (tag_start u)"
    by (simp add: tag_here_def)
  then show ?thesis
    using assms by (auto simp: frameMatch_def Let_def tag_start_append_lt tag_here_append_lt)
qed

lemma skip_slash_append: "v \<noteq> [] \<Longrightarrow> skip_slash (v @ z) = skip_slash v @ z"
  by (cases v) (auto simp: skip_slash_def)

lemma tag_start_append_gt:
  assumes "CHR ''>'' \<in> set y"
  shows "tag_start (y @ z) = tag_start y @ z \<and> CHR ''>'' \<in> set (tag_start y)"
proof -
  have dw: "CHR ''>'' \<in> set v \<Longrightarrow> dropWhile is_space (v @ z) = dropWhile is_space v @ z
      \<and> CHR ''>'' \<in> set (dropWhile is_space v)" for v
    by (induction v) auto
  have sk: "CHR ''>'' \<in> set v \<Longrightarrow> skip_slash (v @ z) = skip_slash v @ z \<and> CHR ''>'' \<in> set (skip_slash v)" for v
    by (cases v) (auto simp: skip_slash_def)
  from assms dw sk show ?thesis by (metis tag_start_def)
qed

lemma tag_here_no_dash:
  assumes "frame_tag tag" "CHR ''>'' \<in> set x" "CHR ''-'' \<notin> set x"
  shows "\<not> tag_here tag (x @ z)"
proof
  assume h: "tag_here tag (x @ z)"
  then have m: "map lower_char (take (length tag) (x @ z)) = tag" by (simp add: tag_here_def)
  show False
  proof (cases "length tag \<le> length x")
    case True
    with m have "CHR ''-'' \<in> lower_char ` set (take (length tag) x)"
      using frame_tag_chars(1) [OF assms(1)] by (metis append_take_drop_id diff_is_0_eq set_map take0 take_append append_Nil2)
    then have "CHR ''-'' \<in> set (take (length tag) x)" by (auto simp: lower_char_dash dest: sym)
    with assms(3) show False by (meson in_set_takeD)
  next
    case False
    with assms(2) have "CHR ''>'' \<in> set (take (length tag) (x @ z))" by simp
    with m have "lower_char (CHR ''>'') \<in> set tag" by (metis image_eqI set_map)
    with frame_tag_chars(3) [OF assms(1)] show False by simp
  qed
qed

lemma tag_start_set: "set (tag_start y) \<subseteq> set y"
  using tag_start_suffix [of y] by (metis Un_upper2 set_append)

lemma frameMatch_inert_None:
  assumes "frame_tag tag" "CHR ''>'' \<in> set y" "CHR ''-'' \<notin> set y"
  shows "frameMatch tag (c # y @ z) = None"
  using assms tag_start_append_gt [OF assms(2), of z] tag_start_set [of y]
    tag_here_no_dash [OF assms(1), of "tag_start y" z]
  by (auto simp: frameMatch_def)

lemma no_tag_inert:
  assumes "frame_tag tag" "no_tag tag e" "CHR ''-'' \<notin> set f" "f = [] \<or> last f = CHR ''>''"
  shows "no_tag tag (f @ e)"
  using assms(3,4)
proof (induction f)
  case Nil
  then show ?case using assms(2) by simp
next
  case (Cons c f)
  then have IH: "no_tag tag (f @ e)" by (auto split: if_splits)
  show ?case
  proof (cases "f = []")
    case True
    with Cons.prems IH show ?thesis by (simp add: no_tag_Cons frameMatch_def)
  next
    case False
    with Cons.prems have "CHR ''>'' \<in> set f" "CHR ''-'' \<notin> set f" by (auto dest: last_in_set)
    with IH show ?thesis by (simp add: no_tag_Cons frameMatch_inert_None [OF assms(1)])
  qed
qed

section \<open>Escaping\<close>

lemma escapeFrame_Nil [simp]: "escapeFrame tag [] = []"
  by (subst escapeFrame.simps) simp

lemma escapeFrame_Cons:
  "escapeFrame tag (c # r) = (case frameMatch tag (c # r) of
     Some (found, rest) \<Rightarrow> inert found @ escapeFrame tag rest
   | None \<Rightarrow> c # escapeFrame tag r)"
  by (subst escapeFrame.simps) simp

lemma escapeFrame_prefix: "CHR ''<'' \<notin> set u \<Longrightarrow> escapeFrame tag (u @ v) = u @ escapeFrame tag v"
  by (induction u) (auto simp: escapeFrame_Cons frameMatch_def)

lemma frameMatch_found:
  assumes "frameMatch tag (c # r) = Some (found, rest)"
  shows "c = CHR ''<'' \<and> hd found = CHR ''<'' \<and> last found = CHR ''>''"
proof -
  note split = frameMatch_split [OF assms]
  from assms have c: "c = CHR ''<''"
    and rest: "rest = tl (dropWhile (\<lambda>c. c \<noteq> CHR ''>'') (drop (length tag) (tag_start r)))"
    and gt: "CHR ''>'' \<in> set (drop (length tag) (tag_start r))"
    by (auto simp: frameMatch_def Let_def split: if_splits)
  obtain ys where dw: "dropWhile (\<lambda>c. c \<noteq> CHR ''>'') (drop (length tag) (tag_start r)) = CHR ''>'' # ys"
    using gt by (cases "dropWhile (\<lambda>c. c \<noteq> CHR ''>'') (drop (length tag) (tag_start r))")
      (auto simp: dropWhile_eq_Cons_conv)
  with rest have "rest = ys" by simp
  moreover obtain p where "r = p @ tag_start r" using tag_start_suffix by blast
  moreover obtain q where "drop (length tag) (tag_start r) = q @ CHR ''>'' # ys"
    using dropWhile_suffix [of "drop (length tag) (tag_start r)" "\<lambda>c. c \<noteq> CHR ''>''"] dw by metis
  moreover have "tag_start r = take (length tag) (tag_start r) @ drop (length tag) (tag_start r)" by simp
  ultimately have "r = (p @ take (length tag) (tag_start r) @ q @ [CHR ''>'']) @ rest"
    by (metis append.assoc append_Cons append_Nil)
  with split have "found = c # p @ take (length tag) (tag_start r) @ q @ [CHR ''>'']"
    by (metis append_Cons append_same_eq)
  with c show ?thesis by simp
qed

lemma escapeFrame_gt: "CHR ''>'' \<in> set (escapeFrame tag s) \<longleftrightarrow> CHR ''>'' \<in> set s"
proof (induction "length s" arbitrary: s rule: less_induct)
  case less
  show ?case
  proof (cases s)
    case (Cons c r)
    show ?thesis
    proof (cases "frameMatch tag (c # r)")
      case None
      with less [of r] Cons show ?thesis by (simp add: escapeFrame_Cons)
    next
      case (Some fr)
      obtain found rest where fr: "fr = (found, rest)" by (cases fr)
      with Some have m: "frameMatch tag (c # r) = Some (found, rest)" by simp
      have "CHR ''>'' \<in> set found" using frameMatch_found [OF m] frameMatch_split [OF m] last_in_set by fastforce
      then have "CHR ''>'' \<in> set (inert found)" "CHR ''>'' \<in> set (c # r)"
        using frameMatch_split(1) [OF m] by (force simp: inert_def, metis Un_iff set_append)
      moreover have "escapeFrame tag s = inert found @ escapeFrame tag rest"
        using m Cons by (simp add: escapeFrame_Cons)
      ultimately show ?thesis using Cons by (simp only: set_append Un_iff simp_thms)
    qed
  qed simp
qed

lemma escapeFrame_head:
  "s = [] \<or> hd s = CHR ''<'' \<Longrightarrow> escapeFrame tag s = [] \<or> hd (escapeFrame tag s) = CHR ''<''"
proof (cases s)
  case (Cons c r)
  assume h: "s = [] \<or> hd s = CHR ''<''"
  show ?thesis
  proof (cases "frameMatch tag (c # r)")
    case None
    with Cons h show ?thesis by (simp add: escapeFrame_Cons)
  next
    case (Some fr)
    obtain found rest where fr: "fr = (found, rest)" by (cases fr)
    with Some have m: "frameMatch tag (c # r) = Some (found, rest)" by simp
    obtain f where "found = CHR ''<'' # f"
      using frameMatch_found [OF m] frameMatch_split(2) [OF m] by (cases found) auto
    with m Cons show ?thesis by (simp add: escapeFrame_Cons inert_def)
  qed
qed simp

lemma no_tag_escapeFrame: "frame_tag tag \<Longrightarrow> no_tag tag (escapeFrame tag s)"
proof (induction "length s" arbitrary: s rule: less_induct)
  case less
  show ?case
  proof (cases s)
    case (Cons c r)
    show ?thesis
    proof (cases "frameMatch tag (c # r)")
      case None
      define u where "u = takeWhile (\<lambda>c. c \<noteq> CHR ''<'') r"
      define w where "w = dropWhile (\<lambda>c. c \<noteq> CHR ''<'') r"
      have r: "r = u @ w" and u: "CHR ''<'' \<notin> set u" and w: "w = [] \<or> hd w = CHR ''<''"
        using hd_dropWhile [of "\<lambda>c. c \<noteq> CHR ''<''" r]
        unfolding u_def w_def by (auto dest: set_takeWhileD)
      have "frameMatch tag (c # escapeFrame tag r) = None"
      proof (cases "c = CHR ''<''")
        case True
        with None show ?thesis
          using frameMatch_lt_None [OF less.prems u w] r
            frameMatch_lt_None [OF less.prems u escapeFrame_head [OF w]]
          by (simp add: escapeFrame_prefix [OF u] escapeFrame_gt)
      qed (simp add: frameMatch_def)
      with less Cons None show ?thesis by (simp add: escapeFrame_Cons no_tag_Cons)
    next
      case (Some fr)
      obtain found rest where fr: "fr = (found, rest)" by (cases fr)
      with Some have m: "frameMatch tag (c # r) = Some (found, rest)" by simp
      have "CHR ''-'' \<notin> set (inert found)" by (auto simp: inert_def)
      moreover have "last (inert found) = CHR ''>''"
        using frameMatch_found [OF m] frameMatch_split(2) [OF m] by (simp add: inert_def last_map)
      ultimately show ?thesis
        using less(1) [of rest] less.prems frameMatch_shorter [OF m] Cons m
        by (auto simp: escapeFrame_Cons intro: no_tag_inert)
    qed
  qed simp
qed

section \<open>Properties\<close>

text \<open>
  Untrusted text cannot close or reopen the frame it is put in: for a tag that is a lowercase
  name with a hyphen, no position of the escaped text, in whatever case and spacing, starts an
  opening or closing tag of that name; the escaped text has the same length, and differs from the
  text only where a hyphen became an underscore.
\<close>
theorem framed_text_cannot_close_its_frame:
  assumes "frame_tag tag"
  shows "frameMatch tag (drop i (escapeFrame tag str)) = None
    \<and> list_all2 (\<lambda>c d. d = c \<or> c = CHR ''-'' \<and> d = CHR ''_'') str (escapeFrame tag str)"
proof
  show "frameMatch tag (drop i (escapeFrame tag str)) = None"
    using no_tag_escapeFrame [OF assms, of str] unfolding no_tag_def by blast
next
  have inert: "list_all2 (\<lambda>c d. d = c \<or> c = CHR ''-'' \<and> d = CHR ''_'') xs (inert xs)" for xs
    by (induction xs) (auto simp: inert_def)
  show "list_all2 (\<lambda>c d. d = c \<or> c = CHR ''-'' \<and> d = CHR ''_'') str (escapeFrame tag str)"
  proof (induction "length str" arbitrary: str rule: less_induct)
    case less
    show ?case
    proof (cases str)
      case (Cons c r)
      show ?thesis
      proof (cases "frameMatch tag (c # r)")
        case None
        with less Cons show ?thesis by (simp add: escapeFrame_Cons)
      next
        case (Some fr)
        obtain found rest where fr: "fr = (found, rest)" by (cases fr)
        with Some have m: "frameMatch tag (c # r) = Some (found, rest)" by simp
        have "str = found @ rest" using frameMatch_split(1) [OF m] Cons by simp
        moreover have "escapeFrame tag str = inert found @ escapeFrame tag rest"
          using m Cons by (simp add: escapeFrame_Cons)
        moreover have "length rest < length str" using frameMatch_shorter [OF m] Cons by simp
        ultimately show ?thesis using less [of rest] inert [of found]
          by (simp add: list_all2_appendI)
      qed
    qed simp
  qed
qed

theorem framed_text_cannot_close_its_frame_witness:
  "frameMatch ''a-b'' (drop 0 (escapeFrame ''a-b'' ''</A-b >x'')) = None"
  using framed_text_cannot_close_its_frame [of "''a-b''" 0 "''</A-b >x''"]
  by (simp add: frame_tag_def)

text \<open>
  A clip keeps its bound: the text \<open>clipTo\<close> gives is never longer than \<open>limit\<close> (empty for a
  negative one), is the text itself when it fits, and otherwise begins with a part of the text;
  where a marker follows, its count and the kept part add up to the whole text.
\<close>
theorem clip_keeps_its_bound:
  "int (length (clipTo text limit)) \<le> (if limit < 0 then 0 else limit)
   \<and> (\<exists>n. clipTo text limit = take n text
        \<or> n \<le> length text \<and> clipTo text limit = take n text @ [nl] @ clippedMarker (int (length text) - int n))"
proof
  show "int (length (clipTo text limit)) \<le> (if limit < 0 then 0 else limit)"
    by (rule clipTo_length_le)
  define room where "room = limit - int (length (clippedMarker (int (length text)))) - 1"
  consider "int (length text) \<le> limit" | "\<not> int (length text) \<le> limit" "room \<le> 0"
    | "\<not> int (length text) \<le> limit" "0 < room" by linarith
  then show "\<exists>n. clipTo text limit = take n text
        \<or> n \<le> length text \<and> clipTo text limit = take n text @ [nl] @ clippedMarker (int (length text) - int n)"
  proof cases
    case 1
    then show ?thesis by (intro exI [of _ "length text"]) (simp add: clipTo_def)
  next
    case 2
    then show ?thesis
      by (intro exI [of _ "nat limit"]) (simp add: clipTo_def Let_def room_def)
  next
    case 3
    then have "nat room \<le> length text" by (simp add: room_def)
    with 3 show ?thesis
      by (intro exI [of _ "nat room"]) (simp add: clipTo_def Let_def room_def)
  qed
qed

end
