(* ===== verification/Vocabulary.thy ===== *)
theory Vocabulary
  imports Prelude
begin

text \<open>
  The words turns and sessions are described in (\<open>core/src/domain/turn-vocabulary.entity.ts\<close>,
  \<open>core/src/session/sessions.entity.ts\<close>, \<open>core/src/session/session-log.entity.ts\<close>): who began a
  turn, how it came out and ended, what failed; JSON values as stored; and the failures the
  turn's own writes have. Effect's \<open>Cause\<close> and \<open>Exit\<close> are the data a finished effect
  leaves: a list of reasons, each a typed failure, a defect or an interruption.
\<close>

section \<open>JSON\<close>

datatype json =
    JNull
  | JBool bool
  | JNum int
  | JStr string
  | JArr "json list"
  | JObj "(string \<times> json) list"

section \<open>How turns come out\<close>

datatype turn_origin = OriginUser | OriginInbox | OriginTask

datatype outcome_kind = OutCompleted | OutPartial | OutFailed | OutWaiting

datatype end_reason = Completed | Partial | Failed | Waiting | Cancelled | Interrupted

fun reason_of_outcome :: "outcome_kind \<Rightarrow> end_reason" where
  "reason_of_outcome OutCompleted = Completed"
| "reason_of_outcome OutPartial = Partial"
| "reason_of_outcome OutFailed = Failed"
| "reason_of_outcome OutWaiting = Waiting"

lemma reason_of_outcome_inj [simp]: "reason_of_outcome a = reason_of_outcome b \<longleftrightarrow> a = b"
  by (cases a; cases b) simp_all

record turn_failure =
  failure_code :: string
  failure_message :: string

record turn_ending =
  ending_reason :: end_reason
  ending_failure :: "turn_failure option"

section \<open>What a turn's writes fail with\<close>

datatype closed_reason = ByCancelled | ByInterrupted | ByRemoved | ByTimedOut | ByEnded

datatype turn_error =
    HarnessError string string
  | TurnClosed closed_reason
  | ReservedKind string
  | SessionContended int
  | SessionLogError string string

fun is_turn_closed :: "turn_error \<Rightarrow> bool" where
  "is_turn_closed (TurnClosed r) = True"
| "is_turn_closed _ = False"

section \<open>Exits\<close>

datatype 'e cause_reason = FailReason 'e | DieReason string | InterruptReason

datatype ('a, 'e) exit = ExitSuccess 'a | ExitFailure "'e cause_reason list"

fun first_error :: "'e cause_reason list \<Rightarrow> 'e option" where
  "first_error [] = None"
| "first_error (FailReason e # rs) = Some e"
| "first_error (_ # rs) = first_error rs"

fun first_defect :: "'e cause_reason list \<Rightarrow> string option" where
  "first_defect [] = None"
| "first_defect (DieReason d # rs) = Some d"
| "first_defect (_ # rs) = first_defect rs"

definition cause_interrupts :: "'e cause_reason list \<Rightarrow> bool" where
  "cause_interrupts rs \<longleftrightarrow> list_ex (\<lambda>r. r = InterruptReason) rs"

fun exit_interrupts :: "('a, 'e) exit \<Rightarrow> bool" where
  "exit_interrupts (ExitSuccess x) = False"
| "exit_interrupts (ExitFailure rs) = cause_interrupts rs"

fun exit_error :: "('a, 'e) exit \<Rightarrow> 'e option" where
  "exit_error (ExitSuccess x) = None"
| "exit_error (ExitFailure rs) = first_error rs"

section \<open>Drafts\<close>

text \<open>A draft as the turn hands it to its writer: a kind and its JSON data.\<close>

record draft =
  draft_kind :: string
  draft_data :: json

end
