(* ===== verification/Messages.thy ===== *)
theory Messages
  imports ModelText Vocabulary
begin

text \<open>
  The conversation vocabulary (\<open>core/src/domain/message.entity.ts\<close>), images
  (\<open>core/src/domain/media.entity.ts\<close> and the label and slot functions of
  \<open>media.entity.functions.ts\<close>) and the user's message (\<open>core/src/turn/user-message.entity.ts\<close> and
  its functions). A value typed \<open>unknown\<close> in the sources is JSON.
\<close>

section \<open>Images\<close>

record media =
  media_mediaType :: string
  media_data :: string
  media_fingerprint :: string
  media_bytes :: int
  media_name :: "string option"
  media_alt :: "string option"

datatype path_key = KeyName string | KeyIndex int

record media_slot =
  slot_path :: "path_key list"
  slot_fingerprint :: string
  slot_mediaType :: string
  slot_bytes :: int

text \<open>
  \<open>Math.round(bytes / 1024)\<close> and \<open>toFixed(1)\<close> of the quotient by 1 MiB: both round to nearest,
  halves up, which on a non-negative dividend is the integer division below.
\<close>

definition sizeText :: "int \<Rightarrow> string" where
  "sizeText b =
     (if b < 1024 then dec b @ '' B''
      else if b < 1024 * 1024 then dec ((b + 512) div 1024) @ '' KB''
      else let tenths = (20 * b + 1024 * 1024) div (2 * 1024 * 1024)
           in dec (tenths div 10) @ ''.'' @ dec (tenths mod 10) @ '' MB'')"

definition labelText :: "string \<Rightarrow> int \<Rightarrow> string option \<Rightarrow> string option \<Rightarrow> string" where
  "labelText mediaType b name alt =
     ''[image omitted: '' @ join '', '' ([mediaType, sizeText b] @ (case name of None \<Rightarrow> [] | Some n \<Rightarrow> [n]))
       @ (case alt of None \<Rightarrow> '''' | Some a \<Rightarrow> '': '' @ a) @ '']''"

definition mediaLabel :: "media \<Rightarrow> string" where
  "mediaLabel m = labelText (media_mediaType m) (media_bytes m) (media_name m) (media_alt m)"

definition slotLabel :: "media_slot \<Rightarrow> string" where
  "slotLabel s = labelText (slot_mediaType s) (slot_bytes s) None None"

definition UNAVAILABLE_MEDIA_DATA :: string where
  "UNAVAILABLE_MEDIA_DATA = ''ZWZmZXJlbnQ6IHN0b3JlZCBtZWRpYSBieXRlcyBhcmUgdW5hdmFpbGFibGU=''"

definition mediaAvailable :: "media \<Rightarrow> bool" where
  "mediaAvailable m \<longleftrightarrow> media_data m \<noteq> UNAVAILABLE_MEDIA_DATA"

definition imageTypes :: "string list" where
  "imageTypes = [''image/png'', ''image/jpeg'', ''image/gif'', ''image/webp'']"

text \<open>\<open>isMediaValue\<close> narrows a JSON value to an image: \<open>mediaOfJson\<close> is the image it narrows to.\<close>

definition jsonStr :: "json option \<Rightarrow> string option" where
  "jsonStr j = (case j of Some (JStr s) \<Rightarrow> Some s | _ \<Rightarrow> None)"

definition jsonNum :: "json option \<Rightarrow> int option" where
  "jsonNum j = (case j of Some (JNum n) \<Rightarrow> Some n | _ \<Rightarrow> None)"

definition mediaOfFields ::
  "string option \<Rightarrow> string option \<Rightarrow> string option \<Rightarrow> string option \<Rightarrow> int option \<Rightarrow> string option \<Rightarrow> string option \<Rightarrow> media option" where
  "mediaOfFields ty mediaType data fingerprint bytes name alt =
     (case (ty, mediaType, data, fingerprint, bytes) of
        (Some ty', Some mt, Some da, Some fp, Some b) \<Rightarrow>
          (if ty' = ''media'' \<and> mt \<in> set imageTypes
           then Some \<lparr>media_mediaType = mt, media_data = da, media_fingerprint = fp, media_bytes = b,
                  media_name = name, media_alt = alt\<rparr>
           else None)
      | _ \<Rightarrow> None)"

fun mediaOfJson :: "json \<Rightarrow> media option" where
  "mediaOfJson (JObj fs) =
     mediaOfFields (jsonStr (map_of fs ''type'')) (jsonStr (map_of fs ''mediaType'')) (jsonStr (map_of fs ''data''))
       (jsonStr (map_of fs ''fingerprint'')) (jsonNum (map_of fs ''bytes''))
       (jsonStr (map_of fs ''name'')) (jsonStr (map_of fs ''alt''))"
| "mediaOfJson _ = None"

lemma mediaOfFields_Some:
  "mediaOfFields ty mt da fp b nm al = Some m \<longleftrightarrow>
     ty = Some ''media'' \<and> media_mediaType m \<in> set imageTypes \<and> mt = Some (media_mediaType m) \<and> da = Some (media_data m)
     \<and> fp = Some (media_fingerprint m) \<and> b = Some (media_bytes m) \<and> nm = media_name m \<and> al = media_alt m"
  by (cases m) (auto simp: mediaOfFields_def split: option.splits)

definition isMediaValue :: "json \<Rightarrow> bool" where
  "isMediaValue j \<longleftrightarrow> mediaOfJson j \<noteq> None"

text \<open>\<open>Option.fromNullishOr\<close> of a member: JSON null and a missing member are none.\<close>

fun stepInto :: "json \<Rightarrow> path_key \<Rightarrow> json option" where
  "stepInto (JArr xs) (KeyIndex i) =
     (if 0 \<le> i \<and> i < int (length xs) then opt_filter (\<lambda>j. j \<noteq> JNull) (Some (xs ! nat i)) else None)"
| "stepInto (JObj fs) (KeyName k) = opt_filter (\<lambda>j. j \<noteq> JNull) (map_of fs k)"
| "stepInto _ _ = None"

definition mediaAt :: "json \<Rightarrow> media_slot \<Rightarrow> media option" where
  "mediaAt value slot =
     opt_filter (\<lambda>m. media_fingerprint m = slot_fingerprint slot \<and> media_mediaType m = slot_mediaType slot
         \<and> media_bytes m = slot_bytes slot)
       (Option.bind (foldl (\<lambda>at key. Option.bind at (\<lambda>j. stepInto j key)) (Some value) (slot_path slot)) mediaOfJson)"

section \<open>Messages\<close>

record tool_call_part =
  call_id :: string
  call_tool :: string
  call_input :: json
  call_providerExecuted :: "bool option"
  call_options :: "json option"

record tool_result_part =
  result_id :: string
  result_tool :: string
  result_output :: json
  result_isError :: "bool option"
  result_providerExecuted :: "bool option"
  result_media :: "media list option"
  result_options :: "json option"

datatype user_part = UText string "json option" | UMedia media

datatype user_content = ContentText string | ContentParts "user_part list"

datatype assistant_part =
    PText string "json option"
  | PReasoning string "json option"
  | PCall tool_call_part
  | PResult tool_result_part

datatype agent_message =
    UserMsg user_content "json option"
  | AssistantMsg "assistant_part list" "json option"
  | ToolMsg "tool_result_part list" "json option"

fun isToolMsg :: "agent_message \<Rightarrow> bool" where
  "isToolMsg (ToolMsg rs opts) = True"
| "isToolMsg _ = False"

section \<open>The user's message\<close>

record user_message =
  um_text :: string
  um_attachments :: "media list option"

definition attachmentsOf :: "user_message \<Rightarrow> media list" where
  "attachmentsOf m = (case um_attachments m of None \<Rightarrow> [] | Some ms \<Rightarrow> ms)"

definition userMessageText :: "user_message \<Rightarrow> string" where
  "userMessageText m =
     join [nl] (filter (\<lambda>l. length l > 0) (um_text m # map mediaLabel (attachmentsOf m)))"

definition userRoleMessageOf :: "user_message \<Rightarrow> agent_message" where
  "userRoleMessageOf m =
     (let images = attachmentsOf m in
      UserMsg (if images = [] then ContentText (um_text m)
               else ContentParts (map UMedia images @ (if um_text m = [] then [] else [UText (um_text m) None]))) None)"

definition maxAttachments :: nat where
  "maxAttachments = 8"

text \<open>
  \<open>Schema.decodeUnknownOption(UserMessage)\<close>: the attachments, when given, are 1 to
  \<open>MEDIA_LIMITS.attachments\<close>, and a message needs a text or an attachment.
\<close>

definition decodeUserMessage :: "string \<Rightarrow> media list option \<Rightarrow> user_message option" where
  "decodeUserMessage text atts =
     (if (case atts of None \<Rightarrow> length text > 0 | Some ms \<Rightarrow> 1 \<le> length ms \<and> length ms \<le> maxAttachments)
      then Some \<lparr>um_text = text, um_attachments = atts\<rparr> else None)"

definition partTexts :: "user_part list \<Rightarrow> string list" where
  "partTexts ps = concat (map (\<lambda>p. case p of UText t opts \<Rightarrow> [t] | UMedia m \<Rightarrow> []) ps)"

definition partImages :: "user_part list \<Rightarrow> media list" where
  "partImages ps = concat (map (\<lambda>p. case p of UText t opts \<Rightarrow> [] | UMedia m \<Rightarrow> [m]) ps)"

definition contentParts :: "user_content \<Rightarrow> user_part list" where
  "contentParts c = (case c of ContentText t \<Rightarrow> [UText t None] | ContentParts ps \<Rightarrow> ps)"

definition userMessageOf :: "user_content \<Rightarrow> user_message option" where
  "userMessageOf c =
     (let parts = contentParts c; images = partImages parts
      in decodeUserMessage (concat (partTexts parts)) (if images = [] then None else Some images))"

text \<open>Structural round trip: a message the schema admits is recovered from its raw parts.\<close>

definition wfUserMessage :: "user_message \<Rightarrow> bool" where
  "wfUserMessage m \<longleftrightarrow> (case um_attachments m of None \<Rightarrow> um_text m \<noteq> []
      | Some ms \<Rightarrow> 1 \<le> length ms \<and> length ms \<le> maxAttachments)"

lemma partTexts_simps [simp]:
  "partTexts [] = []" "partTexts (UText t opts # ps) = t # partTexts ps" "partTexts (UMedia m # ps) = partTexts ps"
  "partTexts (ps @ qs) = partTexts ps @ partTexts qs" "partTexts (map UMedia ms) = []"
  by (simp_all add: partTexts_def)

lemma partImages_simps [simp]:
  "partImages [] = []" "partImages (UText t opts # ps) = partImages ps" "partImages (UMedia m # ps) = m # partImages ps"
  "partImages (ps @ qs) = partImages ps @ partImages qs" "partImages (map UMedia ms) = ms"
proof -
  show "partImages (map UMedia ms) = ms" by (induction ms) (auto simp: partImages_def)
qed (simp_all add: partImages_def)

text \<open>
  A user's message survives its raw form: a message with a text or with one to eight images is
  recovered exactly, text and images in order, from the role message the turn stores for it.
\<close>
theorem user_message_roundtrip:
  assumes "wfUserMessage m" and "userRoleMessageOf m = UserMsg c opts"
  shows "userMessageOf c = Some m"
proof -
  have "c = (if attachmentsOf m = [] then ContentText (um_text m)
               else ContentParts (map UMedia (attachmentsOf m) @ (if um_text m = [] then [] else [UText (um_text m) None])))"
    using assms(2) by (simp add: userRoleMessageOf_def Let_def)
  with assms(1) show ?thesis
    by (cases "um_attachments m")
      (auto simp: userMessageOf_def contentParts_def decodeUserMessage_def wfUserMessage_def
        attachmentsOf_def Let_def)
qed

theorem user_message_roundtrip_witness:
  "userMessageOf (ContentText ''hi'') = Some \<lparr>um_text = ''hi'', um_attachments = None\<rparr>"
  using user_message_roundtrip [of "\<lparr>um_text = ''hi'', um_attachments = None\<rparr>" "ContentText ''hi''" None]
  by (simp add: wfUserMessage_def userRoleMessageOf_def attachmentsOf_def)

end
