(* ===== verification/Media.thy ===== *)
theory Media
  imports Messages "HOL-Library.Word" "HOL-Library.AList" "HOL-Library.Char_ord" "HOL-Library.List_Lexorder"
begin

unbundle bit_operations_syntax

text \<open>
  Images (\<open>core/src/domain/media.entity.functions.ts\<close>): their type and size read from the bytes,
  their fingerprint, the checks an image passes before it is stored, the images a tool result
  sends and the JSON of an image with its base64 left out; and the user message checked from its
  own images (\<open>core/src/turn/user-message.entity.functions.ts\<close>).

  Bytes are \<open>8 word\<close>s; the numbers read from them are integers, joined with the bit operations
  the code uses. The fingerprint's lanes are \<open>32 word\<close>s, as a \<open>Uint32Array\<close> truncates.
  Base64 is \<open>effect/encoding\<close>'s: \<open>encode\<close> and \<open>decode\<close> are parameters.
\<close>

section \<open>Limits\<close>

definition imageBytesLimit :: nat where "imageBytesLimit = 3932160"
definition maxPixels :: int where "maxPixels = 8000"
definition requestImages :: int where "requestImages = 8"
definition requestChars :: int where "requestChars = 20000000"
definition toolResultImages :: nat where "toolResultImages = 4"

definition IMAGE_TOKEN_ESTIMATE :: int where "IMAGE_TOKEN_ESTIMATE = 1600"

text \<open>\<open>Math.ceil(bytes / 3) * 4\<close>.\<close>

definition base64Length :: "nat \<Rightarrow> nat" where
  "base64Length b = (b + 2) div 3 * 4"

section \<open>Reading bytes\<close>

type_synonym bytes = "8 word list"

record image_size =
  size_width :: int
  size_height :: int

definition byteAt :: "bytes \<Rightarrow> nat \<Rightarrow> int" where
  "byteAt bs i = (if i < length bs then uint (bs ! i) else 0)"

definition u16be :: "bytes \<Rightarrow> nat \<Rightarrow> int" where
  "u16be bs i = push_bit 8 (byteAt bs i) OR byteAt bs (i + 1)"

definition u16le :: "bytes \<Rightarrow> nat \<Rightarrow> int" where
  "u16le bs i = byteAt bs i OR push_bit 8 (byteAt bs (i + 1))"

definition u24le :: "bytes \<Rightarrow> nat \<Rightarrow> int" where
  "u24le bs i = byteAt bs i OR push_bit 8 (byteAt bs (i + 1)) OR push_bit 16 (byteAt bs (i + 2))"

definition u32be :: "bytes \<Rightarrow> nat \<Rightarrow> int" where
  "u32be bs i = byteAt bs i * 0x1000000 +
     (push_bit 16 (byteAt bs (i + 1)) OR push_bit 8 (byteAt bs (i + 2)) OR byteAt bs (i + 3))"

definition ascii :: "string \<Rightarrow> int list" where
  "ascii s = map (\<lambda>c. of_char c) s"

definition startsWith :: "bytes \<Rightarrow> nat \<Rightarrow> int list \<Rightarrow> bool" where
  "startsWith bs offset sig \<longleftrightarrow>
     length bs \<ge> offset + length sig \<and> list_all (\<lambda>(i, b). byteAt bs (offset + i) = b) (List.enumerate 0 sig)"

definition PNG :: "int list" where "PNG = [0x89, 0x50, 0x4e, 0x47, 0x0d, 0x0a, 0x1a, 0x0a]"
definition JPEG :: "int list" where "JPEG = [0xff, 0xd8, 0xff]"

definition sniffImageType :: "bytes \<Rightarrow> string option" where
  "sniffImageType bs =
     (if startsWith bs 0 PNG then Some ''image/png''
      else if startsWith bs 0 JPEG then Some ''image/jpeg''
      else if startsWith bs 0 (ascii ''GIF87a'') \<or> startsWith bs 0 (ascii ''GIF89a'') then Some ''image/gif''
      else if startsWith bs 0 (ascii ''RIFF'') \<and> startsWith bs 8 (ascii ''WEBP'') then Some ''image/webp''
      else None)"

definition sized :: "int \<Rightarrow> int \<Rightarrow> image_size option" where
  "sized w h = (if w > 0 \<and> h > 0 then Some \<lparr>size_width = w, size_height = h\<rparr> else None)"

definition JPEG_FRAMES :: "int list" where
  "JPEG_FRAMES = [0xc0, 0xc1, 0xc2, 0xc3, 0xc5, 0xc6, 0xc7, 0xc9, 0xca, 0xcb, 0xcd, 0xce, 0xcf]"

definition JPEG_MAX_SEGMENTS :: nat where "JPEG_MAX_SEGMENTS = 4096"

function jpegSize :: "bytes \<Rightarrow> nat \<Rightarrow> nat \<Rightarrow> image_size option" where
  "jpegSize bs offset segments =
     (if segments > JPEG_MAX_SEGMENTS \<or> offset + 4 > length bs \<or> byteAt bs offset \<noteq> 0xff then None
      else let marker = byteAt bs (offset + 1) in
        if marker = 0xff then jpegSize bs (offset + 1) (segments + 1)
        else if marker = 0xd8 \<or> marker = 0x01 \<or> (marker \<ge> 0xd0 \<and> marker \<le> 0xd7)
          then jpegSize bs (offset + 2) (segments + 1)
        else if marker \<in> set JPEG_FRAMES
          then (if offset + 9 \<le> length bs then sized (u16be bs (offset + 7)) (u16be bs (offset + 5)) else None)
        else let len = u16be bs (offset + 2) in
          if marker = 0xd9 \<or> marker = 0xda \<or> len < 2 then None
          else jpegSize bs (offset + 2 + nat len) (segments + 1))"
  by pat_completeness auto
termination
  by (relation "measure (\<lambda>(bs, offset, segments). Suc JPEG_MAX_SEGMENTS - segments)") auto

declare jpegSize.simps [simp del]

definition webpSize :: "bytes \<Rightarrow> image_size option" where
  "webpSize bs =
     (if length bs < 30 then None
      else if startsWith bs 12 (ascii ''VP8 '')
        then (if startsWith bs 23 [0x9d, 0x01, 0x2a]
              then sized (u16le bs 26 AND 0x3fff) (u16le bs 28 AND 0x3fff) else None)
      else if startsWith bs 12 (ascii ''VP8L'')
        then (let b0 = byteAt bs 21; b1 = byteAt bs 22; b2 = byteAt bs 23; b3 = byteAt bs 24 in
          if byteAt bs 20 = 0x2f
          then sized (1 + (push_bit 8 (b1 AND 0x3f) OR b0))
                 (1 + (push_bit 10 (b3 AND 0x0f) OR push_bit 2 b2 OR drop_bit 6 (b1 AND 0xc0)))
          else None)
      else if startsWith bs 12 (ascii ''VP8X'') then sized (1 + u24le bs 24) (1 + u24le bs 27) else None)"

definition imageSizeOf :: "bytes \<Rightarrow> string \<Rightarrow> image_size option" where
  "imageSizeOf bs mediaType =
     (if mediaType = ''image/png''
        then (if length bs \<ge> 24 \<and> startsWith bs 12 (ascii ''IHDR'') then sized (u32be bs 16) (u32be bs 20) else None)
      else if mediaType = ''image/gif''
        then (if length bs \<ge> 10 then sized (u16le bs 6) (u16le bs 8) else None)
      else if mediaType = ''image/webp'' then webpSize bs
      else jpegSize bs 2 0)"

section \<open>Fingerprints\<close>

definition hex_digit :: "nat \<Rightarrow> char" where
  "hex_digit d = (if d < 10 then char_of (48 + d) else char_of (87 + d))"

text \<open>\<open>toString(16)\<close>.\<close>

fun hex :: "nat \<Rightarrow> string" where
  "hex n = (if n < 16 then [hex_digit n] else hex (n div 16) @ [hex_digit (n mod 16)])"

declare hex.simps [simp del]

definition padStart :: "nat \<Rightarrow> char \<Rightarrow> string \<Rightarrow> string" where
  "padStart n c s = replicate (n - length s) c @ s"

definition hex8 :: "32 word \<Rightarrow> string" where
  "hex8 w = padStart 8 CHR ''0'' (hex (unat w))"

definition laneStep :: "32 word \<times> 32 word \<Rightarrow> 8 word \<Rightarrow> 32 word \<times> 32 word" where
  "laneStep lanes b =
     (let product = (snd lanes XOR ucast b) * 0x5bd1e995
      in ((fst lanes XOR ucast b) * 0x01000193, product XOR drop_bit 15 product))"

definition mediaFingerprintOf :: "bytes \<Rightarrow> string" where
  "mediaFingerprintOf bs =
     (let lanes = foldl laneStep (0x811c9dc5, 0x9747b28c) bs
      in hex8 (fst lanes) @ hex8 (snd lanes) @ hex (length bs))"

section \<open>Checked images\<close>

datatype rejected_reason = Empty | InvalidBase64 | UnsupportedType | TooLarge | TooManyPixels | Unreadable | TooMany | TooLargeTogether

record attachment_rejected =
  rejected_reason :: rejected_reason
  rejected_index :: "nat option"
  rejected_message :: string

definition rejected :: "rejected_reason \<Rightarrow> string \<Rightarrow> attachment_rejected" where
  "rejected r m = \<lparr>rejected_reason = r, rejected_index = None, rejected_message = m\<rparr>"

text \<open>A description is the pair of the optional name and alt.\<close>

type_synonym media_description = "string option \<times> string option"

definition mediaFromBytes :: "(bytes \<Rightarrow> string) \<Rightarrow> bytes \<Rightarrow> media_description \<Rightarrow> attachment_rejected + media" where
  "mediaFromBytes encode bs desc =
     (if length bs = 0 then Inl (rejected Empty ''the image has no bytes'')
      else if length bs > imageBytesLimit
        then Inl (rejected TooLarge (''the image has '' @ dec_nat (length bs) @ '' bytes, more than '' @ dec_nat imageBytesLimit))
      else case sniffImageType bs of
        None \<Rightarrow> Inl (rejected UnsupportedType ''the bytes are not a PNG, JPEG, GIF or WebP image'')
      | Some mediaType \<Rightarrow>
          (case imageSizeOf bs mediaType of
             None \<Rightarrow> Inl (rejected Unreadable (''the '' @ mediaType @ '' header does not give the image's size''))
           | Some dims \<Rightarrow>
               if size_width dims > maxPixels \<or> size_height dims > maxPixels
               then Inl (rejected TooManyPixels (''the image is '' @ dec (size_width dims) @ ''x'' @ dec (size_height dims)
                      @ '' pixels, more than '' @ dec maxPixels @ '' a side''))
               else Inr \<lparr>media_mediaType = mediaType, media_data = encode bs, media_fingerprint = mediaFingerprintOf bs,
                      media_bytes = int (length bs), media_name = fst desc, media_alt = snd desc\<rparr>))"

text \<open>
  \<open>replace(/^data:[^,]*;base64,/i, "")\<close>: what \<open>[^,]*\<close> takes ends at the first comma, so the
  prefix matches exactly when the text between \<open>data:\<close> and that comma ends with \<open>;base64\<close>.
\<close>

definition strip_data_url :: "string \<Rightarrow> string" where
  "strip_data_url s =
     (if map lower_char (take 5 s) = ''data:''
      then (case index_of '','' (drop 5 s) of
              Some j \<Rightarrow> if ends_with '';base64'' (map lower_char (take j (drop 5 s))) then drop (5 + Suc j) s else s
            | None \<Rightarrow> s)
      else s)"

definition stripped :: "string \<Rightarrow> string" where
  "stripped data = filter (\<lambda>c. \<not> is_space c) (strip_data_url data)"

definition mediaFromBase64 ::
  "(bytes \<Rightarrow> string) \<Rightarrow> (string \<Rightarrow> bytes option) \<Rightarrow> string \<Rightarrow> media_description \<Rightarrow> attachment_rejected + media" where
  "mediaFromBase64 encode decode data desc =
     (let s = stripped data in
      if length s = 0 then Inl (rejected Empty ''the image has no data'')
      else if length s > base64Length imageBytesLimit
        then Inl (rejected TooLarge (''the image's base64 has '' @ dec_nat (length s) @ '' characters, more than ''
               @ dec_nat (base64Length imageBytesLimit)))
      else case decode s of
        None \<Rightarrow> Inl (rejected InvalidBase64 ''the image's data is not base64'')
      | Some bs \<Rightarrow> mediaFromBytes encode bs desc)"

definition normalizeMedia :: "(bytes \<Rightarrow> string) \<Rightarrow> (string \<Rightarrow> bytes option) \<Rightarrow> media \<Rightarrow> attachment_rejected + media" where
  "normalizeMedia encode decode m = mediaFromBase64 encode decode (media_data m) (media_name m, media_alt m)"

section \<open>Images in JSON values\<close>

definition slotOf :: "path_key list \<Rightarrow> media \<Rightarrow> media_slot" where
  "slotOf path m = \<lparr>slot_path = path, slot_fingerprint = media_fingerprint m, slot_mediaType = media_mediaType m,
     slot_bytes = media_bytes m\<rparr>"

text \<open>Members are visited in key order, list items by index; an image's own members are not searched.\<close>

fun slotsAt :: "json \<Rightarrow> path_key list \<Rightarrow> media_slot list"
  and slotsAtItems :: "json list \<Rightarrow> nat \<Rightarrow> path_key list \<Rightarrow> media_slot list"
  and slotsAtMembers :: "(string \<times> json) list \<Rightarrow> path_key list \<Rightarrow> (string \<times> media_slot list) list" where
  "slotsAt value path =
     (case mediaOfJson value of
        Some m \<Rightarrow> [slotOf path m]
      | None \<Rightarrow>
          (case value of
             JArr xs \<Rightarrow> slotsAtItems xs 0 path
           | JObj fs \<Rightarrow> concat (map snd (sort_key fst (slotsAtMembers fs path)))
           | _ \<Rightarrow> []))"
| "slotsAtItems [] i path = []"
| "slotsAtItems (x # xs) i path = slotsAt x (path @ [KeyIndex (int i)]) @ slotsAtItems xs (Suc i) path"
| "slotsAtMembers [] path = []"
| "slotsAtMembers ((k, v) # fs) path = (k, slotsAt v (path @ [KeyName k])) # slotsAtMembers fs path"

declare slotsAt.simps [simp del]

lemma slotsAt_arr [simp]: "slotsAt (JArr xs) path = slotsAtItems xs 0 path"
  by (simp add: slotsAt.simps)

lemma slotsAt_atom [simp]:
  "slotsAt JNull path = []" "slotsAt (JBool b) path = []" "slotsAt (JNum n) path = []" "slotsAt (JStr t) path = []"
  by (simp_all add: slotsAt.simps)

definition mediaSlotsOf :: "json \<Rightarrow> media_slot list" where
  "mediaSlotsOf value = slotsAt value []"

fun elideMediaData :: "json \<Rightarrow> json" where
  "elideMediaData (JArr xs) = JArr (map elideMediaData xs)"
| "elideMediaData (JObj fs) =
     (case mediaOfJson (JObj fs) of
        Some m \<Rightarrow> JObj (AList.update ''data'' (JStr (media_fingerprint m)) fs)
      | None \<Rightarrow> JObj (map (\<lambda>(k, v). (k, elideMediaData v)) fs))"
| "elideMediaData v = v"

section \<open>A tool result's images\<close>

record media_tally =
  tally_slots :: "media_slot list"
  tally_labels :: "string list"
  tally_fingerprints :: "string list"
  tally_chars :: int

definition unavailable :: "string \<Rightarrow> string" where
  "unavailable reason = ''[image unavailable: '' @ reason @ '']''"

definition noTally :: media_tally where
  "noTally = \<lparr>tally_slots = [], tally_labels = [], tally_fingerprints = [], tally_chars = 0\<rparr>"

definition addLabel :: "string \<Rightarrow> media_tally \<Rightarrow> media_tally" where
  "addLabel l t = t\<lparr>tally_labels := tally_labels t @ [l]\<rparr>"

definition tallySlot ::
  "(bytes \<Rightarrow> string) \<Rightarrow> (string \<Rightarrow> bytes option) \<Rightarrow> json \<Rightarrow> media_tally \<Rightarrow> media_slot \<Rightarrow> media_tally" where
  "tallySlot encode decode encoded t slot =
     (case mediaAt encoded slot of
        None \<Rightarrow> addLabel (unavailable ''the result holds no such image'') t
      | Some m \<Rightarrow>
          if media_fingerprint m \<in> set (tally_fingerprints t) then t
          else (case normalizeMedia encode decode m of
              Inl error \<Rightarrow> addLabel (unavailable (rejected_message error)) t
            | Inr checked \<Rightarrow>
                if media_data checked \<noteq> media_data m \<or> media_fingerprint checked \<noteq> media_fingerprint m
                   \<or> media_mediaType checked \<noteq> media_mediaType m \<or> media_bytes checked \<noteq> media_bytes m
                then addLabel (unavailable ''its type, size or fingerprint is not what its data gives; build it with mediaFromBytes'') t
                else let t1 = t\<lparr>tally_fingerprints := tally_fingerprints t @ [media_fingerprint m]\<rparr> in
                  if length (tally_slots t) \<ge> toolResultImages
                     \<or> tally_chars t + int (length (media_data m)) > requestChars
                  then addLabel (mediaLabel m) t1
                  else t1\<lparr>tally_slots := tally_slots t @ [slot],
                          tally_chars := tally_chars t + int (length (media_data m))\<rparr>))"

definition toolResultMedia ::
  "(bytes \<Rightarrow> string) \<Rightarrow> (string \<Rightarrow> bytes option) \<Rightarrow> json \<Rightarrow> media_slot list \<Rightarrow> media_slot list \<times> string list" where
  "toolResultMedia encode decode encoded slots =
     (let t = foldl (tallySlot encode decode encoded) noTally slots in (tally_slots t, tally_labels t))"

section \<open>User messages checked from their images\<close>

definition sameMedia :: "media \<Rightarrow> media \<Rightarrow> bool" where
  "sameMedia l r \<longleftrightarrow> media_fingerprint l = media_fingerprint r \<and> media_mediaType l = media_mediaType r
     \<and> media_bytes l = media_bytes r \<and> media_name l = media_name r \<and> media_alt l = media_alt r"

definition sameUserMessage :: "user_message \<Rightarrow> user_message \<Rightarrow> bool" where
  "sameUserMessage l r \<longleftrightarrow> um_text l = um_text r \<and> length (attachmentsOf l) = length (attachmentsOf r)
     \<and> list_all (\<lambda>(a, b). sameMedia a b) (zip (attachmentsOf l) (attachmentsOf r))"

definition charsTogether :: "media list \<Rightarrow> int" where
  "charsTogether ms = foldl (\<lambda>sum m. sum + int (length (media_data m))) 0 ms"

definition normalizeUserMessage ::
  "(bytes \<Rightarrow> string) \<Rightarrow> (string \<Rightarrow> bytes option) \<Rightarrow> user_message \<Rightarrow> attachment_rejected + user_message" where
  "normalizeUserMessage encode decode message =
     (let attachments = attachmentsOf message in
      if attachments = [] then Inr message
      else if length attachments > maxAttachments
        then Inl (rejected TooMany (dec_nat (length attachments) @ '' attachments, more than '' @ dec_nat maxAttachments))
      else and_then
        (each_r (\<lambda>(i, m). (case normalizeMedia encode decode m of
              Inl e \<Rightarrow> Inl \<lparr>rejected_reason = rejected_reason e, rejected_index = Some i,
                 rejected_message = ''attachment '' @ dec_nat i @ '': '' @ rejected_message e\<rparr>
            | Inr c \<Rightarrow> Inr c)) (List.enumerate 0 attachments))
        (\<lambda>normalized. let chars = charsTogether normalized in
           if chars > requestChars
           then Inl (rejected TooLargeTogether (''the attachments take '' @ dec chars @ '' base64 characters together, more than '' @ dec requestChars))
           else Inr \<lparr>um_text = um_text message, um_attachments = Some normalized\<rparr>))"

section \<open>Lemmas\<close>

lemma base64Length_mono: "m \<le> n \<Longrightarrow> base64Length m \<le> base64Length n"
  by (simp add: base64Length_def div_le_mono)

lemma index_of_absent: "c \<notin> set s \<Longrightarrow> index_of [c] s = None"
proof -
  assume "c \<notin> set s"
  then have "\<forall>k \<le> length s. \<not> starts_with [c] (drop k s)"
  proof (intro allI impI notI)
    fix k assume "starts_with [c] (drop k s)"
    then obtain r where "drop k s = c # r" by (auto simp: starts_with_iff)
    then have "c \<in> set (drop k s)" by simp
    with \<open>c \<notin> set s\<close> show False by (auto dest: in_set_dropD)
  qed
  then show ?thesis by (simp add: index_of_def index_of_from_None)
qed

lemma stripped_plain:
  assumes "\<And>c. c \<in> set s \<Longrightarrow> \<not> is_space c \<and> c \<noteq> CHR '',''"
  shows "stripped s = s"
proof -
  have "CHR '','' \<notin> set (drop 5 s)" using assms by (auto dest: in_set_dropD)
  then have "strip_data_url s = s" by (simp add: strip_data_url_def index_of_absent)
  moreover have "filter (\<lambda>c. \<not> is_space c) s = s" using assms by (simp add: filter_id_conv)
  ultimately show ?thesis by (simp add: stripped_def)
qed

lemma mediaFromBytes_Inr:
  "mediaFromBytes encode bs desc = Inr m \<longleftrightarrow>
     bs \<noteq> [] \<and> length bs \<le> imageBytesLimit \<and>
     (\<exists>mt dims. sniffImageType bs = Some mt \<and> imageSizeOf bs mt = Some dims
        \<and> size_width dims \<le> maxPixels \<and> size_height dims \<le> maxPixels
        \<and> m = \<lparr>media_mediaType = mt, media_data = encode bs, media_fingerprint = mediaFingerprintOf bs,
                media_bytes = int (length bs), media_name = fst desc, media_alt = snd desc\<rparr>)"
  (is "?l \<longleftrightarrow> ?r")
proof (cases "bs = [] \<or> imageBytesLimit < length bs")
  case True
  then show ?thesis by (auto simp: mediaFromBytes_def)
next
  case False
  show ?thesis
  proof (cases "sniffImageType bs")
    case None
    with False show ?thesis by (simp add: mediaFromBytes_def)
  next
    case mt: (Some mt)
    show ?thesis
    proof (cases "imageSizeOf bs mt")
      case None
      with False mt show ?thesis by (simp add: mediaFromBytes_def)
    next
      case (Some dims)
      with False mt show ?thesis by (auto simp add: mediaFromBytes_def not_less)
    qed
  qed
qed

lemma elide_not_text: "elideMediaData (JObj fs) \<noteq> JStr s" "elideMediaData (JObj fs) \<noteq> JNum n"
  by (simp_all split: option.split)

lemma jsonStr_elide [simp]: "jsonStr (map_option elideMediaData j) = jsonStr j"
proof (cases j)
  case (Some v)
  then show ?thesis using elide_not_text by (cases v) (auto simp: jsonStr_def split: json.split)
qed simp

lemma jsonNum_elide [simp]: "jsonNum (map_option elideMediaData j) = jsonNum j"
proof (cases j)
  case (Some v)
  then show ?thesis using elide_not_text by (cases v) (auto simp: jsonNum_def split: json.split)
qed simp

lemma map_of_members: "map_of (map (\<lambda>(k, v). (k, f v)) fs) k = map_option f (map_of fs k)"
  by (induction fs) auto

lemma mediaOfJson_elided_members:
  "mediaOfJson (JObj (map (\<lambda>(k, v). (k, elideMediaData v)) fs)) = mediaOfJson (JObj fs)"
  by (simp add: map_of_members)

lemma mediaOfJson_elided:
  assumes "mediaOfJson (JObj fs) = Some m"
  shows "mediaOfJson (JObj (AList.update ''data'' (JStr (media_fingerprint m)) fs)) = Some (m\<lparr>media_data := media_fingerprint m\<rparr>)"
proof -
  have "jsonStr (Some (JStr s)) = Some s" for s by (simp add: jsonStr_def)
  then show ?thesis using assms by (simp add: update_conv mediaOfFields_Some)
qed

lemma mediaOfJson_elide: "mediaOfJson (elideMediaData v) = map_option (\<lambda>m. m\<lparr>media_data := media_fingerprint m\<rparr>) (mediaOfJson v)"
proof (cases v)
  case (JObj fs)
  show ?thesis
  proof (cases "mediaOfJson (JObj fs)")
    case None
    then have "elideMediaData v = JObj (map (\<lambda>(k, v). (k, elideMediaData v)) fs)"
      using JObj by (simp only: elideMediaData.simps option.case)
    with None JObj show ?thesis by (simp only: mediaOfJson_elided_members) simp
  next
    case (Some m)
    then have "elideMediaData v = JObj (AList.update ''data'' (JStr (media_fingerprint m)) fs)"
      using JObj by (simp only: elideMediaData.simps option.case)
    with Some JObj mediaOfJson_elided [OF Some] show ?thesis by (simp only: option.map)
  qed
qed simp_all

lemma slotsAt_Some: "mediaOfJson v = Some m \<Longrightarrow> slotsAt v path = [slotOf path m]"
  by (simp add: slotsAt.simps)

lemma slotsAt_obj: "mediaOfJson (JObj fs) = None \<Longrightarrow>
    slotsAt (JObj fs) path = concat (map snd (sort_key fst (slotsAtMembers fs path)))"
  by (simp add: slotsAt.simps del: mediaOfJson.simps)

lemma slotsAtMembers_keys: "map fst (slotsAtMembers fs path) = map fst fs"
  by (induction fs) auto

lemma slotOf_elided [simp]: "slotOf path (m\<lparr>media_data := d\<rparr>) = slotOf path m"
  by (simp add: slotOf_def)

lemma elide_obj_None: "mediaOfJson (JObj fs) = None \<Longrightarrow>
    elideMediaData (JObj fs) = JObj (map (\<lambda>(k, v). (k, elideMediaData v)) fs)"
  by (simp only: elideMediaData.simps option.case)

lemma slotsAt_elide:
  "slotsAt (elideMediaData v) path = slotsAt v path"
  "slotsAtItems (map elideMediaData xs) i path = slotsAtItems xs i path"
  "slotsAtMembers (map (\<lambda>(k, v). (k, elideMediaData v)) fs) path = slotsAtMembers fs path"
proof (induction v path and xs i path and fs path rule: slotsAt_slotsAtItems_slotsAtMembers.induct)
  case (1 v path)
  show ?case
  proof (cases "mediaOfJson v")
    case (Some m)
    then have "mediaOfJson (elideMediaData v) = Some (m\<lparr>media_data := media_fingerprint m\<rparr>)"
      by (simp add: mediaOfJson_elide)
    with Some show ?thesis by (simp only: slotsAt_Some slotOf_elided)
  next
    case None
    show ?thesis
    proof (cases v)
      case (JArr xs)
      with 1(1) None show ?thesis by simp
    next
      case (JObj fs)
      from None JObj have "mediaOfJson (JObj (map (\<lambda>(k, v). (k, elideMediaData v)) fs)) = None"
        by (simp only: mediaOfJson_elided_members)
      with 1(2) None JObj show ?thesis by (simp only: elide_obj_None slotsAt_obj)
    qed simp_all
  qed
qed simp_all

lemma map_id_cong: "(\<And>x. x \<in> set xs \<Longrightarrow> f x = x) \<Longrightarrow> map f xs = xs"
  by (induction xs) auto

lemma update_same: "map_of fs k = Some v \<Longrightarrow> AList.update k v fs = fs"
  by (induction fs) auto

lemma elide_elide: "elideMediaData (elideMediaData v) = elideMediaData v"
proof (induction v rule: elideMediaData.induct)
  case (2 fs)
  show ?case
  proof (cases "mediaOfJson (JObj fs)")
    case None
    then have *: "mediaOfJson (JObj (map (\<lambda>(k, v). (k, elideMediaData v)) fs)) = None"
      by (simp only: mediaOfJson_elided_members)
    from 2 None have "map (\<lambda>(k, v). (k, elideMediaData v)) (map (\<lambda>(k, v). (k, elideMediaData v)) fs)
        = map (\<lambda>(k, v). (k, elideMediaData v)) fs" by fastforce
    with None * show ?thesis by (simp only: elide_obj_None)
  next
    case (Some m)
    note e = mediaOfJson_elided [OF Some]
    have "elideMediaData (JObj fs) = JObj (AList.update ''data'' (JStr (media_fingerprint m)) fs)"
      using Some by (simp only: elideMediaData.simps option.case)
    moreover have "elideMediaData (JObj (AList.update ''data'' (JStr (media_fingerprint m)) fs))
        = JObj (AList.update ''data'' (JStr (media_fingerprint m)) (AList.update ''data'' (JStr (media_fingerprint m)) fs))"
      using e by (simp only: elideMediaData.simps option.case) simp
    ultimately show ?thesis by (simp add: update_same update_conv del: elideMediaData.simps)
  qed
qed simp_all

text \<open>What a slot's path walks to.\<close>

definition walk :: "json \<Rightarrow> path_key list \<Rightarrow> json option" where
  "walk v q = foldl (\<lambda>at key. Option.bind at (\<lambda>j. stepInto j key)) (Some v) q"

lemma walk_None: "foldl (\<lambda>at key. Option.bind at (\<lambda>j. stepInto j key)) None q = None"
  by (induction q) auto

lemma walk_Nil [simp]: "walk v [] = Some v"
  by (simp add: walk_def)

lemma walk_Cons: "walk v (k # q) = Option.bind (stepInto v k) (\<lambda>w. walk w q)"
  by (cases "stepInto v k") (auto simp: walk_def walk_None)

lemma walk_not_null: "walk v q = Some u \<Longrightarrow> mediaOfJson u = Some m \<Longrightarrow> v \<noteq> JNull"
  by (cases q) (auto simp: walk_Cons)

fun wf_json :: "json \<Rightarrow> bool" where
  "wf_json (JArr xs) = list_all wf_json xs"
| "wf_json (JObj fs) = (distinct (map fst fs) \<and> list_all (\<lambda>(k, v). wf_json v) fs)"
| "wf_json _ = True"

definition found :: "media_slot \<Rightarrow> path_key list \<Rightarrow> json \<Rightarrow> bool" where
  "found slot path v \<longleftrightarrow> (\<exists>q u m. slot = slotOf (path @ q) m \<and> walk v q = Some u \<and> mediaOfJson u = Some m)"

lemma found_here: "mediaOfJson v = Some m \<Longrightarrow> found (slotOf path m) path v"
  unfolding found_def by (intro exI [of _ "[]"] exI [of _ v] exI [of _ m]) simp

lemma found_step:
  assumes "found slot (path @ [k]) w" "w \<noteq> JNull \<Longrightarrow> stepInto v k = Some w"
  shows "found slot path v"
proof -
  from assms(1) obtain q u m where q: "slot = slotOf (path @ k # q) m" "walk w q = Some u" "mediaOfJson u = Some m"
    unfolding found_def by auto
  with assms(2) walk_not_null have "walk v (k # q) = Some u" by (simp add: walk_Cons)
  with q show ?thesis unfolding found_def by blast
qed

lemma slotsAt_found:
  "wf_json v \<Longrightarrow> slot \<in> set (slotsAt v path) \<Longrightarrow> found slot path v"
  "list_all wf_json xs \<Longrightarrow> slot \<in> set (slotsAtItems xs i path) \<Longrightarrow>
     \<exists>j < length xs. found slot (path @ [KeyIndex (int (i + j))]) (xs ! j)"
  "list_all (\<lambda>(k, v). wf_json v) fs \<Longrightarrow> (k, ss) \<in> set (slotsAtMembers fs path) \<Longrightarrow> slot \<in> set ss \<Longrightarrow>
     \<exists>v. (k, v) \<in> set fs \<and> found slot (path @ [KeyName k]) v"
proof (induction v path and xs i path and fs path arbitrary: slot and slot and slot k ss
    rule: slotsAt_slotsAtItems_slotsAtMembers.induct)
  case (1 v path)
  show ?case
  proof (cases "mediaOfJson v")
    case (Some m)
    with 1 show ?thesis by (simp add: slotsAt_Some found_here)
  next
    case None
    show ?thesis
    proof (cases v)
      case (JArr xs)
      with 1 None obtain j where j: "j < length xs" "found slot (path @ [KeyIndex (int j)]) (xs ! j)" by auto
      show ?thesis by (rule found_step [OF j(2)]) (use j JArr in simp)
    next
      case (JObj fs)
      from 1(4) None obtain k ss where "(k, ss) \<in> set (slotsAtMembers fs path)" "slot \<in> set ss"
        unfolding JObj by (force simp only: slotsAt_obj set_concat set_map set_sort snd_conv)
      moreover from 1(3) JObj have "list_all (\<lambda>(k, v). wf_json v) fs" by simp
      ultimately obtain w where w: "(k, w) \<in> set fs" "found slot (path @ [KeyName k]) w"
        using 1(2) [OF None JObj] by blast
      with 1(3) JObj have "map_of fs k = Some w" by simp
      with JObj show ?thesis by (intro found_step [OF w(2)]) simp
    qed (use 1(4) None in simp_all)
  qed
next
  case (3 x xs i path)
  from "3.prems"(2) consider "slot \<in> set (slotsAt x (path @ [KeyIndex (int i)]))"
    | "slot \<in> set (slotsAtItems xs (Suc i) path)" by auto
  then show ?case
  proof cases
    case 1
    with 3 show ?thesis by (intro exI [of _ 0]) simp
  next
    case 2
    with 3 obtain j where "j < length xs" "found slot (path @ [KeyIndex (int (Suc i + j))]) (xs ! j)" by auto
    then show ?thesis by (intro exI [of _ "Suc j"]) (simp add: add.commute)
  qed
next
  case (5 k' v fs path)
  from "5.prems"(2) consider "k = k'" "ss = slotsAt v (path @ [KeyName k'])" | "(k, ss) \<in> set (slotsAtMembers fs path)"
    by auto
  then show ?case
  proof cases
    case 1
    with "5.prems" "5.IH"(1) [of slot] show ?thesis by auto
  next
    case 2
    moreover from "5.prems"(1) have "list_all (\<lambda>(k, v). wf_json v) fs" by simp
    ultimately obtain w where "(k, w) \<in> set fs" "found slot (path @ [KeyName k]) w"
      using "5.IH"(2) [of k ss slot] "5.prems"(3) by blast
    then show ?thesis by auto
  qed
qed simp_all

lemma mediaAt_slotOf:
  "walk v q = Some u \<Longrightarrow> mediaOfJson u = Some m \<Longrightarrow> mediaAt v (slotOf q m) = Some m"
  by (simp add: mediaAt_def slotOf_def walk_def)

lemma mediaAt_SomeD:
  "mediaAt v slot = Some m \<Longrightarrow> media_fingerprint m = slot_fingerprint slot \<and> media_mediaType m = slot_mediaType slot
     \<and> media_bytes m = slot_bytes slot"
  by (auto simp: mediaAt_def opt_filter_eq_Some)

section \<open>Properties\<close>

text \<open>
  Every image of a JSON value is found by its slot: in a value whose objects have distinct
  keys, a slot that \<open>mediaSlotsOf\<close> lists leads \<open>mediaAt\<close> to an image with the slot's
  fingerprint, type and size.
\<close>
theorem slots_lead_to_their_images:
  assumes "wf_json v" "slot \<in> set (mediaSlotsOf v)"
  shows "\<exists>m. mediaAt v slot = Some m \<and> slot = slotOf (slot_path slot) m"
proof -
  have "slot \<in> set (slotsAt v [])" using assms(2) by (simp only: mediaSlotsOf_def)
  from slotsAt_found(1) [OF assms(1) this] obtain q u m where
    "slot = slotOf q m" "walk v q = Some u" "mediaOfJson u = Some m" by (auto simp: found_def)
  then show ?thesis by (intro exI [of _ m]) (simp add: mediaAt_slotOf, simp add: slotOf_def)
qed

theorem slots_lead_to_their_images_witness:
  "\<exists>m. mediaAt (JArr [JObj [(''type'', JStr ''media''), (''mediaType'', JStr ''image/png''), (''data'', JStr ''AA==''),
     (''fingerprint'', JStr ''0''), (''bytes'', JNum 1)]])
     \<lparr>slot_path = [KeyIndex 0], slot_fingerprint = ''0'', slot_mediaType = ''image/png'', slot_bytes = 1\<rparr> = Some m
   \<and> media_data m = ''AA==''"
proof -
  let ?v = "JArr [JObj [(''type'', JStr ''media''), (''mediaType'', JStr ''image/png''), (''data'', JStr ''AA==''),
     (''fingerprint'', JStr ''0''), (''bytes'', JNum 1)]]"
  let ?s = "\<lparr>slot_path = [KeyIndex 0], slot_fingerprint = ''0'', slot_mediaType = ''image/png'', slot_bytes = 1\<rparr>"
  have "\<exists>m. mediaAt ?v ?s = Some m \<and> ?s = slotOf (slot_path ?s) m"
    by (rule slots_lead_to_their_images)
      (simp_all add: mediaSlotsOf_def mediaOfFields_def jsonStr_def jsonNum_def imageTypes_def slotOf_def slotsAt.simps)
  then show ?thesis
    by (simp add: mediaAt_def mediaOfFields_def jsonStr_def jsonNum_def imageTypes_def slotOf_def)
qed

text \<open>
  Leaving the base64 out of a value keeps its images: the elided value has the same slots at
  the same paths, eliding again changes nothing, and each image's data became its fingerprint.
\<close>
theorem eliding_keeps_the_images:
  "mediaSlotsOf (elideMediaData v) = mediaSlotsOf v
   \<and> elideMediaData (elideMediaData v) = elideMediaData v
   \<and> mediaOfJson (elideMediaData v) = map_option (\<lambda>m. m\<lparr>media_data := media_fingerprint m\<rparr>) (mediaOfJson v)"
  by (simp only: mediaSlotsOf_def slotsAt_elide elide_elide mediaOfJson_elide simp_thms)

text \<open>What base64 does for one image's bytes: it decodes back, has its length, and no space or comma.\<close>

definition codec_ok :: "(bytes \<Rightarrow> string) \<Rightarrow> (string \<Rightarrow> bytes option) \<Rightarrow> bytes \<Rightarrow> bool" where
  "codec_ok encode decode bs \<longleftrightarrow> decode (encode bs) = Some bs \<and> length (encode bs) = base64Length (length bs)
     \<and> list_all (\<lambda>c. \<not> is_space c \<and> c \<noteq> CHR '','') (encode bs)"

text \<open>A base64 codec, to show that what is asked of \<open>encode\<close> and \<open>decode\<close> can hold.\<close>

definition b64_alphabet :: string where
  "b64_alphabet = ''ABCDEFGHIJKLMNOPQRSTUVWXYZabcdefghijklmnopqrstuvwxyz0123456789+/''"

fun b64_encode :: "bytes \<Rightarrow> string" where
  "b64_encode [] = []"
| "b64_encode [a] = [b64_alphabet ! (unat a div 4), b64_alphabet ! (unat a mod 4 * 16), CHR ''='', CHR ''='']"
| "b64_encode [a, b] = [b64_alphabet ! (unat a div 4), b64_alphabet ! (unat a mod 4 * 16 + unat b div 16),
     b64_alphabet ! (unat b mod 16 * 4), CHR ''='']"
| "b64_encode (a # b # c # bs) = [b64_alphabet ! (unat a div 4), b64_alphabet ! (unat a mod 4 * 16 + unat b div 16),
     b64_alphabet ! (unat b mod 16 * 4 + unat c div 64), b64_alphabet ! (unat c mod 64)] @ b64_encode bs"

definition b64_index :: "char \<Rightarrow> nat" where
  "b64_index c = length (takeWhile (\<lambda>d. d \<noteq> c) b64_alphabet)"

fun b64_decode :: "string \<Rightarrow> bytes option" where
  "b64_decode [] = Some []"
| "b64_decode (p # q # r # s # cs) =
     (let w = b64_index p; x = b64_index q; y = b64_index r; z = b64_index s in
      if r = CHR ''='' then Some [word_of_nat (w * 4 + x div 16)]
      else if s = CHR ''='' then Some [word_of_nat (w * 4 + x div 16), word_of_nat (x mod 16 * 16 + y div 4)]
      else map_option (\<lambda>bs. word_of_nat (w * 4 + x div 16) # word_of_nat (x mod 16 * 16 + y div 4)
             # word_of_nat (y mod 4 * 64 + z) # bs) (b64_decode cs))"
| "b64_decode _ = None"

definition tinyGif :: bytes where
  "tinyGif = [0x47, 0x49, 0x46, 0x38, 0x39, 0x61, 1, 0, 1, 0]"

lemma tinyGif_codec: "codec_ok b64_encode b64_decode tinyGif"
  by code_simp
lemma tinyGif_type: "sniffImageType tinyGif = Some ''image/gif''" by code_simp
lemma tinyGif_size: "imageSizeOf tinyGif ''image/gif'' = Some \<lparr>size_width = 1, size_height = 1\<rparr>" by code_simp
text \<open>
  An image built from its bytes passes every later check unchanged: checked again from its own
  data (\<open>normalizeMedia\<close>), it is exactly itself. This rests on base64 decoding what it encoded,
  on its length, and on its alphabet having no space and no comma.
\<close>
theorem built_image_is_normal:
  assumes "mediaFromBytes encode bs desc = Inr m" "codec_ok encode decode bs"
  shows "normalizeMedia encode decode m = Inr m"
proof -
  from assms(1) have m: "bs \<noteq> []" "length bs \<le> imageBytesLimit" "media_data m = encode bs"
    "(media_name m, media_alt m) = desc" by (auto simp: mediaFromBytes_Inr)
  from assms(2) have c: "decode (encode bs) = Some bs" "length (encode bs) = base64Length (length bs)"
    "\<And>c. c \<in> set (encode bs) \<Longrightarrow> \<not> is_space c \<and> c \<noteq> CHR '',''"
    by (auto simp: codec_ok_def list_all_iff)
  have "stripped (encode bs) = encode bs" using c(3) by (rule stripped_plain)
  moreover have "length (encode bs) \<le> base64Length imageBytesLimit"
    using base64Length_mono [OF m(2)] c(2) by simp
  moreover have "length (encode bs) \<noteq> 0"
    unfolding c(2) base64Length_def using m(1) by (cases bs) auto
  ultimately have "normalizeMedia encode decode m = mediaFromBytes encode bs desc"
    using m(3,4) c(1) by (simp add: normalizeMedia_def mediaFromBase64_def)
  with assms(1) show ?thesis by simp
qed

theorem built_image_is_normal_witness:
  "\<exists>m. mediaFromBytes b64_encode tinyGif (None, None) = Inr m \<and> normalizeMedia b64_encode b64_decode m = Inr m"
proof -
  have "\<exists>m. mediaFromBytes b64_encode tinyGif (None, None) = Inr m"
    using tinyGif_type tinyGif_size unfolding mediaFromBytes_Inr
    by (simp add: maxPixels_def imageBytesLimit_def tinyGif_def)
  then obtain m where "mediaFromBytes b64_encode tinyGif (None, None) = Inr m" ..
  with built_image_is_normal [OF this tinyGif_codec] show ?thesis by blast
qed

text \<open>The images a tally sends so far, and what is true of them.\<close>

definition confirmed :: "(bytes \<Rightarrow> string) \<Rightarrow> (string \<Rightarrow> bytes option) \<Rightarrow> json \<Rightarrow> media_slot \<Rightarrow> media \<Rightarrow> bool" where
  "confirmed encode decode encoded slot m \<longleftrightarrow> mediaAt encoded slot = Some m
     \<and> (\<exists>c. normalizeMedia encode decode m = Inr c \<and> media_data c = media_data m
          \<and> media_fingerprint c = media_fingerprint m \<and> media_mediaType c = media_mediaType m
          \<and> media_bytes c = media_bytes m)"

definition tally_ok ::
  "(bytes \<Rightarrow> string) \<Rightarrow> (string \<Rightarrow> bytes option) \<Rightarrow> json \<Rightarrow> media_tally \<Rightarrow> media list \<Rightarrow> bool" where
  "tally_ok encode decode encoded t ms \<longleftrightarrow> list_all2 (confirmed encode decode encoded) (tally_slots t) ms
     \<and> distinct (map media_fingerprint ms)
     \<and> set (map media_fingerprint ms) \<subseteq> set (tally_fingerprints t)
     \<and> length ms \<le> toolResultImages \<and> tally_chars t = charsTogether ms \<and> charsTogether ms \<le> requestChars"

lemma tally_ok_addLabel [simp]: "tally_ok encode decode encoded (addLabel l t) ms = tally_ok encode decode encoded t ms"
  by (simp add: tally_ok_def addLabel_def)

lemma tally_ok_fingerprint: "tally_ok encode decode encoded t ms \<Longrightarrow>
    tally_ok encode decode encoded (t\<lparr>tally_fingerprints := tally_fingerprints t @ [f]\<rparr>) ms"
  by (auto simp: tally_ok_def)

lemma tallySlot_cases:
  obtains l where "tallySlot encode decode encoded t slot = addLabel l t"
  | "tallySlot encode decode encoded t slot = t"
  | l f where "tallySlot encode decode encoded t slot = addLabel l (t\<lparr>tally_fingerprints := tally_fingerprints t @ [f]\<rparr>)"
  | m where "tallySlot encode decode encoded t slot = t\<lparr>tally_fingerprints := tally_fingerprints t @ [media_fingerprint m],
        tally_slots := tally_slots t @ [slot], tally_chars := tally_chars t + int (length (media_data m))\<rparr>"
      "confirmed encode decode encoded slot m" "media_fingerprint m \<notin> set (tally_fingerprints t)"
      "length (tally_slots t) < toolResultImages" "tally_chars t + int (length (media_data m)) \<le> requestChars"
proof (cases "mediaAt encoded slot")
  case None
  then show thesis by (intro that(1)) (simp add: tallySlot_def)
next
  case at: (Some m)
  consider "media_fingerprint m \<in> set (tally_fingerprints t)"
    | e where "media_fingerprint m \<notin> set (tally_fingerprints t)" "normalizeMedia encode decode m = Inl e"
    | c where "media_fingerprint m \<notin> set (tally_fingerprints t)" "normalizeMedia encode decode m = Inr c"
    by (cases "normalizeMedia encode decode m") auto
  then show thesis
  proof cases
    case 1
    with at show thesis by (intro that(2)) (simp add: tallySlot_def)
  next
    case 2
    with at show thesis by (intro that(1)) (simp add: tallySlot_def)
  next
    case 3
    show thesis
    proof (cases "confirmed encode decode encoded slot m")
      case True
      with 3 at show thesis
        by (cases "toolResultImages \<le> length (tally_slots t) \<or> requestChars < tally_chars t + int (length (media_data m))")
          (intro that(3), simp add: tallySlot_def confirmed_def, intro that(4), auto simp: tallySlot_def confirmed_def)
    next
      case False
      with 3 at show thesis by (intro that(1)) (auto simp add: tallySlot_def confirmed_def)
    qed
  qed
qed

lemma tallySlot_ok:
  assumes "tally_ok encode decode encoded t ms"
  shows "\<exists>ms'. tally_ok encode decode encoded (tallySlot encode decode encoded t slot) ms'"
proof (cases rule: tallySlot_cases [of encode decode encoded t slot])
  case (3 l f)
  with tally_ok_fingerprint [OF assms] show ?thesis by auto
next
  case (4 m)
  from assms have "length (tally_slots t) = length ms" unfolding tally_ok_def by (blast dest: list_all2_lengthD)
  with 4 assms have "tally_ok encode decode encoded (tallySlot encode decode encoded t slot) (ms @ [m])"
    by (auto simp: tally_ok_def charsTogether_def list_all2_append)
  then show ?thesis ..
qed (use assms in auto)

lemma tally_ok_run:
  "tally_ok encode decode encoded t ms \<Longrightarrow> \<exists>ms'. tally_ok encode decode encoded (foldl (tallySlot encode decode encoded) t slots) ms'"
proof (induction slots arbitrary: t ms)
  case (Cons slot slots)
  from tallySlot_ok [OF Cons.prems] obtain ms' where
    "tally_ok encode decode encoded (tallySlot encode decode encoded t slot) ms'" ..
  from Cons.IH [OF this] show ?case by simp
qed auto

text \<open>
  A tool result never sends too much: the slots it sends are at most
  \<open>MEDIA_LIMITS.toolResultImages\<close>, distinct images, each an image of the result that its own
  bytes confirm, and their base64 together is at most \<open>MEDIA_LIMITS.requestChars\<close> characters.
\<close>
theorem tool_result_images_are_bounded:
  "\<exists>ms. list_all2 (confirmed encode decode encoded) (fst (toolResultMedia encode decode encoded slots)) ms
     \<and> distinct (map media_fingerprint ms)
     \<and> length ms \<le> toolResultImages \<and> charsTogether ms \<le> requestChars"
proof -
  have "tally_ok encode decode encoded noTally []"
    by (simp add: tally_ok_def noTally_def charsTogether_def requestChars_def)
  from tally_ok_run [OF this, of slots] show ?thesis by (auto simp: toolResultMedia_def Let_def tally_ok_def)
qed

end
