(* ===== verification/Canonical.thy ===== *)
theory Canonical
  imports Media "HOL-Library.Multiset"
begin

text \<open>
  Canonical JSON and the fingerprints and estimates taken of it
  (\<open>core/src/memory/memory-log.entity.functions.ts\<close>): keys sorted at every depth, the text
  \<open>JSON.stringify\<close> gives (integers, and strings of code units below 256), the 32-bit FNV-1a hash
  of a text. The JSON of a message is the object the sources hold.

  JavaScript keeps an object's integer-like keys first, ascending, whatever order they were added
  in: \<open>own_order\<close>. An object of the sources has distinct keys (\<open>wf_json\<close>).
\<close>

section \<open>JSON text\<close>

definition escape_char :: "char \<Rightarrow> string" where
  "escape_char c =
     (let n = of_char c :: nat in
      if c = CHR 0x22 then [CHR 0x5C, CHR 0x22]
      else if c = CHR 0x5C then [CHR 0x5C, CHR 0x5C]
      else if n = 8 then [CHR 0x5C, CHR ''b'']
      else if n = 9 then [CHR 0x5C, CHR ''t'']
      else if n = 10 then [CHR 0x5C, CHR ''n'']
      else if n = 12 then [CHR 0x5C, CHR ''f'']
      else if n = 13 then [CHR 0x5C, CHR ''r'']
      else if n < 32 then [CHR 0x5C, CHR ''u''] @ padStart 4 CHR ''0'' (hex n)
      else [c])"

definition quote :: "string \<Rightarrow> string" where
  "quote s = [CHR 0x22] @ concat (map escape_char s) @ [CHR 0x22]"

fun stringify :: "json \<Rightarrow> string" where
  "stringify JNull = ''null''"
| "stringify (JBool b) = (if b then ''true'' else ''false'')"
| "stringify (JNum n) = dec n"
| "stringify (JStr s) = quote s"
| "stringify (JArr xs) = ''['' @ join '','' (map stringify xs) @ '']''"
| "stringify (JObj fs) = ''{'' @ join '','' (map (\<lambda>(k, v). quote k @ '':'' @ stringify v) fs) @ ''}''"

definition is_index_key :: "string \<Rightarrow> bool" where
  "is_index_key k \<longleftrightarrow> k \<noteq> [] \<and> list_all (\<lambda>c. CHR ''0'' \<le> c \<and> c \<le> CHR ''9'') k
     \<and> (k = ''0'' \<or> hd k \<noteq> CHR ''0'') \<and> dec_value k < 4294967295"

definition own_order :: "(string \<times> 'v) list \<Rightarrow> (string \<times> 'v) list" where
  "own_order fs = sort_key (\<lambda>(k, v). dec_value k) (filter (\<lambda>(k, v). is_index_key k) fs)
     @ filter (\<lambda>(k, v). \<not> is_index_key k) fs"

fun sortKeys :: "json \<Rightarrow> json" where
  "sortKeys (JArr xs) = JArr (map sortKeys xs)"
| "sortKeys (JObj fs) = JObj (own_order (sort_key fst (map (\<lambda>(k, v). (k, sortKeys v)) fs)))"
| "sortKeys v = v"

definition canonicalJson :: "json \<Rightarrow> string" where
  "canonicalJson v = stringify (sortKeys v)"

section \<open>Fingerprints and estimates\<close>

definition fnvStep :: "32 word \<Rightarrow> char \<Rightarrow> 32 word" where
  "fnvStep h c = (h XOR of_char c) * 16777619"

definition fingerprintOf :: "string \<Rightarrow> string" where
  "fingerprintOf s = hex8 (foldl fnvStep 2166136261 s) @ hex (length s)"

text \<open>\<open>Math.ceil(length / 3)\<close>.\<close>

definition estimateTokens :: "string \<Rightarrow> int" where
  "estimateTokens s = int ((length s + 2) div 3)"

section \<open>The JSON of a message\<close>

definition member :: "string \<Rightarrow> json option \<Rightarrow> (string \<times> json) list" where
  "member k v = (case v of None \<Rightarrow> [] | Some j \<Rightarrow> [(k, j)])"

definition mediaJson :: "media \<Rightarrow> json" where
  "mediaJson m = JObj ([(''type'', JStr ''media''), (''mediaType'', JStr (media_mediaType m)), (''data'', JStr (media_data m)),
      (''fingerprint'', JStr (media_fingerprint m)), (''bytes'', JNum (media_bytes m))]
     @ member ''name'' (map_option JStr (media_name m)) @ member ''alt'' (map_option JStr (media_alt m)))"

definition textJson :: "string \<Rightarrow> string \<Rightarrow> json option \<Rightarrow> json" where
  "textJson kind t opts = JObj ([(''type'', JStr kind), (''text'', JStr t)] @ member ''providerOptions'' opts)"

definition callJson :: "tool_call_part \<Rightarrow> json" where
  "callJson c = JObj ([(''type'', JStr ''tool-call''), (''toolCallId'', JStr (call_id c)), (''toolName'', JStr (call_tool c)),
      (''input'', call_input c)] @ member ''providerOptions'' (call_options c)
     @ member ''providerExecuted'' (map_option JBool (call_providerExecuted c)))"

definition resultJson :: "tool_result_part \<Rightarrow> json" where
  "resultJson r = JObj ([(''type'', JStr ''tool-result''), (''toolCallId'', JStr (result_id r)), (''toolName'', JStr (result_tool r)),
      (''output'', result_output r)] @ member ''providerOptions'' (result_options r)
     @ member ''isError'' (map_option JBool (result_isError r))
     @ member ''providerExecuted'' (map_option JBool (result_providerExecuted r))
     @ member ''media'' (map_option (\<lambda>ms. JArr (map mediaJson ms)) (result_media r)))"

fun userPartJson :: "user_part \<Rightarrow> json" where
  "userPartJson (UText t opts) = textJson ''text'' t opts"
| "userPartJson (UMedia m) = mediaJson m"

fun contentJson :: "user_content \<Rightarrow> json" where
  "contentJson (ContentText t) = JStr t"
| "contentJson (ContentParts ps) = JArr (map userPartJson ps)"

fun assistantPartJson :: "assistant_part \<Rightarrow> json" where
  "assistantPartJson (PText t opts) = textJson ''text'' t opts"
| "assistantPartJson (PReasoning t opts) = textJson ''reasoning'' t opts"
| "assistantPartJson (PCall c) = callJson c"
| "assistantPartJson (PResult r) = resultJson r"

fun messageJson :: "agent_message \<Rightarrow> json" where
  "messageJson (UserMsg c opts) = JObj ([(''role'', JStr ''user''), (''content'', contentJson c)] @ member ''providerOptions'' opts)"
| "messageJson (AssistantMsg ps opts) =
     JObj ([(''role'', JStr ''assistant''), (''content'', JArr (map assistantPartJson ps))] @ member ''providerOptions'' opts)"
| "messageJson (ToolMsg rs opts) =
     JObj ([(''role'', JStr ''tool''), (''content'', JArr (map resultJson rs))] @ member ''providerOptions'' opts)"

definition estimateMessageTokens :: "agent_message list \<Rightarrow> int" where
  "estimateMessageTokens ms =
     foldl (\<lambda>sum m. sum + estimateTokens (canonicalJson (elideMediaData (messageJson m)))
        + int (length (mediaSlotsOf (messageJson m))) * IMAGE_TOKEN_ESTIMATE) 0 ms"

section \<open>The same value, whatever the order of its keys\<close>

text \<open>Two JSON values are the same when they differ at most in the order of their objects' members.\<close>

inductive same_json :: "json \<Rightarrow> json \<Rightarrow> bool" where
  same_atom: "same_json v v"
| same_arr: "list_all2 same_json xs ys \<Longrightarrow> same_json (JArr xs) (JArr ys)"
| same_obj: "list_all2 (\<lambda>x y. fst x = fst y \<and> same_json (snd x) (snd y)) fs hs \<Longrightarrow> mset hs = mset gs \<Longrightarrow> same_json (JObj fs) (JObj gs)"

lemma map_fst_members: "map fst (map (\<lambda>(k, v). (k, f v)) fs) = map fst fs"
  by (induction fs) auto

lemma sort_key_perm:
  assumes "mset fs = mset gs" "distinct (map fst fs)"
  shows "sort_key fst fs = sort_key fst (gs :: ('a::linorder \<times> 'b) list)"
proof (rule properties_for_sort_key [symmetric])
  show "mset (sort_key fst fs) = mset gs" using assms(1) by simp
  show "sorted (map fst (sort_key fst fs))" by simp
  fix k
  assume "k \<in> set (sort_key fst fs)"
  have "mset (map fst gs) = mset (map fst fs)" using assms(1) by simp
  with assms(2) have d: "distinct (map fst gs)" by (metis mset_eq_imp_distinct_iff)
  have "filter (\<lambda>x. fst k = fst x) xs = (if k \<in> set xs then [k] else filter (\<lambda>x. fst k = fst x) xs)"
    if "distinct (map fst xs)" for xs :: "('a \<times> 'b) list"
    using that by (induction xs) (auto simp: filter_empty_conv image_iff)
  note one = this
  have k: "k \<in> set fs" "k \<in> set gs" using \<open>k \<in> _\<close> assms(1) by (auto dest: mset_eq_setD)
  have "distinct (map fst (sort_key fst fs))"
    using assms(2) by (metis mset_map mset_sort mset_eq_imp_distinct_iff)
  with one [of "sort_key fst fs"] one [OF d] k show
    "filter (\<lambda>x. fst k = fst x) (sort_key fst fs) = filter (\<lambda>x. fst k = fst x) gs" by simp
qed

lemma sortKeys_members:
  "list_all2 (\<lambda>x y. fst x = fst y \<and> sortKeys (snd x) = sortKeys (snd y)) fs hs \<Longrightarrow>
     map (\<lambda>(k, v). (k, sortKeys v)) fs = map (\<lambda>(k, v). (k, sortKeys v)) hs"
  by (induction rule: list_all2_induct) auto

lemma same_sortKeys: "same_json v w \<Longrightarrow> wf_json v \<Longrightarrow> sortKeys v = sortKeys w"
proof (induction rule: same_json.induct)
  case (same_arr xs ys)
  then have "list_all2 (\<lambda>x y. sortKeys x = sortKeys y) xs ys"
    by (auto simp: list_all2_conv_all_nth list_all_length)
  then have "map sortKeys xs = map sortKeys ys" by (induction rule: list_all2_induct) auto
  then show ?case by simp
next
  case (same_obj fs hs gs)
  from same_obj.prems have wf: "distinct (map fst fs)" "\<And>i. i < length fs \<Longrightarrow> wf_json (snd (fs ! i))"
    by (auto simp: list_all_length split_beta)
  from same_obj(1) wf(2) have "list_all2 (\<lambda>x y. fst x = fst y \<and> sortKeys (snd x) = sortKeys (snd y)) fs hs"
    by (auto simp: list_all2_conv_all_nth split_beta)
  from sortKeys_members [OF this] have eq: "map (\<lambda>(k, v). (k, sortKeys v)) fs = map (\<lambda>(k, v). (k, sortKeys v)) hs" .
  have "sort_key fst (map (\<lambda>(k, v). (k, sortKeys v)) fs) = sort_key fst (map (\<lambda>(k, v). (k, sortKeys v)) gs)"
  proof (rule sort_key_perm)
    show "mset (map (\<lambda>(k, v). (k, sortKeys v)) fs) = mset (map (\<lambda>(k, v). (k, sortKeys v)) gs)"
      unfolding eq mset_map same_obj(2) ..
    show "distinct (map fst (map (\<lambda>(k, v). (k, sortKeys v)) fs))" using wf(1) by (simp only: map_fst_members)
  qed
  then show ?case by simp
qed simp

text \<open>
  Identical values always serialize to identical bytes: two JSON values that differ only in
  the order of their objects' keys, at any depth, have the same canonical text, and so the same
  fingerprint.
\<close>
theorem canonical_text_ignores_key_order:
  assumes "same_json v w" "wf_json v"
  shows "canonicalJson v = canonicalJson w \<and> fingerprintOf (canonicalJson v) = fingerprintOf (canonicalJson w)"
  using same_sortKeys [OF assms] by (simp add: canonicalJson_def)

theorem canonical_text_ignores_key_order_witness:
  "canonicalJson (JObj [(''b'', JNum 1), (''a'', JNull)]) = canonicalJson (JObj [(''a'', JNull), (''b'', JNum 1)])"
proof -
  have "same_json (JObj [(''b'', JNum 1), (''a'', JNull)]) (JObj [(''a'', JNull), (''b'', JNum 1)])"
    by (rule same_obj [where hs = "[(''b'', JNum 1), (''a'', JNull)]"]) (auto intro: same_atom)
  from canonical_text_ignores_key_order [OF this] show ?thesis by simp
qed

section \<open>Sorted values\<close>

lemma mset_own_order: "mset (own_order fs) = mset fs"
proof -
  have "mset (filter P fs) + mset (filter (\<lambda>x. \<not> P x) fs) = mset fs" for P by (induction fs) auto
  from this [of "\<lambda>(k, v). is_index_key k"] show ?thesis by (simp add: own_order_def split_def)
qed

lemma mset_sorted_members: "mset (own_order (sort_key fst fs)) = mset fs"
  by (simp add: mset_own_order)

lemma sortKeys_same: "same_json v (sortKeys v)"
proof (induction v)
  case (JArr xs)
  then show ?case by (auto intro: same_arr simp: list_all2_conv_all_nth)
next
  case (JObj fs)
  have "list_all2 (\<lambda>x y. fst x = fst y \<and> same_json (snd x) (snd y)) fs (map (\<lambda>(k, v). (k, sortKeys v)) fs)"
  proof (rule list_all2_all_nthI)
    fix i assume i: "i < length fs"
    then have "same_json (snd (fs ! i)) (sortKeys (snd (fs ! i)))" by (intro JObj [of "fs ! i"]) (auto intro: snds.intros)
    with i show "fst (fs ! i) = fst (map (\<lambda>(k, v). (k, sortKeys v)) fs ! i)
        \<and> same_json (snd (fs ! i)) (snd (map (\<lambda>(k, v). (k, sortKeys v)) fs ! i))" by (simp add: split_beta)
  qed simp
  then show ?case by (auto intro!: same_obj simp: mset_sorted_members)
qed (auto intro: same_atom)

lemma sortKeys_idem: "wf_json v \<Longrightarrow> sortKeys (sortKeys v) = sortKeys v"
  using same_sortKeys [OF sortKeys_same] by simp

text \<open>A member of a value read back with its keys sorted.\<close>

definition field :: "json \<Rightarrow> string \<Rightarrow> json option" where
  "field j k = (case j of JObj fs \<Rightarrow> map_of fs k | _ \<Rightarrow> None)"

lemma map_of_sorted: "map_of (map (\<lambda>(k, v). (k, f v)) fs) k = map_option f (map_of fs k)"
  by (induction fs) auto

lemma field_sorted:
  assumes "distinct (map fst fs)"
  shows "field (sortKeys (JObj fs)) k = map_option sortKeys (map_of fs k)"
proof -
  let ?hs = "map (\<lambda>(k, v). (k, sortKeys v)) fs"
  have "map_of (own_order (sort_key fst ?hs)) = map_of ?hs"
  proof (rule map_of_inject_set [THEN iffD2])
    show "distinct (map fst ?hs)" using assms by (simp only: map_fst_members)
    then show "distinct (map fst (own_order (sort_key fst ?hs)))"
      by (metis mset_map mset_sorted_members mset_eq_imp_distinct_iff)
    show "set (own_order (sort_key fst ?hs)) = set ?hs" by (rule mset_eq_setD [OF mset_sorted_members])
  qed
  then show ?thesis by (simp add: field_def map_of_sorted)
qed

end
