(* ===== verification/MemoryRender.thy ===== *)
theory MemoryRender
  imports MemoryLog
begin

text \<open>
  The render of the memory log (\<open>core/src/memory/memory-log.entity.functions.ts\<close>,
  \<open>renderedContext\<close> and what it calls): which turns, messages and results are shown, which images
  are sent, how results stand after their requests, how a call left without a result is answered
  and how tool messages are joined; and the context built of it with its fingerprint.
\<close>

section \<open>What a render decides\<close>

datatype context_mode = CurrentContext | AllContexts

datatype step_mode = TailContext | NoContext

datatype media_mode = MediaNone | MediaInline

record render_options =
  ro_strategy :: string
  ro_currentTurn :: int
  ro_currentRun :: string
  ro_run :: int
  ro_turnContext :: context_mode
  ro_replies :: bool
  ro_stepContext :: step_mode
  ro_digests :: bool
  ro_mediaMode :: media_mode
  ro_maxImages :: int
  ro_maxChars :: int

record render_plan =
  plan_entries :: "log_entry list"
  plan_applied :: applied
  plan_kept :: "log_entry \<Rightarrow> bool"
  plan_messageVisible :: "log_entry \<Rightarrow> bool"
  plan_resultVisible :: "log_entry \<Rightarrow> bool"

definition renderPlanOf :: "log_entry list \<Rightarrow> string \<Rightarrow> render_plan" where
  "renderPlanOf stored strategy =
     (let entries = presentedEntries stored; ap = appliedCompactions entries strategy;
          kept = (\<lambda>e. entry_turn e > app_cutTurn ap)
      in \<lparr>plan_entries = entries, plan_applied = ap, plan_kept = kept,
          plan_messageVisible = (\<lambda>e. if kept e then True
             else case messageOf e of
               None \<Rightarrow> False
             | Some m \<Rightarrow> toolCallIds m \<noteq> [] \<and> list_all (\<lambda>i. list_ex (\<lambda>result.
                  opt_exists (\<lambda>b. tr_toolCallId b = i \<and> tr_pinned b) (resultBody result)) (resultsFor entries (entry_id e))) (toolCallIds m)),
          plan_resultVisible = (\<lambda>e. opt_exists (\<lambda>b. kept e \<or> tr_pinned b) (resultBody e))\<rparr>)"

definition inFlightOf :: "render_plan \<Rightarrow> render_options \<Rightarrow> string list" where
  "inFlightOf plan opts = concat (map (\<lambda>e. case entry_body e of
      Message m (Some run) inbox \<Rightarrow>
        (if run = ro_run opts \<or> entry_turn e \<noteq> ro_currentTurn opts \<or> entry_runId e \<noteq> ro_currentRun opts then []
         else let results = resultsFor (plan_entries plan) (entry_id e) in
           if list_ex (\<lambda>i. \<not> list_ex (\<lambda>r. opt_exists (\<lambda>b. tr_toolCallId b = i) (resultBody r)) results) (toolCallIds m)
           then entry_id e # map entry_id results else [])
    | _ \<Rightarrow> []) (plan_entries plan))"

definition visiblePlanOf :: "log_entry list \<Rightarrow> render_options \<Rightarrow> render_plan" where
  "visiblePlanOf stored opts =
     (let plan = renderPlanOf stored (ro_strategy opts); inFlight = inFlightOf plan opts
      in if inFlight = [] then plan
         else plan\<lparr>plan_kept := (\<lambda>e. entry_id e \<notin> set inFlight \<and> plan_kept plan e),
                plan_messageVisible := (\<lambda>e. entry_id e \<notin> set inFlight \<and> plan_messageVisible plan e),
                plan_resultVisible := (\<lambda>e. entry_id e \<notin> set inFlight \<and> plan_resultVisible plan e)\<rparr>)"

section \<open>Images sent\<close>

definition imageKey :: "log_entry \<Rightarrow> nat \<Rightarrow> string" where
  "imageKey e index = entry_id e @ ''#'' @ dec_nat index"

record log_image =
  image_key :: string
  image_media :: media

record inline_choice =
  choice_chosen :: "string list"
  choice_images :: int
  choice_chars :: int
  choice_full :: bool

definition noneChosen :: inline_choice where
  "noneChosen = \<lparr>choice_chosen = [], choice_images = 0, choice_chars = 0, choice_full = False\<rparr>"

definition charsOf :: "log_image list \<Rightarrow> int" where
  "charsOf images = foldl (\<lambda>sum i. sum + int (length (media_data (image_media i)))) 0 images"

definition imagesOf :: "render_plan \<Rightarrow> (string \<Rightarrow> string option) \<Rightarrow> log_entry \<Rightarrow> log_image list" where
  "imagesOf plan digests e =
     (if \<not> plan_kept plan e \<or> entry_id e \<in> set (app_omitted (plan_applied plan)) then []
      else case userMessageIn e of
        Some m \<Rightarrow> concat (map (\<lambda>(i, media). if mediaAvailable media then [\<lparr>image_key = imageKey e i, image_media = media\<rparr>] else [])
            (List.enumerate 0 (attachmentsOf m)))
      | None \<Rightarrow>
          (case resultBody e of
             None \<Rightarrow> []
           | Some b \<Rightarrow>
               if tr_isError b \<or> app_views (plan_applied plan) (entry_id e) \<noteq> None \<or> digests (entry_id e) \<noteq> None then []
               else concat (map (\<lambda>(i, slot). map (\<lambda>media. \<lparr>image_key = imageKey e i, image_media = media\<rparr>)
                      (toList (opt_filter mediaAvailable (mediaAt (tr_encoded b) slot))))
                    (List.enumerate 0 (get_or_else [] (tr_media b))))))"

definition takeGroup :: "int \<Rightarrow> int \<Rightarrow> inline_choice \<Rightarrow> log_image list \<Rightarrow> inline_choice" where
  "takeGroup maxImages maxChars choice grp =
     (if choice_full choice then choice
      else if choice_images choice + int (length grp) \<le> maxImages \<and> choice_chars choice + charsOf grp \<le> maxChars
      then \<lparr>choice_chosen = choice_chosen choice @ map image_key grp, choice_images = choice_images choice + int (length grp),
            choice_chars = choice_chars choice + charsOf grp, choice_full = choice_full choice\<rparr>
      else choice\<lparr>choice_full := True\<rparr>)"

definition imageGroups :: "render_plan \<Rightarrow> (string \<Rightarrow> string option) \<Rightarrow> render_options \<Rightarrow> log_image list list" where
  "imageGroups plan digests opts =
     (let entries = plan_entries plan;
          current = filter (\<lambda>e. entry_turn e = ro_currentTurn opts) entries;
          attachments = concat (map (\<lambda>e. if userMessageIn e \<noteq> None then map (\<lambda>i. [i]) (imagesOf plan digests e) else []) current);
          results = rev (filter (\<lambda>g. g \<noteq> []) (concat (map (\<lambda>e. if isResult e then [imagesOf plan digests e] else []) current)));
          older = (if ro_mediaMode opts = MediaNone then []
             else concat (map (\<lambda>e. if entry_turn e < ro_currentTurn opts then map (Pair (entry_turn e)) (imagesOf plan digests e) else []) entries));
          earlier = map (\<lambda>turn. map snd (filter (\<lambda>it. fst it = turn) older)) (rev (sort (js_distinct (map fst older))))
      in attachments @ results @ earlier)"

definition inlineChoice :: "render_plan \<Rightarrow> (string \<Rightarrow> string option) \<Rightarrow> render_options \<Rightarrow> inline_choice" where
  "inlineChoice plan digests opts =
     foldl (takeGroup (min (ro_maxImages opts) requestImages) (ro_maxChars opts)) noneChosen (imageGroups plan digests opts)"

record media_plan =
  mp_digests :: "string \<Rightarrow> string option"
  mp_inline :: "string list"

definition mediaPlan :: "render_plan \<Rightarrow> render_options \<Rightarrow> media_plan" where
  "mediaPlan plan opts =
     (let digests = (if ro_digests opts then digestsOf (plan_entries plan) else (\<lambda>_. None))
      in \<lparr>mp_digests = digests, mp_inline = choice_chosen (inlineChoice plan digests opts)\<rparr>)"

section \<open>Messages shown\<close>

definition emDash :: char where "emDash = CHR 0x97"

definition artifactLine :: "artifact_ref \<Rightarrow> string" where
  "artifactLine a = ''- '' @ (case artifact_kind a of ArtifactImage \<Rightarrow> ''image'' | ArtifactFile \<Rightarrow> ''file'') @ '' ''
     @ artifact_id a @ '' ('' @ artifact_mediaType a @ '')'' @ (case artifact_alt a of None \<Rightarrow> '''' | Some alt \<Rightarrow> '': '' @ alt)"

definition artifactLines :: "artifact_ref list \<Rightarrow> int \<Rightarrow> string" where
  "artifactLines artifacts maxImages =
     (if artifacts = [] then ''''
      else let shown = take (nat (max 0 maxImages)) artifacts; more = length artifacts - length shown
        in join [nl] (['''', ''Artifacts:''] @ map artifactLine shown
             @ (if more > 0 then [''- '' @ [ellipsis] @ '' '' @ dec_nat more @ '' more''] else [])))"

definition userRoleMessage :: "string \<Rightarrow> agent_message" where
  "userRoleMessage content = UserMsg (ContentText content) None"

definition assistantMessage :: "string \<Rightarrow> agent_message" where
  "assistantMessage t = AssistantMsg [PText t None] None"

definition userMessageContent :: "log_entry \<Rightarrow> user_message \<Rightarrow> string list \<Rightarrow> agent_message" where
  "userMessageContent e message inline =
     (let images = List.enumerate 0 (attachmentsOf message);
          sent = concat (map (\<lambda>(i, m). if imageKey e i \<in> set inline then [m] else []) images)
      in if sent = [] then userRoleMessage (userMessageText message)
         else let t = join [nl] (filter (\<lambda>l. length l > 0)
                (um_text message # concat (map (\<lambda>(i, m). if imageKey e i \<in> set inline then [] else [mediaLabel m]) images)))
           in UserMsg (ContentParts (map UMedia sent @ (if t = [] then [] else [UText t None]))) None)"

definition toolResultPart :: "log_entry \<Rightarrow> tool_result_body \<Rightarrow> string \<Rightarrow> render_options \<Rightarrow> string list \<Rightarrow> tool_result_part" where
  "toolResultPart e b t opts inline =
     (let images = map (\<lambda>(i, slot). (imageKey e i, slot, mediaAt (tr_encoded b) slot)) (List.enumerate 0 (get_or_else [] (tr_media b)));
          sent = concat (map (\<lambda>(key, slot, m). if key \<in> set inline then toList m else []) images);
          notes = filter (\<lambda>line. \<not> contains line t) (get_or_else [] (tr_mediaNotes b));
          labels = notes @ concat (map (\<lambda>(key, slot, m). if key \<in> set inline then []
             else [case m of None \<Rightarrow> slotLabel slot | Some m' \<Rightarrow> mediaLabel m']) images);
          shown = (if labels = [] then t else join [nl] (filter (\<lambda>l. length l > 0) (t # labels)))
      in \<lparr>result_id = tr_toolCallId b, result_tool = tr_toolName b,
          result_output = JStr (shown @ artifactLines (tr_artifacts b) (ro_maxImages opts)),
          result_isError = Some (tr_isError b), result_providerExecuted = None,
          result_media = (if sent = [] then None else Some sent), result_options = None\<rparr>)"

section \<open>Answering interrupted calls, joining tool messages\<close>

definition interruptedToolResult :: "tool_call_part \<Rightarrow> tool_result_part" where
  "interruptedToolResult c =
     \<lparr>result_id = call_id c, result_tool = call_tool c,
      result_output = JObj [(''error'', JStr ''ToolInterrupted''), (''message'', JStr (''This call has no recorded result. It may have run before the turn stopped. ''
        @ ''Check the current state before deciding whether to call it again.''))],
      result_isError = Some True, result_providerExecuted = None, result_media = None, result_options = None\<rparr>"

fun unansweredStep :: "tool_call_part list \<Rightarrow> agent_message \<Rightarrow> tool_call_part list" where
  "unansweredStep calls (AssistantMsg ps opts) = callsOfParts ps"
| "unansweredStep calls (UserMsg c opts) = []"
| "unansweredStep calls (ToolMsg rs opts) = filter (\<lambda>c. \<not> list_ex (\<lambda>r. result_id r = call_id c) rs) calls"

definition repairOf :: "tool_call_part list \<Rightarrow> agent_message list" where
  "repairOf calls = (if calls = [] then [] else [ToolMsg (map interruptedToolResult calls) None])"

definition answerInterruptedCalls :: "agent_message list \<Rightarrow> agent_message list" where
  "answerInterruptedCalls messages =
     (let unanswered = scan unansweredStep [] messages
      in concat (map (\<lambda>(i, m). if isToolMsg m then [m] else repairOf (unanswered ! i) @ [m]) (List.enumerate 0 messages))
           @ repairOf (unanswered ! length messages))"

text \<open>The scan's state: whether the message is a tool message, and where its run starts.\<close>

definition startStep :: "bool \<times> int \<Rightarrow> bool \<times> int \<Rightarrow> bool \<times> int" where
  "startStep previous current = (if fst current \<and> fst previous then previous else current)"

definition startsOf :: "agent_message list \<Rightarrow> (bool \<times> int) list" where
  "startsOf messages = scan startStep (False, -1) (map (\<lambda>(i, m). (isToolMsg m, int i)) (List.enumerate 0 messages))"

definition toolContent :: "agent_message \<Rightarrow> tool_result_part list" where
  "toolContent m = (case m of ToolMsg rs opts \<Rightarrow> rs | _ \<Rightarrow> [])"

definition mergeToolMessages :: "agent_message list \<Rightarrow> agent_message list" where
  "mergeToolMessages messages =
     (let starts = startsOf messages;
          startOf = (\<lambda>i. snd (starts ! (i + 1)));
          indexed = List.enumerate 0 messages;
          items = concat (map (\<lambda>(i, m). if isToolMsg m then [(startOf i, m)] else []) indexed)
      in concat (map (\<lambda>(i, m).
           if \<not> isToolMsg m then [m]
           else if startOf i \<noteq> int i then []
           else let run = filter (\<lambda>it. fst it = int i) items
             in if length run \<le> 1 then [m] else [ToolMsg (concat (map (\<lambda>it. toolContent (snd it)) run)) None]) indexed))"

section \<open>The rebuild\<close>

definition lastTextBefore :: "log_entry list \<Rightarrow> (log_entry \<Rightarrow> bool) \<Rightarrow> int \<Rightarrow> nat \<Rightarrow> string option" where
  "lastTextBefore ordered visible turn index =
     at_last (concat (map (\<lambda>(i, e).
        if i < index \<and> entry_turn e = turn \<and> visible e then toList (Option.bind (messageOf e) assistantText) else [])
       (List.enumerate 0 ordered)))"

definition shownEntry :: "render_options \<Rightarrow> render_plan \<Rightarrow> media_plan \<Rightarrow> log_entry list \<Rightarrow> nat \<Rightarrow> log_entry \<Rightarrow> agent_message list" where
  "shownEntry opts plan mp ordered index e = (case entry_body e of
      TurnStarted m \<Rightarrow> if plan_kept plan e then [userMessageContent e m (mp_inline mp)] else []
    | TurnContext sid v t \<Rightarrow>
        if plan_kept plan e \<and> (ro_turnContext opts = AllContexts \<or> entry_turn e = ro_currentTurn opts) then [userRoleMessage t] else []
    | Message m run inbox \<Rightarrow>
        if \<not> plan_messageVisible plan e then []
        else [case userMessageIn e of None \<Rightarrow> m | Some um \<Rightarrow> userMessageContent e um (mp_inline mp)]
    | ToolResult b \<Rightarrow>
        if \<not> plan_resultVisible plan e then []
        else [ToolMsg [toolResultPart e b
               (get_or_else (tr_view b) (or_else (app_views (plan_applied plan) (entry_id e)) (mp_digests mp (entry_id e))))
               opts (mp_inline mp)] None]
    | TurnEnded oc reply \<Rightarrow>
        if \<not> ro_replies opts \<or> \<not> plan_kept plan e then []
        else (case reply of None \<Rightarrow> []
              | Some r \<Rightarrow> if r = [] \<or> lastTextBefore ordered (plan_messageVisible plan) (entry_turn e) index = Some r then []
                     else [assistantMessage r])
    | _ \<Rightarrow> [])"

definition stepTail :: "render_options \<Rightarrow> log_entry list \<Rightarrow> agent_message list" where
  "stepTail opts entries =
     (if ro_stepContext opts = NoContext then []
      else case at_last (concat (map (\<lambda>e. case entry_body e of
             StepContext step run t \<Rightarrow> if entry_runId e = ro_currentRun opts \<and> run = ro_run opts then [t] else []
           | _ \<Rightarrow> []) entries)) of
        None \<Rightarrow> [] | Some t \<Rightarrow> [userRoleMessage t])"

record rendered =
  rd_messages :: "agent_message list"
  rd_stableMessages :: nat
  rd_compactions :: "string list"

definition renderedContext :: "log_entry list \<Rightarrow> render_options \<Rightarrow> rendered" where
  "renderedContext stored opts =
     (let plan = visiblePlanOf stored opts;
          mp = mediaPlan plan opts;
          ordered = exchangesOrdered (plan_entries plan);
          body = concat (map (\<lambda>(i, e). shownEntry opts plan mp ordered i e) (List.enumerate 0 ordered));
          tail = stepTail opts (plan_entries plan);
          messages = mergeToolMessages (answerInterruptedCalls (toList (app_preamble (plan_applied plan)) @ body @ tail))
      in \<lparr>rd_messages = messages, rd_stableMessages = length messages - length tail, rd_compactions = app_ids (plan_applied plan)\<rparr>)"

definition renderLog :: "log_entry list \<Rightarrow> render_options \<Rightarrow> agent_message list" where
  "renderLog stored opts = rd_messages (renderedContext stored opts)"

definition entriesSendingMedia :: "log_entry list \<Rightarrow> render_options \<Rightarrow> string list" where
  "entriesSendingMedia stored opts =
     (let plan = visiblePlanOf stored opts; mp = mediaPlan plan opts
      in concat (map (\<lambda>e. if list_ex (\<lambda>i. image_key i \<in> set (mp_inline mp)) (imagesOf plan (mp_digests mp) e) then [entry_id e] else [])
           (plan_entries plan)))"

record built_context =
  built_messages :: "agent_message list"
  built_stableMessages :: nat
  built_fingerprint :: string
  built_estimatedTokens :: int
  built_compactions :: "string list"
  built_through :: "string option"

definition buildContext :: "log_entry list \<Rightarrow> render_options \<Rightarrow> built_context" where
  "buildContext entries opts =
     (let r = renderedContext entries opts
      in \<lparr>built_messages = rd_messages r, built_stableMessages = rd_stableMessages r,
          built_fingerprint = fingerprintOf (canonicalJson (JArr (map (elideMediaData \<circ> messageJson) (rd_messages r)))),
          built_estimatedTokens = estimateMessageTokens (rd_messages r), built_compactions = rd_compactions r,
          built_through = map_option entry_id (at_last entries)\<rparr>)"

section \<open>The repair as a recursion\<close>

text \<open>The same two passes without indices: what the proofs work on.\<close>

fun answerFrom :: "tool_call_part list \<Rightarrow> agent_message list \<Rightarrow> agent_message list" where
  "answerFrom calls [] = repairOf calls"
| "answerFrom calls (m # ms) = (if isToolMsg m then [m] else repairOf calls @ [m]) @ answerFrom (unansweredStep calls m) ms"

function mergeRuns :: "agent_message list \<Rightarrow> agent_message list" where
  "mergeRuns [] = []"
| "mergeRuns (m # ms) =
     (if \<not> isToolMsg m then m # mergeRuns ms
      else (if takeWhile isToolMsg ms = [] then m
            else ToolMsg (concat (map toolContent (m # takeWhile isToolMsg ms))) None) # mergeRuns (dropWhile isToolMsg ms))"
  by pat_completeness auto
termination
  by (relation "measure length") (auto simp: le_imp_less_Suc length_dropWhile_le)

lemma enumerate_zip: "length xs = length ms \<Longrightarrow> map (\<lambda>(i, m). g (xs ! (i - n)) m) (List.enumerate n ms) = map2 g xs ms"
  by (rule nth_equalityI) (simp_all add: nth_enumerate_eq)

lemma answerInterruptedCalls_rec: "answerInterruptedCalls ms = answerFrom [] ms"
proof -
  have gen: "concat (map2 (\<lambda>u m. if isToolMsg m then [m] else repairOf u @ [m]) (butlast (scan unansweredStep calls ms)) ms)
      @ repairOf (last (scan unansweredStep calls ms)) = answerFrom calls ms" for calls
  proof (induction ms arbitrary: calls)
    case (Cons m ms)
    have "scan unansweredStep (unansweredStep calls m) ms \<noteq> []" by (cases ms) auto
    with Cons [of "unansweredStep calls m"] show ?case by simp
  qed simp
  have len: "length (butlast (scan unansweredStep [] ms)) = length ms" by simp
  have "map (\<lambda>(i, m). if isToolMsg m then [m] else repairOf (scan unansweredStep [] ms ! i) @ [m]) (List.enumerate 0 ms)
      = map2 (\<lambda>u m. if isToolMsg m then [m] else repairOf u @ [m]) (butlast (scan unansweredStep [] ms)) ms"
    by (rule nth_equalityI) (auto simp: nth_enumerate_eq nth_butlast)
  moreover have "scan unansweredStep [] ms ! length ms = last (scan unansweredStep [] ms)"
    by (subst last_conv_nth) (auto simp flip: length_greater_0_conv)
  ultimately show ?thesis using gen [of "[]"] by (simp add: answerInterruptedCalls_def Let_def)
qed

text \<open>Where the runs start, as a recursion.\<close>

fun startsFrom :: "nat \<Rightarrow> bool \<times> int \<Rightarrow> agent_message list \<Rightarrow> int list" where
  "startsFrom k p [] = []"
| "startsFrom k p (m # ms) =
     snd (startStep p (isToolMsg m, int k)) # startsFrom (Suc k) (startStep p (isToolMsg m, int k)) ms"

lemma length_startsFrom [simp]: "length (startsFrom k p ms) = length ms"
  by (induction ms arbitrary: k p) auto

lemma startsFrom_scan: "i < length ms \<Longrightarrow>
    snd (scan startStep p (map (\<lambda>(i, m). (isToolMsg m, int i)) (List.enumerate k ms)) ! Suc i) = startsFrom k p ms ! i"
proof (induction ms arbitrary: k p i)
  case (Cons m ms)
  then show ?case by (cases i) auto
qed simp

lemma startsFrom_ge: "k0 \<le> snd p \<Longrightarrow> k0 \<le> int k \<Longrightarrow> s \<in> set (startsFrom k p ms) \<Longrightarrow> k0 \<le> s"
proof (induction ms arbitrary: k p)
  case (Cons m ms)
  then have q: "k0 \<le> snd (startStep p (isToolMsg m, int k))" by (simp add: startStep_def)
  from Cons.prems(2) have "k0 \<le> int (Suc k)" by simp
  with q Cons.IH [OF q this] Cons.prems(3) show ?case by auto
qed simp

lemma startsFrom_ge_reset:
  "\<not> fst p \<or> ms = [] \<or> \<not> isToolMsg (hd ms) \<Longrightarrow> \<forall>s \<in> set (startsFrom k p ms). int k \<le> s"
proof (cases ms)
  case (Cons m ms')
  assume "\<not> fst p \<or> ms = [] \<or> \<not> isToolMsg (hd ms)"
  with Cons have q: "startStep p (isToolMsg m, int k) = (isToolMsg m, int k)" by (auto simp: startStep_def)
  have "\<forall>s \<in> set (startsFrom (Suc k) (isToolMsg m, int k) ms'). int k \<le> s" 
    using startsFrom_ge [of "int k" "(isToolMsg m, int k)" "Suc k"] by auto
  with Cons q show ?thesis by simp
qed simp

lemma startsFrom_run: "\<forall>m \<in> set u. isToolMsg m \<Longrightarrow>
    startsFrom k (True, j) (u @ v) = replicate (length u) j @ startsFrom (k + length u) (True, j) v"
  by (induction u arbitrary: k) (auto simp: startStep_def)

definition emit :: "(int \<times> agent_message) list \<Rightarrow> nat \<Rightarrow> int \<Rightarrow> agent_message \<Rightarrow> agent_message list" where
  "emit L i s m = (if \<not> isToolMsg m then [m] else if s \<noteq> int i then []
     else let run = filter (\<lambda>it. isToolMsg (snd it) \<and> fst it = int i) L
       in if length run \<le> 1 then [m] else [ToolMsg (concat (map (toolContent \<circ> snd) run)) None])"

definition emitAll :: "(int \<times> agent_message) list \<Rightarrow> nat \<Rightarrow> int list \<Rightarrow> agent_message list \<Rightarrow> agent_message list" where
  "emitAll L k ss ms = concat (map (\<lambda>(i, s, m). emit L i s m) (List.enumerate k (zip ss ms)))"

lemma emitAll_Cons [simp]: "emitAll L k (s # ss) (m # ms) = emit L k s m @ emitAll L (Suc k) ss ms"
  by (simp add: emitAll_def)

lemma emitAll_Nil [simp]: "emitAll L k [] ms = []" "emitAll L k ss [] = []"
  by (simp_all add: emitAll_def)

lemma emitAll_skip: "\<forall>m \<in> set u. isToolMsg m \<Longrightarrow> j < int k \<Longrightarrow>
    emitAll L k (replicate (length u) j @ ss) (u @ v) = emitAll L (k + length u) ss v"
  by (induction u arbitrary: k) (auto simp: emit_def)

lemma zip_startsFrom: "zip (startsFrom k p (m # ms)) (m # ms) =
    (snd (startStep p (isToolMsg m, int k)), m) # zip (startsFrom (Suc k) (startStep p (isToolMsg m, int k)) ms) ms"
  by simp

lemma emitAll_mergeRuns:
  "\<forall>x \<in> set pre. fst x < int k \<Longrightarrow> \<not> fst p \<or> ms = [] \<or> \<not> isToolMsg (hd ms) \<Longrightarrow>
     emitAll (pre @ zip (startsFrom k p ms) ms) k (startsFrom k p ms) ms = mergeRuns ms"
proof (induction ms arbitrary: pre k p rule: mergeRuns.induct)
  case (2 m ms)
  show ?case
  proof (cases "isToolMsg m")
    case False
    then have "startStep p (isToolMsg m, int k) = (False, int k)" by (simp add: startStep_def)
    with False 2(1) [OF False, of "pre @ [(int k, m)]" "Suc k" "(False, int k)"] "2.prems"(1) show ?thesis
      by (force simp: emit_def)
  next
    case True
    define u v where "u = takeWhile isToolMsg ms" and "v = dropWhile isToolMsg ms"
    have ms: "ms = u @ v" and u: "\<forall>m \<in> set u. isToolMsg m" and v: "v = [] \<or> \<not> isToolMsg (hd v)"
      using hd_dropWhile [of isToolMsg ms] unfolding u_def v_def by (auto dest: set_takeWhileD)
    from True "2.prems"(2) have q: "startStep p (isToolMsg m, int k) = (True, int k)" by (simp add: startStep_def)
    let ?k = "Suc k + length u" let ?S = "startsFrom ?k (True, int k) v"
    let ?pre = "pre @ (int k, m) # zip (replicate (length u) (int k)) u"
    have starts: "startsFrom k p (m # ms) = int k # replicate (length u) (int k) @ ?S"
      using startsFrom_run [OF u, of "Suc k" "int k" v] by (simp add: q ms)
    have L: "pre @ zip (startsFrom k p (m # ms)) (m # ms) = ?pre @ zip ?S v"
      unfolding starts by (simp add: ms zip_append)
    have "\<forall>x \<in> set ?pre. fst x < int ?k" using "2.prems"(1)
      by (force dest: set_zip_leftD)
    from 2(2) [of ?pre ?k "(True, int k)"] True this v
    have rest: "emitAll (?pre @ zip ?S v) ?k ?S v = mergeRuns v" by (simp add: v_def)
    have "\<forall>x \<in> set (zip ?S v). int k < fst x"
      using startsFrom_ge_reset [of "(True, int k)" v ?k] v by (fastforce dest: set_zip_leftD)
    moreover have "filter (\<lambda>it. isToolMsg (snd it) \<and> fst it = int k) (zip (replicate (length u) (int k)) u) = zip (replicate (length u) (int k)) u"
      using u by (auto simp: filter_id_conv dest: set_zip_rightD set_zip_leftD)
    moreover have "filter (\<lambda>it. isToolMsg (snd it) \<and> fst it = int k) pre = []"
      using "2.prems"(1) by (auto simp: filter_empty_conv)
    ultimately have run: "filter (\<lambda>it. isToolMsg (snd it) \<and> fst it = int k) (?pre @ zip ?S v) = (int k, m) # zip (replicate (length u) (int k)) u"
      using True by (auto simp: filter_empty_conv)
    have "map (toolContent \<circ> snd) (zip (replicate (length u) (int k)) u) = map toolContent u"
      by (simp flip: map_map)
    with run have head: "emit (?pre @ zip ?S v) k (int k) m = [if u = [] then m else ToolMsg (concat (map toolContent (m # u))) None]"
      using True by (simp add: emit_def Let_def)
    have "emitAll (?pre @ zip ?S v) k (startsFrom k p (m # ms)) (m # ms)
        = emit (?pre @ zip ?S v) k (int k) m @ emitAll (?pre @ zip ?S v) ?k ?S v"
      unfolding starts by (simp add: ms emitAll_skip [OF u])
    with head rest L True show ?thesis by (simp add: u_def v_def)
  qed
qed simp

lemma mergeToolMessages_rec: "mergeToolMessages ms = mergeRuns ms"
proof -
  let ?S = "startsFrom 0 (False, -1) ms"
  have st: "snd (startsOf ms ! Suc i) = ?S ! i" if "i < length ms" for i
    using startsFrom_scan [OF that, of "(False, -1)" 0] by (simp add: startsOf_def)
  have "concat (map (\<lambda>(i, m). if isToolMsg m then [(snd (startsOf ms ! (i + 1)), m)] else []) (List.enumerate 0 ms))
      = filter (\<lambda>it. isToolMsg (snd it)) (zip ?S ms)"
  proof -
    have "map (\<lambda>(i, m). if isToolMsg m then [(snd (startsOf ms ! (i + 1)), m)] else []) (List.enumerate 0 ms)
        = map (\<lambda>it. if isToolMsg (snd it) then [it] else []) (zip ?S ms)"
      by (rule nth_equalityI) (auto simp: nth_enumerate_eq st)
    moreover have "concat (map (\<lambda>it. if P it then [it] else []) xs) = filter P xs" for P and xs :: "'b list"
      by (induction xs) auto
    ultimately show ?thesis by simp
  qed
  note items = this
  have "mergeToolMessages ms = emitAll (zip ?S ms) 0 ?S ms"
    unfolding mergeToolMessages_def Let_def items emitAll_def
    by (rule arg_cong [of _ _ concat], rule nth_equalityI)
      (auto simp: nth_enumerate_eq st emit_def comp_def Let_def conj_commute)
  then show ?thesis using emitAll_mergeRuns [of "[]" 0 "(False, -1)" ms] by simp
qed

section \<open>What a provider is sent\<close>

definition resultIds :: "agent_message list \<Rightarrow> string set" where
  "resultIds ms = (\<Union>m \<in> set ms. result_id ` set (toolContent m))"

definition leadIds :: "agent_message list \<Rightarrow> string set" where
  "leadIds ms = resultIds (takeWhile isToolMsg ms)"

lemma leadIds_simps [simp]:
  "leadIds [] = {}"
  "leadIds (m # ms) = (if isToolMsg m then result_id ` set (toolContent m) \<union> leadIds ms else {})"
  by (auto simp add: leadIds_def resultIds_def)

text \<open>
  The requests of a message list are answered: each assistant message that calls a tool is followed
  by one tool message with a result for each of its calls.
\<close>

fun answered :: "agent_message list \<Rightarrow> bool" where
  "answered [] = True"
| "answered (m # ms) \<longleftrightarrow> answered ms
     \<and> set (toolCallIds m) \<subseteq> (case ms of [] \<Rightarrow> {} | m' # _ \<Rightarrow> result_id ` set (toolContent m'))"

fun answeredByLead :: "agent_message list \<Rightarrow> bool" where
  "answeredByLead [] = True"
| "answeredByLead (m # ms) \<longleftrightarrow> answeredByLead ms \<and> set (toolCallIds m) \<subseteq> leadIds ms"

fun noneAdjacent :: "agent_message list \<Rightarrow> bool" where
  "noneAdjacent (m # m' # ms) \<longleftrightarrow> \<not> (isToolMsg m \<and> isToolMsg m') \<and> noneAdjacent (m' # ms)"
| "noneAdjacent _ = True"

lemma toolContent_repair: "result_id ` set (toolContent (ToolMsg (map interruptedToolResult calls) o')) = call_id ` set calls"
  by (force simp: toolContent_def interruptedToolResult_def)

lemma answerFrom_answers:
  "call_id ` set calls \<subseteq> leadIds (answerFrom calls ms) \<and> answeredByLead (answerFrom calls ms)"
proof (induction ms arbitrary: calls)
  case Nil
  have "toolCallIds (ToolMsg rs opts) = []" for rs opts by (simp add: toolCallIds_def)
  then show ?case using toolContent_repair [of calls] by (simp add: repairOf_def)
next
  case (Cons m ms)
  note IH = Cons [of "unansweredStep calls m"]
  have tool: "toolCallIds (ToolMsg rs opts) = []" for rs opts by (simp add: toolCallIds_def)
  have user: "toolCallIds (UserMsg c opts) = []" for c opts by (simp add: toolCallIds_def)
  show ?case
  proof (cases m)
    case (ToolMsg rs opts)
    have "call_id ` set calls \<subseteq> result_id ` set rs \<union> call_id ` set (unansweredStep calls m)"
      unfolding ToolMsg by (force simp: list_ex_iff)
    also have "\<dots> \<subseteq> result_id ` set rs \<union> leadIds (answerFrom (unansweredStep calls m) ms)" using IH by blast
    finally show ?thesis using IH tool ToolMsg by (simp add: toolContent_def del: unansweredStep.simps)
  next
    case (UserMsg c opts)
    with IH user tool toolContent_repair [of calls] show ?thesis by (auto simp: repairOf_def)
  next
    case (AssistantMsg ps opts)
    then have "set (toolCallIds m) = call_id ` set (unansweredStep calls m)" by (simp add: toolCallIds_def)
    with IH AssistantMsg tool toolContent_repair [of calls] show ?thesis by (auto simp: repairOf_def)
  qed
qed

lemma result_ids_run: "result_id ` set (concat (map toolContent ms)) = resultIds ms"
  by (auto simp: resultIds_def)

lemma toolContent_ToolMsg [simp]: "toolContent (ToolMsg rs o') = rs"
  by (simp add: toolContent_def)

lemma mergeRuns_lead: "leadIds ms = (case mergeRuns ms of [] \<Rightarrow> {} | m # _ \<Rightarrow> result_id ` set (toolContent m))"
proof (cases ms)
  case (Cons m ms')
  show ?thesis
  proof (cases "isToolMsg m")
    case False
    then have "toolContent m = []" by (cases m) (auto simp: toolContent_def)
    with False Cons show ?thesis by simp
  next
    case True
    with Cons show ?thesis by (auto simp: leadIds_def resultIds_def)
  qed
qed simp

lemma answeredByLead_drop: "answeredByLead ms \<Longrightarrow> answeredByLead (dropWhile P ms)"
  by (induction ms) auto

lemma mergeRuns_answered: "answeredByLead ms \<Longrightarrow> answered (mergeRuns ms)"
proof (induction ms rule: mergeRuns.induct)
  case (2 m ms)
  show ?case
  proof (cases "isToolMsg m")
    case False
    with 2 mergeRuns_lead [of ms] show ?thesis by simp
  next
    case True
    then have "toolCallIds m = []" by (cases m) (auto simp: toolCallIds_def)
    moreover have "toolCallIds (ToolMsg rs o') = []" for rs o' by (simp add: toolCallIds_def)
    moreover have "answered (mergeRuns (dropWhile isToolMsg ms))"
      using 2(2) True "2.prems" answeredByLead_drop by simp
    ultimately show ?thesis using True by simp
  qed
qed simp

lemma mergeRuns_hd: "ms \<noteq> [] \<Longrightarrow> mergeRuns ms \<noteq> [] \<and> isToolMsg (hd (mergeRuns ms)) = isToolMsg (hd ms)"
  by (cases ms) auto

lemma mergeRuns_separate: "noneAdjacent (mergeRuns ms)"
proof (induction ms rule: mergeRuns.induct)
  case (2 m ms)
  have cons: "noneAdjacent (x # xs)" if "noneAdjacent xs" "\<not> isToolMsg x \<or> xs = [] \<or> \<not> isToolMsg (hd xs)" for x xs
    using that by (cases xs) auto
  show ?case
  proof (cases "isToolMsg m")
    case False
    with 2(1) show ?thesis by (simp add: cons)
  next
    case True
    have "mergeRuns (dropWhile isToolMsg ms) = [] \<or> \<not> isToolMsg (hd (mergeRuns (dropWhile isToolMsg ms)))"
      using hd_dropWhile [of isToolMsg ms] mergeRuns_hd [of "dropWhile isToolMsg ms"]
      by (cases "dropWhile isToolMsg ms = []") (simp_all del: dropWhile_eq_Nil_conv)
    with True 2(2) show ?thesis by (simp add: cons)
  qed
qed simp

lemma mergeRuns_keeps:
  "filter (\<lambda>m. \<not> isToolMsg m) (mergeRuns ms) = filter (\<lambda>m. \<not> isToolMsg m) ms
   \<and> concat (map toolContent (mergeRuns ms)) = concat (map toolContent ms)"
proof (induction ms rule: mergeRuns.induct)
  case (2 m ms)
  show ?case
  proof (cases "isToolMsg m")
    case False
    with 2(1) show ?thesis by simp
  next
    case True
    have "ms = takeWhile isToolMsg ms @ dropWhile isToolMsg ms" by simp
    then have "filter (\<lambda>m. \<not> isToolMsg m) ms = filter (\<lambda>m. \<not> isToolMsg m) (dropWhile isToolMsg ms)"
      "concat (map toolContent ms) = concat (map toolContent (takeWhile isToolMsg ms)) @ concat (map toolContent (dropWhile isToolMsg ms))"
      by (metis filter_False append_self_conv2 filter_append set_takeWhileD, metis concat_append map_append)
    with True 2(2) show ?thesis by simp
  qed
qed simp

lemma answerFrom_snoc_user: "\<exists>ys. answerFrom calls (ms @ [UserMsg c o']) = ys @ [UserMsg c o']"
  by (induction ms arbitrary: calls) (auto simp: repairOf_def, (metis append_Cons append_assoc)+)

lemma mergeRuns_snoc_user: "mergeRuns (ms @ [UserMsg c o']) = mergeRuns ms @ [UserMsg c o']"
proof (induction ms rule: mergeRuns.induct)
  case (2 m ms)
  have "takeWhile isToolMsg (ms @ [UserMsg c o']) = takeWhile isToolMsg ms"
    "dropWhile isToolMsg (ms @ [UserMsg c o']) = dropWhile isToolMsg ms @ [UserMsg c o']"
    by (induction ms) auto
  with 2 show ?case by (cases "isToolMsg m") auto
qed simp

lemma stepTail_cases: "stepTail opts es = [] \<or> (\<exists>t. stepTail opts es = [userRoleMessage t])"
  by (auto simp: stepTail_def split: option.split)

section \<open>Image budgets\<close>

definition choice_ok :: "int \<Rightarrow> int \<Rightarrow> log_image list list \<Rightarrow> inline_choice \<Rightarrow> bool" where
  "choice_ok maxImages maxChars taken c \<longleftrightarrow> choice_chosen c = map image_key (concat taken)
     \<and> choice_images c = int (length (concat taken)) \<and> choice_chars c = charsOf (concat taken)
     \<and> choice_images c \<le> maxImages \<and> choice_chars c \<le> maxChars"

lemma charsOf_from: "foldl (\<lambda>sum i. sum + int (length (media_data (image_media i)))) a xs = a + charsOf xs"
  unfolding charsOf_def by (induction xs rule: rev_induct) auto

lemma charsOf_append: "charsOf (xs @ ys) = charsOf xs + charsOf ys"
proof -
  have "charsOf (xs @ ys) = foldl (\<lambda>sum i. sum + int (length (media_data (image_media i)))) (charsOf xs) ys"
    by (simp add: charsOf_def)
  also have "\<dots> = charsOf xs + charsOf ys" by (rule charsOf_from)
  finally show ?thesis .
qed

lemma takeGroup_full: "choice_full c \<Longrightarrow> foldl (takeGroup mi mc) c gs = c"
  by (induction gs) (auto simp: takeGroup_def)

lemma takeGroups_ok: "choice_ok mi mc taken c \<Longrightarrow>
    \<exists>n. choice_ok mi mc (taken @ take n gs) (foldl (takeGroup mi mc) c gs)"
proof (induction gs arbitrary: taken c)
  case (Cons g gs)
  show ?case
  proof (cases "choice_full (takeGroup mi mc c g)")
    case True
    then have "choice_ok mi mc taken (takeGroup mi mc c g)"
      using Cons.prems by (auto simp: takeGroup_def choice_ok_def split: if_splits)
    with True show ?thesis by (intro exI [of _ 0]) (simp add: takeGroup_full)
  next
    case False
    then have "choice_ok mi mc (taken @ [g]) (takeGroup mi mc c g)"
      using Cons.prems by (auto simp: takeGroup_def choice_ok_def charsOf_append split: if_splits)
    from Cons.IH [OF this] obtain n where
      "choice_ok mi mc ((taken @ [g]) @ take n gs) (foldl (takeGroup mi mc) (takeGroup mi mc c g) gs)" ..
    then show ?thesis by (intro exI [of _ "Suc n"]) simp
  qed
qed auto

section \<open>Properties\<close>

text \<open>
  C4. Every request the model is sent is well formed: in any render of any log, each assistant
  message that calls tools is followed at once by one tool message holding a result for each of
  its calls, recorded or answered as interrupted, and no two tool messages are adjacent.
\<close>
theorem render_answers_every_call:
  "answered (renderLog stored opts) \<and> noneAdjacent (renderLog stored opts)"
  by (simp add: renderLog_def renderedContext_def Let_def mergeToolMessages_rec answerInterruptedCalls_rec
      mergeRuns_answered answerFrom_answers mergeRuns_separate)

text \<open>
  The linear pass that joins tool messages is the plain recursion that joins each run of them,
  and it loses nothing: the other messages are kept in order, and so is every tool result.
\<close>
theorem merging_keeps_every_result:
  "mergeToolMessages ms = mergeRuns ms
   \<and> filter (\<lambda>m. \<not> isToolMsg m) (mergeToolMessages ms) = filter (\<lambda>m. \<not> isToolMsg m) ms
   \<and> concat (map toolContent (mergeToolMessages ms)) = concat (map toolContent ms)"
  by (simp add: mergeToolMessages_rec mergeRuns_keeps)

text \<open>
  The stable prefix of a render ends exactly where the step context begins: dropping
  \<open>stableMessages\<close> messages leaves the selected step context alone, and the prefix is never longer
  than the messages.
\<close>
theorem stable_prefix_ends_at_the_step_context:
  "rd_stableMessages (renderedContext stored opts) \<le> length (rd_messages (renderedContext stored opts))
   \<and> drop (rd_stableMessages (renderedContext stored opts)) (rd_messages (renderedContext stored opts))
      = stepTail opts (plan_entries (visiblePlanOf stored opts))"
proof -
  let ?tail = "stepTail opts (plan_entries (visiblePlanOf stored opts))"
  obtain xs where r: "rd_messages (renderedContext stored opts) = mergeToolMessages (answerInterruptedCalls (xs @ ?tail))"
    "rd_stableMessages (renderedContext stored opts) = length (mergeToolMessages (answerInterruptedCalls (xs @ ?tail))) - length ?tail"
    unfolding renderedContext_def Let_def by (simp flip: append_assoc)
  consider "?tail = []" | t where "?tail = [userRoleMessage t]" using stepTail_cases by blast
  then show ?thesis
  proof cases
    case 2
    obtain ys where "answerFrom [] (xs @ [UserMsg (ContentText t) None]) = ys @ [UserMsg (ContentText t) None]"
      using answerFrom_snoc_user by blast
    with r 2 show ?thesis
      by (simp add: userRoleMessage_def mergeToolMessages_rec answerInterruptedCalls_rec mergeRuns_snoc_user)
  qed (simp add: r)
qed

text \<open>
  Images sent stay within the request's budget: with caps that are not negative, the images a
  render chooses are whole groups from the front of its order (the current turn's first), at most
  the configured number, never more than \<open>MEDIA_LIMITS.requestImages\<close>, and within the configured
  base64 characters.
\<close>
theorem images_stay_within_the_budget:
  assumes "0 \<le> ro_maxImages opts" "0 \<le> ro_maxChars opts"
  shows "\<exists>n. let chosen = concat (take n (imageGroups plan digests opts)) in
      choice_chosen (inlineChoice plan digests opts) = map image_key chosen
      \<and> int (length chosen) \<le> ro_maxImages opts \<and> int (length chosen) \<le> requestImages
      \<and> charsOf chosen \<le> ro_maxChars opts"
proof -
  let ?mi = "min (ro_maxImages opts) requestImages"
  have "choice_ok ?mi (ro_maxChars opts) [] noneChosen"
    using assms by (simp add: choice_ok_def noneChosen_def charsOf_def requestImages_def)
  from takeGroups_ok [OF this, of "imageGroups plan digests opts"] obtain n where
    "choice_ok ?mi (ro_maxChars opts) (take n (imageGroups plan digests opts)) (inlineChoice plan digests opts)"
    by (auto simp: inlineChoice_def)
  then show ?thesis by (intro exI [of _ n]) (auto simp: choice_ok_def Let_def)
qed

theorem images_stay_within_the_budget_witness:
  "\<exists>n. let chosen = concat (take n (imageGroups (renderPlanOf sampleLog ''s'') (\<lambda>_. None)
        \<lparr>ro_strategy = ''s'', ro_currentTurn = 1, ro_currentRun = ''r'', ro_run = 0, ro_turnContext = CurrentContext,
         ro_replies = True, ro_stepContext = TailContext, ro_digests = False, ro_mediaMode = MediaInline, ro_maxImages = 8, ro_maxChars = 100\<rparr>)) in
      int (length chosen) \<le> 8 \<and> charsOf chosen \<le> 100"
  using images_stay_within_the_budget [of "\<lparr>ro_strategy = ''s'', ro_currentTurn = 1, ro_currentRun = ''r'', ro_run = 0, ro_turnContext = CurrentContext,
         ro_replies = True, ro_stepContext = TailContext, ro_digests = False, ro_mediaMode = MediaInline, ro_maxImages = 8, ro_maxChars = 100\<rparr>"
      "renderPlanOf sampleLog ''s''" "\<lambda>_. None"]
  by (auto simp: Let_def)

end
