(* ===== verification/TurnWriter.thy ===== *)
theory TurnWriter
  imports Vocabulary
begin

text \<open>
  The open turn's writer (\<open>plugin-sessions/src/turn-writer.entity.ts\<close> and
  \<open>turn-writer.entity.functions.ts\<close>): its phase and the pure transitions the adapter applies to
  it under \<open>Ref.modify\<close>, with \<open>replyEndingOf\<close> of
  \<open>core/src/session/session-event.entity.functions.ts\<close>. A refused transition returns the stopped
  phase that refuses it (\<open>Inl\<close>); \<open>writerStep\<close> is the adapter's application of a transition: the
  phase moves only when it is admitted. The lemmas show that a stop is final, that an end under
  way seals admission, and that a sealed turn ends with the ending it was sealed with.
\<close>

named_theorems writer_simps "unfolding the writer's transitions"

section \<open>The ending a held reply implies\<close>

definition TurnReplyKind :: string where
  "TurnReplyKind = ''turn.reply''"

fun decodeOutcome :: "json \<Rightarrow> outcome_kind option" where
  "decodeOutcome (JStr s) =
     (if s = ''completed'' then Some OutCompleted
      else if s = ''partial'' then Some OutPartial
      else if s = ''failed'' then Some OutFailed
      else if s = ''waiting'' then Some OutWaiting
      else None)"
| "decodeOutcome _ = None"

fun fieldOf :: "string \<Rightarrow> json \<Rightarrow> json option" where
  "fieldOf k (JObj fs) = map_of fs k"
| "fieldOf k _ = None"

definition decodeReplyOutcome :: "json \<Rightarrow> outcome_kind option" where
  "decodeReplyOutcome j =
     Option.bind (fieldOf ''body'' j) (\<lambda>b. Option.bind (fieldOf ''outcome'' b) decodeOutcome)"

definition replyEndingOf :: "draft list \<Rightarrow> turn_ending option" where
  "replyEndingOf drafts =
     Option.bind (at_last (filter (\<lambda>d. draft_kind d = TurnReplyKind) drafts)) (\<lambda>d.
     Option.bind (decodeReplyOutcome (draft_data d)) (\<lambda>out.
       if out = OutFailed then None
       else Some \<lparr>ending_reason = reason_of_outcome out, ending_failure = None\<rparr>))"

section \<open>The phase\<close>

text \<open>
  \<open>WOpen tried attempted closing sealed\<close>, \<open>WEnding tried ending attempted closing sealed\<close>, and
  the three phases that take no more writes.
\<close>

datatype writer_phase =
    WOpen bool "turn_ending option" "draft list" "turn_ending option"
  | WEnding bool turn_ending "turn_ending option" "draft list" "turn_ending option"
  | WFailed turn_error
  | WClosed closed_reason
  | WEnded int

datatype end_step = Start writer_phase | Share | Stored int

definition ended_refusal :: writer_phase where
  "ended_refusal = WClosed ByEnded"

definition opened :: writer_phase where
  "opened = WOpen False None [] None"

fun isStopped :: "writer_phase \<Rightarrow> bool" where
  "isStopped (WFailed e) = True"
| "isStopped (WClosed r) = True"
| "isStopped _ = False"

fun isLive :: "writer_phase \<Rightarrow> bool" where
  "isLive (WOpen t a c s) = True"
| "isLive (WEnding t e a c s) = True"
| "isLive _ = False"

definition stopped :: "writer_phase \<Rightarrow> writer_phase option" where
  "stopped p = (if isStopped p then Some p else None)"

fun stopOf :: "turn_error \<Rightarrow> writer_phase" where
  "stopOf (TurnClosed r) = WClosed r"
| "stopOf e = WFailed e"

section \<open>The transitions\<close>

fun admit :: "writer_phase \<Rightarrow> bool \<Rightarrow> writer_phase + writer_phase" where
  "admit (WOpen t a c s) tries = Inr (if tries then WOpen True a c s else WOpen t a c s)"
| "admit (WEnding t e a c s) tries = Inl ended_refusal"
| "admit (WFailed e) tries = Inl (WFailed e)"
| "admit (WClosed r) tries = Inl (WClosed r)"
| "admit (WEnded n) tries = Inl ended_refusal"

fun hold :: "writer_phase \<Rightarrow> draft list \<Rightarrow> writer_phase + writer_phase" where
  "hold (WOpen t a c s) closing = Inr (WOpen (t \<or> length closing > 0) a closing s)"
| "hold (WEnding t e a c s) closing = Inl ended_refusal"
| "hold (WFailed e) closing = Inl (WFailed e)"
| "hold (WClosed r) closing = Inl (WClosed r)"
| "hold (WEnded n) closing = Inl ended_refusal"

fun beginEnd :: "writer_phase \<Rightarrow> turn_ending \<Rightarrow> writer_phase + end_step" where
  "beginEnd (WOpen t a c s) ending = Inr (Start (WEnding t (get_or_else ending s) a c s))"
| "beginEnd (WEnding t e a c s) ending = Inr Share"
| "beginEnd (WFailed e) ending = Inl (WFailed e)"
| "beginEnd (WClosed r) ending = Inl (WClosed r)"
| "beginEnd (WEnded n) ending = Inr (Stored n)"

fun withdrawEnd :: "writer_phase \<Rightarrow> writer_phase" where
  "withdrawEnd (WEnding t e a c s) = WOpen t a c s"
| "withdrawEnd p = p"

record end_plan =
  plan_tried :: bool
  plan_closing :: "draft list"

fun endPlanOf :: "writer_phase \<Rightarrow> writer_phase + end_plan" where
  "endPlanOf (WOpen t a c s) = Inr \<lparr>plan_tried = t, plan_closing = c\<rparr>"
| "endPlanOf (WEnding t e a c s) = Inr \<lparr>plan_tried = t, plan_closing = c\<rparr>"
| "endPlanOf (WFailed e) = Inl (WFailed e)"
| "endPlanOf (WClosed r) = Inl (WClosed r)"
| "endPlanOf (WEnded n) = Inl ended_refusal"

fun endSettled :: "writer_phase \<Rightarrow> (int, turn_error) exit \<Rightarrow> writer_phase" where
  "endSettled (WOpen t a c s) (ExitSuccess n) = WEnded n"
| "endSettled (WOpen t a c s) (ExitFailure rs) = WOpen t a c s"
| "endSettled (WEnding t e a c s) (ExitSuccess n) = WEnded n"
| "endSettled (WEnding t e a c s) (ExitFailure rs) =
     (case opt_filter is_turn_closed (first_error rs) of
        Some (TurnClosed r) \<Rightarrow> WClosed r
      | _ \<Rightarrow> WOpen t (Some e) c s)"
| "endSettled p exit = p"

definition latch :: "writer_phase \<Rightarrow> turn_error \<Rightarrow> writer_phase" where
  "latch p e = (if isLive p then stopOf e else p)"

fun close :: "writer_phase \<Rightarrow> closed_reason \<Rightarrow> writer_phase + writer_phase" where
  "close (WEnded n) r = Inl ended_refusal"
| "close p r = Inr (if isLive p then WClosed r else p)"

fun markTried :: "writer_phase \<Rightarrow> writer_phase" where
  "markTried (WOpen t a c s) = WOpen True a c s"
| "markTried (WEnding t e a c s) = WEnding True e a c s"
| "markTried p = p"

definition unended :: "('a, 'e) exit \<Rightarrow> turn_ending" where
  "unended exit =
     (if exit_interrupts exit
      then \<lparr>ending_reason = Interrupted,
            ending_failure = Some \<lparr>failure_code = ''turn.interrupted'',
              failure_message = ''the turn's scope was interrupted before it ended''\<rparr>\<rparr>
      else \<lparr>ending_reason = Failed,
            ending_failure = Some \<lparr>failure_code = ''turn.unended'',
              failure_message = ''the turn's scope closed before it ended''\<rparr>\<rparr>)"

fun scopeEnding :: "writer_phase \<Rightarrow> ('a, 'e) exit \<Rightarrow> turn_ending option" where
  "scopeEnding (WOpen t a c s) exit =
     Some (get_or_else (unended exit) (or_else (or_else s a) (replyEndingOf c)))"
| "scopeEnding (WEnding t e a c s) exit = Some e"
| "scopeEnding _ exit = None"

fun sealWith :: "writer_phase \<Rightarrow> turn_ending \<Rightarrow> writer_phase + writer_phase" where
  "sealWith (WOpen t a c s) ending = Inr (if s \<noteq> None then WOpen t a c s else WOpen t a c (Some ending))"
| "sealWith (WEnding t e a c s) ending = Inl ended_refusal"
| "sealWith (WFailed e) ending = Inl (WFailed e)"
| "sealWith (WClosed r) ending = Inl (WClosed r)"
| "sealWith (WEnded n) ending = Inl ended_refusal"

fun sealedEnding :: "writer_phase \<Rightarrow> turn_ending option" where
  "sealedEnding (WOpen t a c s) = s"
| "sealedEnding (WEnding t e a c s) = s"
| "sealedEnding _ = None"

record sealed_turn =
  sealed_ending :: turn_ending
  sealed_closing :: "draft list"

fun sealable :: "writer_phase \<Rightarrow> sealed_turn option" where
  "sealable (WOpen t a c s) =
     map_option (\<lambda>e. \<lparr>sealed_ending = e, sealed_closing =
         map (\<lambda>d. \<lparr>draft_kind = draft_kind d, draft_data = draft_data d\<rparr>)
           (filter (\<lambda>d. draft_kind d \<noteq> ''memory.snapshot'') c)\<rparr>)
       (opt_filter (\<lambda>e. ending_reason e = Completed \<or> ending_reason e = Partial) (replyEndingOf c))"
| "sealable _ = None"

section \<open>The machine the adapter runs\<close>

datatype writer_event =
    EvAdmit bool
  | EvHold "draft list"
  | EvBeginEnd turn_ending
  | EvWithdraw
  | EvSettled "(int, turn_error) exit"
  | EvLatch turn_error
  | EvClose closed_reason
  | EvMarkTried
  | EvSeal turn_ending

text \<open>\<open>transition\<close> and \<open>closeBy\<close> of the adapter: a refusal leaves the phase as it was.\<close>

fun keepOn :: "writer_phase \<Rightarrow> writer_phase + writer_phase \<Rightarrow> writer_phase" where
  "keepOn p (Inl stop) = p"
| "keepOn p (Inr q) = q"

fun writerStep :: "writer_phase \<Rightarrow> writer_event \<Rightarrow> writer_phase" where
  "writerStep p (EvAdmit tries) = keepOn p (admit p tries)"
| "writerStep p (EvHold c) = keepOn p (hold p c)"
| "writerStep p (EvBeginEnd e) = (case beginEnd p e of Inr (Start q) \<Rightarrow> q | _ \<Rightarrow> p)"
| "writerStep p EvWithdraw = withdrawEnd p"
| "writerStep p (EvSettled exit) = endSettled p exit"
| "writerStep p (EvLatch e) = latch p e"
| "writerStep p (EvClose r) = keepOn p (close p r)"
| "writerStep p EvMarkTried = markTried p"
| "writerStep p (EvSeal e) = keepOn p (sealWith p e)"

definition writerRun :: "writer_phase \<Rightarrow> writer_event list \<Rightarrow> writer_phase" where
  "writerRun p es = foldl writerStep p es"

text \<open>The \<open>TurnError\<close> a caller sees for a refusal (\<open>refusal\<close> of the adapter).\<close>

fun refusal :: "writer_phase \<Rightarrow> turn_error" where
  "refusal (WFailed e) = e"
| "refusal (WClosed r) = TurnClosed r"
| "refusal _ = TurnClosed ByEnded"

section \<open>A stop is final\<close>

lemma stopOf_simps [simp]:
  "isStopped (stopOf e)" "\<not> isLive (stopOf e)" "sealedEnding (stopOf e) = None"
  by (cases e; simp)+

lemma endSettled_WOpen [writer_simps]:
  "endSettled (WOpen t a c s) x = (case x of ExitSuccess n \<Rightarrow> WEnded n | ExitFailure rs \<Rightarrow> WOpen t a c s)"
  by (cases x) simp_all

lemma endSettled_WEnding [writer_simps]:
  "endSettled (WEnding t e a c s) x =
     (case x of ExitSuccess n \<Rightarrow> WEnded n
      | ExitFailure rs \<Rightarrow>
          (case first_error rs of Some (TurnClosed r) \<Rightarrow> WClosed r | _ \<Rightarrow> WOpen t (Some e) c s))"
  by (cases x) (auto split: option.splits turn_error.splits)

lemma endSettled_over [writer_simps]: "\<not> isLive p \<Longrightarrow> endSettled p x = p"
  by (cases p) simp_all

lemmas writer_cases_splits = exit.splits option.splits turn_error.splits if_splits

fun isOver :: "writer_phase \<Rightarrow> bool" where
  "isOver (WEnded n) = True"
| "isOver p = isStopped p"

lemma isOver_iff_not_live: "isOver p \<longleftrightarrow> \<not> isLive p"
  by (cases p) simp_all

lemma writerStep_over: "isOver p \<Longrightarrow> writerStep p e = p"
  by (cases p; cases e) (simp_all add: latch_def)

interpretation writer_over: absorbing_machine writerStep isOver
  by unfold_locales (rule writerStep_over)

text \<open>What a refused transition returns is always a stopped phase.\<close>

lemma refusals_stopped:
  "admit p b = Inl q \<Longrightarrow> isStopped q"
  "hold p c = Inl q \<Longrightarrow> isStopped q"
  "beginEnd p e = Inl q \<Longrightarrow> isStopped q"
  "endPlanOf p = Inl q \<Longrightarrow> isStopped q"
  "sealWith p e = Inl q \<Longrightarrow> isStopped q"
  "close p r = Inl q \<Longrightarrow> isStopped q"
  by (cases p; auto simp: ended_refusal_def)+

section \<open>Sealing\<close>

text \<open>
  An end under way of a sealed turn stores the sealed ending: what \<open>beginEnd\<close> starts keeps the
  seal and takes its ending from it, and no transition of an ending writer changes either.
\<close>

fun sealAgrees :: "writer_phase \<Rightarrow> bool" where
  "sealAgrees (WEnding t e a c s) \<longleftrightarrow> (case s of None \<Rightarrow> True | Some s' \<Rightarrow> e = s')"
| "sealAgrees _ \<longleftrightarrow> True"

lemma sealAgrees_not_live: "\<not> isLive p \<Longrightarrow> sealAgrees p"
  by (cases p) simp_all

lemma sealAgrees_opened: "sealAgrees opened"
  by (simp add: opened_def)

lemma sealAgrees_step: "sealAgrees p \<Longrightarrow> sealAgrees (writerStep p e)"
  by (cases p; cases e)
    (auto simp: latch_def sealAgrees_not_live writer_simps split: writer_cases_splits)

interpretation writer_seal: invariant_machine writerStep sealAgrees
  by unfold_locales (rule sealAgrees_step)

lemma sealed_step:
  "sealedEnding p = Some s \<Longrightarrow> isLive (writerStep p e) \<Longrightarrow> sealedEnding (writerStep p e) = Some s"
  by (cases p; cases e)
    (auto simp: latch_def writer_simps split: writer_cases_splits)

lemma live_before: "isLive (foldl writerStep p es) \<Longrightarrow> isLive p"
  using writer_over.halted_run [of p es] by (cases "isLive p") (auto simp: isOver_iff_not_live)

lemma sealed_run:
  "sealedEnding p = Some s \<Longrightarrow> isLive (writerRun p es) \<Longrightarrow> sealedEnding (writerRun p es) = Some s"
  unfolding writerRun_def
proof (induction es arbitrary: p)
  case (Cons e es)
  then have "isLive (writerStep p e)" by (auto dest: live_before)
  with Cons.prems(1) have "sealedEnding (writerStep p e) = Some s" by (rule sealed_step)
  with Cons show ?case by simp
qed simp

section \<open>Ending\<close>

lemma only_success_ends:
  "writerStep p e = WEnded n \<Longrightarrow> p = WEnded n \<or> isLive p \<and> e = EvSettled (ExitSuccess n)"
  by (cases p; cases e)
    (auto simp: latch_def writer_simps split: writer_cases_splits elim: stopOf.elims)

lemma first_stop_wins:
  "isLive p \<Longrightarrow> writerRun p (EvLatch e # es) = stopOf e"
  "isLive p \<Longrightarrow> writerRun p (EvClose r # es) = WClosed r"
  using writer_over.halted_run [of "stopOf e" es] writer_over.halted_run [of "WClosed r" es]
  by (cases p; auto simp: writerRun_def latch_def isOver_iff_not_live)+

lemma ended_run_split:
  "foldl writerStep p es = WEnded n \<Longrightarrow> isLive p \<Longrightarrow>
     \<exists>es1 es2. es = es1 @ EvSettled (ExitSuccess n) # es2 \<and> isLive (foldl writerStep p es1)"
proof (induction es arbitrary: p)
  case (Cons e es)
  show ?case
  proof (cases "isLive (writerStep p e)")
    case True
    with Cons.IH [of "writerStep p e"] Cons.prems obtain es1 es2 where
      "es = es1 @ EvSettled (ExitSuccess n) # es2" "isLive (foldl writerStep (writerStep p e) es1)"
      by auto
    then show ?thesis by (intro exI [of _ "e # es1"] exI [of _ es2]) simp
  next
    case False
    then have "foldl writerStep (writerStep p e) es = writerStep p e"
      by (simp add: writer_over.halted_run isOver_iff_not_live)
    with Cons.prems have "writerStep p e = WEnded n" by simp
    with Cons.prems(2) have "e = EvSettled (ExitSuccess n)" by (auto dest!: only_success_ends)
    with Cons.prems(2) show ?thesis by (intro exI [of _ "[]"] exI [of _ es]) simp
  qed
qed simp

section \<open>Properties\<close>

text \<open>
  C6. A sealed turn has one ending: once the final reply sealed an open writer with an ending,
  then whatever the writer is asked and told afterwards (other endings given to \<open>end\<close>, second
  seals, refused or withdrawn ends), as long as it is live every end it starts and the scope's own
  end store exactly the sealed ending.
\<close>
theorem sealed_turn_has_one_ending:
  assumes "sealedEnding (writerRun opened es) = Some s"
    and "isLive (writerRun opened (es @ es'))"
  shows "scopeEnding (writerRun opened (es @ es')) exit = Some s
    \<and> (\<forall>e q. beginEnd (writerRun opened (es @ es')) e = Inr (Start q) \<longrightarrow> scopeEnding q exit' = Some s)"
proof -
  let ?p = "writerRun opened (es @ es')"
  have "sealedEnding ?p = Some s"
    using sealed_run [OF assms(1), of es'] assms(2) by (simp add: writerRun_def)
  moreover have "sealAgrees ?p"
    unfolding writerRun_def by (rule writer_seal.inv_run [OF sealAgrees_opened])
  ultimately show ?thesis by (cases ?p) auto
qed

definition sampleReply :: draft where
  "sampleReply = \<lparr>draft_kind = ''turn.reply'',
     draft_data = JObj [(''body'', JObj [(''outcome'', JStr ''completed'')])]\<rparr>"

definition sampleEnding :: turn_ending where
  "sampleEnding = \<lparr>ending_reason = Completed, ending_failure = None\<rparr>"

theorem sealed_turn_has_one_ending_witness:
  "scopeEnding (writerRun opened ([EvHold [sampleReply], EvSeal sampleEnding] @
      [EvBeginEnd (unended (ExitFailure [InterruptReason] :: (int, turn_error) exit)),
       EvSettled (ExitFailure [FailReason (SessionContended 8)])]))
     (ExitSuccess 0 :: (int, turn_error) exit) = Some sampleEnding"
  using sealed_turn_has_one_ending [of "[EvHold [sampleReply], EvSeal sampleEnding]" sampleEnding
      "[EvBeginEnd (unended (ExitFailure [InterruptReason] :: (int, turn_error) exit)),
        EvSettled (ExitFailure [FailReason (SessionContended 8)])]"
      "ExitSuccess 0 :: (int, turn_error) exit"]
  by (simp add: writerRun_def opened_def)

text \<open>
  A writer has ended only if one of its ends was stored: from an open writer, the phase is
  \<open>Ended\<close> with \<open>n\<close> items left pending exactly when some end's commit settled as stored with \<open>n\<close>
  while the writer was live, and everything after that stored end left the phase as it was.
\<close>
theorem ended_only_by_a_stored_end:
  "writerRun opened es = WEnded n \<longleftrightarrow>
     (\<exists>es1 es2. es = es1 @ EvSettled (ExitSuccess n) # es2 \<and> isLive (writerRun opened es1))"
proof
  assume "writerRun opened es = WEnded n"
  then show "\<exists>es1 es2. es = es1 @ EvSettled (ExitSuccess n) # es2 \<and> isLive (writerRun opened es1)"
    unfolding writerRun_def by (rule ended_run_split) (simp add: opened_def)
next
  assume "\<exists>es1 es2. es = es1 @ EvSettled (ExitSuccess n) # es2 \<and> isLive (writerRun opened es1)"
  then obtain es1 es2 where es: "es = es1 @ EvSettled (ExitSuccess n) # es2"
    and "isLive (writerRun opened es1)" by blast
  then have "endSettled (writerRun opened es1) (ExitSuccess n) = WEnded n"
    by (cases "writerRun opened es1") simp_all
  with es show "writerRun opened es = WEnded n"
    using writer_over.halted_run [of "WEnded n" es2] by (simp add: writerRun_def)
qed

text \<open>
  An end that is not stored is not lost: while an end is under way every write, hold and
  seal is refused as ended and every other end shares it; when its commit fails other than by the
  turn's being closed, the writer is open again with the same drafts held, and the scope's own
  end stores that same ending (the sealed one, when the turn was sealed).
\<close>
theorem refused_end_is_tried_again:
  assumes "writerRun opened es = WEnding t e a c s"
    and "\<forall>err. first_error rs = Some err \<longrightarrow> \<not> is_turn_closed err"
  shows "admit (writerRun opened es) b = Inl (WClosed ByEnded)
    \<and> hold (writerRun opened es) c' = Inl (WClosed ByEnded)
    \<and> sealWith (writerRun opened es) e' = Inl (WClosed ByEnded)
    \<and> beginEnd (writerRun opened es) e' = Inr Share
    \<and> endPlanOf (writerRun opened (es @ [EvSettled (ExitFailure rs)])) = endPlanOf (writerRun opened es)
    \<and> scopeEnding (writerRun opened (es @ [EvSettled (ExitFailure rs)])) exit = Some e"
proof -
  have agrees: "sealAgrees (WEnding t e a c s)"
    using writer_seal.inv_run [OF sealAgrees_opened, of es] assms(1) by (simp add: writerRun_def)
  have reopened: "endSettled (WEnding t e a c s) (ExitFailure rs) = WOpen t (Some e) c s"
    using assms(2) by (auto simp: writer_simps split: option.splits turn_error.splits)
  then have "writerRun opened (es @ [EvSettled (ExitFailure rs)]) = WOpen t (Some e) c s"
    using assms(1) by (simp add: writerRun_def)
  with assms(1) agrees show ?thesis
    by (cases s) (auto simp: ended_refusal_def)
qed

theorem refused_end_is_tried_again_witness:
  "scopeEnding (writerRun opened ([EvHold [sampleReply], EvBeginEnd sampleEnding] @
      [EvSettled (ExitFailure [FailReason (SessionContended 8)])]))
     (ExitFailure [InterruptReason] :: (int, turn_error) exit) = Some sampleEnding"
  using refused_end_is_tried_again [of "[EvHold [sampleReply], EvBeginEnd sampleEnding]" True
      sampleEnding None "[sampleReply]" None "[FailReason (SessionContended 8)]" True "[]"
      sampleEnding "ExitFailure [InterruptReason] :: (int, turn_error) exit"]
  by (simp add: writerRun_def opened_def)

end
