(* ===== verification/SessionLog.thy ===== *)
theory SessionLog
  imports Vocabulary "HOL-Library.Char_ord" "HOL-Library.List_Lexorder"
begin

text \<open>
  The session log (\<open>core/src/session/session-log.entity.ts\<close>) and the store that keeps it in memory
  (\<open>session-log.memory.adapter.ts\<close>): each operation as one step on the store, as \<open>Ref.modify\<close>
  applies it. The clock and the minted incarnation of a create are arguments. A store is the list
  of its sessions in insertion order, as a \<open>Map\<close> is iterated.

  Copies the adapter makes of stored JSON are the identity on values; what it encodes is JSON
  already (\<open>json\<close>), so \<open>store.encode\<close> does not arise. \<open>LogFailed\<close> is the code and message of a
  \<open>SessionLogError\<close>, which a store on disk may answer and this one never does.
\<close>

section \<open>What is stored\<close>

record lineage =
  lin_id :: string
  lin_through :: int
  lin_turnAtFork :: int

record session_header =
  hdr_id :: string
  hdr_owner :: string
  hdr_origin :: string
  hdr_createdAt :: int
  hdr_meta :: json
  hdr_parent :: "lineage option"

record stored_head =
  head_header :: session_header
  head_incarnation :: string
  head_seq :: int
  head_revision :: int
  head_state :: json
  head_updatedAt :: int

text \<open>A head as read: the stored head, and the storage clock then.\<close>

type_synonym session_head = "stored_head \<times> int"

record session_draft =
  sd_kind :: string
  sd_turn :: "int option"
  sd_data :: json

record log_event =
  ev_session :: string
  ev_seq :: int
  ev_turn :: "int option"
  ev_kind :: string
  ev_at :: int
  ev_data :: json

record session_commit =
  cm_expect :: int
  cm_notAfter :: "int option"
  cm_events :: "session_draft list"
  cm_state :: "json option"
  cm_incarnation :: "string option"

record session_committed =
  cd_revision :: int
  cd_seq :: int
  cd_events :: "log_event list"
  cd_at :: int

datatype read_end = FromStart | FromEnd

record read_query =
  rq_after :: int
  rq_through :: "int option"
  rq_limit :: "int option"
  rq_kinds :: "string list"
  rq_from :: read_end

record list_cursor =
  cur_updatedAt :: int
  cur_id :: string

record list_query =
  lq_owner :: string
  lq_limit :: int
  lq_before :: "list_cursor option"
  lq_parent :: "string option"

datatype log_error =
    SessionMissing string
  | SessionExists string
  | RevisionConflict string int int
  | LeaseExpired string int int
  | LogFailed string string

record stored_session =
  st_head :: stored_head
  st_events :: "log_event list"

type_synonym store = "(string \<times> stored_session) list"

section \<open>Operations\<close>

definition put :: "string \<Rightarrow> stored_session \<Rightarrow> store \<Rightarrow> store" where
  "put i s all = (if map_of all i = None then all @ [(i, s)] else map (\<lambda>(k, v). if k = i then (k, s) else (k, v)) all)"

definition create :: "int \<Rightarrow> string \<Rightarrow> session_header \<Rightarrow> store \<Rightarrow> (log_error + session_head) \<times> store" where
  "create at minted header all =
     (if map_of all (hdr_id header) \<noteq> None then (Inl (SessionExists (hdr_id header)), all)
      else case Option.bind (hdr_parent header) (\<lambda>p. if map_of all (lin_id p) = None then Some (lin_id p) else None) of
        Some missing \<Rightarrow> (Inl (SessionMissing missing), all)
      | None \<Rightarrow>
          (let head = \<lparr>head_header = header, head_incarnation = minted, head_seq = 0, head_revision = 0,
               head_state = JObj [], head_updatedAt = at\<rparr>
           in (Inr (head, at), put (hdr_id header) \<lparr>st_head = head, st_events = []\<rparr> all)))"

definition readHead :: "int \<Rightarrow> string \<Rightarrow> store \<Rightarrow> log_error + session_head" where
  "readHead at i all = (case map_of all i of None \<Rightarrow> Inl (SessionMissing i) | Some s \<Rightarrow> Inr (st_head s, at))"

definition olderThan :: "list_cursor \<Rightarrow> stored_head \<Rightarrow> bool" where
  "olderThan c h \<longleftrightarrow> head_updatedAt h < cur_updatedAt c
     \<or> (head_updatedAt h = cur_updatedAt c \<and> hdr_id (head_header h) < cur_id c)"

definition listSessions :: "int \<Rightarrow> list_query \<Rightarrow> store \<Rightarrow> session_head list" where
  "listSessions at q all =
     (let heads = filter (\<lambda>h. hdr_owner (head_header h) = lq_owner q
            \<and> (case lq_parent q of None \<Rightarrow> hdr_parent (head_header h) = None
               | Some p \<Rightarrow> opt_exists (\<lambda>l. lin_id l = p) (hdr_parent (head_header h)))
            \<and> (case lq_before q of None \<Rightarrow> True | Some c \<Rightarrow> olderThan c h)) (map (st_head \<circ> snd) all);
          sorted_heads = rev (sort_key (\<lambda>h. head_updatedAt h) (sort_key (\<lambda>h. hdr_id (head_header h)) heads))
      in map (\<lambda>h. (h, at)) (take (nat (max 0 (lq_limit q))) sorted_heads))"

definition readEvents :: "string \<Rightarrow> read_query \<Rightarrow> store \<Rightarrow> log_error + log_event list" where
  "readEvents i q all = (case map_of all i of
      None \<Rightarrow> Inl (SessionMissing i)
    | Some s \<Rightarrow>
        (let events = filter (\<lambda>e. ev_seq e > rq_after q \<and> (case rq_through q of None \<Rightarrow> True | Some t \<Rightarrow> ev_seq e \<le> t)
               \<and> (rq_kinds q = [] \<or> ev_kind e \<in> set (rq_kinds q))) (st_events s)
         in Inr (case rq_limit q of
               None \<Rightarrow> events
             | Some limit \<Rightarrow> (case rq_from q of
                   FromEnd \<Rightarrow> drop (length events - nat (max 0 limit)) events
                 | FromStart \<Rightarrow> take (nat (max 0 limit)) events))))"

definition stampEvents :: "string \<Rightarrow> int \<Rightarrow> int \<Rightarrow> session_draft list \<Rightarrow> log_event list" where
  "stampEvents i seq at drafts = map (\<lambda>(index, d). \<lparr>ev_session = i, ev_seq = seq + int index + 1, ev_turn = sd_turn d,
     ev_kind = sd_kind d, ev_at = at, ev_data = sd_data d\<rparr>) (List.enumerate 0 drafts)"

definition commitEvents :: "int \<Rightarrow> string \<Rightarrow> session_commit \<Rightarrow> store \<Rightarrow> (log_error + session_committed) \<times> store" where
  "commitEvents at i c all = (case map_of all i of
      None \<Rightarrow> (Inl (SessionMissing i), all)
    | Some s \<Rightarrow>
        (let h = st_head s in
         if (case cm_incarnation c of None \<Rightarrow> False | Some n \<Rightarrow> n \<noteq> head_incarnation h) then (Inl (SessionMissing i), all)
         else if head_revision h \<noteq> cm_expect c then (Inl (RevisionConflict i (cm_expect c) (head_revision h)), all)
         else case opt_filter (\<lambda>n. at > n) (cm_notAfter c) of
           Some n \<Rightarrow> (Inl (LeaseExpired i n at), all)
         | None \<Rightarrow>
             (let events = stampEvents i (head_seq h) at (cm_events c);
                  head = h\<lparr>head_seq := head_seq h + int (length events), head_revision := head_revision h + 1,
                     head_state := get_or_else (head_state h) (cm_state c), head_updatedAt := at\<rparr>
              in (Inr \<lparr>cd_revision = head_revision head, cd_seq = head_seq head, cd_events = events, cd_at = at\<rparr>,
                  put i \<lparr>st_head = head, st_events = st_events s @ events\<rparr> all))))"

text \<open>
  \<open>withDescendants\<close> adds children until nothing is added: the set grows within the ids asked for
  and the sessions stored, which bounds the recursion.
\<close>

definition childrenOf :: "store \<Rightarrow> string list \<Rightarrow> string list" where
  "childrenOf all ids = concat (map (\<lambda>(i, s). case hdr_parent (head_header (st_head s)) of
     None \<Rightarrow> [] | Some p \<Rightarrow> if lin_id p \<in> set ids then [i] else []) all)"

function withDescendants :: "store \<Rightarrow> string list \<Rightarrow> string list" where
  "withDescendants all ids =
     (let next = remdups (ids @ childrenOf all ids)
      in if length next = length (remdups ids) then ids else withDescendants all next)"
  by pat_completeness auto
termination
proof (relation "measure (\<lambda>(all, ids). card (set (map fst all) - set ids))")
  fix all ids next'
  assume n: "next' = remdups (ids @ childrenOf all ids)" and new: "length next' \<noteq> length (remdups ids)"
  have sub: "set (childrenOf all ids) \<subseteq> set (map fst all)"
    by (auto simp: childrenOf_def split: option.splits if_splits) (force)
  have "set next' \<noteq> set ids"
    using new n by (metis distinct_remdups length_remdups_card_conv remdups_remdups set_remdups)
  with n obtain x where "x \<in> set (childrenOf all ids)" "x \<notin> set ids" by auto
  with sub n have "set (map fst all) - set next' \<subset> set (map fst all) - set ids" by auto
  then have "card (set (map fst all) - set next') < card (set (map fst all) - set ids)"
    by (intro psubset_card_mono) auto
  then show "((all, next'), (all, ids)) \<in> measure (\<lambda>(all, ids). card (set (map fst all) - set ids))" by simp
qed simp

declare withDescendants.simps [simp del]

definition removeSession :: "string \<Rightarrow> store \<Rightarrow> store" where
  "removeSession i all = filter (\<lambda>(k, v). k \<notin> set (withDescendants all [i])) all"

section \<open>The store as a machine\<close>

text \<open>The operations that change the store, each with the clock and the incarnation it is run with.\<close>

datatype log_op =
    OpCreate int string session_header
  | OpCommit int string session_commit
  | OpRemove string

fun logStep :: "store \<Rightarrow> log_op \<Rightarrow> store" where
  "logStep all (OpCreate at minted header) = snd (create at minted header all)"
| "logStep all (OpCommit at i c) = snd (commitEvents at i c all)"
| "logStep all (OpRemove i) = removeSession i all"

text \<open>
  A well formed store: one entry per id, each session's events its own, numbered densely from 1 up
  to the head's sequence number, and no session without the parent it was forked from.
\<close>

definition session_ok :: "string \<Rightarrow> stored_session \<Rightarrow> bool" where
  "session_ok i s \<longleftrightarrow> hdr_id (head_header (st_head s)) = i
     \<and> head_seq (st_head s) = int (length (st_events s))
     \<and> map ev_seq (st_events s) = map (\<lambda>n. int n + 1) [0..<length (st_events s)]
     \<and> (\<forall>e \<in> set (st_events s). ev_session e = i)
     \<and> 0 \<le> head_revision (st_head s)"

definition parents_ok :: "store \<Rightarrow> bool" where
  "parents_ok all \<longleftrightarrow> (\<forall>(i, s) \<in> set all. case hdr_parent (head_header (st_head s)) of
     None \<Rightarrow> True | Some p \<Rightarrow> lin_id p \<in> fst ` set all)"

definition store_ok :: "store \<Rightarrow> bool" where
  "store_ok all \<longleftrightarrow> distinct (map fst all) \<and> (\<forall>(i, s) \<in> set all. session_ok i s) \<and> parents_ok all"

lemma events_positive: "session_ok i s \<Longrightarrow> e \<in> set (st_events s) \<Longrightarrow> 0 < ev_seq e"
proof -
  assume "session_ok i s" "e \<in> set (st_events s)"
  then have "ev_seq e \<in> set (map (\<lambda>n. int n + 1) [0..<length (st_events s)])" by (metis image_eqI list.set_map session_ok_def)
  then show ?thesis by auto
qed

lemma map_of_put: "map_of (put i s all) k = (if k = i then Some s else map_of all k)"
proof (cases "map_of all i")
  case None
  then show ?thesis by (auto simp: put_def map_add_def split: option.split)
next
  case (Some v)
  have "map_of (map (\<lambda>(k, v). if k = i then (k, s) else (k, v)) all) k = (if k = i then map_option (\<lambda>_. s) (map_of all k) else map_of all k)"
    by (induction all) auto
  with Some show ?thesis by (auto simp: put_def)
qed

lemma keys_put: "map fst (put i s all) = (if map_of all i = None then map fst all @ [i] else map fst all)"
proof -
  have "map fst (map (\<lambda>(k, v). if k = i then (k, s) else (k, v)) all) = map fst all" by (induction all) auto
  then show ?thesis by (auto simp: put_def)
qed

lemma distinct_put: "distinct (map fst all) \<Longrightarrow> distinct (map fst (put i s all))"
  unfolding keys_put by (auto simp: map_of_eq_None_iff)

lemma set_put:
  assumes "distinct (map fst all)"
  shows "set (put i s all) = {(k, v). (k, v) \<in> set all \<and> k \<noteq> i} \<union> {(i, s)}"
proof -
  have "(k, v) \<in> set (put i s all) \<longleftrightarrow> (k = i \<and> v = s) \<or> (k \<noteq> i \<and> (k, v) \<in> set all)" for k v
  proof -
    have "(k, v) \<in> set (put i s all) \<longleftrightarrow> map_of (put i s all) k = Some v"
      using distinct_put [OF assms] by (simp add: map_of_eq_Some_iff)
    then show ?thesis using assms by (auto simp: map_of_put map_of_eq_Some_iff)
  qed
  then show ?thesis by auto
qed

text \<open>An accepted commit, and why a refused one was refused.\<close>

definition acceptable :: "int \<Rightarrow> session_commit \<Rightarrow> stored_head \<Rightarrow> bool" where
  "acceptable at c h \<longleftrightarrow> (case cm_incarnation c of None \<Rightarrow> True | Some n \<Rightarrow> n = head_incarnation h)
     \<and> head_revision h = cm_expect c \<and> (case cm_notAfter c of None \<Rightarrow> True | Some n \<Rightarrow> at \<le> n)"

lemma commitEvents_cases:
  obtains e where "commitEvents at i c all = (Inl e, all)"
      "\<forall>s. map_of all i = Some s \<longrightarrow> \<not> acceptable at c (st_head s)"
  | s where "map_of all i = Some s" "acceptable at c (st_head s)"
    "commitEvents at i c all =
       (Inr \<lparr>cd_revision = head_revision (st_head s) + 1, cd_seq = head_seq (st_head s) + int (length (cm_events c)),
          cd_events = stampEvents i (head_seq (st_head s)) at (cm_events c), cd_at = at\<rparr>,
        put i \<lparr>st_head = (st_head s)\<lparr>head_seq := head_seq (st_head s) + int (length (cm_events c)),
              head_revision := head_revision (st_head s) + 1,
              head_state := get_or_else (head_state (st_head s)) (cm_state c), head_updatedAt := at\<rparr>,
            st_events = st_events s @ stampEvents i (head_seq (st_head s)) at (cm_events c)\<rparr> all)"
proof (cases "map_of all i")
  case None
  then show thesis by (intro that(1)) (simp_all add: commitEvents_def)
next
  case (Some s)
  show thesis
  proof (cases "acceptable at c (st_head s)")
    case True
    with Some show thesis
      by (intro that(2) [OF Some True])
        (auto simp: commitEvents_def acceptable_def stampEvents_def Let_def split: option.splits)
  next
    case False
    then have "\<exists>e. commitEvents at i c all = (Inl e, all)"
      using Some by (auto simp: commitEvents_def acceptable_def Let_def split: option.splits)
    with False Some show thesis using that(1) by auto
  qed
qed

lemma stampEvents_seq: "map ev_seq (stampEvents i seq at ds) = map (\<lambda>n. seq + int n + 1) [0..<length ds]"
  by (rule nth_equalityI) (simp_all add: stampEvents_def nth_enumerate_eq)

lemma session_ok_append:
  assumes "session_ok i s"
  shows "session_ok i \<lparr>st_head = (st_head s)\<lparr>head_seq := head_seq (st_head s) + int (length ds),
      head_revision := head_revision (st_head s) + 1, head_state := j, head_updatedAt := at\<rparr>,
      st_events = st_events s @ stampEvents i (head_seq (st_head s)) at ds\<rparr>"
proof -
  have "map (\<lambda>n. int n + 1) [0..<length (st_events s) + length ds]
      = map (\<lambda>n. int n + 1) [0..<length (st_events s)] @ map (\<lambda>n. int (length (st_events s)) + int n + 1) [0..<length ds]"
    by (rule nth_equalityI) (auto simp: nth_append)
  with assms show ?thesis
    by (auto simp: session_ok_def stampEvents_seq) (auto simp: stampEvents_def)
qed

lemma parents_ok_put:
  assumes "parents_ok all" "distinct (map fst all)" "map_of all i = Some s"
    "head_header (st_head s') = head_header (st_head s)"
  shows "parents_ok (put i s' all)"
proof -
  have keys: "fst ` set (put i s' all) = fst ` set all"
    using keys_put [of i s' all] assms(3) by (metis list.set_map option.distinct(1))
  have "(i, s) \<in> set all" using assms(3) by (rule map_of_SomeD)
  have "case hdr_parent (head_header (st_head t)) of None \<Rightarrow> True | Some p \<Rightarrow> lin_id p \<in> fst ` set all"
    if "(k, t) \<in> set (put i s' all)" for k t
    using that \<open>(i, s) \<in> set all\<close> assms(1,4) by (auto simp: parents_ok_def set_put [OF assms(2)])
  then show ?thesis unfolding parents_ok_def keys by blast
qed

lemma create_ok: "store_ok all \<Longrightarrow> store_ok (snd (create at minted header all))"
proof -
  assume ok: "store_ok all"
  let ?s = "\<lparr>st_head = \<lparr>head_header = header, head_incarnation = minted, head_seq = 0, head_revision = 0,
     head_state = JObj [], head_updatedAt = at\<rparr>, st_events = []\<rparr>"
  show ?thesis
  proof (cases "map_of all (hdr_id header) = None \<and> (\<forall>p. hdr_parent header = Some p \<longrightarrow> map_of all (lin_id p) \<noteq> None)")
    case True
    then have new: "snd (create at minted header all) = put (hdr_id header) ?s all"
      by (cases "hdr_parent header") (auto simp: create_def Let_def)
    have put: "put (hdr_id header) ?s all = all @ [(hdr_id header, ?s)]" using True by (simp add: put_def)
    have "session_ok (hdr_id header) ?s" by (simp add: session_ok_def)
    with ok True show ?thesis unfolding new put
      by (fastforce simp: store_ok_def parents_ok_def map_of_eq_None_iff split: option.splits)
  next
    case False
    with ok show ?thesis by (auto simp: create_def Let_def split: option.splits if_splits)
  qed
qed

lemma commit_ok: "store_ok all \<Longrightarrow> store_ok (snd (commitEvents at i c all))"
proof -
  assume ok: "store_ok all"
  show ?thesis
  proof (cases rule: commitEvents_cases [of at i c all])
    case (2 s)
    from 2(1) have mem: "(i, s) \<in> set all" by (rule map_of_SomeD)
    with ok have s: "session_ok i s" by (auto simp: store_ok_def)
    note new = session_ok_append [OF s, where ds = "cm_events c" and j = "get_or_else (head_state (st_head s)) (cm_state c)" and at = at]
    have d: "distinct (map fst all)" using ok by (simp add: store_ok_def)
    have "parents_ok all" using ok by (simp add: store_ok_def)
    note par = parents_ok_put [OF this d 2(1)]
    show ?thesis unfolding 2(3) snd_conv
      using ok new by (auto simp: store_ok_def set_put [OF d] distinct_put [OF d] intro: par)
  qed (use ok in simp)
qed

lemma withDescendants_closed:
  "set ids \<subseteq> set (withDescendants all ids) \<and> set (childrenOf all (withDescendants all ids)) \<subseteq> set (withDescendants all ids)"
proof (induction all ids rule: withDescendants.induct)
  case (1 all ids)
  let ?next = "remdups (ids @ childrenOf all ids)"
  show ?case
  proof (cases "length ?next = length (remdups ids)")
    case True
    then have "card (set ids \<union> set (childrenOf all ids)) = card (set ids)"
      by (simp add: length_remdups_card_conv)
    then have "set ids = set ids \<union> set (childrenOf all ids)"
      by (intro card_subset_eq) auto
    moreover have "withDescendants all ids = ids" using True by (subst withDescendants.simps) (simp add: Let_def)
    ultimately show ?thesis by auto
  next
    case False
    then have step: "withDescendants all ids = withDescendants all ?next" by (subst withDescendants.simps) (simp add: Let_def)
    from 1 [OF refl False] show ?thesis unfolding step by auto
  qed
qed

lemma remove_ok: "store_ok all \<Longrightarrow> store_ok (removeSession i all)"
proof -
  assume ok: "store_ok all"
  have kept: "fst ` set (removeSession i all) = fst ` set all - set (withDescendants all [i])"
    by (force simp: removeSession_def)
  have "case hdr_parent (head_header (st_head s)) of None \<Rightarrow> True
      | Some p \<Rightarrow> lin_id p \<in> fst ` set all - set (withDescendants all [i])" if mem: "(k, s) \<in> set (removeSession i all)" for k s
  proof (cases "hdr_parent (head_header (st_head s))")
    case (Some p)
    from mem have all: "(k, s) \<in> set all" "k \<notin> set (withDescendants all [i])" by (auto simp: removeSession_def)
    have "lin_id p \<in> fst ` set all" using ok all(1) Some by (auto simp: store_ok_def parents_ok_def split: option.splits)
    moreover have "lin_id p \<notin> set (withDescendants all [i])"
    proof
      assume "lin_id p \<in> set (withDescendants all [i])"
      with all(1) Some have "k \<in> set (childrenOf all (withDescendants all [i]))" by (force simp: childrenOf_def)
      with withDescendants_closed [of "[i]" all] all(2) show False by blast
    qed
    ultimately show ?thesis using Some by simp
  qed simp
  then have "parents_ok (removeSession i all)" unfolding parents_ok_def kept by blast
  with ok show ?thesis
    by (auto simp: store_ok_def removeSession_def distinct_map_filter)
qed

interpretation store_machine: invariant_machine logStep store_ok
proof unfold_locales
  fix s e
  assume "store_ok s"
  then show "store_ok (logStep s e)" by (cases e) (simp_all add: create_ok commit_ok remove_ok)
qed

section \<open>Stale commits\<close>

text \<open>No commit that expects at most \<open>bound\<close> of the life \<open>n\<close> of session \<open>i\<close> can land any more.\<close>

definition fenced :: "string \<Rightarrow> string \<Rightarrow> int \<Rightarrow> store \<Rightarrow> bool" where
  "fenced i n bound all \<longleftrightarrow> (\<forall>s. map_of all i = Some s \<longrightarrow> head_incarnation (st_head s) \<noteq> n \<or> bound < head_revision (st_head s))"

fun mints :: "string \<Rightarrow> log_op \<Rightarrow> bool" where
  "mints n (OpCreate at minted header) \<longleftrightarrow> minted = n"
| "mints n _ \<longleftrightarrow> False"

lemma map_of_removed: "map_of (removeSession i all) k = (if k \<in> set (withDescendants all [i]) then None else map_of all k)"
proof -
  have "map_of (filter (\<lambda>(k, v). k \<notin> D) all) k = (if k \<in> D then None else map_of all k)" for D
    by (induction all) auto
  then show ?thesis by (simp add: removeSession_def)
qed

lemma fenced_step: "fenced i n bound all \<Longrightarrow> \<not> mints n op \<Longrightarrow> fenced i n bound (logStep all op)"
proof (cases op)
  case (OpCreate at minted header)
  assume "fenced i n bound all" "\<not> mints n op"
  with OpCreate show ?thesis
    by (auto simp: create_def Let_def fenced_def map_of_put split: option.splits)
next
  case (OpCommit at j c)
  assume f: "fenced i n bound all"
  show ?thesis
  proof (cases rule: commitEvents_cases [of at j c all])
    case (2 s)
    with f OpCommit show ?thesis by (auto simp: fenced_def map_of_put)
  qed (use f OpCommit in simp)
next
  case (OpRemove j)
  assume "fenced i n bound all"
  with OpRemove show ?thesis by (auto simp: fenced_def map_of_removed split: if_splits)
qed

lemma fenced_run: "fenced i n bound all \<Longrightarrow> list_all (\<lambda>op. \<not> mints n op) ops \<Longrightarrow> fenced i n bound (foldl logStep all ops)"
  by (induction ops arbitrary: all) (auto simp: fenced_step)

section \<open>Properties\<close>

text \<open>
  The store stays well formed whatever runs on it: after any sequence of creates, commits and
  removals, accepted or refused, each session's events are its own and numbered densely from 1 to
  the head's sequence number, ids are unique, and no session is left without its parent.
\<close>
theorem store_stays_well_formed: "store_ok (foldl logStep [] ops)"
  by (rule store_machine.inv_run) (simp add: store_ok_def parents_ok_def)

text \<open>
  A commit is a compare-and-swap: it is accepted exactly when the session is there in the
  named incarnation, at the expected revision, before \<open>notAfter\<close>; then the revision grows by one,
  its events come right after the stored ones, and every other session is untouched. Refused, it
  leaves the store as it was.
\<close>
theorem commit_is_compare_and_swap:
  "case commitEvents at i c all of
     (Inl e, after) \<Rightarrow> after = all \<and> (case map_of all i of None \<Rightarrow> True | Some s \<Rightarrow> \<not> acceptable at c (st_head s))
   | (Inr r, after) \<Rightarrow> (case (map_of all i, map_of after i) of
        (Some s, Some s') \<Rightarrow> acceptable at c (st_head s)
          \<and> cd_revision r = cm_expect c + 1 \<and> head_revision (st_head s') = cm_expect c + 1
          \<and> st_events s' = st_events s @ cd_events r \<and> length (cd_events r) = length (cm_events c)
          \<and> head_incarnation (st_head s') = head_incarnation (st_head s)
          \<and> head_header (st_head s') = head_header (st_head s)
      | _ \<Rightarrow> False) \<and> (\<forall>k. k = i \<or> map_of after k = map_of all k)"
proof (cases rule: commitEvents_cases [of at i c all])
  case (1 e)
  then show ?thesis by (auto split: option.split)
next
  case (2 s)
  then show ?thesis by (auto simp: map_of_put acceptable_def stampEvents_def)
qed

text \<open>
  C7. A stale writer is fenced for good: once a commit that names its incarnation was accepted, no
  commit for that incarnation that expects the same or an earlier revision is ever accepted again,
  whatever is created, committed or removed in between (incarnations being minted once).
\<close>
theorem stale_commits_are_fenced:
  assumes "commitEvents at i c all = (Inr r, after)" "cm_incarnation c = Some n"
    "list_all (\<lambda>op. \<not> mints n op) ops"
    "cm_incarnation c' = Some n" "cm_expect c' \<le> cm_expect c"
  shows "\<exists>e. commitEvents at' i c' (foldl logStep after ops) = (Inl e, foldl logStep after ops)"
proof -
  have "fenced i n (cm_expect c) after"
  proof (cases rule: commitEvents_cases [of at i c all])
    case (2 s)
    with assms(1,2) show ?thesis by (auto simp: fenced_def map_of_put acceptable_def)
  qed (use assms(1) in simp)
  from fenced_run [OF this assms(3)] have f: "fenced i n (cm_expect c) (foldl logStep after ops)" .
  show ?thesis
  proof (cases rule: commitEvents_cases [of at' i c' "foldl logStep after ops"])
    case (2 s)
    with f assms(4,5) show ?thesis by (auto simp: fenced_def acceptable_def)
  qed blast
qed

definition sampleHeader :: session_header where
  "sampleHeader = \<lparr>hdr_id = ''s'', hdr_owner = ''o'', hdr_origin = ''user'', hdr_createdAt = 0, hdr_meta = JObj [], hdr_parent = None\<rparr>"

definition sampleCommit :: session_commit where
  "sampleCommit = \<lparr>cm_expect = 0, cm_notAfter = None, cm_events = [\<lparr>sd_kind = ''k'', sd_turn = None, sd_data = JNull\<rparr>],
     cm_state = None, cm_incarnation = Some ''n''\<rparr>"

theorem stale_commits_are_fenced_witness:
  "\<exists>r after e. commitEvents 1 ''s'' sampleCommit (snd (create 0 ''n'' sampleHeader [])) = (Inr r, after)
     \<and> commitEvents 3 ''s'' sampleCommit (foldl logStep after [OpRemove ''s'', OpCreate 2 ''m'' sampleHeader])
        = (Inl e, foldl logStep after [OpRemove ''s'', OpCreate 2 ''m'' sampleHeader])"
proof -
  obtain r after where c: "commitEvents 1 ''s'' sampleCommit (snd (create 0 ''n'' sampleHeader [])) = (Inr r, after)"
    by (simp add: commitEvents_def create_def put_def Let_def sampleHeader_def sampleCommit_def)
  from stale_commits_are_fenced [OF c, of "''n''" "[OpRemove ''s'', OpCreate 2 ''m'' sampleHeader]" sampleCommit 3]
  show ?thesis using c by (auto simp: sampleCommit_def)
qed


end
