(* ===== verification/SessionsState.thy ===== *)
theory SessionsState
  imports TurnWriter SessionLog JsText
begin

text \<open>
  The sessions plugin's own state, kept in the session head
  (\<open>plugin-sessions/src/sessions-state.entity.ts\<close> and its functions): the open turn and who holds
  it, the inbox's waiting items and what a turn's close makes of them, the stored format.

  How the state is written to and read from JSON is its schema's: \<open>decode\<close> is a parameter where a
  function reads a head. Whether a process of this host runs (\<open>alive\<close>) and which turns an instance
  let go of (\<open>released\<close>) are answers of the process, in the record \<open>holder\<close>.
\<close>

section \<open>The state\<close>

datatype delivery = Steer | NextTurn

record inbox_slot =
  slot_id :: string
  slot_attempts :: int
  slot_claimedBy :: "int option"
  slot_delivery :: "delivery option"

record holder_process =
  proc_host :: string
  proc_pid :: int
  proc_startedAt :: int

record open_turn =
  ot_turn :: int
  ot_runId :: string
  ot_key :: string
  ot_origin :: turn_origin
  ot_holder :: string
  ot_expiresAt :: "int option"

record held_turn = open_turn +
  ht_process :: "holder_process option"
  ht_sealed :: "sealed_turn option"

record journal_cursor =
  jc_session :: string
  jc_seq :: int

record sessions_state =
  ss_format :: "int option"
  ss_turns :: int
  ss_open :: "held_turn option"
  ss_title :: "string option"
  ss_inbox :: "inbox_slot list"
  ss_memorySnapshot :: "journal_cursor option"

datatype renew_mode = RenewNone | RenewOnCommit | RenewEvery int

datatype ownership = Lease int renew_mode | ProcessOwned

text \<open>The check an ownership's options pass.\<close>

fun ownership_ok :: "ownership \<Rightarrow> bool" where
  "ownership_ok (Lease ttlMs renew) \<longleftrightarrow> ttlMs \<ge> 1000
     \<and> (case renew of RenewEvery everyMs \<Rightarrow> everyMs \<ge> 100 \<and> everyMs * 2 \<le> ttlMs | _ \<Rightarrow> True)"
| "ownership_ok ProcessOwned \<longleftrightarrow> True"

record sessions_config =
  cfg_ownership :: ownership
  cfg_titleChars :: nat
  cfg_maxPending :: int
  cfg_pollIntervalMs :: "int option"
  cfg_recentSessions :: int
  cfg_attempts :: int
  cfg_writerCapacity :: nat
  cfg_writerBatch :: nat
  cfg_retries :: nat
  cfg_timeLimitMs :: int

definition sessionsDefaults :: sessions_config where
  "sessionsDefaults =
     \<lparr>cfg_ownership = Lease 60000 (RenewEvery 20000), cfg_titleChars = 80, cfg_maxPending = 20,
      cfg_pollIntervalMs = Some 100, cfg_recentSessions = 256, cfg_attempts = 2,
      cfg_writerCapacity = 1024, cfg_writerBatch = 64, cfg_retries = 8, cfg_timeLimitMs = 21600000\<rparr>"

definition STORED_FORMAT :: int where "STORED_FORMAT = 18"

section \<open>Reading a head\<close>

definition initialState :: "stored_head \<Rightarrow> sessions_state" where
  "initialState h =
     \<lparr>ss_format = Some STORED_FORMAT,
      ss_turns = (case hdr_parent (head_header h) of None \<Rightarrow> 0 | Some p \<Rightarrow> lin_turnAtFork p),
      ss_open = None, ss_title = None, ss_inbox = [], ss_memorySnapshot = None\<rparr>"

definition storedSessions :: "stored_head \<Rightarrow> json option" where
  "storedSessions h = (case head_state h of JObj fs \<Rightarrow> map_of fs ''sessions'' | _ \<Rightarrow> None)"

definition stateOf :: "(json \<Rightarrow> string + sessions_state) \<Rightarrow> stored_head \<Rightarrow> string + sessions_state" where
  "stateOf decode h = (case storedSessions h of None \<Rightarrow> Inr (initialState h) | Some j \<Rightarrow> decode j)"

definition storedFormatOf :: "(json \<Rightarrow> string + int option) \<Rightarrow> stored_head \<Rightarrow> string + int" where
  "storedFormatOf decodeFormat h = (case storedSessions h of
      None \<Rightarrow> Inr 1
    | Some j \<Rightarrow> map_r (get_or_else 1) (decodeFormat j))"

definition isNewerFormat :: "int \<Rightarrow> bool" where
  "isNewerFormat format \<longleftrightarrow> format > STORED_FORMAT"

definition withFormat :: "sessions_state \<Rightarrow> sessions_state" where
  "withFormat st = (if get_or_else 0 (ss_format st) < STORED_FORMAT then st\<lparr>ss_format := Some STORED_FORMAT\<rparr> else st)"

definition droppedData :: "string \<Rightarrow> json" where
  "droppedData i = JObj [(''id'', JStr i), (''reason'', JStr ''attempts'')]"

definition keyedData :: "string \<Rightarrow> json \<Rightarrow> int \<Rightarrow> json" where
  "keyedData key command events = JObj [(''key'', JStr key), (''command'', command), (''events'', JNum events)]"

section \<open>Who holds a turn\<close>

record released_turn =
  rel_turn :: int
  rel_runId :: string

record holder =
  hd_instance :: string
  hd_alive :: "int \<Rightarrow> bool"
  hd_process :: "holder_process option"
  hd_released :: "string \<Rightarrow> released_turn list"

definition processHolds :: "held_turn \<Rightarrow> holder \<Rightarrow> bool" where
  "processHolds t h = (case ht_process t of
      None \<Rightarrow> False
    | Some running \<Rightarrow> (case hd_process h of
        None \<Rightarrow> True
      | Some self \<Rightarrow>
          if proc_host running \<noteq> proc_host self then True
          else if proc_pid running = proc_pid self then proc_startedAt running = proc_startedAt self
          else hd_alive h (proc_pid running)))"

definition isHeld :: "held_turn \<Rightarrow> int \<Rightarrow> holder \<Rightarrow> bool \<Rightarrow> bool" where
  "isHeld t now h released =
     (if released then False
      else case ot_expiresAt t of
        Some end_at \<Rightarrow> now \<le> end_at
      | None \<Rightarrow> if ot_holder t = hd_instance h then True else processHolds t h)"

definition heldTurn :: "session_head \<Rightarrow> sessions_state \<Rightarrow> holder \<Rightarrow> held_turn option" where
  "heldTurn head st h = opt_filter (\<lambda>t. isHeld t (snd head) h
       (ot_holder t = hd_instance h
        \<and> list_ex (\<lambda>g. rel_turn g = ot_turn t \<and> rel_runId g = ot_runId t) (hd_released h (hdr_id (head_header (fst head))))))
     (ss_open st)"

definition openTurnOf :: "held_turn \<Rightarrow> open_turn" where
  "openTurnOf t = \<lparr>ot_turn = ot_turn t, ot_runId = ot_runId t, ot_key = ot_key t, ot_origin = ot_origin t,
     ot_holder = ot_holder t, ot_expiresAt = ot_expiresAt t\<rparr>"

section \<open>The inbox\<close>

definition waitingChanged :: "sessions_state \<Rightarrow> sessions_state \<Rightarrow> bool" where
  "waitingChanged before after \<longleftrightarrow>
     map_option ot_turn (ss_open before) \<noteq> map_option ot_turn (ss_open after)
     \<or> length (ss_inbox before) \<noteq> length (ss_inbox after)
     \<or> list_ex (\<lambda>(index, slot).
          if index < length (ss_inbox after)
          then (let other = ss_inbox after ! index
                in slot_id other \<noteq> slot_id slot \<or> slot_attempts other \<noteq> slot_attempts slot
                   \<or> slot_delivery other \<noteq> slot_delivery slot \<or> slot_claimedBy other \<noteq> slot_claimedBy slot)
          else True) (List.enumerate 0 (ss_inbox before))"

definition pendingOf :: "sessions_state \<Rightarrow> inbox_slot list" where
  "pendingOf st = filter (\<lambda>s. slot_claimedBy s = None) (ss_inbox st)"

definition finished :: "end_reason \<Rightarrow> bool" where
  "finished r \<longleftrightarrow> r = Completed \<or> r = Partial \<or> r = Cancelled \<or> r = Waiting"

definition takenBy :: "sessions_state \<Rightarrow> inbox_slot \<Rightarrow> bool" where
  "takenBy st s \<longleftrightarrow> slot_claimedBy s \<noteq> None \<and> map_option ot_turn (ss_open st) = slot_claimedBy s"

definition slotDone :: "end_reason \<Rightarrow> inbox_slot \<Rightarrow> bool" where
  "slotDone r s \<longleftrightarrow> (if slot_delivery s = None then finished r else r = Completed \<or> r = Cancelled \<or> r = Waiting)"

definition slotExhausted :: "int \<Rightarrow> bool \<Rightarrow> inbox_slot \<Rightarrow> bool" where
  "slotExhausted maxAttempts counted s \<longleftrightarrow> slot_delivery s = None \<and> counted \<and> slot_attempts s + 1 \<ge> maxAttempts"

record closed_state =
  cs_state :: sessions_state
  cs_dropped :: "string list"

definition closedSlot :: "sessions_state \<Rightarrow> end_reason \<Rightarrow> int \<Rightarrow> bool \<Rightarrow> inbox_slot \<Rightarrow> inbox_slot list" where
  "closedSlot st reason maxAttempts counted s =
     (if \<not> takenBy st s then [s]
      else if slotDone reason s \<or> slotExhausted maxAttempts counted s then []
      else [s\<lparr>slot_attempts := (if counted then slot_attempts s + 1 else slot_attempts s), slot_claimedBy := None\<rparr>])"

definition closedState :: "sessions_state \<Rightarrow> end_reason \<Rightarrow> int \<Rightarrow> bool \<Rightarrow> closed_state" where
  "closedState st reason maxAttempts tried =
     (let counted = (tried \<or> reason \<noteq> Interrupted) in
      \<lparr>cs_state = st\<lparr>ss_open := None, ss_inbox := concat (map (closedSlot st reason maxAttempts counted) (ss_inbox st))\<rparr>,
       cs_dropped = map slot_id (filter (\<lambda>s. takenBy st s \<and> \<not> slotDone reason s \<and> slotExhausted maxAttempts counted s) (ss_inbox st))\<rparr>)"

record session_view =
  sv_header :: session_header
  sv_seq :: int
  sv_updatedAt :: int
  sv_turns :: int
  sv_title :: "string option"
  sv_open :: "open_turn option"
  sv_pending :: nat

definition viewOf :: "session_head \<Rightarrow> sessions_state \<Rightarrow> holder \<Rightarrow> session_view" where
  "viewOf head st h =
     \<lparr>sv_header = head_header (fst head), sv_seq = head_seq (fst head), sv_updatedAt = head_updatedAt (fst head),
      sv_turns = ss_turns st, sv_title = ss_title st, sv_open = map_option openTurnOf (heldTurn head st h),
      sv_pending = length (pendingOf st)\<rparr>"

text \<open>Characters of the model are single code units below 256, so a code point is one of them.\<close>

definition titleOf :: "string \<Rightarrow> nat \<Rightarrow> string" where
  "titleOf t chars = take chars t"

section \<open>Properties\<close>

lemma closedState_simps:
  "ss_open (cs_state (closedState st reason m tried)) = None"
  "ss_inbox (cs_state (closedState st reason m tried)) =
     concat (map (closedSlot st reason m (tried \<or> reason \<noteq> Interrupted)) (ss_inbox st))"
  "cs_dropped (closedState st reason m tried) =
     map slot_id (filter (\<lambda>s. takenBy st s \<and> \<not> slotDone reason s \<and> slotExhausted m (tried \<or> reason \<noteq> Interrupted) s) (ss_inbox st))"
  by (simp_all add: closedState_def Let_def)

lemma closedSlot_id: "s' \<in> set (closedSlot st reason m counted s) \<Longrightarrow> slot_id s' = slot_id s"
  by (auto simp: closedSlot_def split: if_splits)

lemma closedSlot_claim: "s' \<in> set (closedSlot st reason m counted s) \<Longrightarrow>
    ss_open st = None \<or> slot_claimedBy s' \<noteq> map_option ot_turn (ss_open st)"
  by (auto simp: closedSlot_def takenBy_def split: if_splits)

lemma closedSlot_gone: "closedSlot st reason m counted s = [] \<Longrightarrow>
    takenBy st s \<and> (slotDone reason s \<or> slot_delivery s = None \<and> slotExhausted m counted s)"
  by (auto simp: closedSlot_def slotExhausted_def split: if_splits)


end
