(* ===== verification/Resume.thy ===== *)
theory Resume
  imports Vocabulary
begin

text \<open>
  How a turn's exit becomes a stored ending, and which turn can be resumed
  (\<open>core/src/session/sessions.entity.functions.ts\<close>, \<open>core/src/harness/harness-code.entity.functions.ts\<close>
  and the tables of \<open>harness-code.entity.ts\<close> and \<open>sessions.entity.ts\<close>).

  An error is the value it is: a JSON value, an object's members being the error's own fields
  (its tag under \<open>_tag\<close>). Effect's \<open>Formatter\<close> is not part of the repository: how it prints a
  value (\<open>format\<close>) and an object's fields (\<open>formatJson\<close>) are parameters.
\<close>

section \<open>Codes\<close>

definition turnBeginCodes :: "(string \<times> string) list" where
  "turnBeginCodes =
     [(''AttachmentRejected'', ''turn.attachment-rejected''), (''SessionBusy'', ''session.busy''),
      (''TurnDuplicate'', ''turn.duplicate''), (''KeyConflict'', ''turn.key-conflict''),
      (''RunIdReused'', ''turn.run-reused''), (''NothingPending'', ''session.nothing-pending''),
      (''NotResumable'', ''turn.not-resumable''), (''TurnRefused'', ''turn.refused''),
      (''SessionMissing'', ''session.missing''), (''SessionContended'', ''session.contended''),
      (''SessionLogError'', ''session.log'')]"

definition TAGGED_CODES :: "(string \<times> string) list" where
  "TAGGED_CODES = turnBeginCodes @
     [(''InputConflict'', ''inbox.input-conflict''), (''TransactDuplicate'', ''session.transact-duplicate''),
      (''TransactConflict'', ''session.transact-conflict''), (''TurnClosed'', ''turn.closed''),
      (''ReservedKind'', ''events.reserved''), (''TaskMissing'', ''task.missing''),
      (''TaskConflict'', ''task.conflict''), (''ModelSpendExceeded'', ''model.spend'')]"

definition TAGGED_REASON_CODES :: "(string \<times> (string \<times> string) list) list" where
  "TAGGED_REASON_CODES =
     [(''TaskControlRefused'',
        [(''inactive'', ''task.inactive''), (''waiting'', ''task.waiting''), (''question'', ''task.question-limit''),
         (''unknown-question'', ''task.question-unknown''), (''context'', ''task.context'')])]"

definition stringField :: "json \<Rightarrow> string \<Rightarrow> string option" where
  "stringField v key = (case v of
      JObj fs \<Rightarrow> (case map_of fs key of Some (JStr s) \<Rightarrow> Some s | _ \<Rightarrow> None)
    | _ \<Rightarrow> None)"

definition isHarnessError :: "json \<Rightarrow> bool" where
  "isHarnessError v \<longleftrightarrow> stringField v ''_tag'' = Some ''HarnessError'' \<and> stringField v ''code'' \<noteq> None
     \<and> stringField v ''message'' \<noteq> None
     \<and> (case v of JObj fs \<Rightarrow> map_of fs ''plugin'' = None \<or> stringField v ''plugin'' \<noteq> None | _ \<Rightarrow> False)"

definition harnessCodeOf :: "json \<Rightarrow> string option" where
  "harnessCodeOf error =
     (if isHarnessError error then stringField error ''code''
      else Option.bind (stringField error ''_tag'') (\<lambda>tag.
        or_else (map_of TAGGED_CODES tag)
          (or_else (Option.bind (stringField error ''reason'') (\<lambda>reason. Option.bind (map_of TAGGED_REASON_CODES tag) (\<lambda>codes. map_of codes reason)))
             (stringField error ''code''))))"

section \<open>Endings\<close>

definition MESSAGE_CHARS :: nat where "MESSAGE_CHARS = 500"

definition clipped :: "string \<Rightarrow> string" where
  "clipped t = (if length t \<le> MESSAGE_CHARS then t else take MESSAGE_CHARS t)"

definition fieldsOf :: "(json \<Rightarrow> string) \<Rightarrow> json \<Rightarrow> string" where
  "fieldsOf formatJson error = (case error of
      JObj fs \<Rightarrow> formatJson (JObj (filter (\<lambda>(k, v). k \<noteq> ''_tag'') fs))
    | _ \<Rightarrow> '''')"

definition messageOfError :: "(json \<Rightarrow> string) \<Rightarrow> (json \<Rightarrow> string) \<Rightarrow> json \<Rightarrow> string" where
  "messageOfError format formatJson error =
     (if stringField error ''code'' \<noteq> None
      then get_or_else (format error) (stringField error ''message'')
      else case stringField error ''_tag'' of
        Some tag \<Rightarrow> tag @ '': '' @ get_or_else (fieldsOf formatJson error) (opt_filter (\<lambda>t. length t > 0) (stringField error ''message''))
      | None \<Rightarrow> (case error of JStr s \<Rightarrow> s | _ \<Rightarrow> format error))"

definition failureOfError :: "(json \<Rightarrow> string) \<Rightarrow> (json \<Rightarrow> string) \<Rightarrow> json \<Rightarrow> turn_failure" where
  "failureOfError format formatJson error =
     \<lparr>failure_code = get_or_else ''turn.failed'' (harnessCodeOf error), failure_message = messageOfError format formatJson error\<rparr>"

definition failedEnding :: "turn_failure \<Rightarrow> turn_ending" where
  "failedEnding f = \<lparr>ending_reason = Failed,
     ending_failure = Some \<lparr>failure_code = failure_code f, failure_message = clipped (failure_message f)\<rparr>\<rparr>"

definition interruptedFailure :: turn_failure where
  "interruptedFailure = \<lparr>failure_code = ''turn.interrupted'', failure_message = ''the turn was interrupted''\<rparr>"

text \<open>A defect is the text \<open>Formatter.format\<close> gives of it (\<open>DieReason\<close>).\<close>

fun turnEndingOf :: "(json \<Rightarrow> string) \<Rightarrow> (json \<Rightarrow> string) \<Rightarrow> (outcome_kind, json) exit \<Rightarrow> turn_ending" where
  "turnEndingOf format formatJson (ExitSuccess oc) = \<lparr>ending_reason = reason_of_outcome oc, ending_failure = None\<rparr>"
| "turnEndingOf format formatJson (ExitFailure cause) = (case first_error cause of
      Some error \<Rightarrow> failedEnding (failureOfError format formatJson error)
    | None \<Rightarrow> (case first_defect cause of
        Some defect \<Rightarrow> failedEnding \<lparr>failure_code = ''turn.defect'', failure_message = defect\<rparr>
      | None \<Rightarrow>
          if cause_interrupts cause
          then \<lparr>ending_reason = Interrupted, ending_failure = Some interruptedFailure\<rparr>
          else failedEnding \<lparr>failure_code = ''turn.failed'', failure_message = ''the turn failed without an error''\<rparr>))"

section \<open>Resuming a turn\<close>

datatype not_resumable = RefMissing | RefSuperseded | RefFinished | RefInbox | RefTask

record resumable_turn =
  rt_turn :: int
  rt_origin :: turn_origin
  rt_resumes :: "int option"
  rt_ended :: "end_reason option"

definition stoppedEnd :: "end_reason option \<Rightarrow> bool" where
  "stoppedEnd ended \<longleftrightarrow> opt_exists (\<lambda>r. r = Cancelled \<or> r = Interrupted) ended"

definition supersedes :: "int \<Rightarrow> resumable_turn \<Rightarrow> bool" where
  "supersedes target later \<longleftrightarrow> rt_turn later > target \<and> rt_origin later = OriginUser
     \<and> \<not> (rt_resumes later = Some target \<and> (stoppedEnd (rt_ended later) \<or> rt_ended later = Some Failed))"

definition resumeRefusal :: "int \<Rightarrow> resumable_turn list \<Rightarrow> not_resumable option" where
  "resumeRefusal target turns = (case find (\<lambda>t. rt_turn t = target) turns of
      None \<Rightarrow> Some RefMissing
    | Some t \<Rightarrow> (case rt_origin t of
          OriginInbox \<Rightarrow> Some RefInbox
        | OriginTask \<Rightarrow> Some RefTask
        | OriginUser \<Rightarrow>
            if list_ex (supersedes target) turns then Some RefSuperseded
            else if stoppedEnd (rt_ended t) then None else Some RefFinished))"

section \<open>Properties\<close>

lemma clipped_length: "length (clipped t) \<le> MESSAGE_CHARS" "length (clipped t) \<le> 500"
  by (simp_all add: clipped_def MESSAGE_CHARS_def)

text \<open>
  A stored ending tells the truth about the exit and stays small: a success keeps its outcome and
  stores no failure; any failed exit stores a failure whose message has at most 500 characters;
  and the ending is interrupted exactly when the cause holds an interruption and neither a typed
  error nor a defect.
\<close>
theorem ending_matches_the_exit:
  "(case exit of
      ExitSuccess oc \<Rightarrow> turnEndingOf format formatJson exit = \<lparr>ending_reason = reason_of_outcome oc, ending_failure = None\<rparr>
    | ExitFailure cause \<Rightarrow>
        (\<exists>f. ending_failure (turnEndingOf format formatJson exit) = Some f \<and> length (failure_message f) \<le> MESSAGE_CHARS)
        \<and> ending_reason (turnEndingOf format formatJson exit)
            = (if first_error cause = None \<and> first_defect cause = None \<and> cause_interrupts cause then Interrupted else Failed))"
proof (cases exit)
  case (ExitFailure cause)
  show ?thesis
    by (cases "first_error cause"; cases "first_defect cause")
      (auto simp: ExitFailure failedEnding_def interruptedFailure_def clipped_length MESSAGE_CHARS_def)
qed simp

text \<open>
  Only a stopped user's turn that nothing superseded can be resumed: a turn is resumable exactly
  when the first turn of its number is a user's, ended cancelled or interrupted, and every later
  user's turn is a resume of it that failed, was cancelled or was interrupted.
\<close>
theorem resumable_turn_is_the_stopped_user_root:
  "resumeRefusal target turns = None \<longleftrightarrow>
     (\<exists>t. find (\<lambda>t. rt_turn t = target) turns = Some t \<and> rt_origin t = OriginUser \<and> stoppedEnd (rt_ended t))
     \<and> list_all (\<lambda>later. if rt_turn later > target \<and> rt_origin later = OriginUser
          then rt_resumes later = Some target \<and> (stoppedEnd (rt_ended later) \<or> rt_ended later = Some Failed)
          else True) turns"
proof -
  have "list_all (\<lambda>later. if rt_turn later > target \<and> rt_origin later = OriginUser
          then rt_resumes later = Some target \<and> (stoppedEnd (rt_ended later) \<or> rt_ended later = Some Failed)
          else True) turns
      \<longleftrightarrow> \<not> list_ex (supersedes target) turns"
    by (auto simp: list_all_iff list_ex_iff supersedes_def not_less)
  then show ?thesis
    by (auto simp: resumeRefusal_def split: option.split turn_origin.split)
qed

end
