(* ===== verification/InboxDrain.thy ===== *)
theory InboxDrain
  imports SessionsState Resume Canonical
begin

text \<open>
  The inbox drainer (\<open>plugin-sessions/src/inbox-drain.entity.ts\<close> and its functions): the history it
  projects from a session's journal, how it reads the way a turn stopped, which work it picks next
  and what it parks, and the scheduler of one job per session.

  The jobs of a scheduler are a \<open>Record\<close>: a list of keys and jobs, updated in place. Only the job
  with the least ticket is ever picked, so the order of keys does not matter.
\<close>

section \<open>The journal's projection\<close>

record session_address =
  addr_id :: string
  addr_owner :: string

datatype resume_policy = ResumeNever | ResumeBefore "user_message option"

record backoff =
  bo_initialMs :: int
  bo_maxMs :: int

record drain_config =
  dc_owners :: "string list"
  dc_concurrency :: int
  dc_sweepIntervalMs :: int
  dc_pageSize :: int
  dc_backoff :: backoff
  dc_resume :: resume_policy
  dc_attempts :: int
  dc_takeOver :: bool

definition inboxDrainDefaults :: "string list \<Rightarrow> drain_config" where
  "inboxDrainDefaults owners =
     \<lparr>dc_owners = owners, dc_concurrency = 4, dc_sweepIntervalMs = 1000, dc_pageSize = 100,
      dc_backoff = \<lparr>bo_initialMs = 250, bo_maxMs = 30000\<rparr>, dc_resume = ResumeBefore None, dc_attempts = 3, dc_takeOver = False\<rparr>"

datatype drain_event =
    Enqueued string "delivery option"
  | Started int string turn_origin "string list" "string option" "int option"
  | EndedTurn int end_reason "string option" int
  | RemovedItem string

record drain_slot =
  ds_id :: string
  ds_delivery :: "delivery option"
  ds_claimedBy :: "int option"

record drain_turn =
  dt_turn :: int
  dt_runId :: string
  dt_origin :: turn_origin
  dt_resumes :: "int option"
  dt_input :: "string option"
  dt_ended :: "end_reason option"
  dt_code :: "string option"
  dt_endedAt :: "int option"

record drain_history =
  dh_slots :: "drain_slot list"
  dh_turns :: "drain_turn list"

text \<open>An event of the journal: \<open>Started\<close> has the turn, run, origin, claimed items, input and resumed turn.\<close>

fun drainStep :: "drain_history \<Rightarrow> drain_event \<Rightarrow> drain_history" where
  "drainStep h (Enqueued i d) =
     (if list_ex (\<lambda>s. ds_id s = i) (dh_slots h) then h
      else h\<lparr>dh_slots := dh_slots h @ [\<lparr>ds_id = i, ds_delivery = d, ds_claimedBy = None\<rparr>]\<rparr>)"
| "drainStep h (Started turn runId orig claimed input resumes) =
     h\<lparr>dh_turns := dh_turns h @ [\<lparr>dt_turn = turn, dt_runId = runId, dt_origin = orig, dt_resumes = resumes, dt_input = input,
          dt_ended = None, dt_code = None, dt_endedAt = None\<rparr>],
       dh_slots := map (\<lambda>s. if ds_claimedBy s = None \<and> (ds_id s \<in> set claimed \<or> input = Some (ds_id s))
          then s\<lparr>ds_claimedBy := Some turn\<rparr> else s) (dh_slots h)\<rparr>"
| "drainStep h (EndedTurn turn reason code seq) =
     h\<lparr>dh_turns := map (\<lambda>t. if dt_turn t = turn then t\<lparr>dt_ended := Some reason, dt_code := code, dt_endedAt := Some seq\<rparr> else t) (dh_turns h),
       dh_slots := concat (map (\<lambda>s. if ds_claimedBy s \<noteq> Some turn then [s]
          else if reason = Completed \<or> reason = Cancelled \<or> reason = Waiting \<or> (ds_delivery s = None \<and> reason = Partial) then []
          else [s\<lparr>ds_claimedBy := None\<rparr>]) (dh_slots h))\<rparr>"
| "drainStep h (RemovedItem i) = h\<lparr>dh_slots := filter (\<lambda>s. ds_id s \<noteq> i) (dh_slots h)\<rparr>"

definition drainHistoryOf :: "drain_event list \<Rightarrow> drain_history" where
  "drainHistoryOf events = foldl drainStep \<lparr>dh_slots = [], dh_turns = []\<rparr> events"

section \<open>How a turn stopped\<close>

definition HOLDER_GONE :: "string list" where
  "HOLDER_GONE = [''turn.lease'', ''turn.takeover'', ''turn.shutdown'']"

datatype stop = StopDone | StopFailed | StopRecoverable | StopDeliberate

definition drainStopOf :: "drain_turn \<Rightarrow> int option \<Rightarrow> stop" where
  "drainStopOf t baseline = (case dt_ended t of
      None \<Rightarrow> StopRecoverable
    | Some Interrupted \<Rightarrow>
        if opt_exists (\<lambda>c. c \<in> set HOLDER_GONE) (dt_code t) then StopRecoverable
        else if dt_code t = Some ''turn.time-limit'' then StopDeliberate
        else if opt_exists (\<lambda>seen. opt_exists (\<lambda>at. at \<le> seen) (dt_endedAt t)) baseline then StopRecoverable
        else StopDeliberate
    | Some Failed \<Rightarrow> StopFailed
    | Some Partial \<Rightarrow> StopFailed
    | _ \<Rightarrow> StopDone)"

record drain_policy =
  dp_resume :: resume_policy
  dp_attempts :: int
  dp_baseline :: "int option"

record resume_root =
  rr_root :: int
  rr_after :: int
  rr_failures :: nat

definition asResumable :: "drain_turn \<Rightarrow> resumable_turn" where
  "asResumable t = \<lparr>rt_turn = dt_turn t, rt_origin = dt_origin t, rt_resumes = dt_resumes t, rt_ended = dt_ended t\<rparr>"

definition endOpen :: "drain_turn \<Rightarrow> drain_turn" where
  "endOpen t = (if dt_ended t = None then t\<lparr>dt_ended := Some Interrupted\<rparr> else t)"

definition resumeRoot :: "drain_history \<Rightarrow> drain_policy \<Rightarrow> resume_root option" where
  "resumeRoot h policy =
     (case (dp_resume policy, at_last (filter (\<lambda>t. dt_origin t = OriginUser) (dh_turns h))) of
        (ResumeBefore m, Some latest) \<Rightarrow>
          (let stop = drainStopOf latest (dp_baseline policy) in
           if stop \<noteq> StopRecoverable \<and> \<not> (stop = StopFailed \<and> dt_resumes latest \<noteq> None) then None
           else let turns = map endOpen (dh_turns h) in
             map_option (\<lambda>found. \<lparr>rr_root = dt_turn found, rr_after = dt_turn latest,
                 rr_failures = length (filter (\<lambda>t. dt_resumes t = Some (dt_turn found) \<and> drainStopOf t (dp_baseline policy) = StopFailed) (dh_turns h))\<rparr>)
               (find (\<lambda>t. dt_origin t = OriginUser \<and> dt_ended t = Some Interrupted
                   \<and> resumeRefusal (dt_turn t) (map asResumable turns) = None) turns))
      | _ \<Rightarrow> None)"

definition inputParked :: "drain_history \<Rightarrow> drain_slot \<Rightarrow> drain_policy \<Rightarrow> bool" where
  "inputParked h s policy \<longleftrightarrow>
     (if ds_delivery s = None then False
      else let claims = filter (\<lambda>t. dt_input t = Some (ds_id s)) (dh_turns h) in
        int (length (filter (\<lambda>t. drainStopOf t (dp_baseline policy) = StopFailed) claims)) \<ge> dp_attempts policy
        \<or> opt_exists (\<lambda>t. drainStopOf t (dp_baseline policy) = StopDeliberate) (at_last claims))"

section \<open>What runs next\<close>

text \<open>\<open>Resume\<close> has the turn and the latest user turn it comes after.\<close>

datatype drain_target = TargetResume int int | TargetQueued string | TargetInbox string

definition isParked :: "drain_history \<Rightarrow> drain_target \<Rightarrow> drain_policy \<Rightarrow> bool" where
  "isParked h target policy = (case target of
      TargetQueued i \<Rightarrow> list_ex (\<lambda>s. ds_id s = i \<and> inputParked h s policy) (dh_slots h)
    | TargetInbox i \<Rightarrow> False
    | TargetResume turn after \<Rightarrow> opt_exists (\<lambda>r. rr_root r = turn \<and> int (rr_failures r) \<ge> dp_attempts policy) (resumeRoot h policy))"

definition waitingSlot :: "drain_history \<Rightarrow> drain_policy \<Rightarrow> drain_slot \<Rightarrow> bool" where
  "waitingSlot h policy s \<longleftrightarrow>
     (ds_claimedBy s = None \<or> opt_exists (\<lambda>turn. turn \<in> set (map dt_turn (filter (\<lambda>t. dt_ended t = None) (dh_turns h)))) (ds_claimedBy s))
     \<and> \<not> inputParked h s policy"

definition targetOf :: "drain_history \<Rightarrow> open_turn option \<Rightarrow> drain_policy \<Rightarrow> bool \<Rightarrow> drain_target option" where
  "targetOf h openTurn0 policy takeOver =
     (if openTurn0 \<noteq> None \<and> \<not> takeOver then None
      else case opt_filter (\<lambda>r. int (rr_failures r) < dp_attempts policy) (resumeRoot h policy) of
        Some r \<Rightarrow> Some (TargetResume (rr_root r) (rr_after r))
      | None \<Rightarrow> map_option (\<lambda>s. if ds_delivery s \<noteq> None then TargetQueued (ds_id s) else TargetInbox (ds_id s))
          (find (waitingSlot h policy) (dh_slots h)))"

definition targetIdentity :: "drain_target \<Rightarrow> string" where
  "targetIdentity target = (case target of
      TargetResume turn after \<Rightarrow> canonicalJson (JArr [JStr ''resume'', JNum turn])
    | TargetQueued i \<Rightarrow> canonicalJson (JArr [JStr ''input'', JStr i])
    | TargetInbox i \<Rightarrow> canonicalJson (JArr [JStr ''notice'', JStr i]))"

definition targetPending :: "drain_history \<Rightarrow> drain_target \<Rightarrow> drain_policy \<Rightarrow> bool" where
  "targetPending h target policy = (case target of
      TargetQueued i \<Rightarrow> list_ex (\<lambda>s. ds_id s = i \<and> ds_delivery s \<noteq> None \<and> \<not> inputParked h s policy) (dh_slots h)
    | TargetInbox i \<Rightarrow> list_ex (\<lambda>s. ds_id s = i \<and> ds_delivery s = None) (dh_slots h)
    | TargetResume turn after \<Rightarrow> opt_exists (\<lambda>c. targetIdentity c = targetIdentity target) (targetOf h None policy False))"

definition resumeMessageOf :: "user_message option \<Rightarrow> user_message" where
  "resumeMessageOf given = (case given of
      Some m \<Rightarrow> m
    | None \<Rightarrow> \<lparr>um_text = hostNote ''The previous turn stopped before it finished. Continue it.'', um_attachments = None\<rparr>)"

section \<open>The scheduler\<close>

record takeover =
  to_turn :: int
  to_runId :: string

datatype job_state = Ready | Running | Delayed int

record drain_job =
  job_state :: job_state
  job_address :: session_address
  job_target :: drain_target
  job_failures :: int
  job_order :: int
  job_takeOver :: "takeover option"

record scheduler =
  sc_jobs :: "(string \<times> drain_job) list"
  sc_nextOrder :: int

definition emptyDrainScheduler :: scheduler where
  "emptyDrainScheduler = \<lparr>sc_jobs = [], sc_nextOrder = 0\<rparr>"

definition drainKeyOf :: "session_address \<Rightarrow> string" where
  "drainKeyOf a = canonicalJson (JArr [JStr (addr_owner a), JStr (addr_id a)])"

record candidate =
  cand_address :: session_address
  cand_target :: drain_target
  cand_takeOver :: "takeover option"

definition observeOne :: "bool \<Rightarrow> scheduler \<Rightarrow> candidate \<Rightarrow> scheduler" where
  "observeOne startup current c =
     (let key = drainKeyOf (cand_address c); previous = map_of (sc_jobs current) key in
      if opt_exists (\<lambda>j. job_state j = Running) previous then current
      else let same = opt_exists (\<lambda>j. targetIdentity (job_target j) = targetIdentity (cand_target c)) previous;
             fresh = \<lparr>job_state = Ready, job_address = cand_address c, job_target = cand_target c, job_failures = 0,
               job_order = sc_nextOrder current, job_takeOver = (if previous = None \<and> startup then cand_takeOver c else None)\<rparr>;
             job = (case previous of Some j \<Rightarrow> if same then j\<lparr>job_target := cand_target c\<rparr> else fresh | None \<Rightarrow> fresh)
        in \<lparr>sc_jobs = AList.update key job (sc_jobs current),
            sc_nextOrder = (if same then sc_nextOrder current else sc_nextOrder current + 1)\<rparr>)"

definition observeDrains :: "scheduler \<Rightarrow> candidate list \<Rightarrow> bool \<Rightarrow> scheduler" where
  "observeDrains st candidates startup =
     (let observed = foldl (observeOne startup) st candidates;
          wanted = map (\<lambda>c. drainKeyOf (cand_address c)) candidates
      in observed\<lparr>sc_jobs := filter (\<lambda>(key, job). job_state job \<noteq> Ready \<or> key \<in> set wanted) (sc_jobs observed)\<rparr>)"

definition runnable :: "int \<Rightarrow> drain_job \<Rightarrow> bool" where
  "runnable now j = (case job_state j of Ready \<Rightarrow> True | Running \<Rightarrow> False | Delayed due \<Rightarrow> due \<le> now)"

definition firstRunnable :: "scheduler \<Rightarrow> int \<Rightarrow> drain_job option" where
  "firstRunnable st now = (case sort_key job_order (filter (runnable now) (map snd (sc_jobs st))) of [] \<Rightarrow> None | j # js \<Rightarrow> Some j)"

definition claimDrain :: "scheduler \<Rightarrow> int \<Rightarrow> drain_job option \<times> scheduler" where
  "claimDrain st now = (case firstRunnable st now of
      None \<Rightarrow> (None, st)
    | Some j \<Rightarrow>
        (let claimed = j\<lparr>job_state := Running\<rparr>
         in (Some claimed, st\<lparr>sc_jobs := AList.update (drainKeyOf (job_address j)) (claimed\<lparr>job_takeOver := None\<rparr>) (sc_jobs st)\<rparr>)))"

definition MAX_SAFE_INTEGER :: int where "MAX_SAFE_INTEGER = 9007199254740991"

definition retryDelay :: "backoff \<Rightarrow> int \<Rightarrow> int" where
  "retryDelay b failures = min (bo_maxMs b) (bo_initialMs b * 2 ^ nat (min (failures - 1) 52))"

definition finishDrain :: "scheduler \<Rightarrow> drain_job \<Rightarrow> drain_target option \<Rightarrow> bool \<Rightarrow> int \<Rightarrow> backoff \<Rightarrow> scheduler" where
  "finishDrain st job target retry now b =
     (let key = drainKeyOf (job_address job) in
      case target of
        None \<Rightarrow> st\<lparr>sc_jobs := filter (\<lambda>(held, j). held \<noteq> key) (sc_jobs st)\<rparr>
      | Some t \<Rightarrow>
          if \<not> retry then st\<lparr>sc_jobs := filter (\<lambda>(held, j). held \<noteq> key) (sc_jobs st)\<rparr>
          else let failures = (if targetIdentity (job_target job) = targetIdentity t then min MAX_SAFE_INTEGER (job_failures job + 1) else 1);
                 delay = retryDelay b failures
            in \<lparr>sc_jobs = AList.update key \<lparr>job_state = Delayed (now + delay), job_address = job_address job, job_target = t,
                  job_failures = failures, job_order = sc_nextOrder st, job_takeOver = None\<rparr> (sc_jobs st),
                sc_nextOrder = sc_nextOrder st + 1\<rparr>)"

definition nextDrainDelay :: "scheduler \<Rightarrow> int \<Rightarrow> int \<Rightarrow> int" where
  "nextDrainDelay st now fallback =
     foldl (\<lambda>delay j. case job_state j of Delayed due \<Rightarrow> min delay (max 1 (due - now)) | _ \<Rightarrow> delay) fallback (map snd (sc_jobs st))"

section \<open>The scheduler as a machine\<close>

datatype drain_op =
    Observe "candidate list" bool
  | Claim int
  | Finish drain_job "drain_target option" bool int backoff

fun drainOp :: "scheduler \<Rightarrow> drain_op \<Rightarrow> scheduler" where
  "drainOp st (Observe candidates startup) = observeDrains st candidates startup"
| "drainOp st (Claim now) = snd (claimDrain st now)"
| "drainOp st (Finish job target retry now b) = finishDrain st job target retry now b"

text \<open>Each job is kept under its own address, one per key.\<close>

definition jobs_ok :: "scheduler \<Rightarrow> bool" where
  "jobs_ok st \<longleftrightarrow> distinct (map fst (sc_jobs st)) \<and> (\<forall>(k, j) \<in> set (sc_jobs st). drainKeyOf (job_address j) = k)"

lemma in_set_update: "(k', j') \<in> set (AList.update k j xs) \<Longrightarrow> (k', j') = (k, j) \<or> (k', j') \<in> set xs"
  by (induction xs) (auto split: if_splits)

lemma jobs_ok_update:
  assumes "jobs_ok st" "drainKeyOf (job_address j) = k"
  shows "jobs_ok (st\<lparr>sc_jobs := AList.update k j (sc_jobs st)\<rparr>)"
proof -
  have "distinct (map fst (AList.update k j (sc_jobs st)))" using assms(1) by (simp add: jobs_ok_def distinct_update)
  moreover have "drainKeyOf (job_address j') = k'" if "(k', j') \<in> set (AList.update k j (sc_jobs st))" for k' j'
    using in_set_update [OF that] assms by (auto simp: jobs_ok_def)
  ultimately show ?thesis by (auto simp: jobs_ok_def)
qed

lemma jobs_ok_filter: "jobs_ok st \<Longrightarrow> jobs_ok (st\<lparr>sc_jobs := filter P (sc_jobs st)\<rparr>)"
  by (auto simp: jobs_ok_def distinct_map_filter)

lemma jobs_ok_order [simp]: "jobs_ok (st\<lparr>sc_nextOrder := n\<rparr>) = jobs_ok st"
  by (simp add: jobs_ok_def)

lemma observeOne_cases:
  assumes "jobs_ok st"
  obtains "observeOne startup st c = st"
  | j n where "observeOne startup st c = st\<lparr>sc_jobs := AList.update (drainKeyOf (cand_address c)) j (sc_jobs st), sc_nextOrder := n\<rparr>"
      "drainKeyOf (job_address j) = drainKeyOf (cand_address c)"
      "\<not> opt_exists (\<lambda>j. job_state j = Running) (map_of (sc_jobs st) (drainKeyOf (cand_address c)))"
proof (cases "map_of (sc_jobs st) (drainKeyOf (cand_address c))")
  case None
  show thesis
    by (rule that(2) [where j = "\<lparr>job_state = Ready, job_address = cand_address c, job_target = cand_target c, job_failures = 0,
        job_order = sc_nextOrder st, job_takeOver = (if startup then cand_takeOver c else None)\<rparr>" and n = "sc_nextOrder st + 1"])
      (use None in \<open>simp_all add: observeOne_def Let_def\<close>)
next
  case (Some j)
  with assms have key: "drainKeyOf (job_address j) = drainKeyOf (cand_address c)"
    by (auto simp: jobs_ok_def dest: map_of_SomeD)
  consider "job_state j = Running"
    | "job_state j \<noteq> Running" "targetIdentity (job_target j) = targetIdentity (cand_target c)"
    | "job_state j \<noteq> Running" "targetIdentity (job_target j) \<noteq> targetIdentity (cand_target c)" by blast
  then show thesis
  proof cases
    case 1
    with Some show thesis by (intro that(1)) (simp add: observeOne_def Let_def)
  next
    case 2
    show thesis
      by (rule that(2) [where j = "j\<lparr>job_target := cand_target c\<rparr>" and n = "sc_nextOrder st"])
        (use 2 Some key in \<open>simp_all add: observeOne_def Let_def\<close>)
  next
    case 3
    show thesis
      by (rule that(2) [where j = "\<lparr>job_state = Ready, job_address = cand_address c, job_target = cand_target c, job_failures = 0,
          job_order = sc_nextOrder st, job_takeOver = None\<rparr>" and n = "sc_nextOrder st + 1"])
        (use 3 Some in \<open>simp_all add: observeOne_def Let_def\<close>)
  qed
qed

lemma observeOne_ok: "jobs_ok st \<Longrightarrow> jobs_ok (observeOne startup st c)"
  by (cases rule: observeOne_cases [of st startup c]) (simp_all add: jobs_ok_update)

interpretation observations: invariant_machine "observeOne startup" jobs_ok
  by unfold_locales (rule observeOne_ok)

lemma firstRunnable_SomeD:
  assumes "firstRunnable st now = Some j"
  shows "j \<in> set (map snd (sc_jobs st)) \<and> runnable now j
    \<and> (\<forall>i \<in> set (map snd (sc_jobs st)). runnable now i \<longrightarrow> job_order j \<le> job_order i)"
proof -
  let ?xs = "sort_key job_order (filter (runnable now) (map snd (sc_jobs st)))"
  from assms obtain js where xs: "?xs = j # js" by (auto simp: firstRunnable_def split: list.splits)
  have "sorted (map job_order ?xs)" by simp
  with xs have "\<forall>i \<in> set ?xs. job_order j \<le> job_order i" by (auto simp: xs)
  moreover have "set ?xs = {i \<in> set (map snd (sc_jobs st)). runnable now i}" by auto
  moreover have "j \<in> set ?xs" by (simp add: xs)
  ultimately show ?thesis by blast
qed

lemma claimDrain_SomeD:
  assumes "claimDrain st now = (Some claimed, st')"
  obtains j where "firstRunnable st now = Some j" "claimed = j\<lparr>job_state := Running\<rparr>"
    "st' = st\<lparr>sc_jobs := AList.update (drainKeyOf (job_address j)) (claimed\<lparr>job_takeOver := None\<rparr>) (sc_jobs st)\<rparr>"
  using assms by (auto simp: claimDrain_def Let_def split: option.splits)

lemma claim_ok: "jobs_ok st \<Longrightarrow> jobs_ok (snd (claimDrain st now))"
  by (auto simp: claimDrain_def Let_def intro: jobs_ok_update split: option.split)

lemma finish_ok: "jobs_ok st \<Longrightarrow> jobs_ok (finishDrain st job target retry now b)"
proof -
  assume ok: "jobs_ok st"
  have upd: "jobs_ok \<lparr>sc_jobs = AList.update (drainKeyOf (job_address job)) j (sc_jobs st), sc_nextOrder = n\<rparr>"
    if "job_address j = job_address job" for j n
    using jobs_ok_update [OF ok, of j "drainKeyOf (job_address job)"] that by (simp add: jobs_ok_def)
  show ?thesis
    by (auto simp: finishDrain_def Let_def jobs_ok_filter [OF ok] upd split: option.split)
qed

interpretation drains: invariant_machine drainOp jobs_ok
proof unfold_locales
  fix st e
  assume ok: "jobs_ok st"
  show "jobs_ok (drainOp st e)"
  proof (cases e)
    case (Observe candidates startup)
    then show ?thesis using observations.inv_run [OF ok] by (simp add: observeDrains_def Let_def jobs_ok_filter)
  qed (use ok in \<open>simp_all add: claim_ok finish_ok\<close>)
qed

text \<open>A session's job is running.\<close>

definition isRunning :: "string \<Rightarrow> scheduler \<Rightarrow> bool" where
  "isRunning key st \<longleftrightarrow> jobs_ok st \<and> opt_exists (\<lambda>j. job_state j = Running) (map_of (sc_jobs st) key)"

fun finishes :: "string \<Rightarrow> drain_op \<Rightarrow> bool" where
  "finishes key (Finish job target retry now b) \<longleftrightarrow> drainKeyOf (job_address job) = key"
| "finishes key _ \<longleftrightarrow> False"

lemma isRunning_observeOne: "isRunning key st \<Longrightarrow> isRunning key (observeOne startup st c)"
proof -
  assume r: "isRunning key st"
  then have ok: "jobs_ok st" by (simp add: isRunning_def)
  from observeOne_ok [OF ok, of startup c] show ?thesis
    by (cases rule: observeOne_cases [OF ok, of startup c]) (use r in \<open>auto simp: isRunning_def update_conv\<close>)
qed

interpretation observed_running: invariant_machine "observeOne startup" "isRunning key"
  by unfold_locales (rule isRunning_observeOne)

lemma isRunning_not_claimed:
  assumes "isRunning key st" "firstRunnable st now = Some j"
  shows "drainKeyOf (job_address j) \<noteq> key"
proof
  assume key: "drainKeyOf (job_address j) = key"
  from firstRunnable_SomeD [OF assms(2)] obtain k where k: "(k, j) \<in> set (sc_jobs st)" and run: "runnable now j" by auto
  from assms(1) k key have "map_of (sc_jobs st) key = Some j" by (auto simp: isRunning_def jobs_ok_def)
  with assms(1) run show False by (simp add: isRunning_def runnable_def)
qed

lemma map_of_filter_keep: "map_of xs k = Some v \<Longrightarrow> distinct (map fst xs) \<Longrightarrow> P (k, v) \<Longrightarrow> map_of (filter P xs) k = Some v"
  by (simp add: map_of_eq_Some_iff distinct_map_filter)

lemma isRunning_filter:
  assumes "isRunning key st" "\<And>j. job_state j = Running \<Longrightarrow> P (key, j)"
  shows "isRunning key (st\<lparr>sc_jobs := filter P (sc_jobs st)\<rparr>)"
proof -
  from assms(1) obtain j where j: "map_of (sc_jobs st) key = Some j" "job_state j = Running" and ok: "jobs_ok st"
    by (auto simp: isRunning_def opt_exists_iff)
  from ok have "distinct (map fst (sc_jobs st))" by (simp add: jobs_ok_def)
  from map_of_filter_keep [OF j(1) this, of P] assms(2) j(2) ok show ?thesis
    by (simp add: isRunning_def jobs_ok_filter)
qed

lemma isRunning_update:
  assumes "isRunning key st" "drainKeyOf (job_address j) \<noteq> key"
  shows "isRunning key (st\<lparr>sc_jobs := AList.update (drainKeyOf (job_address j)) j (sc_jobs st)\<rparr>)"
  using assms by (auto simp: isRunning_def update_conv jobs_ok_update)

lemma isRunning_order [simp]: "isRunning key (st\<lparr>sc_nextOrder := n\<rparr>) = isRunning key st"
  by (simp add: isRunning_def)

lemma isRunning_finish:
  assumes "isRunning key st" "drainKeyOf (job_address job) \<noteq> key"
  shows "isRunning key (finishDrain st job target retry now b)"
proof -
  have upd: "isRunning key (\<lparr>sc_jobs = AList.update (drainKeyOf (job_address job)) j (sc_jobs st), sc_nextOrder = n\<rparr>)"
    if "job_address j = job_address job" for j n
    using isRunning_update [OF assms(1), of j] assms(2) that by (simp add: isRunning_def jobs_ok_def)
  show ?thesis
    using assms by (cases target) (auto simp: finishDrain_def Let_def isRunning_filter upd)
qed

lemma isRunning_op:
  assumes "isRunning key st" "\<not> finishes key e"
  shows "isRunning key (drainOp st e)"
proof (cases e)
  case (Observe candidates startup)
  from isRunning_filter [OF observed_running.inv_run [OF assms(1), of startup candidates]] Observe show ?thesis
    by (simp add: observeDrains_def Let_def)
next
  case (Claim now)
  show ?thesis
  proof (cases "firstRunnable st now")
    case None
    with Claim assms(1) show ?thesis by (simp add: claimDrain_def)
  next
    case (Some j)
    with isRunning_not_claimed [OF assms(1) Some] isRunning_update [OF assms(1), of "j\<lparr>job_state := Running, job_takeOver := None\<rparr>"] Claim
    show ?thesis by (simp add: claimDrain_def Let_def)
  qed
next
  case (Finish job target retry now b)
  with assms show ?thesis by (simp add: isRunning_finish)
qed

lemma isRunning_run: "isRunning key st \<Longrightarrow> list_all (\<lambda>e. \<not> finishes key e) es \<Longrightarrow> isRunning key (foldl drainOp st es)"
  by (induction es arbitrary: st) (auto simp: isRunning_op)

section \<open>Agreement with the head\<close>

definition slotsOfState :: "sessions_state \<Rightarrow> drain_slot list" where
  "slotsOfState st = map (\<lambda>s. \<lparr>ds_id = slot_id s, ds_delivery = slot_delivery s, ds_claimedBy = slot_claimedBy s\<rparr>) (ss_inbox st)"

section \<open>Properties\<close>

text \<open>
  C14. One session runs once: in any scheduler reached from the empty one, a session whose job was
  claimed is not claimed again, whatever is observed, claimed or finished for others, until its
  own job finishes; and what a claim takes is the runnable job with the least ticket.
\<close>
theorem claimed_session_is_not_claimed_again:
  assumes "claimDrain (foldl drainOp emptyDrainScheduler es) now = (Some j, st)"
    "list_all (\<lambda>e. \<not> finishes (drainKeyOf (job_address j)) e) later"
  shows "case claimDrain (foldl drainOp st later) now' of
      (None, _) \<Rightarrow> True
    | (Some j', _) \<Rightarrow> drainKeyOf (job_address j') \<noteq> drainKeyOf (job_address j)
        \<and> list_all (\<lambda>(k, i). if runnable now' i then job_order j' \<le> job_order i else True) (sc_jobs (foldl drainOp st later))"
proof -
  let ?st0 = "foldl drainOp emptyDrainScheduler es"
  have ok: "jobs_ok ?st0" by (rule drains.inv_run) (simp add: jobs_ok_def emptyDrainScheduler_def)
  from assms(1) obtain j0 where j0: "firstRunnable ?st0 now = Some j0" "j = j0\<lparr>job_state := Running\<rparr>"
    "st = ?st0\<lparr>sc_jobs := AList.update (drainKeyOf (job_address j0)) (j\<lparr>job_takeOver := None\<rparr>) (sc_jobs ?st0)\<rparr>"
    by (rule claimDrain_SomeD)
  have "isRunning (drainKeyOf (job_address j)) st"
    using j0(2) jobs_ok_update [OF ok, of "j\<lparr>job_takeOver := None\<rparr>" "drainKeyOf (job_address j0)"]
    by (simp add: isRunning_def j0(3) update_conv)
  from isRunning_run [OF this assms(2)] have run: "isRunning (drainKeyOf (job_address j)) (foldl drainOp st later)" .
  show ?thesis
  proof (cases "claimDrain (foldl drainOp st later) now'")
    case (Pair c st2)
    show ?thesis
    proof (cases c)
      case None
      with Pair show ?thesis by simp
    next
      case (Some j')
      with Pair obtain i where i: "firstRunnable (foldl drainOp st later) now' = Some i" "j' = i\<lparr>job_state := Running\<rparr>"
        by (auto elim: claimDrain_SomeD)
      with isRunning_not_claimed [OF run i(1)] firstRunnable_SomeD [OF i(1)] Pair Some show ?thesis
        by (auto simp: list_all_iff)
    qed
  qed
qed

definition sampleHistory :: drain_history where
  "sampleHistory = drainHistoryOf [Enqueued ''i'' (Some Steer), Enqueued ''n'' None, Started 1 ''r'' OriginUser [''n''] (Some ''i'') None]"

definition sampleOpenState :: sessions_state where
  "sampleOpenState = \<lparr>ss_format = None, ss_turns = 1,
     ss_open = Some \<lparr>ot_turn = 1, ot_runId = ''r'', ot_key = ''k'', ot_origin = OriginUser, ot_holder = ''h'', ot_expiresAt = None,
       ht_process = None, ht_sealed = None\<rparr>,
     ss_title = None,
     ss_inbox = [\<lparr>slot_id = ''i'', slot_attempts = 0, slot_claimedBy = Some 1, slot_delivery = Some Steer\<rparr>,
       \<lparr>slot_id = ''n'', slot_attempts = 1, slot_claimedBy = Some 1, slot_delivery = None\<rparr>], ss_memorySnapshot = None\<rparr>"

definition samplePolicy :: drain_policy where
  "samplePolicy = \<lparr>dp_resume = ResumeBefore None, dp_attempts = 3, dp_baseline = None\<rparr>"

definition sampleCandidate :: candidate where
  "sampleCandidate = \<lparr>cand_address = \<lparr>addr_id = ''s'', addr_owner = ''o''\<rparr>, cand_target = TargetQueued ''i'', cand_takeOver = None\<rparr>"

theorem claimed_session_is_not_claimed_again_witness:
  "\<exists>j st. claimDrain (foldl drainOp emptyDrainScheduler [Observe [sampleCandidate] True]) 0 = (Some j, st)
     \<and> (case claimDrain (foldl drainOp st [Observe [sampleCandidate] False]) 9 of
          (None, _) \<Rightarrow> True | (Some j', _) \<Rightarrow> drainKeyOf (job_address j') \<noteq> drainKeyOf (job_address j))"
proof -
  obtain j st where c: "claimDrain (foldl drainOp emptyDrainScheduler [Observe [sampleCandidate] True]) 0 = (Some j, st)"
    by (simp add: claimDrain_def firstRunnable_def observeDrains_def observeOne_def emptyDrainScheduler_def runnable_def
        sampleCandidate_def Let_def)
  from claimed_session_is_not_claimed_again [OF c, of "[Observe [sampleCandidate] False]" 9] c show ?thesis
    by (auto split: option.splits prod.splits)
qed

text \<open>
  C18. The journal and the head agree on the inbox: when the journal's projection holds the same
  items as the head's state, closing the open turn in the head (\<open>closedState\<close>) and replaying what
  that close stores (the turn's end, then each dropped item) in the projection give the same items
  again, in the same order, with the same claims.
\<close>
theorem journal_agrees_with_the_closed_head:
  assumes "ss_open st = Some t" "dh_slots h = slotsOfState st" "distinct (map slot_id (ss_inbox st))"
  shows "dh_slots (foldl drainStep h (EndedTurn (ot_turn t) reason code seq
             # map RemovedItem (cs_dropped (closedState st reason maxAttempts tried))))
    = slotsOfState (cs_state (closedState st reason maxAttempts tried))"
proof -
  define counted where "counted = (tried \<or> reason \<noteq> Interrupted)"
  let ?abs = "\<lambda>s. \<lparr>ds_id = slot_id s, ds_delivery = slot_delivery s, ds_claimedBy = slot_claimedBy s\<rparr>"
  let ?closeSlot = "\<lambda>s. if ds_claimedBy s \<noteq> Some (ot_turn t) then [s]
          else if reason = Completed \<or> reason = Cancelled \<or> reason = Waiting \<or> (ds_delivery s = None \<and> reason = Partial) then []
          else [s\<lparr>ds_claimedBy := None\<rparr>]"
  let ?gone = "\<lambda>s. takenBy st s \<and> \<not> slotDone reason s \<and> slotExhausted maxAttempts counted s"
  let ?D = "set (map slot_id (filter ?gone (ss_inbox st)))"
  have removed: "dh_slots (foldl drainStep g (map RemovedItem ids)) = filter (\<lambda>s. ds_id s \<notin> set ids) (dh_slots g)" for g ids
    by (induction ids arbitrary: g) (auto intro!: filter_cong)
  have D: "slot_id s \<in> ?D \<longleftrightarrow> ?gone s" if "s \<in> set (ss_inbox st)" for s
    using that assms(3) by (auto simp: distinct_map inj_on_def)
  have taken: "takenBy st s \<longleftrightarrow> slot_claimedBy s = Some (ot_turn t)" for s
    by (auto simp: takenBy_def assms(1))
  have slot: "filter (\<lambda>s. ds_id s \<notin> ?D) (?closeSlot (?abs s)) = map ?abs (closedSlot st reason maxAttempts counted s)"
    if "s \<in> set (ss_inbox st)" for s
    using D [OF that] taken [of s]
    by (cases "slot_delivery s = None"; cases reason)
      (auto simp: closedSlot_def slotDone_def finished_def slotExhausted_def simp del: set_map)
  have "dh_slots (foldl drainStep h (EndedTurn (ot_turn t) reason code seq # map RemovedItem (map slot_id (filter ?gone (ss_inbox st)))))
      = filter (\<lambda>s. ds_id s \<notin> ?D) (concat (map (?closeSlot \<circ> ?abs) (ss_inbox st)))"
    by (simp only: foldl_Cons removed) (simp add: assms(2) slotsOfState_def)
  also have "\<dots> = concat (map (\<lambda>s. filter (\<lambda>s. ds_id s \<notin> ?D) (?closeSlot (?abs s))) (ss_inbox st))"
    by (simp add: filter_concat comp_def)
  also have "\<dots> = concat (map (\<lambda>s. map ?abs (closedSlot st reason maxAttempts counted s)) (ss_inbox st))"
    using slot by (intro arg_cong [of _ _ concat] map_cong) simp_all
  finally show ?thesis
    by (simp add: slotsOfState_def closedState_simps counted_def map_concat comp_def)
qed

theorem journal_agrees_with_the_closed_head_witness:
  "dh_slots (foldl drainStep sampleHistory (EndedTurn 1 Failed None 9 # map RemovedItem (cs_dropped (closedState sampleOpenState Failed 2 True))))
    = slotsOfState (cs_state (closedState sampleOpenState Failed 2 True))"
proof -
  obtain t where t: "ss_open sampleOpenState = Some t" "ot_turn t = 1" by (simp add: sampleOpenState_def)
  have "dh_slots sampleHistory = slotsOfState sampleOpenState"
    by (simp add: sampleHistory_def drainHistoryOf_def slotsOfState_def sampleOpenState_def)
  moreover have "distinct (map slot_id (ss_inbox sampleOpenState))" by (simp add: sampleOpenState_def)
  ultimately show ?thesis
    using journal_agrees_with_the_closed_head [OF t(1), of sampleHistory Failed None 9 2 True] t(2) by simp
qed

text \<open>
  What the drainer picks is never parked: a target chosen from a history whose items are
  distinct is not one the policy parked, and with an open turn nothing is chosen without the
  authority to take it over.
\<close>
theorem parked_work_is_never_picked:
  assumes "distinct (map ds_id (dh_slots h))" "targetOf h openTurn0 policy takeOver = Some target"
  shows "\<not> isParked h target policy \<and> (openTurn0 = None \<or> takeOver)"
proof -
  from assms(2) have open_ok: "openTurn0 = None \<or> takeOver" by (auto simp: targetOf_def split: if_splits)
  show ?thesis
  proof (cases "opt_filter (\<lambda>r. int (rr_failures r) < dp_attempts policy) (resumeRoot h policy)")
    case (Some r)
    with assms(2) open_ok have "target = TargetResume (rr_root r) (rr_after r)" by (auto simp: targetOf_def split: if_splits)
    with Some open_ok show ?thesis by (auto simp: isParked_def opt_filter_eq_Some)
  next
    case None
    with assms(2) open_ok obtain s where s: "find (waitingSlot h policy) (dh_slots h) = Some s"
      "target = (if ds_delivery s \<noteq> None then TargetQueued (ds_id s) else TargetInbox (ds_id s))"
      by (auto simp: targetOf_def split: if_splits)
    from find_SomeD [OF s(1)] have "s \<in> set (dh_slots h)" "\<not> inputParked h s policy" by (auto simp: waitingSlot_def)
    with assms(1) have "\<not> list_ex (\<lambda>s'. ds_id s' = ds_id s \<and> inputParked h s' policy) (dh_slots h)"
      by (auto simp: list_ex_iff distinct_map inj_on_def)
    with s(2) open_ok show ?thesis by (auto simp: isParked_def)
  qed
qed


theorem parked_work_is_never_picked_witness:
  "targetOf (drainHistoryOf [Enqueued ''i'' (Some Steer)]) None samplePolicy False = Some (TargetQueued ''i'')
   \<and> \<not> isParked (drainHistoryOf [Enqueued ''i'' (Some Steer)]) (TargetQueued ''i'') samplePolicy"
proof -
  have t: "targetOf (drainHistoryOf [Enqueued ''i'' (Some Steer)]) None samplePolicy False = Some (TargetQueued ''i'')"
    by (simp add: targetOf_def drainHistoryOf_def resumeRoot_def samplePolicy_def waitingSlot_def inputParked_def)
  from parked_work_is_never_picked [OF _ t] t show ?thesis
    by (simp add: drainHistoryOf_def)
qed

end
