(* ===== verification/JournalKinds.thy ===== *)
theory JournalKinds
  imports Vocabulary
begin

text \<open>
  The kinds the framework writes to a session's journal and the names it reserves
  (\<open>core/src/session/session-event.entity.ts\<close>, \<open>turn-event.entity.ts\<close>), the check that refuses a
  host's draft under one of them, and the stored form of a turn's ending
  (\<open>session-event.entity.functions.ts\<close>).
\<close>

section \<open>Kinds\<close>

definition MemoryKindOf :: "(string \<times> string) list" where
  "MemoryKindOf =
     [(''SystemPrepared'', ''memory.system''), (''TurnContext'', ''memory.section''), (''StepContext'', ''memory.step''),
      (''Message'', ''memory.message''), (''ToolResult'', ''memory.tool-result''), (''ToolDigest'', ''memory.digest''),
      (''ToolsActivated'', ''memory.skills''), (''Compaction'', ''memory.compaction''), (''TurnEnded'', ''turn.reply''),
      (''ToolPresentation'', ''memory.tool-presentation'')]"

definition MEMORY_KINDS :: "string list" where
  "MEMORY_KINDS = ''turn.started'' # map snd MemoryKindOf"

definition TURN_EVENT_KINDS :: "string list" where
  "TURN_EVENT_KINDS =
     [''step.started'', ''step.ended'', ''step.usage'', ''tool.started'', ''tool.refused'', ''tool.completed'',
      ''completion.evaluated'', ''context.built'', ''decision.recorded'', ''stream.fallback'',
      ''request.prepared'', ''tool.intercepted'']"

definition SESSION_KINDS :: "string list" where
  "SESSION_KINDS = [''turn.ended'', ''inbox.queued'', ''inbox.dropped'', ''inbox.taken'', ''transact.keyed'']"

definition JOURNAL_KINDS :: "string list" where
  "JOURNAL_KINDS = MEMORY_KINDS @ TURN_EVENT_KINDS @ SESSION_KINDS @ [''model.called'', ''request.part'', ''memory.snapshot'']"

definition TURN_EVENT_NAMES :: "string list" where
  "TURN_EVENT_NAMES =
     [''turn.started'', ''step.started'', ''tool.started'', ''tool.refused'', ''tool.progress'', ''tool.completed'',
      ''step.ended'', ''completion.evaluated'', ''skills.activated'', ''context.built'', ''decision.recorded'',
      ''assistant.message'', ''assistant.delta'', ''stream.fallback'', ''turn.ended'', ''host'', ''model.called'',
      ''tool.intercepted'']"

definition RESERVED_KINDS :: "string list" where
  "RESERVED_KINDS = JOURNAL_KINDS @ filter (\<lambda>name. name \<notin> set JOURNAL_KINDS) TURN_EVENT_NAMES"

text \<open>A draft a caller hands over: \<open>td_framework\<close> is the symbol \<open>frameworkDraft\<close> marks it with.\<close>

record turn_draft = draft +
  td_framework :: bool

definition frameworkDraft :: "string \<Rightarrow> json \<Rightarrow> turn_draft" where
  "frameworkDraft kind data = \<lparr>draft_kind = kind, draft_data = data, td_framework = True\<rparr>"

definition isFrameworkDraft :: "turn_draft \<Rightarrow> bool" where
  "isFrameworkDraft d \<longleftrightarrow> td_framework d"

definition unmarkedReservedDraft :: "turn_draft list \<Rightarrow> turn_draft option" where
  "unmarkedReservedDraft drafts = find (\<lambda>d. draft_kind d \<in> set RESERVED_KINDS \<and> \<not> isFrameworkDraft d) drafts"

section \<open>A stored ending\<close>

fun encodeReason :: "end_reason \<Rightarrow> string" where
  "encodeReason Completed = ''completed''"
| "encodeReason Partial = ''partial''"
| "encodeReason Failed = ''failed''"
| "encodeReason Waiting = ''waiting''"
| "encodeReason Cancelled = ''cancelled''"
| "encodeReason Interrupted = ''interrupted''"

definition decodeReason :: "json \<Rightarrow> end_reason option" where
  "decodeReason j = (case j of
      JStr s \<Rightarrow> find (\<lambda>r. encodeReason r = s) [Completed, Partial, Failed, Waiting, Cancelled, Interrupted]
    | _ \<Rightarrow> None)"

definition turnEndedData :: "turn_ending \<Rightarrow> json" where
  "turnEndedData e = JObj [(''reason'', JStr (encodeReason (ending_reason e))),
     (''failure'', case ending_failure e of None \<Rightarrow> JNull
        | Some f \<Rightarrow> JObj [(''code'', JStr (failure_code f)), (''message'', JStr (failure_message f))])]"

definition decodeFailure :: "json \<Rightarrow> turn_failure option option" where
  "decodeFailure j = (case j of
      JNull \<Rightarrow> Some None
    | JObj fs \<Rightarrow> (case (map_of fs ''code'', map_of fs ''message'') of
        (Some (JStr c), Some (JStr m)) \<Rightarrow> Some (Some \<lparr>failure_code = c, failure_message = m\<rparr>)
      | _ \<Rightarrow> None)
    | _ \<Rightarrow> None)"

definition turnEndedOf :: "json \<Rightarrow> turn_ending option" where
  "turnEndedOf j = (case j of
      JObj fs \<Rightarrow> Option.bind (Option.bind (map_of fs ''reason'') decodeReason) (\<lambda>r.
        Option.bind (Option.bind (map_of fs ''failure'') decodeFailure) (\<lambda>f.
          Some \<lparr>ending_reason = r, ending_failure = f\<rparr>))
    | _ \<Rightarrow> None)"

lemma decodeReason_encode [simp]: "decodeReason (JStr (encodeReason r)) = Some r"
  by (cases r) (simp_all add: decodeReason_def)

lemma turnEndedOf_data [simp]: "turnEndedOf (turnEndedData e) = Some e"
  by (cases "ending_failure e") (simp_all add: turnEndedOf_def turnEndedData_def decodeFailure_def)


end
