(* ===== verification/SessionPlans.thy ===== *)
theory SessionPlans
  imports SessionsState JournalKinds Resume Canonical Media
begin

text \<open>
  What the sessions service decides (\<open>plugin-sessions/src/sessions.adapter.ts\<close>): each of its
  operations as the plan it makes from a session's head, state and own events, before its commit.
  Closing a turn nobody holds (\<open>reaped\<close>), opening_turn a turn, closing one from outside, a keyed
  transact, an enqueue, a delivery.

  How a record is written to JSON and read back is its schema's: the \<open>codec\<close>. A task's reference
  is its JSON. \<open>inherited\<close> is the answer of the lookup of a run id in the history a fork inherits
  (\<open>inheritedRun\<close>).
\<close>

section \<open>Stored records\<close>

record started_data =
  tsd_runId :: string
  tsd_key :: string
  tsd_origin :: turn_origin
  tsd_userMessage :: user_message
  tsd_command :: json
  tsd_claimed :: "string list"
  tsd_input :: "string option"
  tsd_entry :: string
  tsd_at :: int
  tsd_meta :: "json option"
  tsd_resumes :: "int option"
  tsd_task :: "json option"

text \<open>What a lookup decodes of a \<open>turn.started\<close>, and what a resume's check does.\<close>

record started_keys =
  sk_runId :: string
  sk_key :: string
  sk_entry :: string
  sk_input :: "string option"
  sk_resumes :: "int option"

definition keysOfStarted :: "started_data \<Rightarrow> started_keys" where
  "keysOfStarted d = \<lparr>sk_runId = tsd_runId d, sk_key = tsd_key d, sk_entry = tsd_entry d, sk_input = tsd_input d, sk_resumes = tsd_resumes d\<rparr>"

record queued_data =
  qd_id :: string
  qd_source :: json
  qd_content :: string
  qd_input :: "(user_message \<times> delivery) option"

record codec =
  cdc_started :: "started_data \<Rightarrow> json"
  cdc_startedOf :: "json \<Rightarrow> string + started_data"
  cdc_keysOf :: "json \<Rightarrow> string + started_keys"
  cdc_resumeOf :: "json \<Rightarrow> string + (turn_origin \<times> int option)"
  cdc_queued :: "queued_data \<Rightarrow> json"
  cdc_queuedOf :: "json \<Rightarrow> string + queued_data"

record keyed_transact =
  kt_key :: string
  kt_command :: json
  kt_events :: int

definition keyedOf :: "json \<Rightarrow> keyed_transact option" where
  "keyedOf j = (case j of
      JObj fs \<Rightarrow> (case (map_of fs ''key'', map_of fs ''command'', map_of fs ''events'') of
        (Some (JStr k), Some command, Some (JNum n)) \<Rightarrow>
          if n \<ge> 0 then Some \<lparr>kt_key = k, kt_command = command, kt_events = n\<rparr> else None
      | _ \<Rightarrow> None)
    | _ \<Rightarrow> None)"

definition takenOf :: "json \<Rightarrow> (string \<times> string) option" where
  "takenOf j = (case j of
      JObj fs \<Rightarrow> (case (map_of fs ''id'', map_of fs ''entry'') of (Some (JStr i), Some (JStr e)) \<Rightarrow> Some (i, e) | _ \<Rightarrow> None)
    | _ \<Rightarrow> None)"

section \<open>What an operation answers\<close>

datatype session_error =
    SEMissing string
  | SEContended int
  | SELog string string
  | SEBusy int
  | SEDuplicate int bool
  | SEKeyConflict string int
  | SERunReused string int
  | SENothing
  | SENotResumable int not_resumable
  | SERefused string
  | SEFull nat
  | SEInputConflict string
  | SEReserved string
  | SETransactDuplicate string "log_event list"
  | SETransactConflict string

definition storage :: "string \<Rightarrow> string + 'a \<Rightarrow> session_error + 'a" where
  "storage code r = (case r of Inl m \<Rightarrow> Inl (SELog code m) | Inr x \<Rightarrow> Inr x)"

definition decoded :: "('a option) \<Rightarrow> session_error + 'a" where
  "decoded x = or_fail (SELog ''session.decode'' '''') x"

record 'a guarded_plan =
  gp_drafts :: "session_draft list"
  gp_next :: "sessions_state option"
  gp_result :: 'a
  gp_validate :: bool

definition ofKind :: "string \<Rightarrow> log_event list \<Rightarrow> log_event list" where
  "ofKind kind es = filter (\<lambda>e. ev_kind e = kind) es"

definition numberedTurn :: "log_event \<Rightarrow> int" where
  "numberedTurn e = get_or_else 0 (ev_turn e)"

section \<open>Drafts\<close>

definition draftIn :: "int \<Rightarrow> string \<Rightarrow> json \<Rightarrow> session_draft" where
  "draftIn turn kind data = \<lparr>sd_kind = kind, sd_turn = Some turn, sd_data = data\<rparr>"

definition droppedDrafts :: "string list \<Rightarrow> int \<Rightarrow> session_draft list" where
  "droppedDrafts ids turn = map (\<lambda>i. draftIn turn ''inbox.dropped'' (droppedData i)) ids"

definition sealedDrafts :: "sealed_turn option \<Rightarrow> int \<Rightarrow> session_draft list" where
  "sealedDrafts s turn = (case s of None \<Rightarrow> [] | Some x \<Rightarrow> map (\<lambda>d. draftIn turn (draft_kind d) (draft_data d)) (sealed_closing x))"

definition standalone :: "draft list \<Rightarrow> session_draft list" where
  "standalone ds = map (\<lambda>d. \<lparr>sd_kind = draft_kind d, sd_turn = None, sd_data = draft_data d\<rparr>) ds"

section \<open>Closing a turn nobody holds\<close>

datatype take_over = NoTakeOver | TakeAny | TakeTurn int string

record reap =
  rp_drafts :: "session_draft list"
  rp_state :: sessions_state
  rp_closed :: "int option"
  rp_closedAs :: "end_reason option"

definition takes :: "take_over \<Rightarrow> held_turn \<Rightarrow> bool" where
  "takes takeOver t = (case takeOver of NoTakeOver \<Rightarrow> False | TakeAny \<Rightarrow> True | TakeTurn n r \<Rightarrow> ot_turn t = n \<and> ot_runId t = r)"

definition reapEnding :: "held_turn \<Rightarrow> bool \<Rightarrow> turn_ending" where
  "reapEnding t taken = (case ht_sealed t of
      Some s \<Rightarrow> sealed_ending s
    | None \<Rightarrow> \<lparr>ending_reason = Interrupted, ending_failure = Some (if taken
        then \<lparr>failure_code = ''turn.takeover'', failure_message = ''a new holder took the session over''\<rparr>
        else \<lparr>failure_code = ''turn.lease'', failure_message = ''the turn's holder stopped writing''\<rparr>)\<rparr>)"

definition closeDrafts :: "held_turn \<Rightarrow> turn_ending \<Rightarrow> string list \<Rightarrow> session_draft list" where
  "closeDrafts t ending dropped = sealedDrafts (ht_sealed t) (ot_turn t)
     @ [draftIn (ot_turn t) ''turn.ended'' (turnEndedData ending)] @ droppedDrafts dropped (ot_turn t)"

definition reaped :: "sessions_config \<Rightarrow> session_head \<Rightarrow> sessions_state \<Rightarrow> holder \<Rightarrow> take_over \<Rightarrow> reap" where
  "reaped cfg head st h takeOver =
     (let applies = opt_exists (takes takeOver) (ss_open st); held = heldTurn head st h in
      case ss_open st of
        None \<Rightarrow> \<lparr>rp_drafts = [], rp_state = st, rp_closed = None, rp_closedAs = None\<rparr>
      | Some t \<Rightarrow>
          if \<not> applies \<and> held \<noteq> None then \<lparr>rp_drafts = [], rp_state = st, rp_closed = None, rp_closedAs = None\<rparr>
          else let taken = (applies \<and> held \<noteq> None); ending = reapEnding t taken;
                 after = closedState st (ending_reason ending) (cfg_attempts cfg) (\<not> taken)
            in \<lparr>rp_drafts = closeDrafts t ending (cs_dropped after), rp_state = cs_state after,
                rp_closed = Some (ot_turn t), rp_closedAs = Some (ending_reason ending)\<rparr>)"

text \<open>\<open>reapSealed\<close>: what a refused begin still stores.\<close>

definition reapSealedPlan :: "sessions_config \<Rightarrow> holder \<Rightarrow> take_over \<Rightarrow> session_head \<Rightarrow> sessions_state \<Rightarrow> int option guarded_plan" where
  "reapSealedPlan cfg h takeOver head st =
     (let nothing = \<lparr>gp_drafts = [], gp_next = None, gp_result = None, gp_validate = False\<rparr> in
      if \<not> opt_exists (\<lambda>t. ht_sealed t \<noteq> None) (ss_open st) then nothing
      else let r = reaped cfg head st h takeOver in
        if rp_closed r = None then nothing
        else \<lparr>gp_drafts = rp_drafts r, gp_next = Some (rp_state r), gp_result = rp_closed r, gp_validate = False\<rparr>)"

section \<open>Lookups in the journal\<close>

definition readKeys :: "codec \<Rightarrow> log_event list \<Rightarrow> session_error + (log_event \<times> started_keys) list" where
  "readKeys c es = each_r (\<lambda>e. map_r (Pair e) (storage ''session.decode'' (cdc_keysOf c (ev_data e)))) (ofKind ''turn.started'' es)"

definition keyIn :: "codec \<Rightarrow> log_event list \<Rightarrow> string \<Rightarrow> session_error + (int \<times> log_event) option" where
  "keyIn c es key = map_r (\<lambda>ks. map_option (\<lambda>(e, k). (numberedTurn e, e)) (find (\<lambda>(e, k). sk_key k = key) ks)) (readKeys c es)"

definition begunIn :: "codec \<Rightarrow> log_event list \<Rightarrow> string \<Rightarrow> session_error + int option" where
  "begunIn c es runId = map_r (\<lambda>ks. map_option (\<lambda>(e, k). numberedTurn e) (find (\<lambda>(e, k). sk_runId k = runId) ks)) (readKeys c es)"

definition runOf :: "codec \<Rightarrow> log_event list \<Rightarrow> (string \<Rightarrow> session_error + int option) \<Rightarrow> string \<Rightarrow> session_error + int option" where
  "runOf c es inherited runId = and_then (begunIn c es runId) (\<lambda>hit. case hit of Some t \<Rightarrow> Inr (Some t) | None \<Rightarrow> inherited runId)"

text \<open>The one \<open>turn.started\<close> a lookup found, read again whole.\<close>

definition startedWhole :: "codec \<Rightarrow> log_event list \<Rightarrow> log_event \<Rightarrow> session_error + started_data" where
  "startedWhole c es hit = (case find (\<lambda>e. ev_seq e = ev_seq hit) (ofKind ''turn.started'' es) of
      None \<Rightarrow> Inl (SELog ''session.decode'' ''a turn.started a lookup found is no longer stored'')
    | Some e \<Rightarrow> storage ''session.decode'' (cdc_startedOf c (ev_data e)))"

definition turnsOf :: "codec \<Rightarrow> log_event list \<Rightarrow> (int \<times> end_reason) option \<Rightarrow> session_error + resumable_turn list" where
  "turnsOf c es reapedNow =
     and_then (each_r (\<lambda>e. map_r (\<lambda>d. (numberedTurn e, ending_reason d)) (decoded (turnEndedOf (ev_data e)))) (ofKind ''turn.ended'' es)) (\<lambda>endings.
       each_r (\<lambda>e. map_r (\<lambda>(orig, resumes). \<lparr>rt_turn = numberedTurn e, rt_origin = orig, rt_resumes = resumes,
            rt_ended = (case opt_filter (\<lambda>(turn, reason). turn = numberedTurn e) reapedNow of
               Some (turn, reason) \<Rightarrow> Some reason
             | None \<Rightarrow> js_map endings (numberedTurn e))\<rparr>)
          (storage ''session.decode'' (cdc_resumeOf c (ev_data e)))) (ofKind ''turn.started'' es))"

definition queuedIn :: "codec \<Rightarrow> log_event list \<Rightarrow> session_error + queued_data list" where
  "queuedIn c es = each_r (\<lambda>e. storage ''session.decode'' (cdc_queuedOf c (ev_data e))) (ofKind ''inbox.queued'' es)"

definition keyedTransact :: "log_event list \<Rightarrow> string \<Rightarrow> session_error + (log_event \<times> keyed_transact) option" where
  "keyedTransact es key = map_r (find (\<lambda>(e, k). kt_key k = key))
     (each_r (\<lambda>e. map_r (Pair e) (decoded (keyedOf (ev_data e)))) (ofKind ''transact.keyed'' es))"

definition takenInputOf :: "log_event list \<Rightarrow> string \<Rightarrow> int \<Rightarrow> session_error + int option" where
  "takenInputOf es wanted through =
     and_then (each_r (\<lambda>e. map_r (Pair e) (decoded (takenOf (ev_data e)))) (filter (\<lambda>e. ev_seq e \<le> through) (ofKind ''inbox.taken'' es)))
       (\<lambda>taken. case find (\<lambda>(e, i, entry). i = wanted) taken of
          None \<Rightarrow> Inr None
        | Some (e, _) \<Rightarrow> (case opt_filter (\<lambda>t. 1 \<le> t \<and> t \<le> 9007199254740991) (ev_turn e) of
            None \<Rightarrow> Inl (SELog ''session.decode'' ''a consumed input receipt has no consuming turn'')
          | Some turn \<Rightarrow> Inr (Some turn)))"

record queued_input =
  qi_id :: string
  qi_userMessage :: user_message
  qi_delivery :: delivery
  qi_source :: json

definition queuedInputOf :: "codec \<Rightarrow> log_event list \<Rightarrow> string \<Rightarrow> session_error + queued_input option" where
  "queuedInputOf c es wanted = map_r (\<lambda>queued. case concat (map (\<lambda>d. case qd_input d of
        Some (m, del) \<Rightarrow> if qd_id d = wanted then [\<lparr>qi_id = qd_id d, qi_userMessage = m, qi_delivery = del, qi_source = qd_source d\<rparr>] else []
      | None \<Rightarrow> []) queued) of [] \<Rightarrow> None | q # _ \<Rightarrow> Some q) (queuedIn c es)"

definition attemptKey :: "string \<Rightarrow> int option \<Rightarrow> string \<Rightarrow> string" where
  "attemptKey i final runId = (case final of
      None \<Rightarrow> ''input:'' @ i
    | Some turn \<Rightarrow> ''input-retry:'' @ canonicalJson (JArr [JStr i, JNum turn, JStr runId]))"

definition lastInputTurn :: "(log_event \<times> started_keys) list \<Rightarrow> string \<Rightarrow> int option" where
  "lastInputTurn starts i = at_last (map (\<lambda>(e, k). numberedTurn e) (filter (\<lambda>(e, k). sk_input k = Some i) starts))"

record inbox_item =
  ii_id :: string
  ii_source :: json
  ii_content :: string

definition inboxItems :: "codec \<Rightarrow> log_event list \<Rightarrow> string list \<Rightarrow> session_error + inbox_item list" where
  "inboxItems c es ids = map_r (\<lambda>queued. concat (map (\<lambda>wanted. case find (\<lambda>d. qd_id d = wanted \<and> qd_input d = None) queued of
        None \<Rightarrow> []
      | Some d \<Rightarrow> [\<lparr>ii_id = wanted, ii_source = qd_source d,
          ii_content = (if length (qd_content d) > 0 then qd_content d else ''(inbox item '' @ wanted @ '')'')\<rparr>]) ids)) (queuedIn c es)"

section \<open>Beginning a turn\<close>

text \<open>\<open>BeginUser\<close> has the message, run id, key, command and resumed turn; \<open>BeginQueued\<close> the input and run id;
  \<open>BeginTask\<close> the task, message, run id and key.\<close>

datatype begin_turn =
    BeginUser user_message string string json "int option"
  | BeginInbox string
  | BeginQueued string string
  | BeginTask json user_message string string

fun beginRunId :: "begin_turn \<Rightarrow> string" where
  "beginRunId (BeginUser m r k c res) = r"
| "beginRunId (BeginInbox r) = r"
| "beginRunId (BeginQueued i r) = r"
| "beginRunId (BeginTask t m r k) = r"

record asked =
  as_origin :: turn_origin
  as_key :: string
  as_userMessage :: "user_message option"
  as_command :: json
  as_resumes :: "int option"
  as_task :: "json option"
  as_input :: "queued_input option"

fun askedOf :: "begin_turn \<Rightarrow> asked" where
  "askedOf (BeginUser m r k c res) = \<lparr>as_origin = OriginUser, as_key = k, as_userMessage = Some m, as_command = c,
     as_resumes = res, as_task = None, as_input = None\<rparr>"
| "askedOf (BeginInbox r) = \<lparr>as_origin = OriginInbox, as_key = r, as_userMessage = None, as_command = JObj [],
     as_resumes = None, as_task = None, as_input = None\<rparr>"
| "askedOf (BeginQueued i r) = \<lparr>as_origin = OriginUser, as_key = ''input:'' @ i, as_userMessage = None, as_command = JObj [],
     as_resumes = None, as_task = None, as_input = None\<rparr>"
| "askedOf (BeginTask t m r k) = \<lparr>as_origin = OriginTask, as_key = k, as_userMessage = Some m, as_command = JObj [],
     as_resumes = None, as_task = Some t, as_input = None\<rparr>"

text \<open>The real input and attempt key, from the session's events, before the host's admission sees them.\<close>

definition prepareAsked :: "codec \<Rightarrow> log_event list \<Rightarrow> begin_turn \<Rightarrow> asked \<Rightarrow> session_error + asked" where
  "prepareAsked c es begin_with a = (case begin_with of
      BeginQueued i r \<Rightarrow> and_then (queuedInputOf c es i) (\<lambda>queued. case queued of
          None \<Rightarrow> Inl SENothing
        | Some q \<Rightarrow> map_r (\<lambda>starts. a\<lparr>as_input := Some q, as_userMessage := Some (qi_userMessage q),
              as_key := (case find (\<lambda>(e, k). sk_input k = Some i \<and> sk_runId k = r) starts of
                 Some (e, k) \<Rightarrow> sk_key k
               | None \<Rightarrow> attemptKey i (lastInputTurn starts i) r)\<rparr>) (readKeys c es))
    | _ \<Rightarrow> (case as_resumes a of
        None \<Rightarrow> Inr a
      | Some resumed \<Rightarrow> and_then (readKeys c es) (\<lambda>starts.
          case Option.bind (find (\<lambda>(e, k). ev_turn e = Some resumed) starts) (\<lambda>(e, k). sk_input k) of
            None \<Rightarrow> Inr a
          | Some i \<Rightarrow> map_r (\<lambda>q. a\<lparr>as_input := q\<rparr>) (queuedInputOf c es i))))"

text \<open>A turn to resume that is no turn's number names none.\<close>

definition isTurnNumber :: "int \<Rightarrow> bool" where
  "isTurnNumber t \<longleftrightarrow> 1 \<le> t \<and> t \<le> 9007199254740991"

definition unnumbered :: "asked \<Rightarrow> session_error + unit" where
  "unnumbered a = (case opt_filter (\<lambda>t. \<not> isTurnNumber t) (as_resumes a) of
      Some t \<Rightarrow> Inl (SENotResumable t RefMissing)
    | None \<Rightarrow> Inr ())"

text \<open>What a begin brings beside its question, and the instance's own answers.\<close>

record begin_env =
  be_codec :: codec
  be_config :: sessions_config
  be_holder :: holder
  be_stopping :: bool
  be_inherited :: "string \<Rightarrow> session_error + int option"
  be_meta :: "json option"
  be_takeOver :: take_over
  be_at :: int

record opening_turn =
  og_turn :: int
  og_runId :: string
  og_key :: string
  og_origin :: turn_origin
  og_userMessage :: user_message
  og_claimed :: "inbox_item list"
  og_next :: sessions_state
  og_tookOver :: "int option"

text \<open>The key's fingerprint: the message, the command, the turn resumed, the task and the input, never \<open>meta\<close>.\<close>

definition sameBegin :: "started_data \<Rightarrow> user_message \<Rightarrow> asked \<Rightarrow> bool" where
  "sameBegin d brought a \<longleftrightarrow> sameUserMessage (tsd_userMessage d) brought
     \<and> canonicalJson (tsd_command d) = canonicalJson (as_command a)
     \<and> tsd_resumes d = as_resumes a
     \<and> canonicalJson (get_or_else JNull (tsd_task d)) = canonicalJson (get_or_else JNull (as_task a))
     \<and> tsd_input d = map_option qi_id (as_input a)"

definition isOpenTurn :: "sessions_state \<Rightarrow> int \<Rightarrow> bool" where
  "isOpenTurn st turn \<longleftrightarrow> opt_exists (\<lambda>t. ot_turn t = turn) (ss_open st)"

text \<open>A key's earlier turn is this begin again, or a conflict.\<close>

definition keyTaken :: "codec \<Rightarrow> log_event list \<Rightarrow> sessions_state \<Rightarrow> asked \<Rightarrow> session_error + unit" where
  "keyTaken c es st a = (case as_userMessage a of
      None \<Rightarrow> Inr ()
    | Some brought \<Rightarrow> and_then (keyIn c es (as_key a)) (\<lambda>previous. case previous of
        None \<Rightarrow> Inr ()
      | Some (turn, e) \<Rightarrow> and_then (startedWhole c es e) (\<lambda>d.
          Inl (if sameBegin d brought a then SEDuplicate turn (isOpenTurn st turn) else SEKeyConflict (as_key a) turn))))"

text \<open>A consumed steer answers a queued begin with the turn that took it.\<close>

definition queuedTaken :: "log_event list \<Rightarrow> sessions_state \<Rightarrow> begin_turn \<Rightarrow> int \<Rightarrow> session_error + unit" where
  "queuedTaken es st begin_with through = (case begin_with of
      BeginQueued i r \<Rightarrow> and_then (takenInputOf es i through) (\<lambda>taken. case taken of
          Some turn \<Rightarrow> Inl (SEDuplicate turn (isOpenTurn st turn))
        | None \<Rightarrow> Inr ())
    | _ \<Rightarrow> Inr ())"

definition waitsForTurn :: "sessions_state \<Rightarrow> string \<Rightarrow> bool" where
  "waitsForTurn st i \<longleftrightarrow> list_ex (\<lambda>s. slot_id s = i \<and> slot_delivery s \<noteq> None) (pendingOf st)"

definition queuedReady :: "codec \<Rightarrow> log_event list \<Rightarrow> sessions_state \<Rightarrow> begin_turn \<Rightarrow> asked \<Rightarrow> session_error + unit" where
  "queuedReady c es st begin_with a = (case begin_with of
      BeginQueued i r \<Rightarrow> and_then (readKeys c es) (\<lambda>starts.
          let final = lastInputTurn starts i in
          if \<not> waitsForTurn st i \<or> as_key a \<noteq> attemptKey i final r
          then Inl (case final of None \<Rightarrow> SENothing | Some turn \<Rightarrow> SEDuplicate turn False)
          else Inr ())
    | _ \<Rightarrow> Inr ())"

definition resumable :: "codec \<Rightarrow> log_event list \<Rightarrow> reap \<Rightarrow> asked \<Rightarrow> session_error + unit" where
  "resumable c es r a = (case as_resumes a of
      None \<Rightarrow> Inr ()
    | Some target \<Rightarrow> and_then (turnsOf c es (case (rp_closed r, rp_closedAs r) of (Some t, Some reason) \<Rightarrow> Some (t, reason) | _ \<Rightarrow> None))
        (\<lambda>turns. case resumeRefusal target turns of Some why \<Rightarrow> Inl (SENotResumable target why) | None \<Rightarrow> Inr ()))"

definition openedState :: "begin_env \<Rightarrow> begin_turn \<Rightarrow> asked \<Rightarrow> int \<Rightarrow> string list \<Rightarrow> sessions_state \<Rightarrow> sessions_state" where
  "openedState b begin_with a now taking st =
     (let turn = ss_turns st + 1; own = cfg_ownership (be_config b) in
      st\<lparr>ss_turns := turn,
         ss_open := Some \<lparr>ot_turn = turn, ot_runId = beginRunId begin_with, ot_key = as_key a, ot_origin = as_origin a,
            ot_holder = hd_instance (be_holder b),
            ot_expiresAt = (case own of Lease ttlMs renew \<Rightarrow> Some (now + ttlMs) | ProcessOwned \<Rightarrow> None),
            ht_process = (case own of Lease ttlMs renew \<Rightarrow> None | ProcessOwned \<Rightarrow> hd_process (be_holder b)), ht_sealed = None\<rparr>,
         ss_title := or_else (ss_title st) (map_option (\<lambda>m. titleOf (um_text m) (cfg_titleChars (be_config b)))
            (opt_filter (\<lambda>m. length (um_text m) > 0) (as_userMessage a))),
         ss_inbox := map (\<lambda>s. if slot_id s \<in> set taking then s\<lparr>slot_claimedBy := Some turn\<rparr> else s) (ss_inbox st)\<rparr>)"

definition startedBy :: "begin_env \<Rightarrow> begin_turn \<Rightarrow> asked \<Rightarrow> user_message \<Rightarrow> string list \<Rightarrow> started_data" where
  "startedBy b begin_with a m waiting =
     \<lparr>tsd_runId = beginRunId begin_with, tsd_key = as_key a, tsd_origin = as_origin a, tsd_userMessage = m,
      tsd_command = as_command a, tsd_claimed = waiting, tsd_input = map_option qi_id (as_input a),
      tsd_entry = beginRunId begin_with @ '':0'', tsd_at = be_at b, tsd_meta = be_meta b,
      tsd_resumes = as_resumes a, tsd_task = as_task a\<rparr>"

text \<open>An inbox turn takes every notice waiting; a queued input waiting is taken with the turn that answers it.\<close>

definition noticesWaiting :: "asked \<Rightarrow> sessions_state \<Rightarrow> string list" where
  "noticesWaiting a st = (if as_origin a = OriginInbox then map slot_id (filter (\<lambda>s. slot_delivery s = None) (pendingOf st)) else [])"

definition openFrom :: "begin_env \<Rightarrow> begin_turn \<Rightarrow> asked \<Rightarrow> session_head \<Rightarrow> reap \<Rightarrow> log_event list \<Rightarrow> session_error + opening_turn guarded_plan" where
  "openFrom b begin_with a head r es =
     (let st = rp_state r; waiting = noticesWaiting a st in
      if as_origin a = OriginInbox \<and> waiting = [] then Inl SENothing
      else map_r (\<lambda>claimed.
        let inputWaiting = filter (waitsForTurn st) (map qi_id (toList (as_input a)));
            m = get_or_else \<lparr>um_text = join [CHR 0x0A, CHR 0x0A] (map ii_content claimed), um_attachments = None\<rparr> (as_userMessage a);
            next = openedState b begin_with a (snd head) (waiting @ inputWaiting) st; turn = ss_turns st + 1
        in \<lparr>gp_drafts = rp_drafts r @ [draftIn turn ''turn.started'' (cdc_started (be_codec b) (startedBy b begin_with a m waiting))],
            gp_next = Some next,
            gp_result = \<lparr>og_turn = turn, og_runId = beginRunId begin_with, og_key = as_key a, og_origin = as_origin a, og_userMessage = m,
               og_claimed = claimed, og_next = next, og_tookOver = rp_closed r\<rparr>,
            gp_validate = False\<rparr>) (inboxItems (be_codec b) es waiting))"

definition openPlan :: "begin_env \<Rightarrow> begin_turn \<Rightarrow> asked \<Rightarrow> session_head \<Rightarrow> sessions_state \<Rightarrow> log_event list \<Rightarrow> session_error + opening_turn guarded_plan" where
  "openPlan b begin_with a head stored es =
     (if be_stopping b then Inl (SERefused ''shutdown'')
      else let r = reaped (be_config b) head stored (be_holder b) (be_takeOver b); st = rp_state r; c = be_codec b in
        and_then (queuedTaken es st begin_with (head_seq (fst head))) (\<lambda>_.
        and_then (keyTaken c es st a) (\<lambda>_.
        and_then (runOf c es (be_inherited b) (beginRunId begin_with)) (\<lambda>reused. case reused of
            Some turn \<Rightarrow> Inl (SERunReused (beginRunId begin_with) turn)
          | None \<Rightarrow> (case ss_open st of
              Some t \<Rightarrow> Inl (SEBusy (ot_turn t))
            | None \<Rightarrow>
                and_then (queuedReady c es st begin_with a) (\<lambda>_.
                and_then (resumable c es r a) (\<lambda>_. openFrom b begin_with a head r es)))))))"

section \<open>The other operations\<close>

record closed_open =
  co_closed :: bool
  co_pending :: nat

text \<open>\<open>closeOpen\<close> of a turn this instance holds no sealed writer of: a cancel, a shutdown, a time limit.\<close>

definition closeOpenPlan :: "sessions_config \<Rightarrow> holder \<Rightarrow> int \<Rightarrow> turn_ending \<Rightarrow> bool \<Rightarrow> session_head \<Rightarrow> sessions_state \<Rightarrow> closed_open guarded_plan" where
  "closeOpenPlan cfg h turn ending tried head stored =
     (let r = reaped cfg head stored h NoTakeOver; st = rp_state r in
      if rp_closed r \<noteq> None
      then \<lparr>gp_drafts = rp_drafts r, gp_next = Some st, gp_result = \<lparr>co_closed = False, co_pending = length (pendingOf st)\<rparr>, gp_validate = False\<rparr>
      else case opt_filter (\<lambda>t. ot_turn t = turn) (ss_open st) of
        None \<Rightarrow> \<lparr>gp_drafts = [], gp_next = None, gp_result = \<lparr>co_closed = False, co_pending = length (pendingOf st)\<rparr>, gp_validate = False\<rparr>
      | Some t \<Rightarrow>
          (let closing_as = (case ht_sealed t of Some s \<Rightarrow> sealed_ending s | None \<Rightarrow> ending);
               after = closedState st (ending_reason closing_as) (cfg_attempts cfg) tried
           in \<lparr>gp_drafts = sealedDrafts (ht_sealed t) turn @ [draftIn turn ''turn.ended'' (turnEndedData closing_as)] @ droppedDrafts (cs_dropped after) turn,
               gp_next = Some (cs_state after), gp_result = \<lparr>co_closed = True, co_pending = length (pendingOf (cs_state after))\<rparr>, gp_validate = False\<rparr>))"

definition cancelPlan :: "sessions_config \<Rightarrow> holder \<Rightarrow> int \<Rightarrow> session_head \<Rightarrow> sessions_state \<Rightarrow> closed_open guarded_plan" where
  "cancelPlan cfg h turn = closeOpenPlan cfg h turn \<lparr>ending_reason = Cancelled, ending_failure = None\<rparr> True"

definition shutdownPlan :: "sessions_config \<Rightarrow> holder \<Rightarrow> int \<Rightarrow> session_head \<Rightarrow> sessions_state \<Rightarrow> closed_open guarded_plan" where
  "shutdownPlan cfg h turn = closeOpenPlan cfg h turn \<lparr>ending_reason = Interrupted, ending_failure =
     Some \<lparr>failure_code = ''turn.shutdown'', failure_message = ''the process shut down before the turn ended''\<rparr>\<rparr> False"

definition timeLimitPlan :: "sessions_config \<Rightarrow> holder \<Rightarrow> int \<Rightarrow> int \<Rightarrow> session_head \<Rightarrow> sessions_state \<Rightarrow> closed_open guarded_plan" where
  "timeLimitPlan cfg h turn limitMs = closeOpenPlan cfg h turn \<lparr>ending_reason = Interrupted, ending_failure =
     Some \<lparr>failure_code = ''turn.time-limit'', failure_message = ''the turn ran past its time limit of '' @ dec limitMs @ '' ms''\<rparr>\<rparr> True"

text \<open>A begin cut before its writer was handed over; \<open>interrupted\<close> is how its scope closed.\<close>

definition unhandedPlan :: "sessions_config \<Rightarrow> string \<Rightarrow> int \<Rightarrow> bool \<Rightarrow> sessions_state \<Rightarrow> unit guarded_plan" where
  "unhandedPlan cfg inst turn interrupted st =
     (if \<not> opt_exists (\<lambda>t. ot_turn t = turn \<and> ot_holder t = inst) (ss_open st)
      then \<lparr>gp_drafts = [], gp_next = None, gp_result = (), gp_validate = False\<rparr>
      else let reason = (if interrupted then Interrupted else Failed);
             after = closedState st reason (cfg_attempts cfg) False;
             failure = (if interrupted
               then \<lparr>failure_code = ''turn.interrupted'', failure_message = ''the turn's begin was interrupted before its writer was handed over''\<rparr>
               else \<lparr>failure_code = ''turn.unended'', failure_message = ''the turn's scope closed before it ended''\<rparr>)
        in \<lparr>gp_drafts = draftIn turn ''turn.ended'' (turnEndedData \<lparr>ending_reason = reason, ending_failure = Some failure\<rparr>)
              # droppedDrafts (cs_dropped after) turn,
            gp_next = Some (cs_state after), gp_result = (), gp_validate = False\<rparr>)"

record transact_options =
  to_key :: string
  to_command :: "json option"

text \<open>A repeat of a keyed transact answers the first one's events, or a conflict.\<close>

definition repeated :: "log_event list \<Rightarrow> transact_options \<Rightarrow> log_event \<times> keyed_transact \<Rightarrow> session_error" where
  "repeated es opts earlier = (case earlier of (e, k) \<Rightarrow>
     if canonicalJson (kt_command k) \<noteq> canonicalJson (get_or_else (JObj []) (to_command opts)) then SETransactConflict (to_key opts)
     else SETransactDuplicate (to_key opts)
       (if kt_events k = 0 then [] else filter (\<lambda>x. ev_seq e < ev_seq x \<and> ev_seq x \<le> ev_seq e + kt_events k) es))"

definition decidedPlan :: "transact_options option \<Rightarrow> draft list \<times> 'a \<Rightarrow> session_error + 'a guarded_plan" where
  "decidedPlan opts decision = (case find (\<lambda>d. draft_kind d \<in> set RESERVED_KINDS) (fst decision) of
      Some d \<Rightarrow> Inl (SEReserved (draft_kind d))
    | None \<Rightarrow> Inr \<lparr>gp_drafts = (case opts of None \<Rightarrow> []
          | Some o' \<Rightarrow> [\<lparr>sd_kind = ''transact.keyed'', sd_turn = None,
              sd_data = keyedData (to_key o') (get_or_else (JObj []) (to_command o')) (int (length (fst decision)))\<rparr>]) @ standalone (fst decision),
        gp_next = None, gp_result = snd decision, gp_validate = False\<rparr>)"

definition transactOn :: "holder \<Rightarrow> transact_options option \<Rightarrow> (session_view \<Rightarrow> session_error + draft list \<times> 'a) \<Rightarrow> session_head \<Rightarrow> sessions_state
    \<Rightarrow> log_event list \<Rightarrow> session_error + 'a guarded_plan" where
  "transactOn h opts decide head st es =
     and_then (case opts of None \<Rightarrow> Inr None | Some o' \<Rightarrow> keyedTransact es (to_key o')) (\<lambda>earlier.
       case (opts, earlier) of
         (Some o', Some found_at) \<Rightarrow> Inl (repeated es o' found_at)
       | _ \<Rightarrow> and_then (decide (viewOf head st h)) (decidedPlan opts))"

record enqueued =
  eq_enqueued :: bool
  eq_pending :: nat

definition sameQueued :: "queued_data \<Rightarrow> queued_input \<Rightarrow> bool" where
  "sameQueued d ready = (case qd_input d of
      None \<Rightarrow> False
    | Some (m, del) \<Rightarrow> sameUserMessage m (qi_userMessage ready) \<and> del = qi_delivery ready
        \<and> canonicalJson (qd_source d) = canonicalJson (qi_source ready))"

definition queuedInputData :: "queued_input \<Rightarrow> queued_data" where
  "queuedInputData q = \<lparr>qd_id = qi_id q, qd_source = qi_source q, qd_content = '''', qd_input = Some (qi_userMessage q, qi_delivery q)\<rparr>"

definition queuedData :: "inbox_item \<Rightarrow> queued_data" where
  "queuedData i = \<lparr>qd_id = ii_id i, qd_source = ii_source i, qd_content = ii_content i, qd_input = None\<rparr>"

text \<open>What an operation that may only have reaped stores.\<close>

definition reapOnly :: "reap \<Rightarrow> 'a \<Rightarrow> bool \<Rightarrow> 'a guarded_plan" where
  "reapOnly r result validate = \<lparr>gp_drafts = rp_drafts r, gp_next = (if rp_drafts r = [] then None else Some (rp_state r)),
     gp_result = result, gp_validate = validate\<rparr>"

text \<open>A new item at the inbox's end, while it has room.\<close>

definition joinInbox :: "sessions_config \<Rightarrow> reap \<Rightarrow> inbox_slot \<Rightarrow> json \<Rightarrow> session_error + enqueued guarded_plan" where
  "joinInbox cfg r slot data =
     (let st = rp_state r in
      if int (length (pendingOf st)) \<ge> cfg_maxPending cfg then Inl (SEFull (length (pendingOf st)))
      else let next = st\<lparr>ss_inbox := ss_inbox st @ [slot]\<rparr>
        in Inr \<lparr>gp_drafts = rp_drafts r @ [\<lparr>sd_kind = ''inbox.queued'', sd_turn = None, sd_data = data\<rparr>], gp_next = Some next,
             gp_result = \<lparr>eq_enqueued = True, eq_pending = length (pendingOf next)\<rparr>, gp_validate = False\<rparr>)"

definition enqueuePlan :: "codec \<Rightarrow> sessions_config \<Rightarrow> holder \<Rightarrow> queued_input \<Rightarrow> session_head \<Rightarrow> sessions_state \<Rightarrow> log_event list
    \<Rightarrow> session_error + enqueued guarded_plan" where
  "enqueuePlan c cfg h ready head stored es =
     (let r = reaped cfg head stored h NoTakeOver; st = rp_state r in
      and_then (queuedIn c es) (\<lambda>queued. case find (\<lambda>d. qd_id d = qi_id ready) queued of
          Some d \<Rightarrow> if \<not> sameQueued d ready then Inl (SEInputConflict (qi_id ready))
            else Inr (reapOnly r \<lparr>eq_enqueued = False, eq_pending = length (pendingOf st)\<rparr> True)
        | None \<Rightarrow> joinInbox cfg r \<lparr>slot_id = qi_id ready, slot_attempts = 0, slot_claimedBy = None, slot_delivery = Some (qi_delivery ready)\<rparr>
            (cdc_queued c (queuedInputData ready))))"

definition deliverPlan :: "codec \<Rightarrow> sessions_config \<Rightarrow> holder \<Rightarrow> inbox_item \<Rightarrow> session_head \<Rightarrow> sessions_state \<Rightarrow> log_event list
    \<Rightarrow> session_error + enqueued guarded_plan" where
  "deliverPlan c cfg h it head stored es =
     (let r = reaped cfg head stored h NoTakeOver; st = rp_state r;
          held_already = reapOnly r \<lparr>eq_enqueued = False, eq_pending = length (pendingOf st)\<rparr> False in
      if list_ex (\<lambda>s. slot_id s = ii_id it) (ss_inbox st) then Inr held_already
      else and_then (queuedIn c es) (\<lambda>queued.
        if list_ex (\<lambda>d. qd_id d = ii_id it) queued then Inr held_already
        else joinInbox cfg r \<lparr>slot_id = ii_id it, slot_attempts = 0, slot_claimedBy = None, slot_delivery = None\<rparr>
          (cdc_queued c (queuedData it))))"

text \<open>Where a fork inherits to: its parent's last turn that ended, or nothing.\<close>

definition forkLineage :: "string \<Rightarrow> bool \<Rightarrow> log_event list \<Rightarrow> lineage" where
  "forkLineage parent inherit es =
     (let final = (if inherit then at_last (ofKind ''turn.ended'' es) else None)
      in \<lparr>lin_id = parent, lin_through = (case final of None \<Rightarrow> 0 | Some e \<Rightarrow> ev_seq e),
          lin_turnAtFork = (case final of None \<Rightarrow> 0 | Some e \<Rightarrow> numberedTurn e)\<rparr>)"

end
