(* ===== verification/SessionRepeats.thy ===== *)
theory SessionRepeats
  imports SessionPlans
begin

text \<open>
  What makes the sessions service's operations safe to repeat: a begin under a key already used, a
  keyed transact and an enqueue find what the first one stored, whatever was stored after it, and
  answer it instead of storing again.
\<close>

section \<open>What the journal's schemas promise\<close>

text \<open>A record read back: its JSON values with their keys sorted, so equal as canonical JSON.\<close>

definition reread :: "started_data \<Rightarrow> started_data \<Rightarrow> bool" where
  "reread d d' \<longleftrightarrow> tsd_userMessage d' = tsd_userMessage d \<and> canonicalJson (tsd_command d') = canonicalJson (tsd_command d)
     \<and> tsd_resumes d' = tsd_resumes d \<and> tsd_input d' = tsd_input d
     \<and> canonicalJson (get_or_else JNull (tsd_task d')) = canonicalJson (get_or_else JNull (tsd_task d))"

definition readsStarted :: "codec \<Rightarrow> started_data \<Rightarrow> bool" where
  "readsStarted c d \<longleftrightarrow> (case cdc_startedOf c (cdc_started c d) of Inl e \<Rightarrow> False | Inr d' \<Rightarrow> reread d d')
     \<and> cdc_keysOf c (cdc_started c d) = Inr (keysOfStarted d)"

definition readsQueued :: "codec \<Rightarrow> queued_data \<Rightarrow> bool" where
  "readsQueued c d \<longleftrightarrow> (case cdc_queuedOf c (cdc_queued c d) of
      Inl e \<Rightarrow> False
    | Inr d' \<Rightarrow> qd_id d' = qd_id d \<and> qd_input d' = qd_input d \<and> canonicalJson (qd_source d') = canonicalJson (qd_source d))"

section \<open>The journal after a commit\<close>

lemma ofKind_append [simp]: "ofKind k (xs @ ys) = ofKind k xs @ ofKind k ys"
  by (simp add: ofKind_def)

lemma stamp_Nil [simp]: "stampEvents i q at [] = []"
  by (simp add: stampEvents_def)

lemma stamp_append: "stampEvents i q at (xs @ ys) = stampEvents i q at xs @ stampEvents i (q + int (length xs)) at ys"
  by (rule nth_equalityI) (simp_all add: stampEvents_def nth_enumerate_eq nth_append algebra_simps)

lemma stamp_one: "stampEvents i q at [d] =
    [\<lparr>ev_session = i, ev_seq = q + 1, ev_turn = sd_turn d, ev_kind = sd_kind d, ev_at = at, ev_data = sd_data d\<rparr>]"
  by (simp add: stampEvents_def)

lemma stamp_Cons: "stampEvents i q at (d # ds) =
    \<lparr>ev_session = i, ev_seq = q + 1, ev_turn = sd_turn d, ev_kind = sd_kind d, ev_at = at, ev_data = sd_data d\<rparr>
      # stampEvents i (q + 1) at ds"
  using stamp_append [of i q at "[d]" ds] by (simp add: stamp_one)

lemma stamp_length [simp]: "length (stampEvents i q at ds) = length ds"
  by (simp add: stampEvents_def)

lemma stamp_kinds: "map ev_kind (stampEvents i q at ds) = map sd_kind ds"
  by (rule nth_equalityI) (simp_all add: stampEvents_def nth_enumerate_eq)

lemma stamp_ofKind_none: "list_all (\<lambda>d. sd_kind d \<noteq> k) ds \<Longrightarrow> ofKind k (stampEvents i q at ds) = []"
proof (induction ds arbitrary: q)
  case (Cons d ds)
  then show ?case by (simp add: stamp_Cons ofKind_def)
qed (simp add: ofKind_def)

text \<open>A journal numbered densely, as the log numbers it.\<close>

definition numbered :: "log_event list \<Rightarrow> bool" where
  "numbered es \<longleftrightarrow> map ev_seq es = map (\<lambda>n. int n + 1) [0..<length es]"

lemma numbered_distinct: "numbered es \<Longrightarrow> distinct (map ev_seq es)"
  by (simp add: numbered_def distinct_map inj_on_def)

lemma find_by_seq:
  assumes "distinct (map ev_seq (ofKind k es))" "e \<in> set (ofKind k es)"
  shows "find (\<lambda>x. ev_seq x = ev_seq e) (ofKind k es) = Some e"
proof -
  obtain x where x: "find (\<lambda>x. ev_seq x = ev_seq e) (ofKind k es) = Some x"
    using find_Some_ex [OF assms(2), of "\<lambda>x. ev_seq x = ev_seq e"] by auto
  have one: "inj_on ev_seq (set (ofKind k es))" using assms(1) by (simp add: distinct_map)
  have "x \<in> set (ofKind k es)" "ev_seq x = ev_seq e" using find_SomeD [OF x] by simp_all
  from inj_onD [OF one this(2,1) assms(2)] have "x = e" .
  with x show ?thesis by simp
qed

lemma ofKind_distinct: "distinct (map ev_seq es) \<Longrightarrow> distinct (map ev_seq (ofKind k es))"
  unfolding ofKind_def by (rule distinct_map_filter)

lemma readKeys_append: "readKeys c (xs @ ys) = and_then (readKeys c xs) (\<lambda>a. map_r ((@) a) (readKeys c ys))"
  by (simp add: readKeys_def each_r_append)

section \<open>Beginning again\<close>

lemma sameMedia_refl: "sameMedia m m"
  by (simp add: sameMedia_def)

lemma sameUserMessage_refl: "sameUserMessage m m"
  by (auto simp: sameUserMessage_def sameMedia_refl list_all_iff set_zip)

lemma reread_same:
  assumes "as_userMessage a = Some m" "reread (startedBy b bw a m waiting) d'"
  shows "sameBegin d' m a"
  using assms by (auto simp: reread_def sameBegin_def startedBy_def sameUserMessage_refl)

text \<open>The open turn's sealed drafts open and close no turn and queue nothing.\<close>

definition sealedQuiet :: "sessions_state \<Rightarrow> bool" where
  "sealedQuiet st \<longleftrightarrow> (case Option.bind (ss_open st) ht_sealed of
      None \<Rightarrow> True
    | Some s \<Rightarrow> list_all (\<lambda>d. draft_kind d \<notin> {''turn.started'', ''turn.ended'', ''inbox.queued''}) (sealed_closing s))"

lemma dropped_kinds: "d \<in> set (droppedDrafts ids turn) \<Longrightarrow> sd_kind d = ''inbox.dropped'' \<and> sd_turn d = Some turn"
  by (auto simp: droppedDrafts_def draftIn_def)

lemma reaped_kinds:
  assumes "sealedQuiet st"
  shows "list_all (\<lambda>d. sd_kind d \<noteq> ''turn.started'') (rp_drafts (reaped cfg head st h takeOver))"
    "list_all (\<lambda>d. sd_kind d \<noteq> ''inbox.queued'') (rp_drafts (reaped cfg head st h takeOver))"
  using assms unfolding list_all_iff
  by (auto simp: reaped_def Let_def closeDrafts_def sealedDrafts_def draftIn_def sealedQuiet_def list_all_iff
      dest!: dropped_kinds split: option.splits if_splits)

lemma openPlan_cases:
  assumes "openPlan b bw a head stored es = Inr p"
  shows "\<not> be_stopping b \<and> ss_open (rp_state (reaped (be_config b) head stored (be_holder b) (be_takeOver b))) = None
    \<and> keyTaken (be_codec b) es (rp_state (reaped (be_config b) head stored (be_holder b) (be_takeOver b))) a = Inr ()
    \<and> begunIn (be_codec b) es (beginRunId bw) = Inr None \<and> be_inherited b (beginRunId bw) = Inr None
    \<and> openFrom b bw a head (reaped (be_config b) head stored (be_holder b) (be_takeOver b)) es = Inr p"
  using assms
  by (auto simp: openPlan_def Let_def runOf_def result_simps split: if_splits option.splits)

lemma keyTaken_free:
  assumes "keyTaken c es st a = Inr ()" "as_userMessage a = Some m"
  obtains ks where "readKeys c es = Inr ks" "find (\<lambda>(e, k). sk_key k = as_key a) ks = None"
proof (cases "readKeys c es")
  case (Inr ks)
  show thesis
  proof (cases "find (\<lambda>(e, k). sk_key k = as_key a) ks")
    case (Some x)
    with Inr assms show thesis by (cases x) (simp add: keyTaken_def keyIn_def result_simps)
  qed (rule that [OF Inr])
qed (use assms in \<open>simp add: keyTaken_def keyIn_def\<close>)

lemma openFrom_stores:
  assumes "openFrom b bw a head r es = Inr p" "as_userMessage a = Some m" "as_origin a \<noteq> OriginInbox"
  shows "gp_drafts p = rp_drafts r @ [draftIn (ss_turns (rp_state r) + 1) ''turn.started'' (cdc_started (be_codec b) (startedBy b bw a m []))]
    \<and> og_turn (gp_result p) = ss_turns (rp_state r) + 1"
  using assms by (auto simp: openFrom_def Let_def noticesWaiting_def result_simps)

definition notQueued :: "begin_turn \<Rightarrow> bool" where
  "notQueued bw \<longleftrightarrow> (case bw of BeginQueued i r \<Rightarrow> False | _ \<Rightarrow> True)"

text \<open>
  What the journal's schemas promise of a record they accept (\<open>started_valid\<close>, \<open>queued_valid\<close>): a
  reader finds it again.
\<close>

locale journal_codec =
  fixes c :: codec and started_valid :: "started_data \<Rightarrow> bool" and queued_valid :: "queued_data \<Rightarrow> bool"
  assumes started_reads: "started_valid d \<Longrightarrow> readsStarted c d"
    and queued_reads: "queued_valid q \<Longrightarrow> readsQueued c q"
begin

lemma keyTaken_again:
  assumes first: "readKeys c es = Inr ks" "find (\<lambda>(e, k). sk_key k = as_key a) ks = None" "as_userMessage a = Some m"
    and whole: "started_valid (startedBy b bw a m [])" "ofKind ''turn.started'' drafts = []" "readKeys c later = Inr ls"
    and at: "e = \<lparr>ev_session = i, ev_seq = q, ev_turn = Some turn, ev_kind = ''turn.started'', ev_at = at,
      ev_data = cdc_started c (startedBy b bw a m [])\<rparr>"
    and numbers: "distinct (map ev_seq (es @ drafts @ e # later))"
  shows "keyTaken c (es @ drafts @ e # later) st a = Inl (SEDuplicate turn (isOpenTurn st turn))"
proof -
  let ?all = "es @ drafts @ e # later" and ?d = "startedBy b bw a m []"
  have none: "readKeys c drafts = Inr []" by (simp add: readKeys_def whole(2))
  have one: "readKeys c [e] = Inr [(e, keysOfStarted ?d)]"
    using started_reads [OF whole(1)] by (simp add: readKeys_def ofKind_def at readsStarted_def storage_def)
  have all: "readKeys c ?all = Inr (ks @ (e, keysOfStarted ?d) # ls)"
    using readKeys_append [of c es "drafts @ [e] @ later"] readKeys_append [of c drafts "[e] @ later"] readKeys_append [of c "[e]" later]
    by (simp add: first(1) none one whole(3))
  have key: "keyIn c ?all (as_key a) = Inr (Some (turn, e))"
  proof -
    have "sk_key (keysOfStarted ?d) = as_key a" "numberedTurn e = turn" by (simp_all add: keysOfStarted_def startedBy_def numberedTurn_def at)
    then show ?thesis by (simp add: keyIn_def all find_append first(2))
  qed
  have "e \<in> set (ofKind ''turn.started'' ?all)" by (simp add: ofKind_def at)
  from find_by_seq [OF ofKind_distinct [OF numbers] this]
  have "startedWhole c ?all e = storage ''session.decode'' (cdc_startedOf c (cdc_started c ?d))" by (simp add: startedWhole_def) (simp add: at)
  then obtain d' where "startedWhole c ?all e = Inr d'" "reread ?d d'"
    using started_reads [OF whole(1)] by (auto simp: readsStarted_def storage_def split: sum.splits)
  with reread_same [OF first(3)] key first(3) show ?thesis by (simp add: keyTaken_def)
qed

lemma begin_again:
  assumes "openPlan b bw a head stored es = Inr p" "as_userMessage a = Some m" "as_origin a \<noteq> OriginInbox"
    "started_valid (startedBy b bw a m [])" "sealedQuiet stored"
    "numbered (es @ stampEvents i q at (gp_drafts p) @ later)" "readKeys c later = Inr ls"
    "be_codec b = c" "be_codec b2 = c" "\<not> be_stopping b2" "notQueued bw2"
  shows "openPlan b2 bw2 a head2 stored2 (es @ stampEvents i q at (gp_drafts p) @ later)
    = Inl (SEDuplicate (og_turn (gp_result p))
        (isOpenTurn (rp_state (reaped (be_config b2) head2 stored2 (be_holder b2) (be_takeOver b2))) (og_turn (gp_result p))))"
proof -
  let ?r = "reaped (be_config b) head stored (be_holder b) (be_takeOver b)"
  note opened_free = openPlan_cases [OF assms(1)]
  then obtain ks where ks: "readKeys c es = Inr ks" "find (\<lambda>(e, k). sk_key k = as_key a) ks = None"
    using keyTaken_free [OF _ assms(2)] assms(8) by metis
  from opened_free have "openFrom b bw a head ?r es = Inr p" by simp
  from openFrom_stores [OF this assms(2,3), unfolded assms(8)]
  have stores: "gp_drafts p = rp_drafts ?r @ [draftIn (ss_turns (rp_state ?r) + 1) ''turn.started'' (cdc_started c (startedBy b bw a m []))]"
    "og_turn (gp_result p) = ss_turns (rp_state ?r) + 1" by simp_all
  define drafts where "drafts = stampEvents i q at (rp_drafts ?r)"
  define e where "e = \<lparr>ev_session = i, ev_seq = q + int (length (rp_drafts ?r)) + 1, ev_turn = Some (ss_turns (rp_state ?r) + 1), ev_kind = ''turn.started'',
    ev_at = at, ev_data = cdc_started c (startedBy b bw a m [])\<rparr>"
  have journal: "es @ stampEvents i q at (gp_drafts p) @ later = es @ drafts @ e # later"
    by (simp add: stores stamp_append stamp_one drafts_def e_def draftIn_def)
  have "ofKind ''turn.started'' drafts = []"
    unfolding drafts_def by (rule stamp_ofKind_none [OF reaped_kinds(1) [OF assms(5)]])
  note again = keyTaken_again [OF ks assms(2,4) this assms(7) e_def numbered_distinct [OF assms(6) [unfolded journal]]]
  have "queuedTaken (es @ drafts @ e # later) st bw2 n = Inr ()" for st n
    using assms(11) by (cases bw2) (simp_all add: queuedTaken_def notQueued_def)
  then show ?thesis unfolding journal by (simp add: openPlan_def Let_def assms(9,10) again stores(2))
qed

end

section \<open>Deciding again\<close>

lemma numbered_split:
  assumes "numbered (xs @ ys)"
  shows "x \<in> set xs \<Longrightarrow> ev_seq x \<le> int (length xs)" "y \<in> set ys \<Longrightarrow> int (length xs) < ev_seq y"
proof -
  have whole: "map ev_seq xs @ map ev_seq ys = map (\<lambda>n. int n + 1) ([0..<length xs] @ [length xs..<length xs + length ys])"
    using assms upt_add_eq_append [of 0 "length xs" "length ys"] by (simp add: numbered_def)
  then have xs: "map ev_seq xs = map (\<lambda>n. int n + 1) [0..<length xs]" and ys: "map ev_seq ys = map (\<lambda>n. int n + 1) [length xs..<length xs + length ys]"
    by (simp_all add: append_eq_append_conv)
  from arg_cong [OF xs, of set] show "x \<in> set xs \<Longrightarrow> ev_seq x \<le> int (length xs)"
    by (auto simp: image_iff dest!: equalityD1 [THEN subsetD, OF _ imageI])
  from arg_cong [OF ys, of set] show "y \<in> set ys \<Longrightarrow> int (length xs) < ev_seq y"
    by (auto simp: image_iff dest!: equalityD1 [THEN subsetD, OF _ imageI])
qed

lemma numbered_between:
  assumes "numbered (xs @ ys @ zs)"
  shows "filter (\<lambda>x. int (length xs) < ev_seq x \<and> ev_seq x \<le> int (length xs + length ys)) (xs @ ys @ zs) = ys"
proof -
  have assoc: "numbered ((xs @ ys) @ zs)" using assms by simp
  have "filter (\<lambda>x. int (length xs) < ev_seq x \<and> ev_seq x \<le> int (length xs + length ys)) xs = []"
    using numbered_split(1) [OF assms] by (fastforce simp: filter_empty_conv)
  moreover have "filter (\<lambda>x. int (length xs) < ev_seq x \<and> ev_seq x \<le> int (length xs + length ys)) ys = ys"
    using numbered_split(2) [OF assms] numbered_split(1) [OF assoc] by (simp add: filter_id_conv)
  moreover have "filter (\<lambda>x. int (length xs) < ev_seq x \<and> ev_seq x \<le> int (length xs + length ys)) zs = []"
    using numbered_split(2) [OF assoc] by (fastforce simp: filter_empty_conv)
  ultimately show ?thesis by simp
qed

lemma numbered_head:
  assumes "numbered (xs @ stampEvents i q at (d # ds) @ zs)"
  shows "q = int (length xs)"
  using arg_cong [OF assms [unfolded numbered_def], of "\<lambda>l. l ! length xs"]
  by (simp add: stamp_Cons nth_append del: upt_Suc)

lemma keyed_reserved: "''transact.keyed'' \<in> set RESERVED_KINDS"
  by (simp add: RESERVED_KINDS_def JOURNAL_KINDS_def SESSION_KINDS_def)

lemma keyed_read: "0 \<le> n \<Longrightarrow> keyedOf (keyedData key command n) = Some \<lparr>kt_key = key, kt_command = command, kt_events = n\<rparr>"
  by (simp add: keyedOf_def keyedData_def)

text \<open>
  A keyed transact repeated decides nothing: once one is stored, the same call under the same
  key and command answers exactly the events the first one recorded, whatever its own decision
  would be and whatever was stored since.
\<close>
theorem transact_repeated_answers_the_first:
  assumes "transactOn h (Some opts) decide head st es = Inr p"
    "numbered (es @ stampEvents i q at (gp_drafts p) @ later)" "keyedTransact later (to_key opts) = Inr other"
  shows "transactOn h2 (Some opts) decide2 head2 st2 (es @ stampEvents i q at (gp_drafts p) @ later)
    = Inl (SETransactDuplicate (to_key opts) (tl (stampEvents i q at (gp_drafts p))))"
proof -
  let ?read = "\<lambda>e. map_r (Pair e) (decoded (keyedOf (ev_data e)))" and ?p = "\<lambda>(e, k). kt_key k = to_key opts"
  from assms(1) obtain early where early: "keyedTransact es (to_key opts) = Inr early" by (auto simp: transactOn_def result_simps)
  have "early = None" using assms(1) by (cases early) (simp_all add: transactOn_def early)
  with assms(1) early obtain before ds x where first: "each_r ?read (ofKind ''transact.keyed'' es) = Inr before" "find ?p before = None"
      "decidedPlan (Some opts) (ds, x) = Inr p"
    by (auto simp: transactOn_def keyedTransact_def result_simps simp del: find_None_iff find_None_iff2)
  define keyed where "keyed = \<lparr>sd_kind = ''transact.keyed'', sd_turn = None,
      sd_data = keyedData (to_key opts) (get_or_else (JObj []) (to_command opts)) (int (length ds))\<rparr>"
  from first(3) have drafts: "gp_drafts p = keyed # standalone ds"
    by (auto simp: decidedPlan_def keyed_def split: option.splits)
  define e where "e = \<lparr>ev_session = i, ev_seq = q + 1, ev_turn = sd_turn keyed, ev_kind = sd_kind keyed, ev_at = at, ev_data = sd_data keyed\<rparr>"
  define rest where "rest = stampEvents i (q + 1) at (standalone ds)"
  define k where "k = \<lparr>kt_key = to_key opts, kt_command = get_or_else (JObj []) (to_command opts), kt_events = int (length ds)\<rparr>"
  have stamped: "stampEvents i q at (gp_drafts p) = e # rest" by (simp add: drafts stamp_Cons e_def rest_def)
  have q: "q = int (length es)" using assms(2) unfolding drafts by (rule numbered_head)
  have read_e: "?read e = Inr (e, k)" by (simp add: e_def k_def keyed_def keyed_read decoded_def)
  from assms(3) obtain after where after: "each_r ?read (ofKind ''transact.keyed'' later) = Inr after"
    by (auto simp: keyedTransact_def result_simps)
  have "find (\<lambda>d. draft_kind d \<in> set RESERVED_KINDS) ds = None"
    using first(3) by (simp add: decidedPlan_def split: option.splits)
  then have none: "ofKind ''transact.keyed'' rest = []"
    unfolding rest_def by (intro stamp_ofKind_none) (auto simp: standalone_def list_all_iff keyed_reserved dest: find_NoneD)
  have "ofKind ''transact.keyed'' (es @ (e # rest) @ later) = ofKind ''transact.keyed'' es @ e # ofKind ''transact.keyed'' later"
    using none by (simp add: ofKind_def e_def keyed_def)
  then have "keyedTransact (es @ (e # rest) @ later) (to_key opts) = Inr (Some (e, k))"
    by (simp add: keyedTransact_def each_r_append first read_e after find_append) (simp add: k_def)
  moreover have "repeated (es @ (e # rest) @ later) opts (e, k) = SETransactDuplicate (to_key opts) rest"
  proof -
    have "numbered ((es @ [e]) @ rest @ later)" using assms(2) by (simp add: stamped)
    from numbered_between [OF this] have "filter (\<lambda>x. ev_seq e < ev_seq x \<and> ev_seq x \<le> ev_seq e + int (length ds)) (es @ (e # rest) @ later) = rest"
      by (simp add: e_def q rest_def standalone_def algebra_simps)
    then show ?thesis by (auto simp: repeated_def k_def rest_def standalone_def)
  qed
  ultimately show ?thesis by (simp add: transactOn_def stamped)
qed

section \<open>Queueing again\<close>

lemma queuedIn_append: "queuedIn c (xs @ ys) = and_then (queuedIn c xs) (\<lambda>a. map_r ((@) a) (queuedIn c ys))"
  by (simp add: queuedIn_def each_r_append)

lemma joinInbox_adds:
  assumes "joinInbox cfg r slot data = Inr p"
  shows "gp_drafts p = rp_drafts r @ [\<lparr>sd_kind = ''inbox.queued'', sd_turn = None, sd_data = data\<rparr>]
    \<and> gp_next p = Some ((rp_state r)\<lparr>ss_inbox := ss_inbox (rp_state r) @ [slot]\<rparr>)
    \<and> int (length (pendingOf (rp_state r))) < cfg_maxPending cfg"
  using assms by (auto simp: joinInbox_def Let_def split: if_splits)

lemma enqueue_new:
  assumes "enqueuePlan c cfg h ready head stored es = Inr p" "eq_enqueued (gp_result p)"
  obtains before where "queuedIn c es = Inr before" "find (\<lambda>d. qd_id d = qi_id ready) before = None"
    "joinInbox cfg (reaped cfg head stored h NoTakeOver)
       \<lparr>slot_id = qi_id ready, slot_attempts = 0, slot_claimedBy = None, slot_delivery = Some (qi_delivery ready)\<rparr>
       (cdc_queued c (queuedInputData ready)) = Inr p"
proof (cases "queuedIn c es")
  case (Inr before)
  show thesis
  proof (cases "find (\<lambda>d. qd_id d = qi_id ready) before")
    case None
    with assms Inr show thesis by (intro that [OF Inr None]) (simp add: enqueuePlan_def Let_def)
  next
    case (Some d)
    with assms Inr show thesis by (auto simp: enqueuePlan_def Let_def reapOnly_def split: if_splits)
  qed
qed (use assms in \<open>simp add: enqueuePlan_def Let_def\<close>)

lemma sameQueued_read:
  assumes "qd_input d' = Some (qi_userMessage ready, qi_delivery ready)" "canonicalJson (qd_source d') = canonicalJson (qi_source ready)"
  shows "sameQueued d' ready"
  using assms by (simp add: sameQueued_def sameUserMessage_refl)

context journal_codec
begin

lemma enqueue_again:
  assumes "enqueuePlan c cfg h ready head stored es = Inr p" "eq_enqueued (gp_result p)"
    "queued_valid (queuedInputData ready)" "sealedQuiet stored" "queuedIn c later = Inr ls"
  shows "enqueuePlan c cfg2 h2 ready head2 stored2 (es @ stampEvents i q at (gp_drafts p) @ later)
    = Inr (reapOnly (reaped cfg2 head2 stored2 h2 NoTakeOver)
        \<lparr>eq_enqueued = False, eq_pending = length (pendingOf (rp_state (reaped cfg2 head2 stored2 h2 NoTakeOver)))\<rparr> True)"
proof -
  let ?r = "reaped cfg head stored h NoTakeOver" and ?json = "cdc_queued c (queuedInputData ready)"
  from enqueue_new [OF assms(1,2)] obtain before where before: "queuedIn c es = Inr before" "find (\<lambda>d. qd_id d = qi_id ready) before = None"
    "gp_drafts p = rp_drafts ?r @ [\<lparr>sd_kind = ''inbox.queued'', sd_turn = None, sd_data = ?json\<rparr>]"
    using joinInbox_adds by metis
  from queued_reads [OF assms(3)] obtain d' where d': "cdc_queuedOf c ?json = Inr d'" "qd_id d' = qi_id ready"
      "qd_input d' = Some (qi_userMessage ready, qi_delivery ready)" "canonicalJson (qd_source d') = canonicalJson (qi_source ready)"
    by (auto simp: readsQueued_def queuedInputData_def split: sum.splits)
  have "queuedIn c (stampEvents i q at (gp_drafts p)) = Inr [d']"
    using stamp_ofKind_none [OF reaped_kinds(2) [OF assms(4)]] d'(1)
    by (simp add: before(3) stamp_append stamp_one queuedIn_append) (simp add: queuedIn_def ofKind_def storage_def)
  then have "queuedIn c (es @ stampEvents i q at (gp_drafts p) @ later) = Inr (before @ d' # ls)"
    by (simp add: queuedIn_append before(1) assms(5))
  moreover have "find (\<lambda>d. qd_id d = qi_id ready) (before @ d' # ls) = Some d'"
    using before(2) d'(2) by (simp add: find_append)
  ultimately show ?thesis using sameQueued_read [OF d'(3,4)] by (simp add: enqueuePlan_def Let_def)
qed

end

end
