(* ===== verification/StoredRecords.thy ===== *)
theory StoredRecords
  imports SessionRepeats "HOL-Library.Monad_Syntax"
begin

text \<open>
  The stored form of a turn's start and of a queued item (\<open>core/src/session/session-event.entity.ts\<close>,
  \<open>core/src/turn/user-message.entity.ts\<close>, \<open>core/src/domain/media.entity.ts\<close>): each schema as the
  JSON it writes, what it accepts, and what it reads back from the canonical form every reader
  decodes (\<open>session-event.entity.functions.ts\<close>). Whether a text is base64 or a UUID is Effect's
  own check: the record \<open>checks\<close>.
\<close>

record checks =
  ck_base64 :: "string \<Rightarrow> bool"
  ck_uuid :: "string \<Rightarrow> bool"

section \<open>Fields\<close>

fun asString :: "json \<Rightarrow> string option" where
  "asString (JStr s) = Some s"
| "asString _ = None"

fun asInt :: "json \<Rightarrow> int option" where
  "asInt (JNum n) = Some n"
| "asInt _ = None"

fun asArray :: "json \<Rightarrow> json list option" where
  "asArray (JArr xs) = Some xs"
| "asArray _ = None"

fun asObject :: "json \<Rightarrow> json option" where
  "asObject (JObj fs) = Some (JObj fs)"
| "asObject _ = None"

definition required :: "(json \<Rightarrow> 'a option) \<Rightarrow> json \<Rightarrow> string \<Rightarrow> 'a option" where
  "required decode j k = Option.bind (field j k) decode"

text \<open>\<open>Schema.optionalKey\<close>: absent, or what its schema reads.\<close>

definition optionalKey :: "(json \<Rightarrow> 'a option) \<Rightarrow> json \<Rightarrow> string \<Rightarrow> 'a option option" where
  "optionalKey decode j k = (case field j k of None \<Rightarrow> Some None | Some v \<Rightarrow> map_option Some (decode v))"

definition arrayOf :: "(json \<Rightarrow> 'a option) \<Rightarrow> json \<Rightarrow> 'a list option" where
  "arrayOf decode j = Option.bind (asArray j) (\<lambda>xs. those (map decode xs))"

text \<open>\<open>Schema.Trimmed\<close>: JavaScript's white space, of the code units below 256.\<close>

definition isSpace :: "char \<Rightarrow> bool" where
  "isSpace c \<longleftrightarrow> (let n = of_char c :: nat in (9 \<le> n \<and> n \<le> 13) \<or> n = 32 \<or> n = 160)"

definition isTrimmed :: "string \<Rightarrow> bool" where
  "isTrimmed s \<longleftrightarrow> s = [] \<or> (\<not> isSpace (hd s) \<and> \<not> isSpace (last s))"

definition entryId_ok :: "string \<Rightarrow> bool" where
  "entryId_ok s \<longleftrightarrow> isTrimmed s \<and> s \<noteq> []"

section \<open>The user's message\<close>

definition IMAGE_MEDIA_TYPES :: "string list" where
  "IMAGE_MEDIA_TYPES = [''image/png'', ''image/jpeg'', ''image/gif'', ''image/webp'']"

definition fingerprint_ok :: "string \<Rightarrow> bool" where
  "fingerprint_ok s \<longleftrightarrow> length s \<ge> 16
     \<and> list_all (\<lambda>c. (CHR ''0'' \<le> c \<and> c \<le> CHR ''9'') \<or> (CHR ''a'' \<le> c \<and> c \<le> CHR ''f'')) s"

definition media_ok :: "checks \<Rightarrow> media \<Rightarrow> bool" where
  "media_ok ck m \<longleftrightarrow> media_mediaType m \<in> set IMAGE_MEDIA_TYPES
     \<and> media_data m \<noteq> [] \<and> length (media_data m) \<le> base64Length imageBytesLimit \<and> ck_base64 ck (media_data m)
     \<and> fingerprint_ok (media_fingerprint m) \<and> 0 < media_bytes m \<and> media_bytes m \<le> int imageBytesLimit"

definition mediaOf :: "checks \<Rightarrow> json \<Rightarrow> media option" where
  "mediaOf ck j = do {
     kind \<leftarrow> required asString j ''type'';
     mediaType \<leftarrow> required asString j ''mediaType'';
     data \<leftarrow> required asString j ''data'';
     fingerprint \<leftarrow> required asString j ''fingerprint'';
     bytes \<leftarrow> required asInt j ''bytes'';
     name \<leftarrow> optionalKey asString j ''name'';
     alt \<leftarrow> optionalKey asString j ''alt'';
     let m = \<lparr>media_mediaType = mediaType, media_data = data, media_fingerprint = fingerprint, media_bytes = bytes,
       media_name = name, media_alt = alt\<rparr>;
     if kind = ''media'' \<and> media_ok ck m then Some m else None
   }"

definition attachmentsLimit :: nat where "attachmentsLimit = 8"

definition user_ok :: "checks \<Rightarrow> user_message \<Rightarrow> bool" where
  "user_ok ck m \<longleftrightarrow> (case um_attachments m of
      None \<Rightarrow> um_text m \<noteq> []
    | Some ms \<Rightarrow> 1 \<le> length ms \<and> length ms \<le> attachmentsLimit \<and> list_all (media_ok ck) ms)"

definition userMessageJson :: "user_message \<Rightarrow> json" where
  "userMessageJson m = JObj ([(''text'', JStr (um_text m))] @ member ''attachments'' (map_option (\<lambda>ms. JArr (map mediaJson ms)) (um_attachments m)))"

definition userMessageOf :: "checks \<Rightarrow> json \<Rightarrow> user_message option" where
  "userMessageOf ck j = do {
     t \<leftarrow> required asString j ''text'';
     attachments \<leftarrow> optionalKey (arrayOf (mediaOf ck)) j ''attachments'';
     let m = \<lparr>um_text = t, um_attachments = attachments\<rparr>;
     if user_ok ck m then Some m else None
   }"

section \<open>A turn's start\<close>

fun originText :: "turn_origin \<Rightarrow> string" where
  "originText OriginUser = ''user''"
| "originText OriginInbox = ''inbox''"
| "originText OriginTask = ''task''"

definition originOf :: "json \<Rightarrow> turn_origin option" where
  "originOf j = Option.bind (asString j) (\<lambda>s. find (\<lambda>r. originText r = s) [OriginUser, OriginInbox, OriginTask])"

definition taskOf :: "checks \<Rightarrow> json \<Rightarrow> json option" where
  "taskOf ck j = do {
     task \<leftarrow> required asString j ''taskId'';
     parent \<leftarrow> required asString j ''parent'';
     if ck_uuid ck task \<and> ck_uuid ck parent then Some (JObj [(''taskId'', JStr task), (''parent'', JStr parent)]) else None
   }"

definition startedJson :: "started_data \<Rightarrow> json" where
  "startedJson d = JObj ([(''runId'', JStr (tsd_runId d)), (''key'', JStr (tsd_key d)), (''origin'', JStr (originText (tsd_origin d))),
       (''userMessage'', userMessageJson (tsd_userMessage d)), (''command'', tsd_command d),
       (''claimed'', JArr (map JStr (tsd_claimed d)))]
     @ member ''input'' (map_option JStr (tsd_input d)) @ [(''entry'', JStr (tsd_entry d)), (''at'', JNum (tsd_at d))]
     @ member ''meta'' (tsd_meta d) @ member ''resumes'' (map_option JNum (tsd_resumes d)) @ member ''task'' (tsd_task d))"

text \<open>What the schema writes: any other value fails the draft.\<close>

definition started_ok :: "checks \<Rightarrow> started_data \<Rightarrow> bool" where
  "started_ok ck d \<longleftrightarrow> user_ok ck (tsd_userMessage d) \<and> entryId_ok (tsd_entry d)
     \<and> asObject (tsd_command d) = Some (tsd_command d) \<and> wf_json (tsd_command d)
     \<and> (case tsd_meta d of None \<Rightarrow> True | Some m \<Rightarrow> asObject m = Some m \<and> wf_json m)
     \<and> (case tsd_task d of None \<Rightarrow> True | Some t \<Rightarrow> taskOf ck t = Some t)"

definition startedOf :: "checks \<Rightarrow> json \<Rightarrow> started_data option" where
  "startedOf ck j = do {
     runId \<leftarrow> required asString j ''runId'';
     key \<leftarrow> required asString j ''key'';
     origin \<leftarrow> required originOf j ''origin'';
     userMessage \<leftarrow> required (userMessageOf ck) j ''userMessage'';
     command \<leftarrow> required asObject j ''command'';
     claimed \<leftarrow> required (arrayOf asString) j ''claimed'';
     input \<leftarrow> optionalKey asString j ''input'';
     entry \<leftarrow> required asString j ''entry'';
     at \<leftarrow> required asInt j ''at'';
     meta \<leftarrow> optionalKey asObject j ''meta'';
     resumes \<leftarrow> optionalKey asInt j ''resumes'';
     task \<leftarrow> optionalKey (taskOf ck) j ''task'';
     if entryId_ok entry
     then Some \<lparr>tsd_runId = runId, tsd_key = key, tsd_origin = origin, tsd_userMessage = userMessage, tsd_command = command,
       tsd_claimed = claimed, tsd_input = input, tsd_entry = entry, tsd_at = at, tsd_meta = meta, tsd_resumes = resumes, tsd_task = task\<rparr>
     else None
   }"

definition startedKeysOf :: "json \<Rightarrow> started_keys option" where
  "startedKeysOf j = do {
     runId \<leftarrow> required asString j ''runId'';
     key \<leftarrow> required asString j ''key'';
     entry \<leftarrow> required asString j ''entry'';
     input \<leftarrow> optionalKey asString j ''input'';
     resumes \<leftarrow> optionalKey asInt j ''resumes'';
     if entryId_ok entry then Some \<lparr>sk_runId = runId, sk_key = key, sk_entry = entry, sk_input = input, sk_resumes = resumes\<rparr> else None
   }"

definition resumeKeysOf :: "json \<Rightarrow> (turn_origin \<times> int option) option" where
  "resumeKeysOf j = do {
     origin \<leftarrow> required originOf j ''origin'';
     resumes \<leftarrow> optionalKey asInt j ''resumes'';
     Some (origin, resumes)
   }"

section \<open>A queued item\<close>

fun deliveryText :: "delivery \<Rightarrow> string" where
  "deliveryText Steer = ''steer''"
| "deliveryText NextTurn = ''next''"

definition deliveryOf :: "json \<Rightarrow> delivery option" where
  "deliveryOf j = Option.bind (asString j) (\<lambda>s. find (\<lambda>r. deliveryText r = s) [Steer, NextTurn])"

definition queuedInputJson :: "user_message \<times> delivery \<Rightarrow> json" where
  "queuedInputJson q = JObj [(''userMessage'', userMessageJson (fst q)), (''delivery'', JStr (deliveryText (snd q)))]"

definition queuedInputReadOf :: "checks \<Rightarrow> json \<Rightarrow> (user_message \<times> delivery) option" where
  "queuedInputReadOf ck j = do {
     m \<leftarrow> required (userMessageOf ck) j ''userMessage'';
     del \<leftarrow> required deliveryOf j ''delivery'';
     Some (m, del)
   }"

definition queuedJson :: "queued_data \<Rightarrow> json" where
  "queuedJson d = JObj ([(''id'', JStr (qd_id d)), (''source'', qd_source d), (''content'', JStr (qd_content d))]
     @ member ''input'' (map_option queuedInputJson (qd_input d)))"

definition queued_ok :: "checks \<Rightarrow> queued_data \<Rightarrow> bool" where
  "queued_ok ck d \<longleftrightarrow> asObject (qd_source d) = Some (qd_source d) \<and> wf_json (qd_source d)
     \<and> (case qd_input d of None \<Rightarrow> True | Some q \<Rightarrow> user_ok ck (fst q))"

definition queuedOf :: "checks \<Rightarrow> json \<Rightarrow> queued_data option" where
  "queuedOf ck j = do {
     i \<leftarrow> required asString j ''id'';
     source \<leftarrow> required asObject j ''source'';
     content \<leftarrow> required asString j ''content'';
     input \<leftarrow> optionalKey (queuedInputReadOf ck) j ''input'';
     Some \<lparr>qd_id = i, qd_source = source, qd_content = content, qd_input = input\<rparr>
   }"

text \<open>The codec a reader has: every record is decoded from its canonical form.\<close>

definition schemaCodec :: "checks \<Rightarrow> codec" where
  "schemaCodec ck =
     \<lparr>cdc_started = startedJson,
      cdc_startedOf = (\<lambda>j. or_fail ''SchemaError'' (startedOf ck (sortKeys j))),
      cdc_keysOf = (\<lambda>j. or_fail ''SchemaError'' (startedKeysOf (sortKeys j))),
      cdc_resumeOf = (\<lambda>j. or_fail ''SchemaError'' (resumeKeysOf j)),
      cdc_queued = queuedJson,
      cdc_queuedOf = (\<lambda>j. or_fail ''SchemaError'' (queuedOf ck (sortKeys j)))\<rparr>"

section \<open>Reading what was written\<close>

lemma map_of_member: "map_of (member k v) x = (if x = k then v else None)"
  by (cases v) (simp_all add: member_def)

lemma keys_member: "map fst (member k v) = (case v of None \<Rightarrow> [] | Some j \<Rightarrow> [k])"
  by (cases v) (simp_all add: member_def)

lemma read_fields:
  assumes "distinct (map fst fs)"
  shows "required f (sortKeys (JObj fs)) k = Option.bind (map_of fs k) (\<lambda>v. f (sortKeys v))"
    "optionalKey g (sortKeys (JObj fs)) k = (case map_of fs k of None \<Rightarrow> Some None | Some v \<Rightarrow> map_option Some (g (sortKeys v)))"
  unfolding required_def optionalKey_def field_sorted [OF assms] by (cases "map_of fs k"; simp)+

lemma those_map: "list_all (\<lambda>x. f (g x) = Some x) xs \<Longrightarrow> those (map (\<lambda>x. f (g x)) xs) = Some xs"
  by (induction xs) auto

lemma array_read: "list_all (\<lambda>x. f (sortKeys (g x)) = Some x) xs \<Longrightarrow> arrayOf f (sortKeys (JArr (map g xs))) = Some xs"
  using those_map [of f "\<lambda>x. sortKeys (g x)" xs] by (simp add: arrayOf_def o_def)

lemma media_read:
  assumes "media_ok ck m"
  shows "mediaOf ck (sortKeys (mediaJson m)) = Some m"
proof -
  let ?fs = "[(''type'', JStr ''media''), (''mediaType'', JStr (media_mediaType m)), (''data'', JStr (media_data m)),
      (''fingerprint'', JStr (media_fingerprint m)), (''bytes'', JNum (media_bytes m))]
     @ member ''name'' (map_option JStr (media_name m)) @ member ''alt'' (map_option JStr (media_alt m))"
  have d: "distinct (map fst ?fs)" by (simp add: keys_member split: option.split)
  show ?thesis unfolding mediaJson_def mediaOf_def read_fields [OF d]
    using assms by (cases m; cases "media_name m"; cases "media_alt m"; simp add: map_of_member map_add_def)
qed

lemma user_read:
  assumes "user_ok ck m"
  shows "userMessageOf ck (sortKeys (userMessageJson m)) = Some m"
proof -
  let ?fs = "[(''text'', JStr (um_text m))] @ member ''attachments'' (map_option (\<lambda>ms. JArr (map mediaJson ms)) (um_attachments m))"
  have d: "distinct (map fst ?fs)" by (simp add: keys_member split: option.split)
  have "arrayOf (mediaOf ck) (sortKeys (JArr (map mediaJson ms))) = Some ms" if "um_attachments m = Some ms" for ms
    using assms that by (intro array_read) (auto simp: user_ok_def list_all_iff media_read)
  then show ?thesis unfolding userMessageJson_def userMessageOf_def read_fields [OF d]
    using assms by (cases m; cases "um_attachments m"; simp add: map_of_member map_add_def del: sortKeys.simps(1))
qed

lemma origin_read [simp]: "originOf (JStr (originText r)) = Some r"
  by (cases r) (simp_all add: originOf_def)

lemma delivery_read [simp]: "deliveryOf (JStr (deliveryText r)) = Some r"
  by (cases r) (simp_all add: deliveryOf_def)

lemma object_read: "asObject j = Some j \<Longrightarrow> asObject (sortKeys j) = Some (sortKeys j)"
  by (cases j) simp_all

lemma task_read:
  assumes "taskOf ck t = Some t"
  shows "taskOf ck (sortKeys t) = Some t"
proof -
  from assms obtain a b where t: "t = JObj [(''taskId'', JStr a), (''parent'', JStr b)]" "ck_uuid ck a \<and> ck_uuid ck b"
    by (auto simp: taskOf_def bind_eq_Some_conv split: if_splits)
  have d: "distinct (map fst [(''taskId'', JStr a), (''parent'', JStr b)])" by simp
  show ?thesis unfolding t(1) taskOf_def read_fields [OF d] using t(2) by simp
qed

definition startedFields :: "started_data \<Rightarrow> (string \<times> json) list" where
  "startedFields d = [(''runId'', JStr (tsd_runId d)), (''key'', JStr (tsd_key d)), (''origin'', JStr (originText (tsd_origin d))),
       (''userMessage'', userMessageJson (tsd_userMessage d)), (''command'', tsd_command d),
       (''claimed'', JArr (map JStr (tsd_claimed d)))]
     @ member ''input'' (map_option JStr (tsd_input d)) @ [(''entry'', JStr (tsd_entry d)), (''at'', JNum (tsd_at d))]
     @ member ''meta'' (tsd_meta d) @ member ''resumes'' (map_option JNum (tsd_resumes d)) @ member ''task'' (tsd_task d)"

lemma startedFields_distinct: "distinct (map fst (startedFields d))"
  by (simp add: startedFields_def keys_member split: option.split)

lemma startedFields_lookup:
  "map_of (startedFields d) ''runId'' = Some (JStr (tsd_runId d))" "map_of (startedFields d) ''key'' = Some (JStr (tsd_key d))"
  "map_of (startedFields d) ''origin'' = Some (JStr (originText (tsd_origin d)))"
  "map_of (startedFields d) ''userMessage'' = Some (userMessageJson (tsd_userMessage d))"
  "map_of (startedFields d) ''command'' = Some (tsd_command d)" "map_of (startedFields d) ''claimed'' = Some (JArr (map JStr (tsd_claimed d)))"
  "map_of (startedFields d) ''input'' = map_option JStr (tsd_input d)" "map_of (startedFields d) ''entry'' = Some (JStr (tsd_entry d))"
  "map_of (startedFields d) ''at'' = Some (JNum (tsd_at d))" "map_of (startedFields d) ''meta'' = tsd_meta d"
  "map_of (startedFields d) ''resumes'' = map_option JNum (tsd_resumes d)" "map_of (startedFields d) ''task'' = tsd_task d"
  by (simp_all add: startedFields_def map_of_member map_add_def split: option.splits)

lemmas started_reads = read_fields [OF startedFields_distinct] startedFields_lookup

lemma claimed_read: "arrayOf asString (sortKeys (JArr (map JStr xs))) = Some xs"
  by (rule array_read) (simp add: list_all_iff)

lemma started_record_round_trip_law:
  assumes "started_ok ck d"
  shows "cdc_startedOf (schemaCodec ck) (cdc_started (schemaCodec ck) d)
      = Inr (d\<lparr>tsd_command := sortKeys (tsd_command d), tsd_meta := map_option sortKeys (tsd_meta d)\<rparr>)
    \<and> cdc_keysOf (schemaCodec ck) (cdc_started (schemaCodec ck) d) = Inr (keysOfStarted d)"
proof -
  have json: "startedJson d = JObj (startedFields d)" by (simp add: startedJson_def startedFields_def)
  have ok: "user_ok ck (tsd_userMessage d)" "entryId_ok (tsd_entry d)" "asObject (tsd_command d) = Some (tsd_command d)"
    "\<And>m. tsd_meta d = Some m \<Longrightarrow> asObject m = Some m" "\<And>t. tsd_task d = Some t \<Longrightarrow> taskOf ck t = Some t"
    using assms by (auto simp: started_ok_def)
  have "startedOf ck (sortKeys (startedJson d)) = Some (d\<lparr>tsd_command := sortKeys (tsd_command d), tsd_meta := map_option sortKeys (tsd_meta d)\<rparr>)"
    unfolding startedOf_def json started_reads
    using ok user_read [OF ok(1)] object_read [OF ok(3)]
    by (cases "tsd_input d"; cases "tsd_meta d"; cases "tsd_resumes d"; cases "tsd_task d")
      (simp_all add: claimed_read object_read task_read del: sortKeys.simps(1,2))
  moreover have "startedKeysOf (sortKeys (startedJson d)) = Some (keysOfStarted d)"
    unfolding startedKeysOf_def json started_reads using ok(2)
    by (cases "tsd_input d"; cases "tsd_resumes d") (simp_all add: keysOfStarted_def)
  ultimately show ?thesis by (simp add: schemaCodec_def)
qed

text \<open>
  A turn's start is read back as it was written: of every record its schema writes, a reader
  (which decodes the canonical form) has every field, the message and its images included, the
  host's command and metadata with their keys sorted; the keys a lookup decodes are that record's.
\<close>
theorem started_record_round_trip:
  assumes "started_ok ck d"
  shows "cdc_startedOf (schemaCodec ck) (cdc_started (schemaCodec ck) d)
      = Inr (d\<lparr>tsd_command := sortKeys (tsd_command d), tsd_meta := map_option sortKeys (tsd_meta d)\<rparr>)
    \<and> cdc_keysOf (schemaCodec ck) (cdc_started (schemaCodec ck) d) = Inr (keysOfStarted d)"
  using started_record_round_trip_law [OF assms] .

section \<open>Repeating an operation\<close>

lemma queued_read:
  assumes "queued_ok ck d"
  shows "queuedOf ck (sortKeys (queuedJson d)) = Some (d\<lparr>qd_source := sortKeys (qd_source d)\<rparr>)"
proof -
  let ?fs = "[(''id'', JStr (qd_id d)), (''source'', qd_source d), (''content'', JStr (qd_content d))]
     @ member ''input'' (map_option queuedInputJson (qd_input d))"
  have d: "distinct (map fst ?fs)" by (simp add: keys_member split: option.split)
  have inner: "queuedInputReadOf ck (sortKeys (queuedInputJson q)) = Some q" if "user_ok ck (fst q)" for q
  proof -
    have d': "distinct (map fst [(''userMessage'', userMessageJson (fst q)), (''delivery'', JStr (deliveryText (snd q)))])" by simp
    show ?thesis unfolding queuedInputJson_def queuedInputReadOf_def read_fields [OF d'] using user_read [OF that] by simp
  qed
  show ?thesis unfolding queuedJson_def queuedOf_def read_fields [OF d]
    using assms inner by (cases d; cases "qd_input d"; simp add: map_of_member map_add_def queued_ok_def object_read)
qed

lemma same_canonical: "wf_json j \<Longrightarrow> canonicalJson (sortKeys j) = canonicalJson j"
  by (simp add: canonicalJson_def sortKeys_idem)

interpretation schema: journal_codec "schemaCodec ck" "started_ok ck" "queued_ok ck"
proof
  fix d assume ok: "started_ok ck d"
  then have "canonicalJson (sortKeys (tsd_command d)) = canonicalJson (tsd_command d)" by (simp add: started_ok_def same_canonical)
  with started_record_round_trip_law [OF ok] show "readsStarted (schemaCodec ck) d" by (simp add: readsStarted_def reread_def)
next
  fix q assume ok: "queued_ok ck q"
  then have "canonicalJson (sortKeys (qd_source q)) = canonicalJson (qd_source q)" by (simp add: queued_ok_def same_canonical)
  with queued_read [OF ok] show "readsQueued (schemaCodec ck) q" by (simp add: readsQueued_def schemaCodec_def)
qed


text \<open>
  C40. An input enqueued twice is queued once: once an enqueue stored an input, enqueuing the same
  input again (by any instance, whatever was stored since, the input still waiting, taken or
  answered) adds no second item; it stores at most the end of a turn nobody holds.
\<close>
theorem enqueue_repeated_queues_once:
  assumes "enqueuePlan (schemaCodec ck) cfg h ready head stored es = Inr p" "eq_enqueued (gp_result p)"
    "queued_ok ck (queuedInputData ready)" "sealedQuiet stored" "queuedIn (schemaCodec ck) later = Inr ls"
  shows "enqueuePlan (schemaCodec ck) cfg2 h2 ready head2 stored2 (es @ stampEvents i q at (gp_drafts p) @ later)
    = Inr (reapOnly (reaped cfg2 head2 stored2 h2 NoTakeOver)
        \<lparr>eq_enqueued = False, eq_pending = length (pendingOf (rp_state (reaped cfg2 head2 stored2 h2 NoTakeOver)))\<rparr> True)"
  using assms by (rule schema.enqueue_again)

section \<open>Concrete runs\<close>

definition sampleChecks :: checks where
  "sampleChecks = \<lparr>ck_base64 = (\<lambda>s. True), ck_uuid = (\<lambda>s. True)\<rparr>"

definition sampleMessage :: user_message where
  "sampleMessage = \<lparr>um_text = ''hello'', um_attachments = None\<rparr>"

definition sampleHead :: session_head where
  "sampleHead = (\<lparr>head_header = \<lparr>hdr_id = ''s'', hdr_owner = ''o'', hdr_origin = ''user'', hdr_createdAt = 0, hdr_meta = JObj [], hdr_parent = None\<rparr>,
     head_incarnation = ''n'', head_seq = 0, head_revision = 0, head_state = JObj [], head_updatedAt = 0\<rparr>, 0)"

definition sampleHolder :: holder where
  "sampleHolder = \<lparr>hd_instance = ''h'', hd_alive = (\<lambda>p. False), hd_process = None, hd_released = (\<lambda>s. [])\<rparr>"

definition sampleIdle :: sessions_state where
  "sampleIdle = initialState (fst sampleHead)"

definition sampleBegin :: "string \<Rightarrow> begin_turn" where
  "sampleBegin runId = BeginUser sampleMessage runId ''key'' (JObj [(''b'', JNull), (''a'', JNum 1)]) None"

definition sampleEnv :: begin_env where
  "sampleEnv = \<lparr>be_codec = schemaCodec sampleChecks, be_config = sessionsDefaults, be_holder = sampleHolder, be_stopping = False,
     be_inherited = (\<lambda>r. Inr None), be_meta = None, be_takeOver = NoTakeOver, be_at = 7\<rparr>"

definition sampleOpening :: "session_error + opening_turn guarded_plan" where
  "sampleOpening = openPlan sampleEnv (sampleBegin ''run'') (askedOf (sampleBegin ''run'')) sampleHead sampleIdle []"

definition sampleLater :: "log_event list" where
  "sampleLater = [\<lparr>ev_session = ''s'', ev_seq = 2, ev_turn = Some 1, ev_kind = ''turn.ended'', ev_at = 9,
     ev_data = turnEndedData \<lparr>ending_reason = Completed, ending_failure = None\<rparr>\<rparr>]"

theorem started_record_round_trip_witness:
  "cdc_keysOf (schemaCodec sampleChecks) (startedJson (startedBy sampleEnv (sampleBegin ''run'') (askedOf (sampleBegin ''run'')) sampleMessage []))
    = Inr \<lparr>sk_runId = ''run'', sk_key = ''key'', sk_entry = ''run:0'', sk_input = None, sk_resumes = None\<rparr>"
proof -
  have "started_ok sampleChecks (startedBy sampleEnv (sampleBegin ''run'') (askedOf (sampleBegin ''run'')) sampleMessage [])" by code_simp
  from started_record_round_trip [OF this] show ?thesis
    by (simp add: schemaCodec_def keysOfStarted_def startedBy_def sampleBegin_def)
qed


definition sampleQueued :: queued_input where
  "sampleQueued = \<lparr>qi_id = ''i'', qi_userMessage = sampleMessage, qi_delivery = Steer, qi_source = JObj [(''from'', JStr ''ui'')]\<rparr>"

definition sampleEnqueue :: "session_error + enqueued guarded_plan" where
  "sampleEnqueue = enqueuePlan (schemaCodec sampleChecks) sessionsDefaults sampleHolder sampleQueued sampleHead sampleIdle []"

theorem enqueue_repeated_queues_once_witness:
  "\<exists>p p2. sampleEnqueue = Inr p \<and> eq_enqueued (gp_result p)
    \<and> enqueuePlan (schemaCodec sampleChecks) sessionsDefaults sampleHolder sampleQueued sampleHead (the (gp_next p))
        ([] @ stampEvents ''s'' 0 8 (gp_drafts p) @ []) = Inr p2 \<and> gp_drafts p2 = [] \<and> \<not> eq_enqueued (gp_result p2)"
proof -
  have "case sampleEnqueue of Inl e \<Rightarrow> False | Inr p \<Rightarrow> eq_enqueued (gp_result p)
      \<and> rp_drafts (reaped sessionsDefaults sampleHead (the (gp_next p)) sampleHolder NoTakeOver) = []" by code_simp
  then obtain p where p: "sampleEnqueue = Inr p" "eq_enqueued (gp_result p)"
      "rp_drafts (reaped sessionsDefaults sampleHead (the (gp_next p)) sampleHolder NoTakeOver) = []"
    by (auto split: sum.splits)
  have ok: "queued_ok sampleChecks (queuedInputData sampleQueued)" by code_simp
  have quiet: "sealedQuiet sampleIdle" by (simp add: sealedQuiet_def sampleIdle_def initialState_def)
  have later: "queuedIn (schemaCodec sampleChecks) [] = Inr []" by (simp add: queuedIn_def ofKind_def)
  show ?thesis
  proof (intro exI conjI)
    show "sampleEnqueue = Inr p" "eq_enqueued (gp_result p)" by (fact p)+
    show "enqueuePlan (schemaCodec sampleChecks) sessionsDefaults sampleHolder sampleQueued sampleHead (the (gp_next p))
        ([] @ stampEvents ''s'' 0 8 (gp_drafts p) @ []) = Inr (reapOnly (reaped sessionsDefaults sampleHead (the (gp_next p)) sampleHolder NoTakeOver)
        \<lparr>eq_enqueued = False, eq_pending = length (pendingOf (rp_state (reaped sessionsDefaults sampleHead (the (gp_next p)) sampleHolder NoTakeOver)))\<rparr> True)"
      by (rule enqueue_repeated_queues_once [OF p(1) [unfolded sampleEnqueue_def] p(2) ok quiet later])
  qed (simp_all add: reapOnly_def p(3))
qed

theorem transact_repeated_answers_the_first_witness:
  "\<exists>p. transactOn sampleHolder (Some \<lparr>to_key = ''k'', to_command = None\<rparr>) (\<lambda>v. Inr ([\<lparr>draft_kind = ''note'', draft_data = JNull\<rparr>], sv_turns v))
       sampleHead sampleIdle [] = Inr p
    \<and> transactOn sampleHolder (Some \<lparr>to_key = ''k'', to_command = None\<rparr>) (\<lambda>v. Inr ([], 5)) sampleHead sampleIdle ([] @ stampEvents ''s'' 0 8 (gp_drafts p) @ [])
       = Inl (SETransactDuplicate ''k'' [\<lparr>ev_session = ''s'', ev_seq = 2, ev_turn = None, ev_kind = ''note'', ev_at = 8, ev_data = JNull\<rparr>])"
proof -
  let ?opts = "\<lparr>to_key = ''k'', to_command = None\<rparr>" and ?decide = "\<lambda>v. Inr ([\<lparr>draft_kind = ''note'', draft_data = JNull\<rparr>], sv_turns v)"
  have "case transactOn sampleHolder (Some ?opts) ?decide sampleHead sampleIdle [] of Inl e \<Rightarrow> False | Inr p \<Rightarrow>
      numbered ([] @ stampEvents ''s'' 0 8 (gp_drafts p) @ [])
      \<and> tl (stampEvents ''s'' 0 8 (gp_drafts p)) = [\<lparr>ev_session = ''s'', ev_seq = 2, ev_turn = None, ev_kind = ''note'', ev_at = 8, ev_data = JNull\<rparr>]"
    by code_simp
  then obtain p where p: "transactOn sampleHolder (Some ?opts) ?decide sampleHead sampleIdle [] = Inr p"
      "numbered ([] @ stampEvents ''s'' 0 8 (gp_drafts p) @ [])"
      "tl (stampEvents ''s'' 0 8 (gp_drafts p)) = [\<lparr>ev_session = ''s'', ev_seq = 2, ev_turn = None, ev_kind = ''note'', ev_at = 8, ev_data = JNull\<rparr>]"
    by (auto split: sum.splits)
  have "keyedTransact [] (to_key ?opts) = Inr None" by (simp add: keyedTransact_def ofKind_def)
  from transact_repeated_answers_the_first [OF p(1,2) this, of sampleHolder "\<lambda>v. Inr ([], 5)" sampleHead sampleIdle] p(1,3)
  show ?thesis by auto
qed

end
