(* ===== verification/WriterCommit.thy ===== *)
theory WriterCommit
  imports SessionsState JournalKinds
begin

text \<open>
  How the open turn's writer stores (\<open>plugin-sessions/src/turn-writer.adapter.ts\<close>): its position and
  cursor, the guarded commit and its retries, the rebase after a conflict, the end's commit, the
  lease's renewal, the sealing of a turn and the grouping of queued appends.

  The log is the adapter's argument: a record of the three operations the writer calls. Other
  instances use the same log, so the environment may change the store before every call, and says
  what the storage clock and this instance's clock read then; \<open>w_ticks\<close> counts the calls. Spans, fibers
  and the queue are not part of the model: an item is run when it is taken off the queue.

  A state is written when the code made a new object: \<open>None\<close> for the next state is the state as
  it was.
\<close>

section \<open>The log, the clocks, the writer\<close>

record 's log_ops =
  lo_commit :: "int \<Rightarrow> string \<Rightarrow> session_commit \<Rightarrow> 's \<Rightarrow> (log_error + session_committed) \<times> 's"
  lo_head :: "int \<Rightarrow> string \<Rightarrow> 's \<Rightarrow> log_error + session_head"
  lo_read :: "string \<Rightarrow> read_query \<Rightarrow> 's \<Rightarrow> log_error + log_event list"

definition memoryLog :: "store log_ops" where
  "memoryLog = \<lparr>lo_commit = commitEvents, lo_head = readHead, lo_read = readEvents\<rparr>"

record 's environment =
  env_others :: "nat \<Rightarrow> 's \<Rightarrow> 's"
  env_storage :: "nat \<Rightarrow> int"
  env_local :: "nat \<Rightarrow> int"

record position =
  po_revision :: int
  po_seq :: int
  po_state :: sessions_state
  po_storageAt :: int
  po_localAt :: int

record cursor =
  cu_position :: position
  cu_foreign :: "log_event list"

record 'a plan =
  pl_drafts :: "draft list"
  pl_next :: "sessions_state option"
  pl_result :: 'a
  pl_skip :: bool

record 'a decided =
  de_result :: 'a
  de_events :: "log_event list"

text \<open>
  The writer's input. \<open>in_decode\<close>, \<open>in_decodeFormat\<close> and \<open>in_encode\<close> are the state's schema,
  \<open>in_snapshot\<close> is \<open>snapshotState\<close> on the store at that moment.
\<close>

record 's writer_input =
  in_log :: "'s log_ops"
  in_config :: sessions_config
  in_instance :: string
  in_session :: string
  in_turn :: int
  in_runId :: string
  in_incarnation :: string
  in_decode :: "json \<Rightarrow> string + sessions_state"
  in_decodeFormat :: "json \<Rightarrow> string + int option"
  in_encode :: "sessions_state \<Rightarrow> string + json"
  in_snapshot :: "'s \<Rightarrow> int \<Rightarrow> sessions_state \<Rightarrow> session_draft list \<Rightarrow> log_error + sessions_state"

text \<open>What the writer changes: the store, its phase, its cursor, how it was closed, the wakes it gave.\<close>

record 's world =
  w_store :: 's
  w_ticks :: nat
  w_phase :: writer_phase
  w_cursor :: cursor
  w_closed :: "closed_reason option"
  w_wakes :: "(sessions_state \<times> sessions_state) list"

section \<open>Items in order\<close>

datatype 'x item =
    IAppend "draft list" "string option"
  | IRun 'x
  | IMarker 'x
  | ICommit 'x
  | ITracked "'x item" 'x

definition groupStep :: "'x item list \<Rightarrow> 'x item \<Rightarrow> 'x item list" where
  "groupStep groups it = (case (at_last groups, it) of
      (Some (IAppend held caller), IAppend drafts _) \<Rightarrow> butlast groups @ [IAppend (held @ drafts) caller]
    | _ \<Rightarrow> groups @ [it])"

definition groupsOf :: "'x item list \<Rightarrow> 'x item list" where
  "groupsOf items = foldl groupStep [] items"

section \<open>The turn closed from elsewhere\<close>

definition closeBy :: "closed_reason \<Rightarrow> 's world \<Rightarrow> 's world" where
  "closeBy reason w = (case close (w_phase w) reason of
      Inl stop \<Rightarrow> w
    | Inr p \<Rightarrow> w\<lparr>w_phase := p, w_closed := or_else (w_closed w) (Some reason)\<rparr>)"

definition closeAndFail :: "closed_reason \<Rightarrow> 's world \<Rightarrow> (turn_error + 'a) \<times> 's world" where
  "closeAndFail reason w = (Inl (TurnClosed reason), closeBy reason w)"

definition stopWith :: "turn_error \<Rightarrow> 's world \<Rightarrow> 's world" where
  "stopWith e w = w\<lparr>w_phase := latch (w_phase w) e\<rparr>"

text \<open>The answer of a read, as the writer takes it: a session gone closes the turn as removed.\<close>

definition answered :: "log_error + 'a \<Rightarrow> 's world \<Rightarrow> (turn_error + 'a) \<times> 's world" where
  "answered r w = (case r of
      Inr x \<Rightarrow> (Inr x, w)
    | Inl (SessionMissing i) \<Rightarrow> closeAndFail ByRemoved w
    | Inl (LogFailed c m) \<Rightarrow> (Inl (SessionLogError c m), w)
    | Inl e \<Rightarrow> (Inl (HarnessError ''session.defect'' ''''), w))"

definition tick :: "'s environment \<Rightarrow> 's world \<Rightarrow> 's world" where
  "tick env w = w\<lparr>w_store := env_others env (w_ticks w) (w_store w), w_ticks := Suc (w_ticks w)\<rparr>"

definition storageNow :: "'s environment \<Rightarrow> 's world \<Rightarrow> int" where
  "storageNow env w = (let at = cu_position (w_cursor w) in po_storageAt at + (env_local env (w_ticks w) - po_localAt at))"

section \<open>A commit's parts\<close>

definition renewed :: "ownership \<Rightarrow> sessions_state \<Rightarrow> int \<Rightarrow> bool \<Rightarrow> sessions_state option" where
  "renewed own st now always = (case own of
      Lease ttlMs renew \<Rightarrow>
        if always \<or> renew \<noteq> RenewNone
        then Some (st\<lparr>ss_open := map_option (\<lambda>t. t\<lparr>ot_expiresAt := Some (now + ttlMs)\<rparr>) (ss_open st)\<rparr>)
        else None
    | ProcessOwned \<Rightarrow> None)"

definition stamped :: "int \<Rightarrow> draft list \<Rightarrow> session_draft list" where
  "stamped turn drafts = map (\<lambda>d. \<lparr>sd_kind = draft_kind d, sd_turn = Some turn, sd_data = draft_data d\<rparr>) drafts"

text \<open>An end among the others' events that does not decode tells nothing of why the turn was closed.\<close>

definition reasonIn :: "int \<Rightarrow> log_event list \<Rightarrow> closed_reason" where
  "reasonIn turn events =
     (case each_r (\<lambda>e. or_fail () (turnEndedOf (ev_data e)))
        (filter (\<lambda>e. ev_kind e = ''turn.ended'') (filter (\<lambda>e. ev_turn e = Some turn) events)) of
        Inl _ \<Rightarrow> ByInterrupted
      | Inr ends \<Rightarrow> if list_ex (\<lambda>e. ending_reason e = Cancelled) ends then ByCancelled else ByInterrupted)"

definition sinceQuery :: "int \<Rightarrow> int \<Rightarrow> read_query" where
  "sinceQuery after through = \<lparr>rq_after = after, rq_through = Some through, rq_limit = None, rq_kinds = [], rq_from = FromStart\<rparr>"

definition ours :: "'s writer_input \<Rightarrow> sessions_state \<Rightarrow> bool" where
  "ours inp st \<longleftrightarrow> opt_exists (\<lambda>t. ot_turn t = in_turn inp \<and> ot_holder t = in_instance inp \<and> ot_runId t = in_runId inp) (ss_open st)"

text \<open>What a head read after a conflict says: the state it holds, or why the turn cannot go on from it.\<close>

definition headState :: "'s writer_input \<Rightarrow> stored_head \<Rightarrow> turn_error + sessions_state" where
  "headState inp h = (case storedFormatOf (in_decodeFormat inp) h of
      Inl m \<Rightarrow> Inl (SessionLogError ''session.state'' m)
    | Inr format \<Rightarrow>
        if isNewerFormat format
        then Inl (SessionLogError ''session.version'' (''the session holds stored format '' @ dec format
          @ '', written by a newer release; this release reads up to '' @ dec STORED_FORMAT))
        else (case stateOf (in_decode inp) h of Inl m \<Rightarrow> Inl (HarnessError ''session.state'' m) | Inr st \<Rightarrow> Inr st))"

section \<open>The rebase\<close>

definition eventsSince :: "'s environment \<Rightarrow> 's writer_input \<Rightarrow> position \<Rightarrow> int \<Rightarrow> 's world \<Rightarrow> (turn_error + log_event list) \<times> 's world" where
  "eventsSince env inp seen through w =
     (let w' = tick env w in
      case answered (lo_read (in_log inp) (in_session inp) (sinceQuery (po_seq seen) through) (w_store w')) w' of
        (Inl e, w'') \<Rightarrow> (Inl e, w'')
      | (Inr events, w'') \<Rightarrow> (Inr (filter (\<lambda>e. ev_seq e \<le> through) events), w''))"

definition rebaseFrom :: "'s environment \<Rightarrow> 's writer_input \<Rightarrow> position \<Rightarrow> session_head \<Rightarrow> sessions_state \<Rightarrow> 's world \<Rightarrow> (turn_error + unit) \<times> 's world" where
  "rebaseFrom env inp seen head st w =
     (let h = fst head in
      case eventsSince env inp seen (head_seq h) w of
        (Inl (SessionLogError c m), w') \<Rightarrow> if ours inp st then (Inl (SessionLogError c m), w') else closeAndFail (reasonIn (in_turn inp) []) w'
      | (Inl e, w') \<Rightarrow> (Inl e, w')
      | (Inr events, w') \<Rightarrow>
          if \<not> ours inp st then closeAndFail (reasonIn (in_turn inp) events) w'
          else (Inr (), w'\<lparr>w_cursor := \<lparr>
            cu_position = \<lparr>po_revision = head_revision h, po_seq = head_seq h, po_state = st, po_storageAt = snd head,
              po_localAt = env_local env (w_ticks w')\<rparr>,
            cu_foreign = cu_foreign (w_cursor w') @ events\<rparr>\<rparr>))"

definition rebase :: "'s environment \<Rightarrow> 's writer_input \<Rightarrow> position \<Rightarrow> 's world \<Rightarrow> (turn_error + unit) \<times> 's world" where
  "rebase env inp seen w =
     (let w' = tick env w in
      case answered (lo_head (in_log inp) (env_storage env (w_ticks w)) (in_session inp) (w_store w')) w' of
        (Inl e, w'') \<Rightarrow> (Inl e, w'')
      | (Inr head, w'') \<Rightarrow>
          if head_incarnation (fst head) \<noteq> in_incarnation inp then closeAndFail ByRemoved w''
          else case headState inp (fst head) of
            Inl e \<Rightarrow> (Inl e, w'')
          | Inr st \<Rightarrow> rebaseFrom env inp seen head st w'')"

section \<open>One guarded commit\<close>

datatype 'e once_error = Conflict | Fails 'e

record commit_options =
  opt_renew :: bool
  opt_tried :: bool

type_synonym ('s, 'e, 'a) planner = "position \<Rightarrow> log_event list \<Rightarrow> 's world \<Rightarrow> 'e + 'a plan"

text \<open>The state after the plan, in this release's format, and whether it is a new one.\<close>

definition nextState :: "'s writer_input \<Rightarrow> commit_options \<Rightarrow> position \<Rightarrow> int \<Rightarrow> 'a plan \<Rightarrow> 's \<Rightarrow> log_error + (sessions_state \<times> bool)" where
  "nextState inp opts at now pl s =
     (let planned = get_or_else (po_state at) (pl_next pl);
          extended = (if opt_renew opts then renewed (cfg_ownership (in_config inp)) planned now False else None);
          drafts = stamped (in_turn inp) (pl_drafts pl)
      in map_r (\<lambda>st. (withFormat st, pl_next pl \<noteq> None \<or> extended \<noteq> None
              \<or> list_ex (\<lambda>d. sd_kind d = ''memory.snapshot'') drafts \<or> withFormat st \<noteq> st))
           (in_snapshot inp s (po_seq at) (get_or_else planned extended) drafts))"

definition notAfterOf :: "'s writer_input \<Rightarrow> position \<Rightarrow> int option" where
  "notAfterOf inp at = (case cfg_ownership (in_config inp) of
      Lease ttlMs renew \<Rightarrow> Option.bind (ss_open (po_state at)) ot_expiresAt
    | ProcessOwned \<Rightarrow> None)"

definition commitOf :: "'s writer_input \<Rightarrow> position \<Rightarrow> draft list \<Rightarrow> json option \<Rightarrow> session_commit" where
  "commitOf inp at drafts st = \<lparr>cm_expect = po_revision at, cm_notAfter = notAfterOf inp at,
     cm_events = stamped (in_turn inp) drafts, cm_state = st, cm_incarnation = Some (in_incarnation inp)\<rparr>"

definition committedTo :: "'s environment \<Rightarrow> bool \<Rightarrow> position \<Rightarrow> sessions_state \<Rightarrow> session_committed \<Rightarrow> 's world \<Rightarrow> 's world" where
  "committedTo env tried at next c w =
     w\<lparr>w_cursor := (w_cursor w)\<lparr>cu_position := \<lparr>po_revision = cd_revision c, po_seq = cd_seq c, po_state = next,
          po_storageAt = cd_at c, po_localAt = env_local env (w_ticks w)\<rparr>\<rparr>,
       w_phase := (if tried then markTried (w_phase w) else w_phase w),
       w_wakes := w_wakes w @ [(po_state at, next)]\<rparr>"

definition storeIt :: "'s environment \<Rightarrow> 's writer_input \<Rightarrow> commit_options \<Rightarrow> position \<Rightarrow> 'a plan \<Rightarrow> sessions_state \<Rightarrow> json option \<Rightarrow> 's world
    \<Rightarrow> (turn_error once_error + 'a decided) \<times> 's world" where
  "storeIt env inp opts at pl next st w =
     (let w' = tick env w in
      case lo_commit (in_log inp) (env_storage env (w_ticks w)) (in_session inp) (commitOf inp at (pl_drafts pl) st) (w_store w') of
        (Inr c, s) \<Rightarrow> (Inr \<lparr>de_result = pl_result pl, de_events = cd_events c\<rparr>, committedTo env (opt_tried opts) at next c (w'\<lparr>w_store := s\<rparr>))
      | (Inl (RevisionConflict i expected actual), s) \<Rightarrow>
          (case rebase env inp at (w'\<lparr>w_store := s\<rparr>) of
             (Inl e, w'') \<Rightarrow> (Inl (Fails e), w'')
           | (Inr u, w'') \<Rightarrow> (Inl Conflict, w''))
      | (Inl (LeaseExpired i n late), s) \<Rightarrow> (Inl (Fails (TurnClosed ByInterrupted)), closeBy ByInterrupted (w'\<lparr>w_store := s\<rparr>))
      | (Inl (SessionMissing i), s) \<Rightarrow> (Inl (Fails (TurnClosed ByRemoved)), closeBy ByRemoved (w'\<lparr>w_store := s\<rparr>))
      | (Inl (LogFailed code m), s) \<Rightarrow> (Inl (Fails (SessionLogError code m)), w'\<lparr>w_store := s\<rparr>)
      | (Inl e, s) \<Rightarrow> (Inl (Fails (HarnessError ''session.defect'' '''')), w'\<lparr>w_store := s\<rparr>))"

fun injected :: "(turn_error \<Rightarrow> 'e) \<Rightarrow> turn_error once_error + 'a \<Rightarrow> 'e once_error + 'a" where
  "injected incl (Inr x) = Inr x"
| "injected incl (Inl Conflict) = Inl Conflict"
| "injected incl (Inl (Fails e)) = Inl (Fails (incl e))"

text \<open>The errors of a commit are its plan's and a turn's: \<open>incl\<close> includes the latter in \<open>'e\<close>.\<close>

definition once :: "'s environment \<Rightarrow> 's writer_input \<Rightarrow> (turn_error \<Rightarrow> 'e) \<Rightarrow> ('s, 'e, 'a) planner \<Rightarrow> commit_options \<Rightarrow> 's world
    \<Rightarrow> ('e once_error + 'a decided) \<times> 's world" where
  "once env inp incl plan opts w =
     (case stopped (w_phase w) of
        Some stop \<Rightarrow> (Inl (Fails (incl (refusal stop))), w)
      | None \<Rightarrow>
          (let at = cu_position (w_cursor w) in
           case plan at (cu_foreign (w_cursor w)) w of
             Inl e \<Rightarrow> (Inl (Fails e), w)
           | Inr pl \<Rightarrow>
               if pl_skip pl then (Inr \<lparr>de_result = pl_result pl, de_events = []\<rparr>, w)
               else case answered (nextState inp opts at (storageNow env w) pl (w_store w)) w of
                 (Inl e, w') \<Rightarrow> (Inl (Fails (incl e)), w')
               | (Inr (next, changed), w') \<Rightarrow>
                   (case (if changed then map_r Some (in_encode inp next) else Inr None) of
                      Inl m \<Rightarrow> (Inl (Fails (incl (HarnessError ''session.encode'' m))), w')
                    | Inr st \<Rightarrow> map_prod (injected incl) id (storeIt env inp opts at pl next st w'))))"

fun attempts :: "nat \<Rightarrow> 's environment \<Rightarrow> 's writer_input \<Rightarrow> (turn_error \<Rightarrow> 'e) \<Rightarrow> ('s, 'e, 'a) planner \<Rightarrow> commit_options \<Rightarrow> 's world
    \<Rightarrow> ('e + 'a decided) \<times> 's world" where
  "attempts n env inp incl plan opts w =
     (case once env inp incl plan opts w of
        (Inr d, w') \<Rightarrow> (Inr d, w')
      | (Inl (Fails e), w') \<Rightarrow> (Inl e, w')
      | (Inl Conflict, w') \<Rightarrow> (case n of
            0 \<Rightarrow> (Inl (incl (SessionContended (int (cfg_retries (in_config inp))))), w')
          | Suc m \<Rightarrow> attempts m env inp incl plan opts w'))"

definition commitPlan :: "'s environment \<Rightarrow> 's writer_input \<Rightarrow> (turn_error \<Rightarrow> 'e) \<Rightarrow> ('s, 'e, 'a) planner \<Rightarrow> commit_options \<Rightarrow> 's world
    \<Rightarrow> ('e + 'a decided) \<times> 's world" where
  "commitPlan env inp = attempts (cfg_retries (in_config inp) - 1) env inp"

section \<open>What the turn asks of its writer\<close>

text \<open>\<open>inOrder\<close> on an empty queue: admitted, then run.\<close>

definition inOrder :: "(turn_error \<Rightarrow> 'e) \<Rightarrow> bool \<Rightarrow> ('s world \<Rightarrow> ('e + 'a) \<times> 's world) \<Rightarrow> 's world \<Rightarrow> ('e + 'a) \<times> 's world" where
  "inOrder incl tries run w = (case admit (w_phase w) tries of
      Inl stop \<Rightarrow> (Inl (incl (refusal stop)), w)
    | Inr p \<Rightarrow> run (w\<lparr>w_phase := p\<rparr>))"

definition appendPlan :: "draft list \<Rightarrow> ('s, turn_error, unit) planner" where
  "appendPlan drafts at others w = Inr \<lparr>pl_drafts = drafts, pl_next = None, pl_result = (), pl_skip = False\<rparr>"

definition processAppend :: "'s environment \<Rightarrow> 's writer_input \<Rightarrow> draft list \<Rightarrow> 's world \<Rightarrow> 's world" where
  "processAppend env inp drafts w =
     (if stopped (w_phase w) \<noteq> None then w
      else case commitPlan env inp id (appendPlan drafts) \<lparr>opt_renew = True, opt_tried = False\<rparr> w of
        (Inl e, w') \<Rightarrow> stopWith e w'
      | (Inr d, w') \<Rightarrow> w')"

definition refuseIfReserved :: "turn_draft list \<Rightarrow> turn_error option" where
  "refuseIfReserved drafts = map_option (\<lambda>d. ReservedKind (draft_kind d)) (unmarkedReservedDraft drafts)"

definition transactPlan :: "(turn_error \<Rightarrow> 'e) \<Rightarrow> (log_event list \<Rightarrow> 'e + turn_draft list \<times> 'a) \<Rightarrow> ('s, 'e, 'a) planner" where
  "transactPlan incl decide at others w = and_then (decide others) (\<lambda>(drafts, result).
     case refuseIfReserved drafts of
       Some e \<Rightarrow> Inl (incl e)
     | None \<Rightarrow> Inr \<lparr>pl_drafts = map draft.truncate drafts, pl_next = None, pl_result = result, pl_skip = False\<rparr>)"

definition transact :: "'s environment \<Rightarrow> 's writer_input \<Rightarrow> (turn_error \<Rightarrow> 'e) \<Rightarrow> (log_event list \<Rightarrow> 'e + turn_draft list \<times> 'a) \<Rightarrow> 's world
    \<Rightarrow> ('e + 'a decided) \<times> 's world" where
  "transact env inp incl decide =
     inOrder incl True (commitPlan env inp incl (transactPlan incl decide) \<lparr>opt_renew = True, opt_tried = False\<rparr>)"

definition closing :: "turn_draft list \<Rightarrow> 's world \<Rightarrow> (turn_error + unit) \<times> 's world" where
  "closing drafts w = (case refuseIfReserved drafts of
      Some e \<Rightarrow> (Inl e, w)
    | None \<Rightarrow> (case hold (w_phase w) (map draft.truncate drafts) of
        Inl stop \<Rightarrow> (Inl (refusal stop), w)
      | Inr p \<Rightarrow> (Inr (), w\<lparr>w_phase := p\<rparr>)))"

definition endPlan :: "'s writer_input \<Rightarrow> turn_ending \<Rightarrow> ('s, turn_error, nat) planner" where
  "endPlan inp ending at others w = (case endPlanOf (w_phase w) of
      Inl stop \<Rightarrow> Inl (refusal stop)
    | Inr plan \<Rightarrow>
        (let after = closedState (po_state at) (ending_reason ending) (cfg_attempts (in_config inp)) (plan_tried plan)
         in Inr \<lparr>pl_drafts = plan_closing plan @ [\<lparr>draft_kind = ''turn.ended'', draft_data = turnEndedData ending\<rparr>]
                 @ map (\<lambda>i. \<lparr>draft_kind = ''inbox.dropped'', draft_data = droppedData i\<rparr>) (cs_dropped after),
               pl_next = Some (cs_state after), pl_result = length (pendingOf (cs_state after)), pl_skip = False\<rparr>))"

definition endNow :: "'s environment \<Rightarrow> 's writer_input \<Rightarrow> turn_ending \<Rightarrow> 's world \<Rightarrow> (turn_error + nat decided) \<times> 's world" where
  "endNow env inp ending = commitPlan env inp id (endPlan inp ending) \<lparr>opt_renew = False, opt_tried = False\<rparr>"

definition exitOf :: "turn_error + nat decided \<Rightarrow> (int, turn_error) exit" where
  "exitOf r = (case r of Inl e \<Rightarrow> ExitFailure [FailReason e] | Inr d \<Rightarrow> ExitSuccess (int (de_result d)))"

text \<open>\<open>None\<close>: the answer is the end's already under way. An end begun is the last one begun when it settles.\<close>

definition endTurn :: "'s environment \<Rightarrow> 's writer_input \<Rightarrow> turn_ending \<Rightarrow> 's world \<Rightarrow> (turn_error + int) option \<times> 's world" where
  "endTurn env inp ending w = (case beginEnd (w_phase w) ending of
      Inl stop \<Rightarrow> (Some (Inl (refusal stop)), w)
    | Inr (Stored pending) \<Rightarrow> (Some (Inr pending), w)
    | Inr Share \<Rightarrow> (None, w)
    | Inr (Start p) \<Rightarrow>
        (let began = (case p of WEnding t e a c s \<Rightarrow> e | _ \<Rightarrow> ending) in
         case endNow env inp began (w\<lparr>w_phase := p\<rparr>) of
           (r, w') \<Rightarrow> (Some (map_r (\<lambda>d. int (de_result d)) r), w'\<lparr>w_phase := endSettled (w_phase w') (exitOf r)\<rparr>)))"

definition keepAlivePlan :: "'s environment \<Rightarrow> 's writer_input \<Rightarrow> ('s, turn_error, unit) planner" where
  "keepAlivePlan env inp at others w = Inr \<lparr>pl_drafts = [],
     pl_next = renewed (cfg_ownership (in_config inp)) (po_state at) (storageNow env w) True, pl_result = (), pl_skip = False\<rparr>"

definition keepAlive :: "'s environment \<Rightarrow> 's writer_input \<Rightarrow> 's world \<Rightarrow> (turn_error + unit decided) \<times> 's world" where
  "keepAlive env inp = inOrder id False (commitPlan env inp id (keepAlivePlan env inp) \<lparr>opt_renew = False, opt_tried = False\<rparr>)"

definition sealPlan :: "sealed_turn \<Rightarrow> ('s, turn_error, unit) planner" where
  "sealPlan sealing at others w = Inr \<lparr>pl_drafts = [],
     pl_next = Some ((po_state at)\<lparr>ss_open := map_option (\<lambda>t. t\<lparr>ht_sealed := Some sealing\<rparr>) (ss_open (po_state at))\<rparr>),
     pl_result = (), pl_skip = False\<rparr>"

text \<open>Whether the turn is sealed now.\<close>

definition sealTurn :: "'s environment \<Rightarrow> 's writer_input \<Rightarrow> 's world \<Rightarrow> (turn_error + bool) \<times> 's world" where
  "sealTurn env inp = inOrder id False (\<lambda>w.
     if sealedEnding (w_phase w) \<noteq> None then (Inr True, w)
     else case sealable (w_phase w) of
       None \<Rightarrow> (Inr False, w)
     | Some sealing \<Rightarrow>
         (case commitPlan env inp id (sealPlan sealing) \<lparr>opt_renew = True, opt_tried = False\<rparr> w of
            (Inl e, w') \<Rightarrow> (Inl e, w')
          | (Inr d, w') \<Rightarrow> (case sealWith (w_phase w') (sealed_ending sealing) of
              Inl stop \<Rightarrow> (Inl (refusal stop), w')
            | Inr p \<Rightarrow> (Inr True, w'\<lparr>w_phase := p\<rparr>))))"

end
