(* ===== verification/SessionTurns.thy ===== *)
theory SessionTurns
  imports StoredRecords WriterCommit
begin

text \<open>
  How a session's turns follow one another: a step relation over a session's state and own events,
  one rule per operation of the service (\<open>plugin-sessions/src/sessions.adapter.ts\<close>) and of an open
  turn's writer (\<open>turn-writer.adapter.ts\<close>), each storing what its plan decided in one commit. The
  journal's \<open>turn.started\<close> and \<open>turn.ended\<close> alternate, whatever the operations and whoever runs
  them.
\<close>

section \<open>The journal's turns\<close>

text \<open>The turn last begun, and whether it is open; \<open>None\<close>: a turn out of order.\<close>

definition mark :: "string \<Rightarrow> int option \<Rightarrow> (int \<times> bool) option \<Rightarrow> (int \<times> bool) option" where
  "mark kind turn s =
     (if kind = ''turn.started'' then (case s of Some (n, False) \<Rightarrow> if turn = Some (n + 1) then Some (n + 1, True) else None | _ \<Rightarrow> None)
      else if kind = ''turn.ended'' then (case s of Some (n, True) \<Rightarrow> if turn = Some n then Some (n, False) else None | _ \<Rightarrow> None)
      else s)"

definition turnMark :: "(int \<times> bool) option \<Rightarrow> log_event \<Rightarrow> (int \<times> bool) option" where
  "turnMark s e = mark (ev_kind e) (ev_turn e) s"

definition draftMark :: "(int \<times> bool) option \<Rightarrow> session_draft \<Rightarrow> (int \<times> bool) option" where
  "draftMark s d = mark (sd_kind d) (sd_turn d) s"

definition marks :: "sessions_state \<Rightarrow> (int \<times> bool) option" where
  "marks st = Some (ss_turns st, ss_open st \<noteq> None)"

text \<open>A draft that opens and closes no turn, and queues nothing.\<close>

definition turnless :: "string \<Rightarrow> bool" where
  "turnless kind \<longleftrightarrow> kind \<notin> {''turn.started'', ''turn.ended'', ''inbox.queued''}"

definition wf_open :: "sessions_state \<Rightarrow> bool" where
  "wf_open st \<longleftrightarrow> (case ss_open st of None \<Rightarrow> True | Some t \<Rightarrow> ot_turn t = ss_turns st) \<and> sealedQuiet st"

named_theorems mark_simps

lemma marks_stamp: "foldl turnMark s (stampEvents i q at ds) = foldl draftMark s ds"
  by (induction ds arbitrary: s q) (simp_all add: stamp_Cons turnMark_def draftMark_def)

lemma mark_quiet: "list_all (\<lambda>d. sd_kind d \<noteq> ''turn.started'' \<and> sd_kind d \<noteq> ''turn.ended'') ds \<Longrightarrow> foldl draftMark s ds = s"
  by (induction ds arbitrary: s) (simp_all add: draftMark_def mark_def)

lemma mark_started [mark_simps]: "draftMark (Some (n, False)) (draftIn (n + 1) ''turn.started'' j) = Some (n + 1, True)"
  by (simp add: draftMark_def mark_def draftIn_def)

lemma mark_ended [mark_simps]: "draftMark (Some (n, True)) (draftIn n ''turn.ended'' j) = Some (n, False)"
  by (simp add: draftMark_def mark_def draftIn_def)

lemma mark_dropped [mark_simps]: "foldl draftMark s (droppedDrafts ids turn) = s"
  by (rule mark_quiet) (auto simp: list_all_iff dest!: dropped_kinds)

lemma mark_sealed [mark_simps]: "ss_open st = Some t \<Longrightarrow> sealedQuiet st \<Longrightarrow> foldl draftMark s (sealedDrafts (ht_sealed t) turn) = s"
  by (rule mark_quiet) (auto simp: list_all_iff sealedDrafts_def sealedQuiet_def draftIn_def split: option.splits)

lemma closedState_turns [mark_simps]:
  "ss_turns (cs_state (closedState st reason m tried)) = ss_turns st" "ss_open (cs_state (closedState st reason m tried)) = None"
  by (simp_all add: closedState_def Let_def)

lemma wf_closed [mark_simps]: "wf_open (cs_state (closedState st reason m tried))"
  by (simp add: wf_open_def sealedQuiet_def closedState_turns)

lemma marks_closed [mark_simps]: "marks (cs_state (closedState st reason m tried)) = Some (ss_turns st, False)"
  by (simp add: marks_def closedState_turns)

lemma marks_format [simp]: "marks (withFormat st) = marks st" "wf_open (withFormat st) = wf_open st"
  by (auto simp: marks_def wf_open_def sealedQuiet_def withFormat_def split: option.splits)

text \<open>What an operation leaves in order: its drafts, from the turns of one state to the turns of the next.\<close>

definition keepsTurns :: "sessions_state \<Rightarrow> session_draft list \<Rightarrow> sessions_state \<Rightarrow> bool" where
  "keepsTurns st drafts st' \<longleftrightarrow> (wf_open st \<longrightarrow> foldl draftMark (marks st) drafts = marks st' \<and> wf_open st')"

lemma keepsTurns_refl: "keepsTurns st [] st"
  by (simp add: keepsTurns_def)

lemma keepsTurns_append: "keepsTurns st ds st' \<Longrightarrow> keepsTurns st' ds' st'' \<Longrightarrow> keepsTurns st (ds @ ds') st''"
  by (simp add: keepsTurns_def)

lemma keepsTurns_quiet:
  assumes "list_all (\<lambda>d. sd_kind d \<noteq> ''turn.started'' \<and> sd_kind d \<noteq> ''turn.ended'') ds" "ss_turns st' = ss_turns st" "ss_open st' = ss_open st"
  shows "keepsTurns st ds st'"
  using assms by (cases "ss_open st") (simp_all add: keepsTurns_def mark_quiet marks_def wf_open_def sealedQuiet_def)

lemma keepsTurns_close:
  assumes "ss_open st = Some t"
  shows "keepsTurns st (sealedDrafts (ht_sealed t) (ot_turn t) @ [draftIn (ot_turn t) ''turn.ended'' j] @ droppedDrafts ids (ot_turn t))
    (cs_state (closedState st reason m tried))"
  using assms by (auto simp: keepsTurns_def wf_open_def [of st] marks_def [of st] mark_simps)

lemma keepsTurns_reaped: "keepsTurns st (rp_drafts (reaped cfg head st h takeOver)) (rp_state (reaped cfg head st h takeOver))"
proof (cases "ss_open st")
  case None
  then show ?thesis by (simp add: reaped_def keepsTurns_refl)
next
  case (Some t)
  then show ?thesis
    using keepsTurns_close [OF Some] by (auto simp: reaped_def Let_def closeDrafts_def keepsTurns_refl)
qed

section \<open>Each operation\<close>

text \<open>A plan stored: its drafts, and the state it leaves (its own, or the one it was made from).\<close>

definition planKeeps :: "sessions_state \<Rightarrow> 'a guarded_plan \<Rightarrow> bool" where
  "planKeeps st p \<longleftrightarrow> keepsTurns st (gp_drafts p) (get_or_else st (gp_next p))"

lemma open_keeps:
  assumes "openPlan b bw a head st es = Inr p"
  shows "planKeeps st p"
proof -
  let ?r = "reaped (be_config b) head st (be_holder b) (be_takeOver b)"
  from openPlan_cases [OF assms] have free: "ss_open (rp_state ?r) = None" and o: "openFrom b bw a head ?r es = Inr p" by simp_all
  from o obtain j where stored: "gp_drafts p = rp_drafts ?r @ [draftIn (ss_turns (rp_state ?r) + 1) ''turn.started'' j]"
      "gp_next p = Some (openedState b bw a (snd head) (noticesWaiting a (rp_state ?r) @ filter (waitsForTurn (rp_state ?r)) (map qi_id (toList (as_input a)))) (rp_state ?r))"
    by (auto simp: openFrom_def Let_def result_simps split: if_splits)
  have opens: "keepsTurns (rp_state ?r) [draftIn (ss_turns (rp_state ?r) + 1) ''turn.started'' j] (openedState b bw a n taking (rp_state ?r))" for n taking
    using free by (simp add: keepsTurns_def marks_def mark_simps openedState_def Let_def wf_open_def sealedQuiet_def)
  show ?thesis unfolding planKeeps_def stored by (simp add: keepsTurns_append [OF keepsTurns_reaped opens])
qed

lemma closeOpen_keeps: "planKeeps st (closeOpenPlan cfg h turn ending tried head st)"
proof -
  let ?r = "reaped cfg head st h NoTakeOver"
  have same: "rp_closed ?r = None \<Longrightarrow> rp_state ?r = st" by (auto simp: reaped_def Let_def split: option.splits if_splits)
  show ?thesis
  proof (cases "rp_closed ?r")
    case None
    show ?thesis
    proof (cases "opt_filter (\<lambda>t. ot_turn t = turn) (ss_open st)")
      case None
      with \<open>rp_closed ?r = None\<close> same show ?thesis by (simp add: planKeeps_def closeOpenPlan_def Let_def keepsTurns_refl)
    next
      case (Some t)
      then have t: "ss_open st = Some t" "ot_turn t = turn" by (simp_all add: opt_filter_eq_Some)
      with None same Some show ?thesis using keepsTurns_close [OF t(1)] by (simp add: planKeeps_def closeOpenPlan_def Let_def)
    qed
  next
    case (Some n)
    then show ?thesis using keepsTurns_reaped by (simp add: planKeeps_def closeOpenPlan_def Let_def)
  qed
qed

lemma unhanded_keeps: "planKeeps st (unhandedPlan cfg inst turn interrupted st)"
proof (cases "opt_exists (\<lambda>t. ot_turn t = turn \<and> ot_holder t = inst) (ss_open st)")
  case True
  then obtain t where t: "ss_open st = Some t" "ot_turn t = turn" by (auto simp: opt_exists_iff)
  have "keepsTurns st ([draftIn turn ''turn.ended'' j] @ droppedDrafts ids turn) (cs_state (closedState st reason m tried))" for j ids reason m tried
    using t by (auto simp: keepsTurns_def wf_open_def [of st] marks_def [of st] mark_simps)
  with True show ?thesis by (simp add: planKeeps_def unhandedPlan_def Let_def)
qed (simp add: planKeeps_def unhandedPlan_def keepsTurns_refl)

lemma reapSealed_keeps: "planKeeps st (reapSealedPlan cfg h takeOver head st)"
  using keepsTurns_reaped by (auto simp: planKeeps_def reapSealedPlan_def Let_def keepsTurns_refl)

text \<open>The kinds the framework reserves are no host's: a transact opens and closes nothing.\<close>

lemma transact_keeps:
  assumes "transactOn h opts decide head st es = Inr p"
  shows "planKeeps st p"
proof -
  from assms obtain decision where d: "decidedPlan opts decision = Inr p"
    by (auto simp: transactOn_def result_simps split: option.splits)
  have reserved: "''turn.started'' \<in> set RESERVED_KINDS" "''turn.ended'' \<in> set RESERVED_KINDS"
    by (simp_all add: RESERVED_KINDS_def JOURNAL_KINDS_def SESSION_KINDS_def MEMORY_KINDS_def)
  from d have "find (\<lambda>d. draft_kind d \<in> set RESERVED_KINDS) (fst decision) = None" by (simp add: decidedPlan_def split: option.splits)
  then have "\<forall>d \<in> set (fst decision). draft_kind d \<notin> set RESERVED_KINDS" by (auto dest: find_NoneD)
  then have "\<forall>d \<in> set (fst decision). draft_kind d \<noteq> ''turn.started'' \<and> draft_kind d \<noteq> ''turn.ended''" using reserved by metis
  with d have "list_all (\<lambda>d. sd_kind d \<noteq> ''turn.started'' \<and> sd_kind d \<noteq> ''turn.ended'') (gp_drafts p) \<and> gp_next p = None"
    by (auto simp: decidedPlan_def list_all_iff standalone_def split: option.splits)
  then show ?thesis by (simp add: planKeeps_def keepsTurns_quiet)
qed

lemma joinInbox_keeps:
  assumes "joinInbox cfg (reaped cfg head st h takeOver) slot data = Inr p"
  shows "planKeeps st p"
proof -
  note added = joinInbox_adds [OF assms]
  have "keepsTurns (rp_state (reaped cfg head st h takeOver)) [\<lparr>sd_kind = ''inbox.queued'', sd_turn = None, sd_data = data\<rparr>]
    ((rp_state (reaped cfg head st h takeOver))\<lparr>ss_inbox := ss_inbox (rp_state (reaped cfg head st h takeOver)) @ [slot]\<rparr>)"
    by (rule keepsTurns_quiet) simp_all
  with added show ?thesis unfolding planKeeps_def using keepsTurns_append [OF keepsTurns_reaped] by fastforce
qed

lemma reapOnly_keeps: "planKeeps st (reapOnly (reaped cfg head st h takeOver) result validate)"
proof -
  have "rp_drafts (reaped cfg head st h takeOver) = [] \<Longrightarrow> rp_state (reaped cfg head st h takeOver) = st"
    by (auto simp: reaped_def Let_def closeDrafts_def split: option.splits if_splits)
  then show ?thesis using keepsTurns_reaped by (auto simp: planKeeps_def reapOnly_def keepsTurns_refl)
qed

lemma enqueue_keeps: "enqueuePlan c cfg h ready head st es = Inr p \<Longrightarrow> planKeeps st p"
  by (auto simp: enqueuePlan_def Let_def result_simps split: option.splits if_splits intro: reapOnly_keeps joinInbox_keeps)

lemma deliver_keeps: "deliverPlan c cfg h it head st es = Inr p \<Longrightarrow> planKeeps st p"
  by (auto simp: deliverPlan_def Let_def result_simps split: option.splits if_splits intro: reapOnly_keeps joinInbox_keeps)

section \<open>The open turn's writer\<close>

definition turnlessDrafts :: "draft list \<Rightarrow> bool" where
  "turnlessDrafts ds \<longleftrightarrow> list_all (\<lambda>d. turnless (draft_kind d)) ds"

text \<open>A memory snapshot written beside a commit changes nothing of the turns.\<close>

definition snapshotOnly :: "'s writer_input \<Rightarrow> bool" where
  "snapshotOnly inp \<longleftrightarrow> (\<forall>s q st ds st'. in_snapshot inp s q st ds = Inr st' \<longrightarrow> ss_turns st' = ss_turns st \<and> ss_open st' = ss_open st)"

definition sameTurn :: "sessions_state \<Rightarrow> sessions_state \<Rightarrow> bool" where
  "sameTurn st st' \<longleftrightarrow> ss_turns st' = ss_turns st
     \<and> map_option (\<lambda>t. (ot_turn t, ht_sealed t)) (ss_open st') = map_option (\<lambda>t. (ot_turn t, ht_sealed t)) (ss_open st)"

lemma sameTurn_wf: "sameTurn st st' \<Longrightarrow> wf_open st \<Longrightarrow> wf_open st' \<and> marks st' = marks st"
  by (cases "ss_open st"; cases "ss_open st'") (auto simp: sameTurn_def wf_open_def sealedQuiet_def marks_def)

lemma renewed_same: "renewed own st now always = Some st' \<Longrightarrow> sameTurn st st'"
  by (cases own; cases "ss_open st") (auto simp: renewed_def sameTurn_def split: if_splits)

lemma renewed_or_same: "sameTurn st (get_or_else st (renewed own st now always))"
  by (cases "renewed own st now always") (simp add: sameTurn_def, simp add: renewed_same)

lemma sameTurn_trans: "sameTurn st st' \<Longrightarrow> sameTurn st' st'' \<Longrightarrow> sameTurn st st''"
  by (simp add: sameTurn_def)

lemma sameTurn_refl: "sameTurn st st"
  by (simp add: sameTurn_def)

lemma nextState_same:
  assumes "nextState inp opts at now pl s = Inr (st', changed)" "snapshotOnly inp"
  shows "sameTurn (get_or_else (po_state at) (pl_next pl)) st'"
proof -
  let ?planned = "get_or_else (po_state at) (pl_next pl)"
  let ?ext = "if opt_renew opts then renewed (cfg_ownership (in_config inp)) ?planned now False else None"
  from assms(1) obtain t where t: "in_snapshot inp s (po_seq at) (get_or_else ?planned ?ext) (stamped (in_turn inp) (pl_drafts pl)) = Inr t" "st' = withFormat t"
    by (auto simp: nextState_def Let_def result_simps)
  have "sameTurn ?planned (get_or_else ?planned ?ext)" by (cases ?ext) (auto simp: sameTurn_refl renewed_same split: if_splits)
  moreover from t(1) assms(2) have "sameTurn (get_or_else ?planned ?ext) t" by (simp add: snapshotOnly_def sameTurn_def)
  moreover have "sameTurn t st'" unfolding t(2) by (simp add: sameTurn_def withFormat_def)
  ultimately show ?thesis using sameTurn_trans by blast
qed

lemma stamped_turnless: "turnlessDrafts ds \<Longrightarrow> list_all (\<lambda>d. sd_kind d \<noteq> ''turn.started'' \<and> sd_kind d \<noteq> ''turn.ended'') (stamped turn ds)"
  by (auto simp: turnlessDrafts_def turnless_def stamped_def list_all_iff)

text \<open>An append, a turn's transact, a lease kept alive.\<close>

lemma write_keeps:
  assumes "nextState inp opts at now pl s = Inr (st', changed)" "snapshotOnly inp" "turnlessDrafts (pl_drafts pl)"
    "sameTurn (po_state at) (get_or_else (po_state at) (pl_next pl))"
  shows "keepsTurns (po_state at) (stamped (in_turn inp) (pl_drafts pl)) st'"
  using sameTurn_wf [OF sameTurn_trans [OF assms(4) nextState_same [OF assms(1,2)]]]
  by (simp add: keepsTurns_def mark_quiet stamped_turnless [OF assms(3)])

lemma sealing_keeps:
  assumes "nextState inp opts at now pl s = Inr (st', changed)" "snapshotOnly inp" "sealPlan sealing at others w = Inr pl"
    "turnlessDrafts (sealed_closing sealing)"
  shows "keepsTurns (po_state at) (stamped (in_turn inp) (pl_drafts pl)) st'"
proof -
  from assms(3) have pl: "pl_drafts pl = []"
    "pl_next pl = Some ((po_state at)\<lparr>ss_open := map_option (\<lambda>t. t\<lparr>ht_sealed := Some sealing\<rparr>) (ss_open (po_state at))\<rparr>)"
    by (auto simp: sealPlan_def)
  have "wf_open (po_state at) \<Longrightarrow> wf_open (get_or_else (po_state at) (pl_next pl)) \<and> marks (get_or_else (po_state at) (pl_next pl)) = marks (po_state at)"
    using assms(4) by (cases "ss_open (po_state at)") (auto simp: pl wf_open_def marks_def sealedQuiet_def turnlessDrafts_def turnless_def)
  with sameTurn_wf [OF nextState_same [OF assms(1,2)]] show ?thesis by (simp add: keepsTurns_def pl(1) stamped_def)
qed

lemma ending_keeps:
  assumes "nextState inp opts at now pl s = Inr (st', changed)" "snapshotOnly inp" "endPlan inp ending at others w = Inr pl"
    "ours inp (po_state at)" "endPlanOf (w_phase w) = Inr plan" "turnlessDrafts (plan_closing plan)"
  shows "keepsTurns (po_state at) (stamped (in_turn inp) (pl_drafts pl)) st'"
proof -
  let ?after = "closedState (po_state at) (ending_reason ending) (cfg_attempts (in_config inp)) (plan_tried plan)"
  from assms(3,5) have pl: "pl_drafts pl = plan_closing plan @ [\<lparr>draft_kind = ''turn.ended'', draft_data = turnEndedData ending\<rparr>]
      @ map (\<lambda>i. \<lparr>draft_kind = ''inbox.dropped'', draft_data = droppedData i\<rparr>) (cs_dropped ?after)" "pl_next pl = Some (cs_state ?after)"
    by (auto simp: endPlan_def Let_def)
  from assms(4) obtain t where t: "ss_open (po_state at) = Some t" "ot_turn t = in_turn inp" by (auto simp: ours_def opt_exists_iff)
  have drafts: "stamped (in_turn inp) (pl_drafts pl) = stamped (in_turn inp) (plan_closing plan)
      @ [draftIn (in_turn inp) ''turn.ended'' (turnEndedData ending)] @ droppedDrafts (cs_dropped ?after) (in_turn inp)"
    by (simp add: pl(1) stamped_def draftIn_def droppedDrafts_def)
  have same: "sameTurn (cs_state ?after) st'" using nextState_same [OF assms(1,2)] by (simp add: pl(2))
  show ?thesis unfolding keepsTurns_def drafts
    using t sameTurn_wf [OF same] mark_quiet [OF stamped_turnless [OF assms(6)]]
    by (auto simp: wf_open_def [of "po_state at"] marks_def [of "po_state at"] mark_simps)
qed

section \<open>A session's life\<close>

definition storePlan :: "string \<Rightarrow> int \<Rightarrow> 'a guarded_plan \<Rightarrow> sessions_state \<Rightarrow> log_event list \<Rightarrow> sessions_state \<times> log_event list" where
  "storePlan i at p st es = (get_or_else st (gp_next p), es @ stampEvents i (int (length es)) at (gp_drafts p))"

definition storeWrite :: "string \<Rightarrow> int \<Rightarrow> session_draft list \<Rightarrow> sessions_state \<Rightarrow> log_event list \<Rightarrow> sessions_state \<times> log_event list" where
  "storeWrite i at drafts st es = (st, es @ stampEvents i (int (length es)) at drafts)"

text \<open>
  One commit of session \<open>i\<close>: an operation of the service, from its state in this release's format, or
  one of the turn's writer while its turn is the open one. What a turn's own drafts hold opens and
  closes no turn.
\<close>

inductive serves :: "string \<Rightarrow> sessions_state \<times> log_event list \<Rightarrow> sessions_state \<times> log_event list \<Rightarrow> bool" for i where
  serve_begin: "openPlan b bw a head (withFormat st) es = Inr p \<Longrightarrow> serves i (st, es) (storePlan i at p (withFormat st) es)"
| serve_reap: "reapSealedPlan cfg h takeOver head (withFormat st) = p \<Longrightarrow> serves i (st, es) (storePlan i at p (withFormat st) es)"
| serve_close: "closeOpenPlan cfg h turn ending tried head (withFormat st) = p \<Longrightarrow> serves i (st, es) (storePlan i at p (withFormat st) es)"
| serve_unhanded: "unhandedPlan cfg inst turn interrupted (withFormat st) = p \<Longrightarrow> serves i (st, es) (storePlan i at p (withFormat st) es)"
| serve_transact: "transactOn h opts (decide :: session_view \<Rightarrow> session_error + draft list \<times> json) head (withFormat st) es = Inr p
    \<Longrightarrow> serves i (st, es) (storePlan i at p (withFormat st) es)"
| serve_enqueue: "enqueuePlan c cfg h ready head (withFormat st) es = Inr p \<Longrightarrow> serves i (st, es) (storePlan i at p (withFormat st) es)"
| serve_deliver: "deliverPlan c cfg h it head (withFormat st) es = Inr p \<Longrightarrow> serves i (st, es) (storePlan i at p (withFormat st) es)"
| write_append: "nextState (inp :: store writer_input) opts at' now pl s = Inr (st', changed) \<Longrightarrow> snapshotOnly inp \<Longrightarrow> ours inp (po_state at')
    \<Longrightarrow> appendPlan drafts at' others (w :: store world) = Inr pl \<Longrightarrow> turnlessDrafts drafts
    \<Longrightarrow> serves i (po_state at', es) (storeWrite i at (stamped (in_turn inp) (pl_drafts pl)) st' es)"
| write_transact: "nextState (inp :: store writer_input) opts at' now pl' s = Inr (st', changed) \<Longrightarrow> snapshotOnly inp \<Longrightarrow> ours inp (po_state at')
    \<Longrightarrow> transactPlan id (decide' :: log_event list \<Rightarrow> turn_error + turn_draft list \<times> json) at' others (w :: store world) = Inr pl' \<Longrightarrow> turnlessDrafts (pl_drafts pl')
    \<Longrightarrow> serves i (po_state at', es) (storeWrite i at (stamped (in_turn inp) (pl_drafts pl')) st' es)"
| write_alive: "nextState (inp :: store writer_input) opts at' now pl s = Inr (st', changed) \<Longrightarrow> snapshotOnly inp \<Longrightarrow> ours inp (po_state at')
    \<Longrightarrow> keepAlivePlan env inp at' others w = Inr pl
    \<Longrightarrow> serves i (po_state at', es) (storeWrite i at (stamped (in_turn inp) (pl_drafts pl)) st' es)"
| write_seal: "nextState (inp :: store writer_input) opts at' now pl s = Inr (st', changed) \<Longrightarrow> snapshotOnly inp \<Longrightarrow> ours inp (po_state at')
    \<Longrightarrow> sealPlan sealing at' others (w :: store world) = Inr pl \<Longrightarrow> turnlessDrafts (sealed_closing sealing)
    \<Longrightarrow> serves i (po_state at', es) (storeWrite i at (stamped (in_turn inp) (pl_drafts pl)) st' es)"
| write_end: "nextState (inp :: store writer_input) opts at' now plE s = Inr (st', changed) \<Longrightarrow> snapshotOnly inp \<Longrightarrow> ours inp (po_state at')
    \<Longrightarrow> endPlan inp ending at' others w = Inr plE \<Longrightarrow> endPlanOf (w_phase w) = Inr plan \<Longrightarrow> turnlessDrafts (plan_closing plan)
    \<Longrightarrow> serves i (po_state at', es) (storeWrite i at (stamped (in_turn inp) (pl_drafts plE)) st' es)"

inductive lives :: "stored_head \<Rightarrow> sessions_state \<times> log_event list \<Rightarrow> bool" for h where
  lives_new: "lives h (initialState h, [])"
| lives_serve: "lives h s \<Longrightarrow> serves (hdr_id (head_header h)) s s' \<Longrightarrow> lives h s'"

definition turnsInOrder :: "int \<Rightarrow> sessions_state \<times> log_event list \<Rightarrow> bool" where
  "turnsInOrder n s \<longleftrightarrow> wf_open (fst s) \<and> foldl turnMark (Some (n, False)) (snd s) = marks (fst s)"

lemma inOrder_plan:
  assumes "turnsInOrder n (st, es)" "planKeeps (withFormat st) p"
  shows "turnsInOrder n (storePlan i at p (withFormat st) es)"
  using assms by (simp add: turnsInOrder_def storePlan_def planKeeps_def keepsTurns_def marks_stamp)

lemma inOrder_write:
  assumes "turnsInOrder n (st, es)" "keepsTurns st drafts st'"
  shows "turnsInOrder n (storeWrite i at drafts st' es)"
  using assms by (simp add: turnsInOrder_def storeWrite_def keepsTurns_def marks_stamp)

lemmas plans_keep = open_keeps reapSealed_keeps closeOpen_keeps unhanded_keeps transact_keeps enqueue_keeps deliver_keeps

lemma serves_inOrder: "serves i s s' \<Longrightarrow> turnsInOrder n s \<Longrightarrow> turnsInOrder n s'"
proof (induction rule: serves.induct)
  case (write_append inp opts at' now pl s st' changed drafts others w es at)
  then have "pl_drafts pl = drafts" "pl_next pl = None" by (auto simp: appendPlan_def)
  with write_append show ?case by (intro inOrder_write [OF _ write_keeps]) (simp_all add: sameTurn_refl)
next
  case (write_transact inp opts at' now pl' s st' changed decide' others w es at)
  then have "sameTurn (po_state at') (get_or_else (po_state at') (pl_next pl'))"
    by (auto simp: transactPlan_def result_simps sameTurn_refl split: option.splits)
  with write_transact show ?case by (intro inOrder_write [OF _ write_keeps]) simp_all
next
  case (write_alive inp opts at' now pl s st' changed env others w es at)
  then have "pl_drafts pl = []" "sameTurn (po_state at') (get_or_else (po_state at') (pl_next pl))"
    by (auto simp: keepAlivePlan_def renewed_or_same)
  with write_alive show ?case by (intro inOrder_write [OF _ write_keeps]) (simp_all add: turnlessDrafts_def)
next
  case (write_seal inp opts at' now pl s st' changed sealing others w es at)
  then show ?case by (intro inOrder_write [OF _ sealing_keeps])
next
  case (write_end inp opts at' now plE s st' changed ending others w plan es at)
  then show ?case by (intro inOrder_write [OF _ ending_keeps])
qed (auto intro!: inOrder_plan intro: plans_keep)

lemma lives_inOrder: "lives h s \<Longrightarrow> turnsInOrder (ss_turns (initialState h)) s"
proof (induction rule: lives.induct)
  case lives_new
  show ?case by (simp add: turnsInOrder_def wf_open_def sealedQuiet_def marks_def) (simp add: initialState_def)
qed (rule serves_inOrder)

text \<open>The automaton's journal, written out.\<close>

lemma marks_turns:
  "foldl turnMark (Some (n, False)) es = Some (m, opn) \<Longrightarrow>
     map ev_turn (ofKind ''turn.started'' es) = map Some [n + 1..m]
     \<and> map ev_turn (ofKind ''turn.ended'' es) = map Some [n + 1..(if opn then m - 1 else m)] \<and> n \<le> (if opn then m - 1 else m)"
proof (induction es arbitrary: m opn rule: rev_induct)
  case (snoc e es)
  have none: "turnMark None e = None" by (simp add: turnMark_def mark_def)
  with snoc(2) obtain k b where before: "foldl turnMark (Some (n, False)) es = Some (k, b)" by (cases "foldl turnMark (Some (n, False)) es") auto
  note ih = snoc.IH [OF before]
  from snoc(2) before have step: "turnMark (Some (k, b)) e = Some (m, opn)" by simp
  consider "ev_kind e = ''turn.started''" | "ev_kind e = ''turn.ended''" | "ev_kind e \<noteq> ''turn.started'' \<and> ev_kind e \<noteq> ''turn.ended''" by blast
  then show ?case
  proof cases
    case 1
    with step have "\<not> b" "ev_turn e = Some (k + 1)" "m = k + 1" "opn" by (auto simp: turnMark_def mark_def split: bool.splits if_splits)
    with ih 1 show ?thesis by (simp add: ofKind_def upto_rec2)
  next
    case 2
    with step have "b" "ev_turn e = Some k" "m = k" "\<not> opn" by (auto simp: turnMark_def mark_def split: bool.splits if_splits)
    with ih 2 show ?thesis by (simp add: ofKind_def upto_rec2)
  next
    case 3
    with step have "m = k" "opn = b" by (auto simp: turnMark_def mark_def)
    with ih 3 show ?thesis by (auto simp: ofKind_def)
  qed
qed (simp add: ofKind_def)


text \<open>
  C39. A begin never opens a turn beside a held one: without a take-over, a begin that opens found
  the session free (its open turn, if any, was nobody's: its lease had run out, its process was
  gone, its holder had let it go); the turn it opens is the next one, held by this instance, under a
  run id no turn of the session or of the history it inherits was begun under.
\<close>
theorem begin_opens_only_a_free_session:
  assumes "openPlan b bw a head st es = Inr p" "be_takeOver b = NoTakeOver"
  shows "heldTurn head st (be_holder b) = None
    \<and> map_option (\<lambda>t. (ot_turn t, ot_holder t, ot_runId t)) (Option.bind (gp_next p) ss_open)
        = Some (ss_turns st + 1, hd_instance (be_holder b), beginRunId bw)
    \<and> begunIn (be_codec b) es (beginRunId bw) = Inr None \<and> be_inherited b (beginRunId bw) = Inr None"
proof -
  let ?r = "reaped (be_config b) head st (be_holder b) NoTakeOver"
  note free = openPlan_cases [OF assms(1), unfolded assms(2)]
  have turns: "ss_turns (rp_state ?r) = ss_turns st" by (auto simp: reaped_def Let_def mark_simps split: option.splits)
  have "heldTurn head st (be_holder b) = None"
  proof (rule ccontr)
    assume "heldTurn head st (be_holder b) \<noteq> None"
    then have "ss_open st \<noteq> None" by (auto simp: heldTurn_def opt_filter_eq_Some)
    with \<open>heldTurn head st (be_holder b) \<noteq> None\<close> have "rp_state ?r = st" by (auto simp: reaped_def Let_def opt_exists_iff takes_def)
    with free \<open>ss_open st \<noteq> None\<close> show False by simp
  qed
  moreover from free have "openFrom b bw a head ?r es = Inr p" by simp
  then obtain taking where "gp_next p = Some (openedState b bw a (snd head) taking (rp_state ?r))"
    by (auto simp: openFrom_def Let_def result_simps split: if_splits)
  then have "map_option (\<lambda>t. (ot_turn t, ot_holder t, ot_runId t)) (Option.bind (gp_next p) ss_open)
      = Some (ss_turns st + 1, hd_instance (be_holder b), beginRunId bw)"
    by (simp add: openedState_def Let_def turns)
  ultimately show ?thesis using free by simp
qed

theorem begin_opens_only_a_free_session_witness:
  "\<exists>p. sampleOpening = Inr p \<and> heldTurn sampleHead sampleIdle sampleHolder = None
    \<and> map_option (\<lambda>t. (ot_turn t, ot_holder t, ot_runId t)) (Option.bind (gp_next p) ss_open) = Some (1, ''h'', ''run'')"
proof -
  have "case sampleOpening of Inl e \<Rightarrow> False | Inr p \<Rightarrow> True" by code_simp
  then obtain p where p: "sampleOpening = Inr p" by (auto split: sum.splits)
  have "be_takeOver sampleEnv = NoTakeOver" by (simp add: sampleEnv_def)
  from begin_opens_only_a_free_session [OF p [unfolded sampleOpening_def] this] p show ?thesis
    by (intro exI [of _ p]) (simp add: sampleEnv_def sampleHolder_def sampleIdle_def initialState_def sampleBegin_def sampleHead_def)
qed

definition sampleStored :: "sessions_state \<times> log_event list" where
  "sampleStored = (case sampleOpening of
      Inl e \<Rightarrow> (sampleIdle, [])
    | Inr p \<Rightarrow> (case storePlan ''s'' 8 p sampleIdle [] of (st, es) \<Rightarrow>
        storePlan ''s'' 9 (cancelPlan sessionsDefaults sampleHolder 1 sampleHead (withFormat st)) (withFormat st) es))"


end
