(* ===== verification/WriterSafety.thy ===== *)
theory WriterSafety
  imports WriterCommit
begin

text \<open>
  What the writer relies on of its log, as a contract every provider keeps (\<open>session_log\<close>), what an
  environment of other instances may do (\<open>writer_run\<close>), and what follows: a decision that is stored
  has seen every event the others stored since, a closed writer stores nothing more, the attempts
  are bounded, an end is stored whole. The contract is interpreted on the in-memory store, the
  environment on any sequence of the store's operations.
\<close>

section \<open>The steps of a commit\<close>

lemma answered_eq_Inr: "answered r w = (Inr x, w') \<longleftrightarrow> r = Inr x \<and> w' = w"
  by (auto simp: answered_def closeAndFail_def split: sum.split log_error.split)

lemma injected_eq [simp]:
  "injected incl r = Inr x \<longleftrightarrow> r = Inr x"
  "injected incl r = Inl Conflict \<longleftrightarrow> r = Inl Conflict"
  "injected incl r = Inl (Fails f) \<longleftrightarrow> (\<exists>e. r = Inl (Fails e) \<and> f = incl e)"
  by (cases "(incl, r)" rule: injected.cases; auto)+

lemma injected_id [simp]: "injected id r = r"
  by (cases "(id :: turn_error \<Rightarrow> turn_error, r)" rule: injected.cases) simp_all

lemma eventsSince_InrD:
  assumes "eventsSince env inp seen through w = (Inr events, w')"
  shows "\<exists>out. lo_read (in_log inp) (in_session inp) (sinceQuery (po_seq seen) through) (w_store (tick env w)) = Inr out
    \<and> events = filter (\<lambda>e. ev_seq e \<le> through) out \<and> w' = tick env w"
proof -
  let ?r = "lo_read (in_log inp) (in_session inp) (sinceQuery (po_seq seen) through) (w_store (tick env w))"
  obtain a w1 where a: "answered ?r (tick env w) = (a, w1)" by fastforce
  with assms show ?thesis
    by (cases a) (auto simp: eventsSince_def Let_def answered_eq_Inr)
qed

lemma rebase_InrD:
  assumes "rebase env inp seen w = (Inr u, w')"
  obtains head st out where
    "lo_head (in_log inp) (env_storage env (w_ticks w)) (in_session inp) (w_store (tick env w)) = Inr head"
    "head_incarnation (fst head) = in_incarnation inp" "headState inp (fst head) = Inr st" "ours inp st"
    "lo_read (in_log inp) (in_session inp) (sinceQuery (po_seq seen) (head_seq (fst head))) (w_store (tick env (tick env w))) = Inr out"
    "w' = (tick env (tick env w))\<lparr>w_cursor := \<lparr>
       cu_position = \<lparr>po_revision = head_revision (fst head), po_seq = head_seq (fst head), po_state = st, po_storageAt = snd head,
         po_localAt = env_local env (Suc (Suc (w_ticks w)))\<rparr>,
       cu_foreign = cu_foreign (w_cursor w) @ filter (\<lambda>e. ev_seq e \<le> head_seq (fst head)) out\<rparr>\<rparr>"
proof -
  let ?r = "lo_head (in_log inp) (env_storage env (w_ticks w)) (in_session inp) (w_store (tick env w))"
  obtain a w1 where a: "answered ?r (tick env w) = (a, w1)" by fastforce
  with assms obtain head st where head: "?r = Inr head" "w1 = tick env w" "head_incarnation (fst head) = in_incarnation inp"
    "headState inp (fst head) = Inr st" and from_head: "rebaseFrom env inp seen head st (tick env w) = (Inr u, w')"
    by (cases a) (auto simp: rebase_def Let_def answered_eq_Inr closeAndFail_def split: if_splits sum.splits)
  obtain b w2 where b: "eventsSince env inp seen (head_seq (fst head)) (tick env w) = (b, w2)" by fastforce
  show thesis
  proof (cases b)
    case (Inl e)
    with from_head b show thesis by (cases e) (auto simp: rebaseFrom_def Let_def closeAndFail_def split: if_splits)
  next
    case (Inr events)
    with eventsSince_InrD b obtain out where out:
      "lo_read (in_log inp) (in_session inp) (sinceQuery (po_seq seen) (head_seq (fst head))) (w_store (tick env (tick env w))) = Inr out"
      "events = filter (\<lambda>e. ev_seq e \<le> head_seq (fst head)) out" "w2 = tick env (tick env w)" by blast
    from from_head b Inr out(2,3) have "ours inp st"
      "w' = (tick env (tick env w))\<lparr>w_cursor := \<lparr>
       cu_position = \<lparr>po_revision = head_revision (fst head), po_seq = head_seq (fst head), po_state = st, po_storageAt = snd head,
         po_localAt = env_local env (Suc (Suc (w_ticks w)))\<rparr>,
       cu_foreign = cu_foreign (w_cursor w) @ filter (\<lambda>e. ev_seq e \<le> head_seq (fst head)) out\<rparr>\<rparr>"
      by (auto simp: rebaseFrom_def Let_def closeAndFail_def tick_def split: if_splits)
    with that head out(1) show thesis by blast
  qed
qed

lemma storeIt_InrD:
  assumes "storeIt env inp opts at pl nx st w = (Inr d, w')"
  obtains c s where
    "lo_commit (in_log inp) (env_storage env (w_ticks w)) (in_session inp) (commitOf inp at (pl_drafts pl) st) (w_store (tick env w)) = (Inr c, s)"
    "d = \<lparr>de_result = pl_result pl, de_events = cd_events c\<rparr>"
    "w' = committedTo env (opt_tried opts) at nx c ((tick env w)\<lparr>w_store := s\<rparr>)"
proof -
  obtain a s where a: "lo_commit (in_log inp) (env_storage env (w_ticks w)) (in_session inp) (commitOf inp at (pl_drafts pl) st)
      (w_store (tick env w)) = (a, s)" by fastforce
  show thesis
  proof (cases a)
    case (Inl e)
    with assms a show thesis by (cases e) (auto simp: storeIt_def Let_def split: prod.splits sum.splits)
  qed (use assms a that in \<open>auto simp: storeIt_def Let_def\<close>)
qed

lemma storeIt_ConflictD:
  assumes "storeIt env inp opts at pl nx st w = (Inl Conflict, w')"
  obtains i x y s u where
    "lo_commit (in_log inp) (env_storage env (w_ticks w)) (in_session inp) (commitOf inp at (pl_drafts pl) st) (w_store (tick env w))
       = (Inl (RevisionConflict i x y), s)"
    "rebase env inp at ((tick env w)\<lparr>w_store := s\<rparr>) = (Inr u, w')"
proof -
  obtain a s where a: "lo_commit (in_log inp) (env_storage env (w_ticks w)) (in_session inp) (commitOf inp at (pl_drafts pl) st)
      (w_store (tick env w)) = (a, s)" by fastforce
  show thesis
  proof (cases a)
    case (Inl e)
    with assms a that show thesis by (cases e) (auto simp: storeIt_def Let_def split: prod.splits sum.splits)
  qed (use assms a in \<open>auto simp: storeIt_def Let_def\<close>)
qed

text \<open>An attempt that got as far as the store: the plan, the state after it, what is encoded.\<close>

definition planned :: "'s environment \<Rightarrow> 's writer_input \<Rightarrow> ('s, 'e, 'a) planner \<Rightarrow> commit_options \<Rightarrow> 's world \<Rightarrow> 'a plan \<Rightarrow> sessions_state \<Rightarrow> json option \<Rightarrow> bool" where
  "planned env inp plan opts w pl nx st \<longleftrightarrow>
     \<not> isStopped (w_phase w)
     \<and> plan (cu_position (w_cursor w)) (cu_foreign (w_cursor w)) w = Inr pl \<and> \<not> pl_skip pl
     \<and> (\<exists>changed. nextState inp opts (cu_position (w_cursor w)) (storageNow env w) pl (w_store w) = Inr (nx, changed)
          \<and> (if changed then \<exists>j. in_encode inp nx = Inr j \<and> st = Some j else st = None))"

lemma once_cases:
  obtains f where "once env inp incl plan opts w = (Inl (Fails f), w)"
  | pl where "plan (cu_position (w_cursor w)) (cu_foreign (w_cursor w)) w = Inr pl" "pl_skip pl"
      "once env inp incl plan opts w = (Inr \<lparr>de_result = pl_result pl, de_events = []\<rparr>, w)"
  | e where "once env inp incl plan opts w = (Inl (Fails (incl e)), closeBy ByRemoved w)" "e = TurnClosed ByRemoved"
  | pl nx st where "planned env inp plan opts w pl nx st"
      "once env inp incl plan opts w = map_prod (injected incl) id (storeIt env inp opts (cu_position (w_cursor w)) pl nx st w)"
proof (cases "stopped (w_phase w)")
  case (Some stop)
  then show thesis by (intro that(1)) (simp add: once_def)
next
  case None
  then have live: "\<not> isStopped (w_phase w)" by (auto simp: stopped_def split: if_splits)
  show thesis
  proof (cases "plan (cu_position (w_cursor w)) (cu_foreign (w_cursor w)) w")
    case (Inl e)
    with None show thesis by (intro that(1)) (simp add: once_def Let_def)
  next
    case (Inr pl)
    show thesis
    proof (cases "pl_skip pl")
      case True
      with None Inr show thesis by (intro that(2)) (simp_all add: once_def Let_def)
    next
      case False
      let ?n = "nextState inp opts (cu_position (w_cursor w)) (storageNow env w) pl (w_store w)"
      show thesis
      proof (cases ?n)
        case (Inl e)
        with None Inr False show thesis
          by (cases e) (auto simp: once_def Let_def answered_def closeAndFail_def intro: that(1,3))
      next
        case nx': (Inr r)
        obtain nx changed where r: "r = (nx, changed)" by (cases r)
        show thesis
        proof (cases "if changed then map_r Some (in_encode inp nx) else Inr None")
          case (Inl m)
          with None Inr False nx' r show thesis by (intro that(1)) (simp add: once_def Let_def answered_def)
        next
          case st: (Inr st)
          then have "if changed then \<exists>j. in_encode inp nx = Inr j \<and> st = Some j else st = None"
            by (auto simp: map_r_eq_Inr split: if_splits)
          with live Inr False nx' r have "planned env inp plan opts w pl nx st" by (auto simp: planned_def)
          with None Inr False nx' r st show thesis by (intro that(4)) (simp_all add: once_def Let_def answered_def)
        qed
      qed
    qed
  qed
qed

lemma once_InrD:
  assumes "once env inp incl plan opts w = (Inr d, w')"
  obtains pl where "plan (cu_position (w_cursor w)) (cu_foreign (w_cursor w)) w = Inr pl" "pl_skip pl" "w' = w"
  | pl nx st where "planned env inp plan opts w pl nx st"
      "storeIt env inp opts (cu_position (w_cursor w)) pl nx st w = (Inr d, w')"
proof (cases rule: once_cases [of env inp incl plan opts w])
  case (4 pl nx st)
  obtain r v where r: "storeIt env inp opts (cu_position (w_cursor w)) pl nx st w = (r, v)" by fastforce
  with assms 4 that(2) show thesis by auto
qed (use assms that(1) in auto)

lemma once_ConflictD:
  assumes "once env inp incl plan opts w = (Inl Conflict, w')"
  obtains pl nx st where "planned env inp plan opts w pl nx st"
      "storeIt env inp opts (cu_position (w_cursor w)) pl nx st w = (Inl Conflict, w')"
proof (cases rule: once_cases [of env inp incl plan opts w])
  case (4 pl nx st)
  obtain r v where r: "storeIt env inp opts (cu_position (w_cursor w)) pl nx st w = (r, v)" by fastforce
  with assms 4 that show thesis by auto
qed (use assms in auto)

text \<open>A conflict leaves the phase as it was, and took three calls: the commit, the head, the others' events.\<close>

lemma conflict_keeps:
  assumes "once env inp incl plan opts w = (Inl Conflict, w')"
  shows "w_phase w' = w_phase w" "w_ticks w' = w_ticks w + 3"
proof -
  obtain pl nx st where "planned env inp plan opts w pl nx st" and
    conflict: "storeIt env inp opts (cu_position (w_cursor w)) pl nx st w = (Inl Conflict, w')"
    by (rule once_ConflictD [OF assms])
  from storeIt_ConflictD [OF conflict] obtain s u where
    "rebase env inp (cu_position (w_cursor w)) ((tick env w)\<lparr>w_store := s\<rparr>) = (Inr u, w')" by metis
  from rebase_InrD [OF this] obtain cu where
    w': "w' = (tick env (tick env ((tick env w)\<lparr>w_store := s\<rparr>)))\<lparr>w_cursor := cu\<rparr>" by metis
  show "w_phase w' = w_phase w" "w_ticks w' = w_ticks w + 3" by (simp_all add: w' tick_def)
qed

text \<open>What every conflict keeps holds of the attempt that decided.\<close>

lemma attempts_rule:
  assumes "P w" "\<forall>v v'. P v \<and> once env inp incl plan opts v = (Inl Conflict, v') \<longrightarrow> P v'"
    "attempts n env inp incl plan opts w = (r, w')"
  shows "\<exists>v. P v \<and> (case r of Inr d \<Rightarrow> once env inp incl plan opts v = (Inr d, w')
     | Inl e \<Rightarrow> once env inp incl plan opts v = (Inl (Fails e), w')
         \<or> (once env inp incl plan opts v = (Inl Conflict, w') \<and> e = incl (SessionContended (int (cfg_retries (in_config inp))))))"
  using assms(1,3)
proof (induction n arbitrary: w)
  case 0
  then show ?case by (auto split: prod.splits sum.splits once_error.splits)
next
  case (Suc n)
  obtain a v where a: "once env inp incl plan opts w = (a, v)" by fastforce
  show ?case
  proof (cases "a = Inl Conflict")
    case True
    from Suc.prems(1) a True assms(2) have "P v" by blast
    with Suc.prems(2) a True show ?thesis by (intro Suc.IH [of v]) auto
  next
    case False
    with Suc.prems a show ?thesis by (auto split: sum.splits once_error.splits)
  qed
qed

section \<open>The log's contract\<close>

text \<open>
  A life of a session is what the store holds of one incarnation of it: its revision, its sequence
  number and its events. \<open>grows\<close>: a later look at the same life, if it is still there, has the events
  of the earlier one first, and nothing new under the same revision.
\<close>

type_synonym life = "(int \<times> int \<times> log_event list) option"

definition numbered :: "life \<Rightarrow> bool" where
  "numbered v \<longleftrightarrow> (\<forall>r q es. v = Some (r, q, es) \<longrightarrow> sorted (map ev_seq es) \<and> (\<forall>e \<in> set es. ev_seq e \<le> q))"

definition grows :: "life \<Rightarrow> life \<Rightarrow> bool" where
  "grows v v' \<longleftrightarrow> (\<forall>r' q' es'. v' = Some (r', q', es') \<longrightarrow>
     (\<exists>r q es more. v = Some (r, q, es) \<and> es' = es @ more \<and> r \<le> r' \<and> q \<le> q'
        \<and> (r = r' \<longrightarrow> q = q') \<and> (\<forall>e \<in> set more. q < ev_seq e)))"

text \<open>
  Where a cursor stands to a life: never ahead of it, level with it when it is at its revision, and
  holding, after \<open>f0\<close>, exactly the events after \<open>q0\<close> up to its position.
\<close>

definition caught_up :: "int \<Rightarrow> log_event list \<Rightarrow> cursor \<Rightarrow> life \<Rightarrow> bool" where
  "caught_up q0 f0 cu v \<longleftrightarrow> (\<forall>r q es. v = Some (r, q, es) \<longrightarrow>
     po_revision (cu_position cu) \<le> r \<and> po_seq (cu_position cu) \<le> q
     \<and> (po_revision (cu_position cu) = r \<longrightarrow> po_seq (cu_position cu) = q) \<and> q0 \<le> po_seq (cu_position cu)
     \<and> cu_foreign cu = f0 @ filter (\<lambda>e. q0 < ev_seq e \<and> ev_seq e \<le> po_seq (cu_position cu)) es)"

lemma grows_refl: "grows v v"
  by (auto simp: grows_def)

lemma caught_up_grows:
  assumes "caught_up q0 f0 cu v" "grows v v'"
  shows "caught_up q0 f0 cu v'"
  unfolding caught_up_def
proof (intro allI impI)
  fix r' q' es' assume v': "v' = Some (r', q', es')"
  with assms(2) obtain r q es more where g: "v = Some (r, q, es)" "es' = es @ more" "r \<le> r'" "q \<le> q'"
    "r = r' \<longrightarrow> q = q'" "\<forall>e \<in> set more. q < ev_seq e" unfolding grows_def by blast
  let ?p = "po_seq (cu_position cu)"
  from assms(1) g(1) have c: "po_revision (cu_position cu) \<le> r" "?p \<le> q" "po_revision (cu_position cu) = r \<longrightarrow> ?p = q"
    "q0 \<le> ?p" "cu_foreign cu = f0 @ filter (\<lambda>e. q0 < ev_seq e \<and> ev_seq e \<le> ?p) es" by (simp_all add: caught_up_def)
  have "filter (\<lambda>e. q0 < ev_seq e \<and> ev_seq e \<le> ?p) more = []" using c(2) g(6) by (force simp: filter_empty_conv)
  with c g show "po_revision (cu_position cu) \<le> r' \<and> ?p \<le> q' \<and> (po_revision (cu_position cu) = r' \<longrightarrow> ?p = q') \<and> q0 \<le> ?p
     \<and> cu_foreign cu = f0 @ filter (\<lambda>e. q0 < ev_seq e \<and> ev_seq e \<le> ?p) es'" by auto
qed

lemma filter_ranges:
  assumes "sorted (map f xs)" "(a::int) \<le> b" "b \<le> c"
  shows "filter (\<lambda>x. a < f x \<and> f x \<le> b) xs @ filter (\<lambda>x. b < f x \<and> f x \<le> c) xs = filter (\<lambda>x. a < f x \<and> f x \<le> c) xs"
  using assms(1)
proof (induction xs)
  case (Cons x xs)
  then have IH: "filter (\<lambda>x. a < f x \<and> f x \<le> b) xs @ filter (\<lambda>x. b < f x \<and> f x \<le> c) xs = filter (\<lambda>x. a < f x \<and> f x \<le> c) xs"
    by simp
  show ?case
  proof (cases "b < f x")
    case True
    with Cons.prems have "filter (\<lambda>x. a < f x \<and> f x \<le> b) xs = []" by (force simp: filter_empty_conv)
    with True IH assms(2,3) show ?thesis by auto
  qed (use IH assms(2,3) in auto)
qed simp

text \<open>A cursor set from a head read in one look and the events read in a later one.\<close>

lemma caught_up_rebased:
  assumes "caught_up q0 f0 cu v1" "v1 = Some (r1, q1, es1)" "grows v1 v2" "numbered v2"
    "\<And>r q es. v2 = Some (r, q, es) \<Longrightarrow> out = filter (\<lambda>e. po_seq (cu_position cu) < ev_seq e \<and> ev_seq e \<le> q1) es"
    "po_revision p = r1" "po_seq p = q1"
  shows "caught_up q0 f0 \<lparr>cu_position = p, cu_foreign = cu_foreign cu @ filter (\<lambda>e. ev_seq e \<le> q1) out\<rparr> v2"
  unfolding caught_up_def
proof (intro allI impI)
  fix r q es assume v2: "v2 = Some (r, q, es)"
  let ?p = "po_seq (cu_position cu)"
  from assms(1,2) have le: "q0 \<le> ?p" "?p \<le> q1" by (simp_all add: caught_up_def)
  from caught_up_grows [OF assms(1,3)] v2 have "cu_foreign cu = f0 @ filter (\<lambda>e. q0 < ev_seq e \<and> ev_seq e \<le> ?p) es"
    by (simp add: caught_up_def)
  moreover have "filter (\<lambda>e. ev_seq e \<le> q1) out = filter (\<lambda>e. ?p < ev_seq e \<and> ev_seq e \<le> q1) es"
    using assms(5) [OF v2] by (auto intro: filter_cong)
  moreover have "sorted (map ev_seq es)" using assms(4) v2 by (simp add: numbered_def)
  moreover have "r1 \<le> r" "q1 \<le> q" "r1 = r \<longrightarrow> q1 = q" using assms(2,3) v2 by (auto simp: grows_def)
  ultimately show "po_revision (cu_position \<lparr>cu_position = p, cu_foreign = cu_foreign cu @ filter (\<lambda>e. ev_seq e \<le> q1) out\<rparr>) \<le> r
     \<and> po_seq (cu_position \<lparr>cu_position = p, cu_foreign = cu_foreign cu @ filter (\<lambda>e. ev_seq e \<le> q1) out\<rparr>) \<le> q
     \<and> (po_revision (cu_position \<lparr>cu_position = p, cu_foreign = cu_foreign cu @ filter (\<lambda>e. ev_seq e \<le> q1) out\<rparr>) = r \<longrightarrow>
        po_seq (cu_position \<lparr>cu_position = p, cu_foreign = cu_foreign cu @ filter (\<lambda>e. ev_seq e \<le> q1) out\<rparr>) = q)
     \<and> q0 \<le> po_seq (cu_position \<lparr>cu_position = p, cu_foreign = cu_foreign cu @ filter (\<lambda>e. ev_seq e \<le> q1) out\<rparr>)
     \<and> cu_foreign \<lparr>cu_position = p, cu_foreign = cu_foreign cu @ filter (\<lambda>e. ev_seq e \<le> q1) out\<rparr>
       = f0 @ filter (\<lambda>e. q0 < ev_seq e \<and> ev_seq e \<le> po_seq (cu_position \<lparr>cu_position = p,
            cu_foreign = cu_foreign cu @ filter (\<lambda>e. ev_seq e \<le> q1) out\<rparr>)) es"
    using assms(6,7) le filter_ranges [of ev_seq es q0 ?p q1] by simp
qed

locale session_log =
  fixes L :: "'s log_ops"
    and life :: "string \<Rightarrow> string \<Rightarrow> 's \<Rightarrow> life"
    and good :: "'s \<Rightarrow> bool"
  assumes refused: "good s \<Longrightarrow> lo_commit L at i c s = (Inl e, s') \<Longrightarrow> s' = s"
    and accepted: "good s \<Longrightarrow> lo_commit L at i c s = (Inr r, s') \<Longrightarrow> cm_incarnation c = Some n \<Longrightarrow>
      \<exists>q es. life i n s = Some (cm_expect c, q, es) \<and> (case cm_notAfter c of None \<Rightarrow> True | Some t \<Rightarrow> at \<le> t)
        \<and> life i n s' = Some (cd_revision r, cd_seq r, es @ cd_events r) \<and> cd_revision r = cm_expect c + 1
        \<and> cd_seq r = q + int (length (cm_events c)) \<and> good s'"
    and head_law: "good s \<Longrightarrow> lo_head L at i s = Inr h \<Longrightarrow>
      \<exists>es. life i (head_incarnation (fst h)) s = Some (head_revision (fst h), head_seq (fst h), es)"
    and read_law: "good s \<Longrightarrow> lo_read L i (sinceQuery a b) s = Inr out \<Longrightarrow> life i n s = Some (rv, q, es) \<Longrightarrow>
      out = filter (\<lambda>e. a < ev_seq e \<and> ev_seq e \<le> b) es"
    and life_numbered: "good s \<Longrightarrow> numbered (life i n s)"

text \<open>Other instances keep the store good and only add to the turn's session while its incarnation lasts.\<close>

locale writer_run = session_log L life good
  for L :: "'s log_ops" and life and good +
  fixes env :: "'s environment" and inp :: "'s writer_input"
  assumes log: "in_log inp = L"
    and others_good: "good s \<Longrightarrow> good (env_others env k s)"
    and others_grow: "good s \<Longrightarrow> grows (life (in_session inp) (in_incarnation inp) s) (life (in_session inp) (in_incarnation inp) (env_others env k s))"
begin

abbreviation (input) mine :: "'s world \<Rightarrow> life" where
  "mine w \<equiv> life (in_session inp) (in_incarnation inp) (w_store w)"

lemma tick_grows: "good (w_store w) \<Longrightarrow> good (w_store (tick env w)) \<and> grows (mine w) (mine (tick env w))"
  by (simp add: tick_def others_good others_grow)

lemma tick_caught_up:
  "good (w_store w) \<and> caught_up q0 f0 (w_cursor w) (mine w) \<Longrightarrow>
   good (w_store (tick env w)) \<and> caught_up q0 f0 (w_cursor (tick env w)) (mine (tick env w))"
  using tick_grows [of w] by (auto simp: tick_def intro: caught_up_grows)

lemma rebase_caught_up:
  assumes "good (w_store w) \<and> caught_up q0 f0 (w_cursor w) (mine w)" "seen = cu_position (w_cursor w)"
    "rebase env inp seen w = (Inr u, w')"
  shows "good (w_store w') \<and> caught_up q0 f0 (w_cursor w') (mine w')"
proof -
  obtain head st out where r:
    "lo_head L (env_storage env (w_ticks w)) (in_session inp) (w_store (tick env w)) = Inr head"
    "head_incarnation (fst head) = in_incarnation inp"
    "lo_read L (in_session inp) (sinceQuery (po_seq seen) (head_seq (fst head))) (w_store (tick env (tick env w))) = Inr out"
    "w' = (tick env (tick env w))\<lparr>w_cursor := \<lparr>
       cu_position = \<lparr>po_revision = head_revision (fst head), po_seq = head_seq (fst head), po_state = st, po_storageAt = snd head,
         po_localAt = env_local env (Suc (Suc (w_ticks w)))\<rparr>,
       cu_foreign = cu_foreign (w_cursor w) @ filter (\<lambda>e. ev_seq e \<le> head_seq (fst head)) out\<rparr>\<rparr>"
    by (rule rebase_InrD [OF assms(3), unfolded log])
  from tick_caught_up [OF assms(1)] have one: "good (w_store (tick env w))" "caught_up q0 f0 (w_cursor w) (mine (tick env w))"
    by (simp_all add: tick_def)
  from tick_grows [OF one(1)] have two: "good (w_store (tick env (tick env w)))" "grows (mine (tick env w)) (mine (tick env (tick env w)))"
    by simp_all
  from head_law [OF one(1) r(1)] r(2) obtain es where h: "mine (tick env w) = Some (head_revision (fst head), head_seq (fst head), es)"
    by auto
  have "caught_up q0 f0 \<lparr>cu_position = \<lparr>po_revision = head_revision (fst head), po_seq = head_seq (fst head), po_state = st,
         po_storageAt = snd head, po_localAt = env_local env (Suc (Suc (w_ticks w)))\<rparr>,
       cu_foreign = cu_foreign (w_cursor w) @ filter (\<lambda>e. ev_seq e \<le> head_seq (fst head)) out\<rparr> (mine (tick env (tick env w)))"
    using read_law [OF two(1) r(3)] assms(2)
    by (intro caught_up_rebased [OF one(2) h two(2) life_numbered [OF two(1)]]) simp_all
  with two(1) r(4) show ?thesis by simp
qed

lemma conflict_caught_up:
  assumes "good (w_store w) \<and> caught_up q0 f0 (w_cursor w) (mine w)" "once env inp incl plan opts w = (Inl Conflict, w')"
  shows "good (w_store w') \<and> caught_up q0 f0 (w_cursor w') (mine w')"
proof -
  obtain pl nx st where "planned env inp plan opts w pl nx st" and
    conflict: "storeIt env inp opts (cu_position (w_cursor w)) pl nx st w = (Inl Conflict, w')"
    by (rule once_ConflictD [OF assms(2)])
  obtain i x y s u where c:
    "lo_commit L (env_storage env (w_ticks w)) (in_session inp) (commitOf inp (cu_position (w_cursor w)) (pl_drafts pl) st) (w_store (tick env w))
       = (Inl (RevisionConflict i x y), s)"
    "rebase env inp (cu_position (w_cursor w)) ((tick env w)\<lparr>w_store := s\<rparr>) = (Inr u, w')"
    by (rule storeIt_ConflictD [OF conflict, unfolded log])
  from tick_caught_up [OF assms(1)] have t: "good (w_store (tick env w)) \<and> caught_up q0 f0 (w_cursor (tick env w)) (mine (tick env w))" .
  with refused [OF _ c(1)] have s: "s = w_store (tick env w)" by blast
  have p: "cu_position (w_cursor w) = cu_position (w_cursor (tick env w))" by (simp add: tick_def)
  show ?thesis by (rule rebase_caught_up [OF t p]) (use c(2) s in simp)
qed

lemma commit_caught_up:
  assumes "good (w_store w)" "caught_up (po_seq (cu_position (w_cursor w))) (cu_foreign (w_cursor w)) (w_cursor w) (mine w)"
    "commitPlan env inp incl plan opts w = (Inr d, w')"
  shows "(\<exists>v pl. plan (cu_position (w_cursor v)) (cu_foreign (w_cursor v)) v = Inr pl \<and> pl_skip pl \<and> w' = v)
    \<or> (\<exists>v pl nx st c s q es. planned env inp plan opts v pl nx st \<and> w_phase v = w_phase w
        \<and> lo_commit L (env_storage env (w_ticks v)) (in_session inp) (commitOf inp (cu_position (w_cursor v)) (pl_drafts pl) st) s
            = (Inr c, w_store w')
        \<and> d = \<lparr>de_result = pl_result pl, de_events = cd_events c\<rparr>
        \<and> life (in_session inp) (in_incarnation inp) s = Some (po_revision (cu_position (w_cursor v)), q, es)
        \<and> mine w' = Some (po_revision (cu_position (w_cursor w')), po_seq (cu_position (w_cursor w')), es @ de_events d)
        \<and> (case notAfterOf inp (cu_position (w_cursor v)) of None \<Rightarrow> True | Some t \<Rightarrow> env_storage env (w_ticks v) \<le> t)
        \<and> cu_foreign (w_cursor v) = cu_foreign (w_cursor w) @ filter (\<lambda>e. po_seq (cu_position (w_cursor w)) < ev_seq e) es)"
proof -
  let ?P = "\<lambda>v. (good (w_store v) \<and> caught_up (po_seq (cu_position (w_cursor w))) (cu_foreign (w_cursor w)) (w_cursor v) (mine v))
    \<and> w_phase v = w_phase w"
  have step: "\<forall>v v'. ?P v \<and> once env inp incl plan opts v = (Inl Conflict, v') \<longrightarrow> ?P v'"
  proof (intro allI impI)
    fix v v' assume "?P v \<and> once env inp incl plan opts v = (Inl Conflict, v')"
    then have v: "good (w_store v) \<and> caught_up (po_seq (cu_position (w_cursor w))) (cu_foreign (w_cursor w)) (w_cursor v) (mine v)"
      "w_phase v = w_phase w" and c: "once env inp incl plan opts v = (Inl Conflict, v')" by simp_all
    from conflict_caught_up [OF v(1) c] conflict_keeps(1) [OF c] v(2) show "?P v'" by simp
  qed
  have w: "?P w" using assms(1,2) by simp
  from attempts_rule [where P = ?P, OF w step assms(3) [unfolded commitPlan_def]] obtain v where
    v': "?P v" and v2: "once env inp incl plan opts v = (Inr d, w')" by auto
  note v = conjunct1 [OF v'] v2 conjunct2 [OF v']
  from v(2) show ?thesis
  proof (cases rule: once_InrD)
    case (1 pl)
    then show ?thesis by blast
  next
    case (2 pl nx st)
    obtain c s where c:
      "lo_commit L (env_storage env (w_ticks v)) (in_session inp) (commitOf inp (cu_position (w_cursor v)) (pl_drafts pl) st) (w_store (tick env v))
         = (Inr c, s)"
      "d = \<lparr>de_result = pl_result pl, de_events = cd_events c\<rparr>"
      "w' = committedTo env (opt_tried opts) (cu_position (w_cursor v)) nx c ((tick env v)\<lparr>w_store := s\<rparr>)"
      by (rule storeIt_InrD [OF 2(2), unfolded log])
    have t: "good (w_store (tick env v))"
      "caught_up (po_seq (cu_position (w_cursor w))) (cu_foreign (w_cursor w)) (w_cursor v) (mine (tick env v))"
      using tick_caught_up [OF v(1)] by (simp_all add: tick_def)
    from accepted [OF t(1) c(1)] obtain q es where a:
      "mine (tick env v) = Some (po_revision (cu_position (w_cursor v)), q, es)"
      "case notAfterOf inp (cu_position (w_cursor v)) of None \<Rightarrow> True | Some x \<Rightarrow> env_storage env (w_ticks v) \<le> x"
      "life (in_session inp) (in_incarnation inp) s = Some (cd_revision c, cd_seq c, es @ cd_events c)"
      by (auto simp: commitOf_def)
    have "\<forall>e \<in> set es. ev_seq e \<le> q" using life_numbered [OF t(1)] a(1) unfolding numbered_def by blast
    with t(2) a(1) have "cu_foreign (w_cursor v) = cu_foreign (w_cursor w) @ filter (\<lambda>e. po_seq (cu_position (w_cursor w)) < ev_seq e) es"
      by (auto simp: caught_up_def intro!: filter_cong)
    moreover have "mine w' = Some (po_revision (cu_position (w_cursor w')), po_seq (cu_position (w_cursor w')), es @ de_events d)"
      using a(3) c(2,3) by (simp add: committedTo_def)
    moreover have "w_store w' = s" using c(3) by (simp add: committedTo_def)
    ultimately show ?thesis using 2(1) a(1,2) c(1,2) v(3) by blast
  qed
qed

end

section \<open>The in-memory store keeps the contract\<close>

definition lifeOf :: "string \<Rightarrow> string \<Rightarrow> store \<Rightarrow> life" where
  "lifeOf i n all = (case map_of all i of
      None \<Rightarrow> None
    | Some s \<Rightarrow> if head_incarnation (st_head s) = n then Some (head_revision (st_head s), head_seq (st_head s), st_events s) else None)"

lemma session_of: "store_ok all \<Longrightarrow> map_of all i = Some s \<Longrightarrow> session_ok i s"
  by (auto simp: store_ok_def dest!: map_of_SomeD)

lemma lifeOf_numbered: "store_ok all \<Longrightarrow> numbered (lifeOf i n all)"
proof -
  assume ok: "store_ok all"
  have "sorted (map ev_seq (st_events s)) \<and> (\<forall>e \<in> set (st_events s). ev_seq e \<le> head_seq (st_head s))"
    if "map_of all i = Some s" for s
  proof -
    from session_of [OF ok that] have seqs: "map ev_seq (st_events s) = map (\<lambda>n. int n + 1) [0..<length (st_events s)]"
      "head_seq (st_head s) = int (length (st_events s))" by (auto simp: session_ok_def)
    have "sorted (map (\<lambda>n. int n + 1) [0..<k])" for k by (simp add: sorted_iff_nth_mono)
    moreover have "ev_seq e \<in> set (map ev_seq (st_events s))" if "e \<in> set (st_events s)" for e using that by simp
    ultimately show ?thesis unfolding seqs by fastforce
  qed
  then show ?thesis by (auto simp: numbered_def lifeOf_def split: option.splits if_splits)
qed

interpretation memory_log: session_log memoryLog lifeOf store_ok
proof unfold_locales
  fix s s' :: store and at i c e
  assume "lo_commit memoryLog at i c s = (Inl e, s')"
  then show "s' = s" by (cases rule: commitEvents_cases [of at i c s]) (simp_all add: memoryLog_def)
next
  fix s s' :: store and at i c r n
  assume ok: "store_ok s" and c: "lo_commit memoryLog at i c s = (Inr r, s')" and n: "cm_incarnation c = Some n"
  from commit_ok [OF ok, of at i c] c have "store_ok s'" by (simp add: memoryLog_def)
  with c n show "\<exists>q es. lifeOf i n s = Some (cm_expect c, q, es) \<and> (case cm_notAfter c of None \<Rightarrow> True | Some t \<Rightarrow> at \<le> t)
        \<and> lifeOf i n s' = Some (cd_revision r, cd_seq r, es @ cd_events r) \<and> cd_revision r = cm_expect c + 1
        \<and> cd_seq r = q + int (length (cm_events c)) \<and> store_ok s'"
    by (cases rule: commitEvents_cases [of at i c s]) (auto simp: memoryLog_def lifeOf_def acceptable_def map_of_put)
next
  fix s :: store and at i h
  assume "lo_head memoryLog at i s = Inr h"
  then show "\<exists>es. lifeOf i (head_incarnation (fst h)) s = Some (head_revision (fst h), head_seq (fst h), es)"
    by (auto simp: memoryLog_def readHead_def lifeOf_def split: option.splits)
next
  fix s :: store and i a b out n rv q es
  assume "lo_read memoryLog i (sinceQuery a b) s = Inr out" "lifeOf i n s = Some (rv, q, es)"
  then show "out = filter (\<lambda>e. a < ev_seq e \<and> ev_seq e \<le> b) es"
    by (auto simp: memoryLog_def readEvents_def sinceQuery_def lifeOf_def Let_def split: option.splits if_splits)
qed (rule lifeOf_numbered)

text \<open>Other instances: any operations of the store between two calls, none minting the turn's incarnation again.\<close>

definition othersRun :: "string \<Rightarrow> (nat \<Rightarrow> log_op list) \<Rightarrow> nat \<Rightarrow> store \<Rightarrow> store" where
  "othersRun n ops k s = foldl logStep s (filter (\<lambda>op. \<not> mints n op) (ops k))"

definition othersEnv :: "store writer_input \<Rightarrow> (nat \<Rightarrow> log_op list) \<Rightarrow> (nat \<Rightarrow> int) \<Rightarrow> (nat \<Rightarrow> int) \<Rightarrow> store environment" where
  "othersEnv inp ops storage lc = \<lparr>env_others = othersRun (in_incarnation inp) ops, env_storage = storage, env_local = lc\<rparr>"

lemma grows_trans:
  assumes "grows u v" "grows v w"
  shows "grows u w"
  unfolding grows_def
proof (intro allI impI)
  fix r'' q'' es'' assume "w = Some (r'', q'', es'')"
  with assms(2) obtain r' q' es' m' where v: "v = Some (r', q', es')" "es'' = es' @ m'" "r' \<le> r''" "q' \<le> q''" "r' = r'' \<longrightarrow> q' = q''"
    "\<forall>e \<in> set m'. q' < ev_seq e" unfolding grows_def by blast
  with assms(1) obtain r q es m where u: "u = Some (r, q, es)" "es' = es @ m" "r \<le> r'" "q \<le> q'" "r = r' \<longrightarrow> q = q'"
    "\<forall>e \<in> set m. q < ev_seq e" unfolding grows_def by blast
  from u v have "u = Some (r, q, es) \<and> es'' = es @ (m @ m') \<and> r \<le> r'' \<and> q \<le> q'' \<and> (r = r'' \<longrightarrow> q = q'')
    \<and> (\<forall>e \<in> set (m @ m'). q < ev_seq e)" by force
  then show "\<exists>r q es more. u = Some (r, q, es) \<and> es'' = es @ more \<and> r \<le> r'' \<and> q \<le> q''
        \<and> (r = r'' \<longrightarrow> q = q'') \<and> (\<forall>e \<in> set more. q < ev_seq e)" by blast
qed

lemma grows_step: "\<not> mints n op \<Longrightarrow> grows (lifeOf i n s) (lifeOf i n (logStep s op))"
proof (cases op)
  case (OpCreate at minted header)
  assume "\<not> mints n op"
  with OpCreate have "lifeOf i n (logStep s op) = lifeOf i n s \<or> lifeOf i n (logStep s op) = None"
    by (auto simp: create_def Let_def lifeOf_def map_of_put split: option.splits)
  then show ?thesis using grows_refl by (auto simp: grows_def)
next
  case (OpCommit at j c)
  show ?thesis
  proof (cases rule: commitEvents_cases [of at j c s])
    case (1 e)
    with OpCommit show ?thesis by (simp add: grows_refl)
  next
    case (2 x)
    have "q < ev_seq e" if "e \<in> set (stampEvents j q at (cm_events c))" for e q
      using that by (auto simp: stampEvents_def)
    with 2 OpCommit show ?thesis by (auto simp: grows_def lifeOf_def map_of_put split: option.splits if_splits)
  qed
next
  case (OpRemove j)
  then have "lifeOf i n (logStep s op) = lifeOf i n s \<or> lifeOf i n (logStep s op) = None"
    by (auto simp: lifeOf_def map_of_removed)
  then show ?thesis using grows_refl by (auto simp: grows_def)
qed

lemma grows_run: "list_all (\<lambda>op. \<not> mints n op) ops \<Longrightarrow> grows (lifeOf i n s) (lifeOf i n (foldl logStep s ops))"
proof (induction ops arbitrary: s)
  case (Cons op ops)
  then have "grows (lifeOf i n s) (lifeOf i n (logStep s op))" by (simp add: grows_step)
  moreover from Cons have "grows (lifeOf i n (logStep s op)) (lifeOf i n (foldl logStep (logStep s op) ops))" by simp
  ultimately show ?case using grows_trans by simp
qed (simp add: grows_refl)

interpretation memory_run: writer_run memoryLog lifeOf store_ok "othersEnv inp ops storage lc" "inp\<lparr>in_log := memoryLog\<rparr>"
proof unfold_locales
  fix s :: store and k
  assume "store_ok s"
  then show "store_ok (env_others (othersEnv inp ops storage lc) k s)"
    by (simp add: othersEnv_def othersRun_def store_machine.inv_run)
qed (simp_all add: othersEnv_def othersRun_def grows_run list_all_iff)

section \<open>Properties\<close>

lemma committed_events:
  assumes "commitEvents at i c s = (Inr r, s')"
  shows "map (\<lambda>e. (ev_kind e, ev_turn e, ev_data e)) (cd_events r) = map (\<lambda>d. (sd_kind d, sd_turn d, sd_data d)) (cm_events c)"
proof (cases rule: commitEvents_cases [of at i c s])
  case (2 x)
  have "map (\<lambda>e. (ev_kind e, ev_turn e, ev_data e)) (stampEvents i seq at ds) = map (\<lambda>d. (sd_kind d, sd_turn d, sd_data d)) ds" for seq ds
    by (rule nth_equalityI) (simp_all add: stampEvents_def nth_enumerate_eq)
  with 2 assms show ?thesis by simp
qed (use assms in simp)

lemma committed_drafts:
  assumes "lo_commit memoryLog at i (commitOf inp p drafts st) s = (Inr c, s')"
  shows "map (\<lambda>e. (ev_kind e, ev_data e)) (cd_events c) = map (\<lambda>d. (draft_kind d, draft_data d)) drafts"
    "list_all (\<lambda>e. ev_turn e = Some (in_turn inp)) (cd_events c)"
proof -
  from committed_events [of at i "commitOf inp p drafts st" s c s'] assms
  have m: "map (\<lambda>e. (ev_kind e, ev_turn e, ev_data e)) (cd_events c) = map (\<lambda>d. (draft_kind d, Some (in_turn inp), draft_data d)) drafts"
    by (simp add: memoryLog_def commitOf_def stamped_def comp_def)
  from arg_cong [OF m, of "map (\<lambda>(k, t, j). (k, j))"]
  show "map (\<lambda>e. (ev_kind e, ev_data e)) (cd_events c) = map (\<lambda>d. (draft_kind d, draft_data d)) drafts" by (simp add: comp_def)
  from arg_cong [OF m, of "\<lambda>xs. list_all (\<lambda>(k, t, j). t = Some (in_turn inp)) xs"]
  show "list_all (\<lambda>e. ev_turn e = Some (in_turn inp)) (cd_events c)" by (simp add: list_all_iff)
qed

text \<open>A turn just begun in a session just created, and another instance that commits first.\<close>

definition sampleInput :: "store writer_input" where
  "sampleInput = \<lparr>in_log = memoryLog, in_config = sessionsDefaults, in_instance = ''h'', in_session = ''s'', in_turn = 1, in_runId = ''r'',
     in_incarnation = ''n'', in_decode = \<lambda>j. Inl '''', in_decodeFormat = \<lambda>j. Inr None, in_encode = \<lambda>st. Inr (JObj []),
     in_snapshot = \<lambda>s seq st drafts. Inr st\<rparr>"

definition sampleTurn :: sessions_state where
  "sampleTurn = \<lparr>ss_format = Some STORED_FORMAT, ss_turns = 1,
     ss_open = Some \<lparr>ot_turn = 1, ot_runId = ''r'', ot_key = ''k'', ot_origin = OriginUser, ot_holder = ''h'', ot_expiresAt = None,
       ht_process = None, ht_sealed = None\<rparr>,
     ss_title = None, ss_inbox = [], ss_memorySnapshot = None\<rparr>"

definition sampleStart :: "store world" where
  "sampleStart = \<lparr>w_store = snd (create 0 ''n'' sampleHeader []), w_ticks = 0, w_phase = opened,
     w_cursor = \<lparr>cu_position = \<lparr>po_revision = 0, po_seq = 0, po_state = sampleTurn, po_storageAt = 0, po_localAt = 0\<rparr>, cu_foreign = []\<rparr>,
     w_closed = None, w_wakes = []\<rparr>"

definition sampleDecide :: "log_event list \<Rightarrow> turn_error + turn_draft list \<times> nat" where
  "sampleDecide others = Inr ([\<lparr>draft_kind = ''note'', draft_data = JNull, td_framework = False\<rparr>], length others)"

lemma sampleStart_ok: "store_ok (w_store sampleStart)"
  "caught_up (po_seq (cu_position (w_cursor sampleStart))) (cu_foreign (w_cursor sampleStart)) (w_cursor sampleStart)
     (lifeOf (in_session sampleInput) (in_incarnation sampleInput) (w_store sampleStart))"
  by (simp_all add: sampleStart_def create_ok store_ok_def parents_ok_def sampleInput_def)
    (simp_all add: create_def put_def sampleHeader_def Let_def session_ok_def caught_up_def lifeOf_def)

text \<open>
  C3. A stored decision has seen everything the others stored: whatever other instances do to the
  store between the writer's calls, when a transact's commit lands, the decision it stored was made
  from the others' events handed over before and every event stored since, none missed and none
  twice; the decision's drafts come right after those events, each under the turn, in one commit.
\<close>
theorem stored_decision_saw_everything:
  fixes w :: "store world"
  assumes "store_ok (w_store w)"
    "caught_up (po_seq (cu_position (w_cursor w))) (cu_foreign (w_cursor w)) (w_cursor w)
       (lifeOf (in_session inp) (in_incarnation inp) (w_store w))"
    "commitPlan (othersEnv inp ops storage lc) (inp\<lparr>in_log := memoryLog\<rparr>) incl (transactPlan incl decide) opts w = (Inr d, w')"
  shows "\<exists>es drafts.
     decide (cu_foreign (w_cursor w) @ filter (\<lambda>e. po_seq (cu_position (w_cursor w)) < ev_seq e) es) = Inr (drafts, de_result d)
     \<and> lifeOf (in_session inp) (in_incarnation inp) (w_store w')
         = Some (po_revision (cu_position (w_cursor w')), po_seq (cu_position (w_cursor w')), es @ de_events d)
     \<and> map (\<lambda>e. (ev_kind e, ev_data e)) (de_events d) = map (\<lambda>t. (draft_kind t, draft_data t)) drafts
     \<and> list_all (\<lambda>e. ev_turn e = Some (in_turn inp)) (de_events d)"
proof -
  have noskip: "\<not> pl_skip pl" if "transactPlan incl decide at others v = Inr pl" for at others pl and v :: "store world"
    using that by (auto simp: transactPlan_def result_simps split: option.splits)
  have life: "caught_up (po_seq (cu_position (w_cursor w))) (cu_foreign (w_cursor w)) (w_cursor w)
    (lifeOf (in_session (inp\<lparr>in_log := memoryLog\<rparr>)) (in_incarnation (inp\<lparr>in_log := memoryLog\<rparr>)) (w_store w))" using assms(2) by simp
  from memory_run.commit_caught_up [OF assms(1) life assms(3)] noskip
  obtain v pl nx st c s q es where p: "planned (othersEnv inp ops storage lc) (inp\<lparr>in_log := memoryLog\<rparr>) (transactPlan incl decide) opts v pl nx st"
    "lo_commit memoryLog (env_storage (othersEnv inp ops storage lc) (w_ticks v)) (in_session inp)
       (commitOf (inp\<lparr>in_log := memoryLog\<rparr>) (cu_position (w_cursor v)) (pl_drafts pl) st) s = (Inr c, w_store w')"
    "d = \<lparr>de_result = pl_result pl, de_events = cd_events c\<rparr>"
    "lifeOf (in_session inp) (in_incarnation inp) (w_store w')
       = Some (po_revision (cu_position (w_cursor w')), po_seq (cu_position (w_cursor w')), es @ de_events d)"
    "cu_foreign (w_cursor v) = cu_foreign (w_cursor w) @ filter (\<lambda>e. po_seq (cu_position (w_cursor w)) < ev_seq e) es"
    by auto
  from p(1) have "transactPlan incl decide (cu_position (w_cursor v)) (cu_foreign (w_cursor v)) v = Inr pl" by (simp add: planned_def)
  then obtain drafts where t: "decide (cu_foreign (w_cursor v)) = Inr (drafts, pl_result pl)" "pl_drafts pl = map draft.truncate drafts"
    by (auto simp: transactPlan_def result_simps split: option.splits)
  from committed_drafts [OF p(2)] t(2) p(3) have
    "map (\<lambda>e. (ev_kind e, ev_data e)) (de_events d) = map (\<lambda>t. (draft_kind t, draft_data t)) drafts"
    "list_all (\<lambda>e. ev_turn e = Some (in_turn inp)) (de_events d)" by (simp_all add: comp_def draft.defs)
  moreover have "decide (cu_foreign (w_cursor w) @ filter (\<lambda>e. po_seq (cu_position (w_cursor w)) < ev_seq e) es) = Inr (drafts, de_result d)"
    using t(1) p(3) by (simp add: p(5) [symmetric])
  ultimately show ?thesis using p(4) by blast
qed

definition othersFirst :: "nat \<Rightarrow> log_op list" where
  "othersFirst k = (if k = 0 then [OpCommit 5 ''s'' (sampleCommit\<lparr>cm_state := Some (JObj [(''sessions'', JNull)])\<rparr>)] else [])"

definition sampleDecoded :: "store writer_input" where
  "sampleDecoded = sampleInput\<lparr>in_decode := \<lambda>j. Inr sampleTurn\<rparr>"

lemma sampleDecoded_ok:
  "caught_up (po_seq (cu_position (w_cursor sampleStart))) (cu_foreign (w_cursor sampleStart)) (w_cursor sampleStart)
     (lifeOf (in_session sampleDecoded) (in_incarnation sampleDecoded) (w_store sampleStart))"
  using sampleStart_ok(2) by (simp add: sampleDecoded_def)

theorem stored_decision_saw_everything_witness:
  "\<exists>d w' es drafts.
     commitPlan (othersEnv sampleDecoded othersFirst int int) (sampleDecoded\<lparr>in_log := memoryLog\<rparr>) id (transactPlan id sampleDecide)
       \<lparr>opt_renew = True, opt_tried = False\<rparr> sampleStart = (Inr d, w') \<and> de_result d = 1
     \<and> sampleDecide ([] @ filter (\<lambda>e. 0 < ev_seq e) es) = Inr (drafts, de_result d)"
proof -
  let ?run = "commitPlan (othersEnv sampleDecoded othersFirst int int) (sampleDecoded\<lparr>in_log := memoryLog\<rparr>) id (transactPlan id sampleDecide)
       \<lparr>opt_renew = True, opt_tried = False\<rparr> sampleStart"
  have "case fst ?run of Inr d \<Rightarrow> de_result d = 1 | Inl e \<Rightarrow> False" by code_simp
  then obtain d w' where run: "?run = (Inr d, w')" "de_result d = 1" by (cases ?run) (auto split: sum.splits)
  from stored_decision_saw_everything [OF sampleStart_ok(1) sampleDecoded_ok run(1)] run show ?thesis
    by (auto simp: sampleStart_def)
qed

text \<open>
  A turn's end is stored whole: when an end's commit lands, it is one commit whose events are the
  closing drafts the writer held, then \<open>turn.ended\<close> with the ending, then the items the close
  dropped, all under the turn, right after everything stored before; it answers the items left waiting.
\<close>
theorem end_is_stored_whole:
  fixes w :: "store world"
  assumes "store_ok (w_store w)"
    "caught_up (po_seq (cu_position (w_cursor w))) (cu_foreign (w_cursor w)) (w_cursor w)
       (lifeOf (in_session inp) (in_incarnation inp) (w_store w))"
    "endNow (othersEnv inp ops storage lc) (inp\<lparr>in_log := memoryLog\<rparr>) ending w = (Inr d, w')"
  shows "\<exists>es plan st. endPlanOf (w_phase w) = Inr plan
     \<and> lifeOf (in_session inp) (in_incarnation inp) (w_store w')
         = Some (po_revision (cu_position (w_cursor w')), po_seq (cu_position (w_cursor w')), es @ de_events d)
     \<and> map (\<lambda>e. (ev_kind e, ev_data e)) (de_events d)
         = map (\<lambda>t. (draft_kind t, draft_data t)) (plan_closing plan) @ [(''turn.ended'', turnEndedData ending)]
           @ map (\<lambda>i. (''inbox.dropped'', droppedData i))
               (cs_dropped (closedState st (ending_reason ending) (cfg_attempts (in_config inp)) (plan_tried plan)))
     \<and> de_result d = length (pendingOf (cs_state (closedState st (ending_reason ending) (cfg_attempts (in_config inp)) (plan_tried plan))))
     \<and> list_all (\<lambda>e. ev_turn e = Some (in_turn inp)) (de_events d)"
proof -
  let ?inp = "inp\<lparr>in_log := memoryLog\<rparr>"
  have noskip: "\<not> pl_skip pl" if "endPlan ?inp ending at others v = Inr pl" for at others pl and v :: "store world"
    using that by (auto simp: endPlan_def Let_def split: sum.splits)
  have life: "caught_up (po_seq (cu_position (w_cursor w))) (cu_foreign (w_cursor w)) (w_cursor w)
    (lifeOf (in_session ?inp) (in_incarnation ?inp) (w_store w))" using assms(2) by simp
  from memory_run.commit_caught_up [OF assms(1) life assms(3) [unfolded endNow_def]] noskip
  obtain v pl nx stj c s q es where p: "planned (othersEnv inp ops storage lc) ?inp (endPlan ?inp ending) \<lparr>opt_renew = False, opt_tried = False\<rparr> v pl nx stj"
    "w_phase v = w_phase w"
    "lo_commit memoryLog (env_storage (othersEnv inp ops storage lc) (w_ticks v)) (in_session inp)
       (commitOf ?inp (cu_position (w_cursor v)) (pl_drafts pl) stj) s = (Inr c, w_store w')"
    "d = \<lparr>de_result = pl_result pl, de_events = cd_events c\<rparr>"
    "lifeOf (in_session inp) (in_incarnation inp) (w_store w')
       = Some (po_revision (cu_position (w_cursor w')), po_seq (cu_position (w_cursor w')), es @ de_events d)"
    by auto
  from p(1,2) have "endPlan ?inp ending (cu_position (w_cursor v)) (cu_foreign (w_cursor v)) v = Inr pl" by (simp add: planned_def)
  with p(2) obtain plan where e: "endPlanOf (w_phase w) = Inr plan"
    "pl_drafts pl = plan_closing plan @ [\<lparr>draft_kind = ''turn.ended'', draft_data = turnEndedData ending\<rparr>]
       @ map (\<lambda>i. \<lparr>draft_kind = ''inbox.dropped'', draft_data = droppedData i\<rparr>)
          (cs_dropped (closedState (po_state (cu_position (w_cursor v))) (ending_reason ending) (cfg_attempts (in_config inp)) (plan_tried plan)))"
    "pl_result pl = length (pendingOf (cs_state (closedState (po_state (cu_position (w_cursor v))) (ending_reason ending)
       (cfg_attempts (in_config inp)) (plan_tried plan))))"
    by (auto simp: endPlan_def Let_def split: sum.splits)
  from committed_drafts [OF p(3)] e(2,3) p(4) e(1) p(5) show ?thesis
    by (intro exI [of _ es] exI [of _ plan] exI [of _ "po_state (cu_position (w_cursor v))"]) (simp add: comp_def)
qed

theorem end_is_stored_whole_witness:
  "\<exists>d w' es. endNow (othersEnv sampleInput (\<lambda>k. []) int int) (sampleInput\<lparr>in_log := memoryLog\<rparr>)
       \<lparr>ending_reason = Completed, ending_failure = None\<rparr> sampleStart = (Inr d, w')
     \<and> lifeOf ''s'' ''n'' (w_store w') = Some (po_revision (cu_position (w_cursor w')), po_seq (cu_position (w_cursor w')), es @ de_events d)"
proof -
  let ?run = "endNow (othersEnv sampleInput (\<lambda>k. []) int int) (sampleInput\<lparr>in_log := memoryLog\<rparr>)
       \<lparr>ending_reason = Completed, ending_failure = None\<rparr> sampleStart"
  have "case fst ?run of Inr d \<Rightarrow> True | Inl e \<Rightarrow> False" by code_simp
  then obtain d w' where run: "?run = (Inr d, w')" by (cases ?run) (auto split: sum.splits)
  from end_is_stored_whole [OF sampleStart_ok run] run show ?thesis by (auto simp: sampleInput_def)
qed

lemma closeBy_live [simp]: "isLive (w_phase w) \<Longrightarrow> w_phase (closeBy r w) = WClosed r"
  by (cases "w_phase w") (simp_all add: closeBy_def)

lemma tick_phase [simp]: "w_phase (tick env w) = w_phase w"
  by (simp add: tick_def)

lemma answered_closed:
  "answered x w = (Inl (TurnClosed r), w') \<Longrightarrow> isLive (w_phase w) \<Longrightarrow> w_phase w' = WClosed r"
  by (auto simp: answered_def closeAndFail_def split: sum.splits log_error.splits)

lemma answered_open: "answered x w = (Inl e, w') \<Longrightarrow> \<not> is_turn_closed e \<Longrightarrow> w' = w"
  by (auto simp: answered_def closeAndFail_def split: sum.splits log_error.splits)

lemma eventsSince_closed:
  assumes "eventsSince env inp seen through w = (Inl e, w')" "isLive (w_phase w)"
  shows "case e of TurnClosed r \<Rightarrow> w_phase w' = WClosed r | _ \<Rightarrow> isLive (w_phase w')"
proof -
  obtain a v where a: "answered (lo_read (in_log inp) (in_session inp) (sinceQuery (po_seq seen) through) (w_store (tick env w))) (tick env w) = (a, v)"
    by fastforce
  with assms(1) have e: "a = Inl e" "v = w'" by (auto simp: eventsSince_def Let_def split: sum.splits)
  show ?thesis
  proof (cases "is_turn_closed e")
    case True
    then obtain r where "e = TurnClosed r" by (cases e) simp_all
    with answered_closed a e assms(2) show ?thesis by force
  next
    case False
    with answered_open a e have "w' = tick env w" by blast
    with False assms(2) show ?thesis by (cases e) simp_all
  qed
qed

lemma rebase_closed:
  assumes "rebase env inp seen w = (Inl (TurnClosed r), w')" "isLive (w_phase w)"
  shows "w_phase w' = WClosed r"
proof -
  let ?x = "lo_head (in_log inp) (env_storage env (w_ticks w)) (in_session inp) (w_store (tick env w))"
  obtain a v where a: "answered ?x (tick env w) = (a, v)" by fastforce
  show ?thesis
  proof (cases a)
    case (Inl e)
    with assms a answered_closed [of ?x "tick env w" r w'] show ?thesis by (auto simp: rebase_def Let_def)
  next
    case (Inr head)
    with a have v: "v = tick env w" by (simp add: answered_eq_Inr)
    show ?thesis
    proof (cases "head_incarnation (fst head) \<noteq> in_incarnation inp")
      case True
      with assms a Inr v show ?thesis by (auto simp: rebase_def Let_def closeAndFail_def)
    next
      case False
      show ?thesis
      proof (cases "headState inp (fst head)")
        case (Inl e)
        have "\<not> is_turn_closed e" using Inl by (auto simp: headState_def split: sum.splits if_splits)
        with assms a Inr False Inl show ?thesis by (auto simp: rebase_def Let_def)
      next
        case st: (Inr st)
        with assms a Inr v False have from_head: "rebaseFrom env inp seen head st (tick env w) = (Inl (TurnClosed r), w')"
          by (auto simp: rebase_def Let_def)
        obtain b u where b: "eventsSince env inp seen (head_seq (fst head)) (tick env w) = (b, u)" by fastforce
        show ?thesis
        proof (cases b)
          case (Inl e)
          with from_head b eventsSince_closed [of env inp seen "head_seq (fst head)" "tick env w" e u] assms(2) show ?thesis
            by (cases e) (auto simp: rebaseFrom_def Let_def closeAndFail_def split: if_splits)
        next
          case (Inr events)
          with eventsSince_InrD [of env inp seen "head_seq (fst head)" "tick env w" events u] b have "u = tick env (tick env w)" by blast
          with Inr from_head b assms(2) show ?thesis by (auto simp: rebaseFrom_def Let_def closeAndFail_def split: if_splits)
        qed
      qed
    qed
  qed
qed

lemma storeIt_closed:
  assumes "storeIt env inp opts at pl nx st w = (Inl (Fails (TurnClosed r)), w')" "isLive (w_phase w)"
  shows "w_phase w' = WClosed r"
proof -
  obtain a s where a: "lo_commit (in_log inp) (env_storage env (w_ticks w)) (in_session inp) (commitOf inp at (pl_drafts pl) st)
      (w_store (tick env w)) = (a, s)" by fastforce
  show ?thesis
  proof (cases a)
    case (Inl e)
    show ?thesis
    proof (cases e)
      case (RevisionConflict i x y)
      obtain b v where b: "rebase env inp at ((tick env w)\<lparr>w_store := s\<rparr>) = (b, v)" by fastforce
      with assms(1) a Inl RevisionConflict have "b = Inl (TurnClosed r)" "v = w'"
        by (auto simp: storeIt_def Let_def split: sum.splits)
      with rebase_closed [of env inp at "(tick env w)\<lparr>w_store := s\<rparr>" r w'] b assms(2) show ?thesis by simp
    qed (use assms a Inl in \<open>auto simp: storeIt_def Let_def\<close>)
  qed (use assms a in \<open>auto simp: storeIt_def Let_def\<close>)
qed

lemma isLive_not_stopped: "isLive p \<Longrightarrow> stopped p = None"
  by (cases p) (simp_all add: stopped_def)

lemma once_append_closed:
  assumes "once env inp id (appendPlan drafts) opts w = (Inl (Fails (TurnClosed r)), w')" "isLive (w_phase w)"
  shows "w_phase w' = WClosed r"
proof -
  let ?pl = "\<lparr>pl_drafts = drafts, pl_next = None, pl_result = (), pl_skip = False\<rparr>"
  let ?n = "nextState inp opts (cu_position (w_cursor w)) (storageNow env w) ?pl (w_store w)"
  obtain a v where a: "answered ?n w = (a, v)" by fastforce
  have once: "once env inp id (appendPlan drafts) opts w = (case (a, v) of
        (Inl e, w') \<Rightarrow> (Inl (Fails (id e)), w')
      | (Inr (nx, changed), w') \<Rightarrow> (case (if changed then map_r Some (in_encode inp nx) else Inr None) of
           Inl m \<Rightarrow> (Inl (Fails (id (HarnessError ''session.encode'' m))), w')
         | Inr st \<Rightarrow> map_prod (injected id) id (storeIt env inp opts (cu_position (w_cursor w)) ?pl nx st w')))"
    unfolding once_def isLive_not_stopped [OF assms(2)] by (simp add: appendPlan_def Let_def a)
  show ?thesis
  proof (cases a)
    case (Inl e)
    with once assms a answered_closed [of ?n w r w'] show ?thesis by simp
  next
    case (Inr p)
    then obtain nx changed where p: "a = Inr (nx, changed)" by (cases p) simp
    with a have v: "v = w" by (simp add: answered_eq_Inr)
    show ?thesis
    proof (cases "if changed then map_r Some (in_encode inp nx) else Inr None")
      case (Inl m)
      with once assms(1) p show ?thesis by simp
    next
      case (Inr st)
      obtain b u where b: "storeIt env inp opts (cu_position (w_cursor w)) ?pl nx st w = (b, u)" by fastforce
      with once assms(1) p v Inr have "b = Inl (Fails (TurnClosed r))" "u = w'" by simp_all
      with storeIt_closed b assms(2) show ?thesis by blast
    qed
  qed
qed

text \<open>
  A turn closed elsewhere stays closed: when an append of a live writer fails because its turn was
  closed (cancelled or taken over, its lease run out, its session removed), the writer is closed for
  that reason, and whatever it is asked to commit next is refused with it and leaves the store alone.
\<close>
theorem closed_elsewhere_is_final:
  assumes "isLive (w_phase w)"
    "commitPlan env inp id (appendPlan drafts) opts w = (Inl (TurnClosed r), w')"
  shows "w_phase w' = WClosed r \<and> commitPlan env' inp' incl plan opts' w' = (Inl (incl (TurnClosed r)), w')"
proof -
  have step: "\<forall>v v'. isLive (w_phase v) \<and> once env inp id (appendPlan drafts) opts v = (Inl Conflict, v') \<longrightarrow> isLive (w_phase v')"
    using conflict_keeps(1) by metis
  from attempts_rule [where P = "\<lambda>v. isLive (w_phase v)", OF assms(1) step assms(2) [unfolded commitPlan_def]]
  obtain v where "isLive (w_phase v)" "once env inp id (appendPlan drafts) opts v = (Inl (Fails (TurnClosed r)), w')" by auto
  with once_append_closed have closed: "w_phase w' = WClosed r" by blast
  then have "once env' inp' incl plan opts' w' = (Inl (Fails (incl (TurnClosed r))), w')" by (simp add: once_def stopped_def)
  then have "commitPlan env' inp' incl plan opts' w' = (Inl (incl (TurnClosed r)), w')" unfolding commitPlan_def
    by (cases "cfg_retries (in_config inp') - 1") simp_all
  with closed show ?thesis by simp
qed

theorem closed_elsewhere_is_final_witness:
  "\<exists>w'. commitPlan (othersEnv sampleInput (\<lambda>k. [OpRemove ''s'']) int int) sampleInput id (appendPlan [])
       \<lparr>opt_renew = True, opt_tried = False\<rparr> sampleStart = (Inl (TurnClosed ByRemoved), w') \<and> w_phase w' = WClosed ByRemoved"
proof -
  let ?run = "commitPlan (othersEnv sampleInput (\<lambda>k. [OpRemove ''s'']) int int) sampleInput id (appendPlan [])
       \<lparr>opt_renew = True, opt_tried = False\<rparr> sampleStart"
  have "case fst ?run of Inl e \<Rightarrow> e = TurnClosed ByRemoved | Inr d \<Rightarrow> False" by code_simp
  then obtain w' where run: "?run = (Inl (TurnClosed ByRemoved), w')" by (cases ?run) (auto split: sum.splits)
  have "isLive (w_phase sampleStart)" by (simp add: sampleStart_def opened_def)
  from closed_elsewhere_is_final [OF this run] run show ?thesis by blast
qed

lemma closeBy_ticks [simp]: "w_ticks (closeBy r w) = w_ticks w"
  by (auto simp: closeBy_def split: sum.split)

lemma tick_ticks [simp]: "w_ticks (tick env w) = Suc (w_ticks w)"
  by (simp add: tick_def)

lemma answered_ticks: "answered y w = (z, w') \<Longrightarrow> w_ticks w' = w_ticks w"
  by (auto simp: answered_def closeAndFail_def split: sum.splits log_error.splits)

lemma eventsSince_ticks: "eventsSince env inp seen q w = (z, w') \<Longrightarrow> w_ticks w' = Suc (w_ticks w)"
proof -
  assume e: "eventsSince env inp seen q w = (z, w')"
  obtain a v where a: "answered (lo_read (in_log inp) (in_session inp) (sinceQuery (po_seq seen) q) (w_store (tick env w))) (tick env w) = (a, v)"
    by fastforce
  with e have "w' = v" by (auto simp: eventsSince_def Let_def split: sum.splits)
  with answered_ticks [OF a] show ?thesis by simp
qed

lemma rebaseFrom_ticks: "rebaseFrom env inp seen head st w = (z, w') \<Longrightarrow> w_ticks w' = Suc (w_ticks w)"
proof -
  assume r: "rebaseFrom env inp seen head st w = (z, w')"
  obtain b v where b: "eventsSince env inp seen (head_seq (fst head)) w = (b, v)" by fastforce
  from eventsSince_ticks [OF b] r b show ?thesis
    by (cases b) (auto simp: rebaseFrom_def Let_def closeAndFail_def split: turn_error.splits if_splits)
qed

lemma rebase_ticks: "rebase env inp seen w = (z, w') \<Longrightarrow> w_ticks w' \<le> w_ticks w + 2"
proof -
  assume r: "rebase env inp seen w = (z, w')"
  obtain a v where a: "answered (lo_head (in_log inp) (env_storage env (w_ticks w)) (in_session inp) (w_store (tick env w))) (tick env w) = (a, v)"
    by fastforce
  from answered_ticks [OF a] have "w_ticks v = Suc (w_ticks w)" by simp
  with r a show ?thesis
    by (auto simp: rebase_def Let_def closeAndFail_def dest: rebaseFrom_ticks split: sum.splits if_splits)
qed

lemma storeIt_ticks: "storeIt env inp opts at pl nx st w = (x, w') \<Longrightarrow> w_ticks w' \<le> w_ticks w + 3"
proof -
  assume s: "storeIt env inp opts at pl nx st w = (x, w')"
  obtain a y where a: "lo_commit (in_log inp) (env_storage env (w_ticks w)) (in_session inp) (commitOf inp at (pl_drafts pl) st)
      (w_store (tick env w)) = (a, y)" by fastforce
  show ?thesis
  proof (cases a)
    case (Inl e)
    show ?thesis
    proof (cases e)
      case (RevisionConflict i m n)
      obtain b v where b: "rebase env inp at ((tick env w)\<lparr>w_store := y\<rparr>) = (b, v)" by fastforce
      with s a Inl RevisionConflict have "v = w'" by (auto simp: storeIt_def Let_def split: sum.splits)
      with rebase_ticks [OF b] show ?thesis by simp
    qed (use s a Inl in \<open>auto simp: storeIt_def Let_def\<close>)
  next
    case (Inr c)
    with s a show ?thesis by (auto simp: storeIt_def Let_def committedTo_def)
  qed
qed

lemma once_ticks: "w_ticks (snd (once env inp incl plan opts w)) \<le> w_ticks w + 3"
proof (cases rule: once_cases [of env inp incl plan opts w])
  case (4 pl nx st)
  obtain r v where r: "storeIt env inp opts (cu_position (w_cursor w)) pl nx st w = (r, v)" by fastforce
  from storeIt_ticks [OF r] 4 r show ?thesis by simp
qed (auto simp: closeBy_def split: sum.split)

lemma attempts_ticks: "w_ticks (snd (attempts n env inp incl plan opts w)) \<le> w_ticks w + 3 * Suc n"
proof (induction n arbitrary: w)
  case 0
  show ?case using once_ticks [of env inp incl plan opts w]
    by (auto split: prod.split sum.split once_error.split)
next
  case (Suc n)
  obtain a v where a: "once env inp incl plan opts w = (a, v)" by fastforce
  with once_ticks [of env inp incl plan opts w] Suc.IH [of v] show ?case
    by (auto split: sum.split once_error.split)
qed


text \<open>The items as the consumer stores them: each draft on its own, the other items between.\<close>

fun draftsOf :: "'x item \<Rightarrow> (draft + 'x item) list" where
  "draftsOf (IAppend drafts caller) = map Inl drafts"
| "draftsOf it = [Inr it]"

fun isAppend :: "'x item \<Rightarrow> bool" where
  "isAppend (IAppend drafts caller) = True"
| "isAppend it = False"

definition apart :: "'x item \<Rightarrow> 'x item \<Rightarrow> bool" where
  "apart a b \<longleftrightarrow> \<not> (isAppend a \<and> isAppend b)"

lemma groupStep_drafts: "concat (map draftsOf (groupStep groups it)) = concat (map draftsOf groups) @ draftsOf it"
proof (cases groups rule: rev_cases)
  case Nil
  then show ?thesis by (cases it) (simp_all add: groupStep_def)
next
  case (snoc gs g)
  then show ?thesis by (cases g; cases it) (simp_all add: groupStep_def)
qed

lemma groupStep_apart: "successively apart groups \<Longrightarrow> successively apart (groupStep groups it)"
proof (cases groups rule: rev_cases)
  case Nil
  then show ?thesis by (cases it) (simp_all add: groupStep_def)
next
  case (snoc gs g)
  assume "successively apart groups"
  with snoc show ?thesis by (cases g; cases it) (auto simp: groupStep_def successively_append_iff apart_def)
qed

text \<open>
  Batching changes nothing of the order: the groups of a queue's items hold the same drafts and
  the same other items in the same order, and no two groups of appends stand next to each other.
\<close>
theorem groups_keep_the_queue_order:
  "concat (map draftsOf (groupsOf items)) = concat (map draftsOf items)
   \<and> successively apart (groupsOf items)"
proof -
  have "concat (map draftsOf (foldl groupStep groups items)) = concat (map draftsOf groups) @ concat (map draftsOf items)" for groups
    by (induction items arbitrary: groups) (simp_all add: groupStep_drafts)
  moreover have "successively apart groups \<Longrightarrow>
      successively apart (foldl groupStep groups items)" for groups
    by (induction items arbitrary: groups) (simp_all add: groupStep_apart)
  ultimately show ?thesis by (simp add: groupsOf_def)
qed

end
