(* ===== verification/SessionGuard.thy ===== *)
theory SessionGuard
  imports WriterSafety SessionPlans
begin

text \<open>
  The compare-and-swap loop every operation of the sessions service commits through (\<open>guarded\<close> of
  \<open>plugin-sessions/src/sessions.adapter.ts\<close>): read the head, refuse a newer release's session, plan,
  commit against the revision planned from, plan again after a conflict.

  Other instances run before each call of the log. The refinement: a guarded operation that stored
  something is its plan applied to the session as it stood, in one step.
\<close>

section \<open>The loop\<close>

record 's guard_input =
  gi_log :: "'s log_ops"
  gi_session :: string
  gi_owner :: string
  gi_retries :: nat
  gi_decode :: "json \<Rightarrow> string + sessions_state"
  gi_decodeFormat :: "json \<Rightarrow> string + int option"
  gi_encode :: "sessions_state \<Rightarrow> json"

record 's guard_world =
  gw_store :: 's
  gw_ticks :: nat

record 'a guarded_result =
  gd_result :: 'a
  gd_head :: session_head
  gd_committed :: "session_committed option"

datatype guard_fail = GConflict | GFails session_error

type_synonym 'a session_planner = "session_head \<Rightarrow> sessions_state \<Rightarrow> log_event list \<Rightarrow> session_error + 'a guarded_plan"

definition gtick :: "'s environment \<Rightarrow> 's guard_world \<Rightarrow> 's guard_world" where
  "gtick env w = \<lparr>gw_store = env_others env (gw_ticks w) (gw_store w), gw_ticks = Suc (gw_ticks w)\<rparr>"

definition logError :: "log_error \<Rightarrow> session_error" where
  "logError e = (case e of SessionMissing i \<Rightarrow> SEMissing i | LogFailed c m \<Rightarrow> SELog c m | _ \<Rightarrow> SELog ''session.defect'' '''')"

definition owned :: "'s environment \<Rightarrow> 's guard_input \<Rightarrow> 's guard_world \<Rightarrow> (session_error + session_head) \<times> 's guard_world" where
  "owned env gi w =
     (let w' = gtick env w in
      case lo_head (gi_log gi) (env_storage env (gw_ticks w)) (gi_session gi) (gw_store w') of
        Inl e \<Rightarrow> (Inl (logError e), w')
      | Inr head \<Rightarrow> (if hdr_owner (head_header (fst head)) = gi_owner gi then Inr head else Inl (SEMissing (gi_session gi)), w'))"

definition refuseNewer :: "'s guard_input \<Rightarrow> stored_head \<Rightarrow> session_error + unit" where
  "refuseNewer gi h = and_then (storage ''session.state'' (storedFormatOf (gi_decodeFormat gi) h)) (\<lambda>format.
     if isNewerFormat format
     then Inl (SELog ''session.version'' (''the session holds stored format '' @ dec format
       @ '', written by a newer release; this release reads up to '' @ dec STORED_FORMAT))
     else Inr ())"

definition stateFrom :: "'s guard_input \<Rightarrow> stored_head \<Rightarrow> session_error + sessions_state" where
  "stateFrom gi h = storage ''session.state'' (stateOf (gi_decode gi) h)"

definition allEvents :: read_query where
  "allEvents = \<lparr>rq_after = 0, rq_through = None, rq_limit = None, rq_kinds = [], rq_from = FromStart\<rparr>"

definition guardCommit :: "'s environment \<Rightarrow> 's guard_input \<Rightarrow> session_head \<Rightarrow> sessions_state \<Rightarrow> 'a guarded_plan \<Rightarrow> 's guard_world
    \<Rightarrow> (guard_fail + 'a guarded_result) \<times> 's guard_world" where
  "guardCommit env gi head held p w =
     (let next = or_else (gp_next p) (if withFormat held = held then None else Some (withFormat held)); w' = gtick env w in
      case lo_commit (gi_log gi) (env_storage env (gw_ticks w)) (gi_session gi)
          \<lparr>cm_expect = head_revision (fst head), cm_notAfter = None, cm_events = gp_drafts p, cm_state = map_option (gi_encode gi) next,
           cm_incarnation = Some (head_incarnation (fst head))\<rparr> (gw_store w') of
        (Inr c, s) \<Rightarrow> (Inr \<lparr>gd_result = gp_result p, gd_head = head, gd_committed = Some c\<rparr>, w'\<lparr>gw_store := s\<rparr>)
      | (Inl (RevisionConflict i x y), s) \<Rightarrow> (Inl GConflict, w'\<lparr>gw_store := s\<rparr>)
      | (Inl e, s) \<Rightarrow> (Inl (GFails (logError e)), w'\<lparr>gw_store := s\<rparr>))"

definition guardRead :: "'s environment \<Rightarrow> 's guard_input \<Rightarrow> session_head \<Rightarrow> 'a guarded_plan \<Rightarrow> 's guard_world
    \<Rightarrow> (guard_fail + 'a guarded_result) \<times> 's guard_world" where
  "guardRead env gi head p w =
     (if gp_validate p
      then case owned env gi w of
        (Inl e, w') \<Rightarrow> (Inl (GFails e), w')
      | (Inr actual, w') \<Rightarrow>
          (if head_revision (fst actual) \<noteq> head_revision (fst head) then Inl GConflict
           else Inr \<lparr>gd_result = gp_result p, gd_head = head, gd_committed = None\<rparr>, w')
      else (Inr \<lparr>gd_result = gp_result p, gd_head = head, gd_committed = None\<rparr>, w))"

definition guardPlanned :: "'s environment \<Rightarrow> 's guard_input \<Rightarrow> 'a session_planner \<Rightarrow> session_head \<Rightarrow> sessions_state \<Rightarrow> 's guard_world
    \<Rightarrow> (guard_fail + 'a guarded_result) \<times> 's guard_world" where
  "guardPlanned env gi plan head held w =
     (let w' = gtick env w in
      case lo_read (gi_log gi) (gi_session gi) allEvents (gw_store w') of
        Inl e \<Rightarrow> (Inl (GFails (logError e)), w')
      | Inr es \<Rightarrow> (case plan head (withFormat held) es of
          Inl e \<Rightarrow> (Inl (GFails e), w')
        | Inr p \<Rightarrow> if gp_drafts p = [] \<and> gp_next p = None then guardRead env gi head p w' else guardCommit env gi head held p w'))"

definition guardOnce :: "'s environment \<Rightarrow> 's guard_input \<Rightarrow> 'a session_planner \<Rightarrow> 's guard_world \<Rightarrow> (guard_fail + 'a guarded_result) \<times> 's guard_world" where
  "guardOnce env gi plan w = (case owned env gi w of
      (Inl e, w') \<Rightarrow> (Inl (GFails e), w')
    | (Inr head, w') \<Rightarrow> (case and_then (refuseNewer gi (fst head)) (\<lambda>_. stateFrom gi (fst head)) of
        Inl e \<Rightarrow> (Inl (GFails e), w')
      | Inr held \<Rightarrow> guardPlanned env gi plan head held w'))"

fun guardAttempts :: "nat \<Rightarrow> 's environment \<Rightarrow> 's guard_input \<Rightarrow> 'a session_planner \<Rightarrow> 's guard_world
    \<Rightarrow> (session_error + 'a guarded_result) \<times> 's guard_world" where
  "guardAttempts n env gi plan w = (case guardOnce env gi plan w of
      (Inr g, w') \<Rightarrow> (Inr g, w')
    | (Inl (GFails e), w') \<Rightarrow> (Inl e, w')
    | (Inl GConflict, w') \<Rightarrow> (case n of
        0 \<Rightarrow> (Inl (SEContended (int (gi_retries gi))), w')
      | Suc m \<Rightarrow> guardAttempts m env gi plan w'))"

definition guarded :: "'s environment \<Rightarrow> 's guard_input \<Rightarrow> 'a session_planner \<Rightarrow> 's guard_world \<Rightarrow> (session_error + 'a guarded_result) \<times> 's guard_world" where
  "guarded env gi plan w = guardAttempts (gi_retries gi - 1) env gi plan w"

section \<open>Atomic operations\<close>

text \<open>The specification: the session read, the plan made and its commit stored in one step of the store.\<close>

definition atomically :: "store guard_input \<Rightarrow> 'a session_planner \<Rightarrow> int \<Rightarrow> int \<Rightarrow> store \<Rightarrow> (session_error + 'a guarded_result) \<times> store" where
  "atomically gi plan readAt at s = (case map_of s (gi_session gi) of
      None \<Rightarrow> (Inl (SEMissing (gi_session gi)), s)
    | Some x \<Rightarrow>
        (let head = (st_head x, readAt) in
         if hdr_owner (head_header (st_head x)) \<noteq> gi_owner gi then (Inl (SEMissing (gi_session gi)), s)
         else case and_then (refuseNewer gi (st_head x)) (\<lambda>_. stateFrom gi (st_head x)) of
           Inl e \<Rightarrow> (Inl e, s)
         | Inr held \<Rightarrow> (case plan head (withFormat held) (st_events x) of
             Inl e \<Rightarrow> (Inl e, s)
           | Inr p \<Rightarrow>
               if gp_drafts p = [] \<and> gp_next p = None then (Inr \<lparr>gd_result = gp_result p, gd_head = head, gd_committed = None\<rparr>, s)
               else (case commitEvents at (gi_session gi)
                   \<lparr>cm_expect = head_revision (st_head x), cm_notAfter = None, cm_events = gp_drafts p,
                    cm_state = map_option (gi_encode gi) (or_else (gp_next p) (if withFormat held = held then None else Some (withFormat held))),
                    cm_incarnation = Some (head_incarnation (st_head x))\<rparr> s of
                   (Inr c, s') \<Rightarrow> (Inr \<lparr>gd_result = gp_result p, gd_head = head, gd_committed = Some c\<rparr>, s')
                 | (Inl e, s') \<Rightarrow> (Inl (logError e), s')))))"

text \<open>How one session may change while an incarnation of it lasts: nothing under the same revision.\<close>

definition evolves :: "string \<Rightarrow> string \<Rightarrow> store \<Rightarrow> store \<Rightarrow> bool" where
  "evolves i n s s' \<longleftrightarrow> (\<forall>y. map_of s' i = Some y \<and> head_incarnation (st_head y) = n \<longrightarrow>
     (\<exists>x. map_of s i = Some x \<and> head_incarnation (st_head x) = n \<and> head_revision (st_head x) \<le> head_revision (st_head y)
        \<and> (head_revision (st_head x) = head_revision (st_head y) \<longrightarrow> x = y)))"

lemma evolves_refl: "evolves i n s s"
  by (auto simp: evolves_def)

lemma evolves_trans: "evolves i n s t \<Longrightarrow> evolves i n t u \<Longrightarrow> evolves i n s u"
  unfolding evolves_def
proof (intro allI impI)
  assume st: "\<forall>y. map_of t i = Some y \<and> head_incarnation (st_head y) = n \<longrightarrow>
     (\<exists>x. map_of s i = Some x \<and> head_incarnation (st_head x) = n \<and> head_revision (st_head x) \<le> head_revision (st_head y)
        \<and> (head_revision (st_head x) = head_revision (st_head y) \<longrightarrow> x = y))"
    and tu: "\<forall>y. map_of u i = Some y \<and> head_incarnation (st_head y) = n \<longrightarrow>
     (\<exists>x. map_of t i = Some x \<and> head_incarnation (st_head x) = n \<and> head_revision (st_head x) \<le> head_revision (st_head y)
        \<and> (head_revision (st_head x) = head_revision (st_head y) \<longrightarrow> x = y))"
  fix z assume "map_of u i = Some z \<and> head_incarnation (st_head z) = n"
  with tu obtain y where y: "map_of t i = Some y \<and> head_incarnation (st_head y) = n" "head_revision (st_head y) \<le> head_revision (st_head z)"
    "head_revision (st_head y) = head_revision (st_head z) \<longrightarrow> y = z" by blast
  with st obtain x where "map_of s i = Some x" "head_incarnation (st_head x) = n" "head_revision (st_head x) \<le> head_revision (st_head y)"
    "head_revision (st_head x) = head_revision (st_head y) \<longrightarrow> x = y" by blast
  with y show "\<exists>x. map_of s i = Some x \<and> head_incarnation (st_head x) = n \<and> head_revision (st_head x) \<le> head_revision (st_head z)
        \<and> (head_revision (st_head x) = head_revision (st_head z) \<longrightarrow> x = z)" by auto
qed

lemma evolves_step: "\<not> mints n op \<Longrightarrow> evolves i n s (logStep s op)"
proof (cases op)
  case (OpCommit at j c)
  then show ?thesis
    by (cases rule: commitEvents_cases [of at j c s]) (auto simp: evolves_def map_of_put)
qed (auto simp: evolves_def create_def Let_def map_of_put map_of_removed split: option.splits)

lemma evolves_run: "list_all (\<lambda>op. \<not> mints n op) ops \<Longrightarrow> evolves i n s (foldl logStep s ops)"
proof (induction ops arbitrary: s)
  case (Cons op ops)
  then show ?case using evolves_trans [OF evolves_step [of n op i s]] by simp
qed (simp add: evolves_refl)

section \<open>The operation is its plan, in one step\<close>

definition guardEnv :: "string \<Rightarrow> (nat \<Rightarrow> log_op list) \<Rightarrow> (nat \<Rightarrow> int) \<Rightarrow> store environment" where
  "guardEnv n ops clock = \<lparr>env_others = othersRun n ops, env_storage = clock, env_local = clock\<rparr>"

text \<open>The store after the other instances' operations of the ticks from \<open>k\<close> up to \<open>m\<close>.\<close>

definition othersDuring :: "'s environment \<Rightarrow> nat \<Rightarrow> nat \<Rightarrow> 's \<Rightarrow> 's" where
  "othersDuring env k m s = foldl (\<lambda>s j. env_others env j s) s [k..<m]"

lemma othersDuring_refl [simp]: "othersDuring env k k s = s"
  by (simp add: othersDuring_def)

lemma othersDuring_trans: "k \<le> m \<Longrightarrow> m \<le> l \<Longrightarrow> othersDuring env m l (othersDuring env k m s) = othersDuring env k l s"
  unfolding othersDuring_def by (metis foldl_append le_Suc_ex upt_add_eq_append)

lemma othersDuring_Suc: "k \<le> m \<Longrightarrow> othersDuring env k (Suc m) s = env_others env m (othersDuring env k m s)"
  by (simp add: othersDuring_def)

lemma gtick_during: "gw_store (gtick env w) = othersDuring env (gw_ticks w) (Suc (gw_ticks w)) (gw_store w)"
  "gw_ticks (gtick env w) = Suc (gw_ticks w)"
  by (simp_all add: gtick_def othersDuring_def)

lemma evolves_others: "evolves i n s (env_others (guardEnv n ops clock) k s)"
  unfolding guardEnv_def othersRun_def by (simp add: evolves_run list_all_iff)

lemma evolves_during: "evolves i n s (othersDuring (guardEnv n ops clock) k m s)"
proof (cases "k \<le> m")
  case True
  then show ?thesis
  proof (induction m rule: dec_induct)
    case (step j)
    then show ?case using evolves_trans [OF step.IH evolves_others] by (simp add: othersDuring_Suc)
  qed (simp add: evolves_refl)
qed (simp add: othersDuring_def evolves_refl)

lemma during_ok: "store_ok s \<Longrightarrow> store_ok (othersDuring (guardEnv n ops clock) k m s)"
proof (cases "k \<le> m")
  case True
  assume "store_ok s"
  from True show ?thesis
  proof (induction m rule: dec_induct)
    case (step j)
    then show ?case by (simp add: othersDuring_Suc) (simp add: guardEnv_def othersRun_def store_machine.inv_run)
  qed (simp add: \<open>store_ok s\<close>)
qed (simp add: othersDuring_def)

lemma read_all:
  assumes "store_ok s" "map_of s i = Some x"
  shows "readEvents i allEvents s = Inr (st_events x)"
proof -
  have "session_ok i x" using assms by (auto simp: store_ok_def dest!: map_of_SomeD)
  then have "\<forall>e \<in> set (st_events x). ev_seq e > 0" using events_positive by blast
  then show ?thesis using assms(2) by (simp add: readEvents_def allEvents_def filter_id_conv)
qed

text \<open>The commit's session is the one the plan was made from.\<close>

lemma same_session:
  assumes "evolves i n s t" "evolves i n t u" "map_of s i = Some x" "head_incarnation (st_head x) = n"
    "map_of u i = Some z" "head_incarnation (st_head z) = n" "head_revision (st_head z) = head_revision (st_head x)"
  shows "z = x \<and> map_of t i = Some x"
proof -
  from assms obtain y where y: "map_of t i = Some y" "head_incarnation (st_head y) = n" "head_revision (st_head y) \<le> head_revision (st_head z)"
    "head_revision (st_head y) = head_revision (st_head z) \<longrightarrow> y = z" unfolding evolves_def by blast
  from assms(1) y(1,2) obtain x' where "map_of s i = Some x'" "head_revision (st_head x') \<le> head_revision (st_head y)"
    "head_revision (st_head x') = head_revision (st_head y) \<longrightarrow> x' = y" unfolding evolves_def by blast
  with assms(3,7) y show ?thesis by auto
qed

lemma owned_tick: "owned env gi w = (r, w') \<Longrightarrow> w' = gtick env w"
  by (auto simp: owned_def Let_def split: sum.splits)

lemma owned_head:
  assumes "owned env gi w = (Inr h, w')" "gi_log gi = memoryLog"
  shows "\<exists>x. map_of (gw_store (gtick env w)) (gi_session gi) = Some x \<and> fst h = st_head x \<and> hdr_owner (head_header (fst h)) = gi_owner gi"
  using assms by (auto simp: owned_def Let_def memoryLog_def readHead_def split: sum.splits if_splits option.splits)

text \<open>One attempt: what stores nothing leaves the store to the others.\<close>

lemma commit_refused: "commitEvents at i c s = (Inl e, s') \<Longrightarrow> s' = s"
  by (cases rule: commitEvents_cases [of at i c s]) simp_all

lemma commit_accepted:
  assumes "commitEvents at i c s = (Inr r, s')"
  obtains z where "map_of s i = Some z" "acceptable at c (st_head z)"
  using assms by (cases rule: commitEvents_cases [of at i c s]) auto

lemma guardRead_quiet:
  assumes "guardRead env gi head p w = (r, w')"
  shows "gw_store w' = othersDuring env (gw_ticks w) (gw_ticks w') (gw_store w) \<and> gw_ticks w \<le> gw_ticks w' \<and> gw_ticks w' \<le> Suc (gw_ticks w)
    \<and> (\<forall>g. r = Inr g \<longrightarrow> gd_committed g = None)"
  using assms by (auto simp: guardRead_def gtick_during dest!: owned_tick split: if_splits prod.splits sum.splits)

lemma guardCommit_quiet:
  assumes "guardCommit env gi head held p w = (r, w')" "gi_log gi = memoryLog" "\<forall>g. r = Inr g \<longrightarrow> gd_committed g = None"
  shows "gw_store w' = othersDuring env (gw_ticks w) (gw_ticks w') (gw_store w) \<and> gw_ticks w' = Suc (gw_ticks w)"
  using assms
  by (auto simp: guardCommit_def Let_def memoryLog_def gtick_during split: prod.splits sum.splits log_error.splits dest!: commit_refused)

lemma guardCommit_committed:
  assumes "guardCommit env gi head held p w = (Inr g, w')" "gi_log gi = memoryLog"
  obtains c where "g = \<lparr>gd_result = gp_result p, gd_head = head, gd_committed = Some c\<rparr>" "gw_ticks w' = Suc (gw_ticks w)"
    "commitEvents (env_storage env (gw_ticks w)) (gi_session gi)
          \<lparr>cm_expect = head_revision (fst head), cm_notAfter = None, cm_events = gp_drafts p,
           cm_state = map_option (gi_encode gi) (or_else (gp_next p) (if withFormat held = held then None else Some (withFormat held))),
           cm_incarnation = Some (head_incarnation (fst head))\<rparr> (gw_store (gtick env w)) = (Inr c, gw_store w')"
  using assms
  by (auto simp: guardCommit_def Let_def memoryLog_def gtick_during split: prod.splits sum.splits log_error.splits)

lemma guardOnce_quiet:
  assumes "guardOnce env gi plan w = (r, w')" "gi_log gi = memoryLog" "\<forall>g. r = Inr g \<longrightarrow> gd_committed g = None"
  shows "gw_store w' = othersDuring env (gw_ticks w) (gw_ticks w') (gw_store w) \<and> gw_ticks w \<le> gw_ticks w' \<and> gw_ticks w' \<le> gw_ticks w + 3"
proof -
  obtain a v where v: "owned env gi w = (a, v)" by (cases "owned env gi w")
  note vt = owned_tick [OF v]
  have quiet: "gw_store u' = othersDuring env (gw_ticks w) (gw_ticks u') (gw_store w)"
    if "gw_store u' = othersDuring env (gw_ticks u) (gw_ticks u') (gw_store u)" "gw_store u = othersDuring env (gw_ticks w) (gw_ticks u) (gw_store w)"
      "gw_ticks w \<le> gw_ticks u" "gw_ticks u \<le> gw_ticks u'" for u u'
    using that othersDuring_trans [of "gw_ticks w" "gw_ticks u" "gw_ticks u'" env "gw_store w"] by simp
  define u where "u = gtick env v"
  have u: "gw_ticks u = Suc (Suc (gw_ticks w))" "gw_store u = othersDuring env (gw_ticks w) (gw_ticks u) (gw_store w)"
    unfolding u_def vt by (simp_all add: gtick_during othersDuring_trans)
  have done_v: ?thesis if "w' = v" using that vt by (simp add: gtick_during)
  have done_u: ?thesis if "w' = u" using that u by simp
  have read: ?thesis if "guardRead env gi h p u = (r, w')" for h p
    using guardRead_quiet [OF that] quiet [of w' u] u by simp
  have commit: ?thesis if "guardCommit env gi h s p u = (r, w')" for h s p
    using guardCommit_quiet [OF that assms(2,3)] quiet [of w' u] u by simp
  show ?thesis
  proof (cases a)
    case (Inl e)
    with assms(1) v show ?thesis by (intro done_v) (simp add: guardOnce_def)
  next
    case (Inr h)
    show ?thesis
    proof (cases "and_then (refuseNewer gi (fst h)) (\<lambda>_. stateFrom gi (fst h))")
      case (Inl e)
      with assms(1) v \<open>a = Inr h\<close> show ?thesis by (intro done_v) (simp add: guardOnce_def)
    next
      case (Inr s)
      with assms(1) v \<open>a = Inr h\<close> have "guardPlanned env gi plan h s v = (r, w')" by (simp add: guardOnce_def)
      then consider "w' = u" | p where "guardRead env gi h p u = (r, w')" | p where "guardCommit env gi h s p u = (r, w')"
        unfolding guardPlanned_def Let_def u_def [symmetric] by (auto split: sum.splits if_splits)
      then show ?thesis by (cases) (erule done_u read commit)+
    qed
  qed
qed

lemma atomically_commit:
  assumes "map_of t (gi_session gi) = Some x" "hdr_owner (head_header (st_head x)) = gi_owner gi"
    "and_then (refuseNewer gi (st_head x)) (\<lambda>_. stateFrom gi (st_head x)) = Inr s"
    "plan (st_head x, readAt) (withFormat s) (st_events x) = Inr p" "\<not> (gp_drafts p = [] \<and> gp_next p = None)"
    "commitEvents at (gi_session gi)
          \<lparr>cm_expect = head_revision (st_head x), cm_notAfter = None, cm_events = gp_drafts p,
           cm_state = map_option (gi_encode gi) (or_else (gp_next p) (if withFormat s = s then None else Some (withFormat s))),
           cm_incarnation = Some (head_incarnation (st_head x))\<rparr> t = (Inr c, t')"
  shows "atomically gi plan readAt at t = (Inr \<lparr>gd_result = gp_result p, gd_head = (st_head x, readAt), gd_committed = Some c\<rparr>, t')"
  using assms(2,5) unfolding atomically_def Let_def assms(1) by (simp only: option.case assms(3,4,6) sum.case prod.case if_False not_True_eq_False simp_thms)

lemma guardOnce_committed:
  assumes ok: "store_ok (gw_store w)"
    and env: "env = guardEnv n ops clock" and log: "gi_log gi = memoryLog"
    and run: "guardOnce env gi plan w = (Inr g, w')" "gd_committed g = Some c" "head_incarnation (fst (gd_head g)) = n"
  shows "gw_ticks w' = gw_ticks w + 3 \<and> atomically gi plan (snd (gd_head g)) (clock (gw_ticks w + 2))
      (othersDuring env (gw_ticks w) (gw_ticks w') (gw_store w)) = (Inr g, gw_store w')"
proof -
  obtain a v where v: "owned env gi w = (a, v)" by (cases "owned env gi w")
  note vt = owned_tick [OF v]
  define u where "u = gtick env v"
  have u: "gw_ticks u = Suc (Suc (gw_ticks w))" "gw_store u = othersDuring env (gw_ticks w) (gw_ticks u) (gw_store w)"
    unfolding u_def vt by (simp_all add: gtick_during othersDuring_trans)
  from run(1) v obtain h where h: "a = Inr h" by (cases a) (auto simp: guardOnce_def)
  from run(1) v h obtain s where s: "and_then (refuseNewer gi (fst h)) (\<lambda>_. stateFrom gi (fst h)) = Inr s"
      "guardPlanned env gi plan h s v = (Inr g, w')"
    by (auto simp: guardOnce_def split: sum.splits)
  have reads: "lo_read (gi_log gi) i q t = readEvents i q t" for i q t by (simp add: log memoryLog_def)
  from s(2) obtain es p where p: "readEvents (gi_session gi) allEvents (gw_store u) = Inr es" "plan h (withFormat s) es = Inr p"
      "if gp_drafts p = [] \<and> gp_next p = None then guardRead env gi h p u = (Inr g, w') else guardCommit env gi h s p u = (Inr g, w')"
    unfolding guardPlanned_def Let_def reads u_def [symmetric] by (auto split: sum.splits if_splits)
  have writes: "\<not> (gp_drafts p = [] \<and> gp_next p = None)"
  proof
    assume quiet: "gp_drafts p = [] \<and> gp_next p = None"
    then have "guardRead env gi h p u = (Inr g, w')" using p(3) by simp
    from guardRead_quiet [OF this] run(2) show False by simp
  qed
  with p(3) have "guardCommit env gi h s p u = (Inr g, w')" by simp
  then obtain c' where c': "g = \<lparr>gd_result = gp_result p, gd_head = h, gd_committed = Some c'\<rparr>" "gw_ticks w' = Suc (gw_ticks u)"
    "commitEvents (env_storage env (gw_ticks u)) (gi_session gi)
          \<lparr>cm_expect = head_revision (fst h), cm_notAfter = None, cm_events = gp_drafts p,
           cm_state = map_option (gi_encode gi) (or_else (gp_next p) (if withFormat s = s then None else Some (withFormat s))),
           cm_incarnation = Some (head_incarnation (fst h))\<rparr> (gw_store (gtick env u)) = (Inr c', gw_store w')"
    by (rule guardCommit_committed [OF _ log])
  define t where "t = gw_store (gtick env u)"
  have t: "t = othersDuring env (gw_ticks w) (gw_ticks w') (gw_store w)"
    unfolding t_def gtick_during c'(2) by (simp add: u othersDuring_trans)
  from owned_head [OF v [unfolded h] log] obtain x where x: "map_of (gw_store v) (gi_session gi) = Some x" "fst h = st_head x"
      "hdr_owner (head_header (fst h)) = gi_owner gi" unfolding vt by blast
  from c'(3) obtain z where z: "map_of t (gi_session gi) = Some z" "head_incarnation (st_head z) = head_incarnation (fst h)"
      "head_revision (st_head z) = head_revision (fst h)"
    unfolding t_def [symmetric] by (rule commit_accepted) (simp add: acceptable_def)
  have ev: "evolves (gi_session gi) n (gw_store v) (gw_store u)" "evolves (gi_session gi) n (gw_store u) t"
    unfolding t_def u_def gtick_def env by (simp_all add: evolves_others)
  have n: "head_incarnation (st_head x) = n" using run(3) c'(1) x(2) by simp
  have same: "z = x \<and> map_of (gw_store u) (gi_session gi) = Some x"
    using same_session [OF ev x(1) n z(1)] z n x(2) by simp
  have "store_ok (gw_store u)" unfolding u env by (rule during_ok [OF ok])
  then have es: "es = st_events x" using read_all [of "gw_store u" "gi_session gi" x] same p(1) by simp
  have at: "env_storage env (gw_ticks u) = clock (gw_ticks w + 2)" by (simp add: env guardEnv_def u)
  have hx: "(st_head x, snd h) = h" by (metis prod.collapse x(2))
  from same z(1) have tx: "map_of t (gi_session gi) = Some x" by simp
  have "atomically gi plan (snd h) (clock (gw_ticks w + 2)) t
      = (Inr \<lparr>gd_result = gp_result p, gd_head = (st_head x, snd h), gd_committed = Some c'\<rparr>, gw_store w')"
  proof (rule atomically_commit [OF tx x(3) [unfolded x(2)] s(1) [unfolded x(2)] _ writes c'(3) [folded t_def, unfolded at x(2)]])
    show "plan (st_head x, snd h) (withFormat s) (st_events x) = Inr p" using p(2) unfolding es hx .
  qed
  with t c' u show ?thesis by (simp add: hx)
qed

definition storesAtomically :: "store guard_input \<Rightarrow> 'a session_planner \<Rightarrow> int \<Rightarrow> store \<Rightarrow> session_error + 'a guarded_result \<Rightarrow> store \<Rightarrow> bool" where
  "storesAtomically gi plan at before r after \<longleftrightarrow> (case r of
      Inl e \<Rightarrow> after = before
    | Inr g \<Rightarrow> (case gd_committed g of
        None \<Rightarrow> after = before
      | Some c \<Rightarrow> atomically gi plan (snd (gd_head g)) at before = (Inr g, after)))"

definition committedIn :: "string \<Rightarrow> session_error + 'a guarded_result \<Rightarrow> bool" where
  "committedIn n r \<longleftrightarrow> (case r of
      Inl e \<Rightarrow> True
    | Inr g \<Rightarrow> (case gd_committed g of None \<Rightarrow> True | Some c \<Rightarrow> head_incarnation (fst (gd_head g)) = n))"

lemma guardOnce_answers:
  assumes "store_ok (gw_store w)" "env = guardEnv n ops clock" "gi_log gi = memoryLog"
    "guardOnce env gi plan w = (Inr g, w')" "committedIn n (Inr g)"
  shows "gw_ticks w \<le> gw_ticks w' \<and> gw_ticks w' \<le> gw_ticks w + 3
    \<and> storesAtomically gi plan (clock (gw_ticks w' - 1)) (othersDuring env (gw_ticks w) (gw_ticks w') (gw_store w)) (Inr g) (gw_store w')"
proof (cases "gd_committed g")
  case None
  with guardOnce_quiet [OF assms(4,3)] show ?thesis by (simp add: storesAtomically_def)
next
  case (Some c)
  with assms(5) have n: "head_incarnation (fst (gd_head g)) = n" by (simp add: committedIn_def)
  note stored = guardOnce_committed [OF assms(1-4) Some n]
  then have t: "gw_ticks w + 2 = gw_ticks w' - 1" "gw_ticks w' = gw_ticks w + 3" by simp_all
  from stored show ?thesis unfolding t(1) using t(2) Some by (simp only: storesAtomically_def sum.case option.case) simp
qed

lemma guardAttempts_atomic:
  assumes "store_ok (gw_store w)" "env = guardEnv n ops clock" "gi_log gi = memoryLog"
    "guardAttempts k env gi plan w = (r, w')" "committedIn n r"
  shows "gw_ticks w \<le> gw_ticks w' \<and> gw_ticks w' \<le> gw_ticks w + 3 * Suc k
    \<and> storesAtomically gi plan (clock (gw_ticks w' - 1)) (othersDuring env (gw_ticks w) (gw_ticks w') (gw_store w)) r (gw_store w')"
  using assms(1,4)
proof (induction k arbitrary: w)
  case (0 w)
  obtain a v where v: "guardOnce env gi plan w = (a, v)" by (cases "guardOnce env gi plan w")
  show ?case
  proof (cases a)
    case (Inl e)
    with 0(2) v have "v = w'" "\<exists>x. r = Inl x" by (auto split: guard_fail.splits)
    with guardOnce_quiet [OF v assms(3)] Inl show ?thesis by (auto simp: storesAtomically_def)
  next
    case (Inr g)
    with 0(2) v have "r = Inr g" "v = w'" by auto
    with guardOnce_answers [OF 0(1) assms(2,3) v [unfolded Inr]] assms(5) show ?thesis by simp
  qed
next
  case (Suc k w)
  obtain a v where v: "guardOnce env gi plan w = (a, v)" by (cases "guardOnce env gi plan w")
  consider "a = Inl GConflict" | x where "a = Inl (GFails x)" | g where "a = Inr g" by (metis guard_fail.exhaust sum.exhaust_sel)
  then show ?case
  proof cases
    case 1
    with Suc(3) v have go: "guardAttempts k env gi plan v = (r, w')" by simp
    from guardOnce_quiet [OF v assms(3)] 1
    have q: "gw_store v = othersDuring env (gw_ticks w) (gw_ticks v) (gw_store w)" "gw_ticks w \<le> gw_ticks v" "gw_ticks v \<le> gw_ticks w + 3" by simp_all
    have "store_ok (gw_store v)" unfolding q(1) assms(2) by (rule during_ok [OF Suc(2)])
    from Suc.IH [OF this go] have ih: "gw_ticks v \<le> gw_ticks w'" "gw_ticks w' \<le> gw_ticks v + 3 * Suc k"
      "storesAtomically gi plan (clock (gw_ticks w' - 1)) (othersDuring env (gw_ticks v) (gw_ticks w') (gw_store v)) r (gw_store w')" by simp_all
    from ih(3) have "storesAtomically gi plan (clock (gw_ticks w' - 1)) (othersDuring env (gw_ticks w) (gw_ticks w') (gw_store w)) r (gw_store w')"
      unfolding q(1) othersDuring_trans [OF q(2) ih(1)] .
    with ih(1,2) q(2,3) show ?thesis by simp
  next
    case (2 x)
    with Suc(3) v have "v = w'" "r = Inl x" by auto
    with guardOnce_quiet [OF v assms(3)] 2 show ?thesis by (auto simp: storesAtomically_def)
  next
    case (3 g)
    with Suc(3) v have "r = Inr g" "v = w'" by auto
    with guardOnce_answers [OF Suc(2) assms(2,3) v [unfolded 3]] assms(5) show ?thesis by auto
  qed
qed


text \<open>Another instance commits between this one's head and its commit: the first attempt conflicts.\<close>

definition sampleGuard :: "store guard_input" where
  "sampleGuard = \<lparr>gi_log = memoryLog, gi_session = ''s'', gi_owner = hdr_owner sampleHeader, gi_retries = 8,
     gi_decode = \<lambda>j. Inr sampleTurn, gi_decodeFormat = \<lambda>j. Inr None, gi_encode = \<lambda>st. JObj []\<rparr>"

definition sampleNote :: "nat session_planner" where
  "sampleNote head st es = Inr \<lparr>gp_drafts = [\<lparr>sd_kind = ''note'', sd_turn = None, sd_data = JNum (int (length es))\<rparr>], gp_next = None,
     gp_result = length es, gp_validate = False\<rparr>"

definition sampleOthers :: "nat \<Rightarrow> log_op list" where
  "sampleOthers k = (if k = 1 then [OpCommit 5 ''s'' \<lparr>cm_expect = 0, cm_notAfter = None,
     cm_events = [\<lparr>sd_kind = ''other'', sd_turn = None, sd_data = JNull\<rparr>], cm_state = None, cm_incarnation = None\<rparr>] else [])"

definition sampleGuardRun :: "(session_error + nat guarded_result) \<times> store guard_world" where
  "sampleGuardRun = guarded (guardEnv ''n'' sampleOthers int) sampleGuard sampleNote
     \<lparr>gw_store = snd (create 0 ''n'' sampleHeader []), gw_ticks = 0\<rparr>"


end
