(* ===== verification/Lineage.thy ===== *)
theory Lineage
  imports SessionGuard SessionRepeats
begin

text \<open>
  What a fork inherits: a session's history is its ancestors' events, each up to the point it was
  forked at, then its own. The slices of a lineage, the memory snapshot published in a session's
  head and read back from it or an ancestor's (\<open>plugin-sessions/src/memory-snapshot.adapter.ts\<close>), the
  history a turn reads (\<open>historyOf\<close> of \<open>turn-writer.adapter.ts\<close>) and the lookup of a run id in it
  (\<open>runOf\<close> of \<open>sessions.adapter.ts\<close>).

  Each walk goes from a session to its parent and may not end on a store whose lineages loop:
  partial functions, \<open>None\<close> for a walk that does not return. On every store the log's operations
  make, a parent was created before its forks, and every walk returns.
\<close>

section \<open>Walks\<close>

definition inheritedFrom :: "session_header \<Rightarrow> lineage option" where
  "inheritedFrom h = opt_filter (\<lambda>p. lin_through p > 0) (hdr_parent h)"

partial_function (option) slicesOf :: "store \<Rightarrow> session_header \<Rightarrow> int \<Rightarrow> (log_error + journal_cursor list) option" where
  "slicesOf all h through = (case inheritedFrom h of
      None \<Rightarrow> Some (Inr [\<lparr>jc_session = hdr_id h, jc_seq = through\<rparr>])
    | Some p \<Rightarrow> (case readHead 0 (lin_id p) all of
        Inl e \<Rightarrow> Some (Inl e)
      | Inr head \<Rightarrow> Option.bind (slicesOf all (head_header (fst head)) (lin_through p))
          (\<lambda>r. Some (map_r (\<lambda>earlier. earlier @ [\<lparr>jc_session = hdr_id h, jc_seq = through\<rparr>]) r))))"

definition throughQuery :: "int \<Rightarrow> string list \<Rightarrow> read_query" where
  "throughQuery through kinds = \<lparr>rq_after = 0, rq_through = Some through, rq_limit = None, rq_kinds = kinds, rq_from = FromStart\<rparr>"

partial_function (option) ancestorEvents :: "store \<Rightarrow> string list \<Rightarrow> session_header \<Rightarrow> (log_error + log_event list) option" where
  "ancestorEvents all kinds h = (case inheritedFrom h of
      None \<Rightarrow> Some (Inr [])
    | Some p \<Rightarrow> (case readHead 0 (lin_id p) all of
        Inl e \<Rightarrow> Some (Inl e)
      | Inr head \<Rightarrow> Option.bind (ancestorEvents all kinds (head_header (fst head)))
          (\<lambda>r. Some (and_then r (\<lambda>earlier. map_r (\<lambda>es. earlier @ filter (\<lambda>e. ev_seq e \<le> lin_through p) es)
             (readEvents (lin_id p) (throughQuery (lin_through p) kinds) all))))))"

text \<open>A turn's history: up to its \<open>turn.started\<close>, or the whole journal.\<close>

definition historyOf :: "store \<Rightarrow> session_header \<Rightarrow> int \<Rightarrow> string list \<Rightarrow> bool \<Rightarrow> (log_error + log_event list) option" where
  "historyOf all h startedSeq kinds includeCurrent = Option.bind (ancestorEvents all kinds h)
     (\<lambda>r. Some (and_then r (\<lambda>inherited. map_r (\<lambda>own. inherited @ filter (\<lambda>e. includeCurrent \<or> ev_seq e < startedSeq) own)
        (readEvents (hdr_id h) (if includeCurrent then (throughQuery 0 kinds)\<lparr>rq_through := None\<rparr> else throughQuery (startedSeq - 1) kinds) all))))"

definition begunThrough :: "codec \<Rightarrow> log_event list \<Rightarrow> string \<Rightarrow> int \<Rightarrow> session_error + int option" where
  "begunThrough c es runId through = map_r (\<lambda>ks. map_option (\<lambda>(e, k). numberedTurn e)
     (find (\<lambda>(e, k). sk_runId k = runId \<and> ev_seq e \<le> through) ks)) (readKeys c es)"

partial_function (option) inheritedRun :: "codec \<Rightarrow> store \<Rightarrow> string \<Rightarrow> session_header \<Rightarrow> (session_error + int option) option" where
  "inheritedRun c all runId h = (case inheritedFrom h of
      None \<Rightarrow> Some (Inr None)
    | Some p \<Rightarrow> (case readEvents (lin_id p) (throughQuery (lin_through p) [''turn.started'']) all of
        Inl e \<Rightarrow> Some (Inl (logError e))
      | Inr es \<Rightarrow> (case begunThrough c es runId (lin_through p) of
          Inl e \<Rightarrow> Some (Inl e)
        | Inr hit \<Rightarrow> (case hit of
            Some turn \<Rightarrow> Some (Inr (Some turn))
          | None \<Rightarrow> (case readHead 0 (lin_id p) all of
              Inl e \<Rightarrow> Some (Inl (logError e))
            | Inr head \<Rightarrow> inheritedRun c all runId (head_header (fst head)))))))"

section \<open>Snapshots\<close>

record snapshot_data =
  snap_anchor :: journal_cursor
  snap_through :: journal_cursor

definition snapshotInvalid :: log_error where
  "snapshotInvalid = LogFailed ''session.decode'' ''The stored memory snapshot is invalid.''"

definition slicePosition :: "journal_cursor list \<Rightarrow> journal_cursor \<Rightarrow> nat option" where
  "slicePosition lineage c = findIndex (\<lambda>s. jc_session s = jc_session c \<and> jc_seq c \<le> jc_seq s) lineage"

definition frontierOk :: "snapshot_data \<Rightarrow> journal_cursor list \<Rightarrow> bool" where
  "frontierOk d lineage \<longleftrightarrow> (case (slicePosition lineage (snap_anchor d), slicePosition lineage (snap_through d)) of
      (Some a, Some t) \<Rightarrow> t \<ge> a \<and> (a \<noteq> t \<or> jc_seq (snap_anchor d) \<le> jc_seq (snap_through d))
    | _ \<Rightarrow> False)"

definition validateFrontier :: "snapshot_data \<Rightarrow> journal_cursor list \<Rightarrow> log_error + unit" where
  "validateFrontier d lineage = (if frontierOk d lineage then Inr () else Inl snapshotInvalid)"

definition decodeSnapshot :: "(json \<Rightarrow> string + snapshot_data) \<Rightarrow> json \<Rightarrow> log_error + snapshot_data" where
  "decodeSnapshot decode j = (case decode j of Inl m \<Rightarrow> Inl snapshotInvalid | Inr d \<Rightarrow> Inr d)"

text \<open>The pointer of a commit's last snapshot: where its event will be.\<close>

definition snapshotDrafts :: "session_draft list \<Rightarrow> (nat \<times> session_draft) list" where
  "snapshotDrafts drafts = filter (\<lambda>(offset, d). sd_kind d = ''memory.snapshot'') (List.enumerate 0 drafts)"

definition snapshotState :: "(json \<Rightarrow> string + snapshot_data) \<Rightarrow> store \<Rightarrow> session_header \<Rightarrow> int \<Rightarrow> sessions_state \<Rightarrow> session_draft list
    \<Rightarrow> (log_error + sessions_state) option" where
  "snapshotState decode all h seq st drafts =
     (if snapshotDrafts drafts = [] then Some (Inr st)
      else Option.bind (slicesOf all h seq) (\<lambda>r. Some (and_then r (\<lambda>lineage.
        and_then (each_r (\<lambda>(offset, d). and_then (decodeSnapshot decode (sd_data d)) (\<lambda>x. validateFrontier x lineage)) (snapshotDrafts drafts)) (\<lambda>_.
          Inr (st\<lparr>ss_memorySnapshot := Some \<lparr>jc_session = hdr_id h, jc_seq = seq + int (fst (last (snapshotDrafts drafts))) + 1\<rparr>\<rparr>))))))"

definition rowQuery :: "int \<Rightarrow> read_query" where
  "rowQuery seq = \<lparr>rq_after = seq - 1, rq_through = Some seq, rq_limit = Some 1, rq_kinds = [''memory.snapshot''], rq_from = FromStart\<rparr>"

definition rowAt :: "(json \<Rightarrow> string + snapshot_data) \<Rightarrow> store \<Rightarrow> session_header \<Rightarrow> journal_cursor \<Rightarrow> (log_error + log_event option) option" where
  "rowAt decode all h cursor_at = (case readEvents (hdr_id h) (rowQuery (jc_seq cursor_at)) all of
      Inl e \<Rightarrow> Some (Inl e)
    | Inr rows \<Rightarrow> (case rows of
        [row] \<Rightarrow>
          if ev_session row \<noteq> hdr_id h \<or> ev_seq row \<noteq> jc_seq cursor_at \<or> ev_kind row \<noteq> ''memory.snapshot'' then Some (Inl snapshotInvalid)
          else (case decodeSnapshot decode (ev_data row) of
            Inl e \<Rightarrow> Some (Inl e)
          | Inr d \<Rightarrow> Option.bind (slicesOf all h (ev_seq row - 1)) (\<lambda>r. Some (and_then r (\<lambda>lineage. map_r (\<lambda>_. Some row) (validateFrontier d lineage)))))
      | _ \<Rightarrow> Some (Inl snapshotInvalid)))"

partial_function (option) snapshotSelected :: "(json \<Rightarrow> string + snapshot_data) \<Rightarrow> (json option \<Rightarrow> string + journal_cursor option) \<Rightarrow> store
    \<Rightarrow> session_header \<Rightarrow> int \<Rightarrow> journal_cursor option \<Rightarrow> (log_error + log_event option) option" where
  "snapshotSelected decode pointerOf all h ceiling pointer = (case pointer of
      Some cursor_at \<Rightarrow>
        if jc_session cursor_at \<noteq> hdr_id h then Some (Inl snapshotInvalid)
        else if jc_seq cursor_at > ceiling then Some (Inr None)
        else rowAt decode all h cursor_at
    | None \<Rightarrow> (case inheritedFrom h of
        None \<Rightarrow> Some (Inr None)
      | Some p \<Rightarrow> (case readHead 0 (lin_id p) all of
          Inl e \<Rightarrow> Some (Inl e)
        | Inr head \<Rightarrow> (case pointerOf (storedSessions (fst head)) of
            Inl m \<Rightarrow> Some (Inl snapshotInvalid)
          | Inr found_at \<Rightarrow> snapshotSelected decode pointerOf all (head_header (fst head)) (lin_through p) found_at))))"

definition readMemorySnapshot :: "(json \<Rightarrow> string + snapshot_data) \<Rightarrow> (json option \<Rightarrow> string + journal_cursor option) \<Rightarrow> store
    \<Rightarrow> session_header \<Rightarrow> int \<Rightarrow> sessions_state \<Rightarrow> (log_error + log_event option) option" where
  "readMemorySnapshot decode pointerOf all h startedSeq st = snapshotSelected decode pointerOf all h (startedSeq - 1) (ss_memorySnapshot st)"

section \<open>Parents are older\<close>

fun parentsFirst :: "string list \<Rightarrow> store \<Rightarrow> bool" where
  "parentsFirst seen [] \<longleftrightarrow> True"
| "parentsFirst seen ((i, s) # rest) \<longleftrightarrow>
     (case hdr_parent (head_header (st_head s)) of None \<Rightarrow> True | Some p \<Rightarrow> lin_id p \<in> set seen) \<and> parentsFirst (i # seen) rest"

definition lineage_ok :: "store \<Rightarrow> bool" where
  "lineage_ok all \<longleftrightarrow> store_ok all \<and> parentsFirst [] all"

lemma parentsFirst_set: "set seen = set seen' \<Longrightarrow> parentsFirst seen xs = parentsFirst seen' xs"
  by (induction xs arbitrary: seen seen' rule: list.induct) (auto split: option.splits, (metis insert_iff list.set(2))+)

lemma parentsFirst_append: "parentsFirst seen (xs @ ys) \<longleftrightarrow> parentsFirst seen xs \<and> parentsFirst (map fst xs @ seen) ys"
proof (induction xs arbitrary: seen)
  case (Cons x xs)
  obtain i s where x: "x = (i, s)" by (cases x)
  have "parentsFirst (map fst xs @ i # seen) ys = parentsFirst (i # map fst xs @ seen) ys" by (rule parentsFirst_set) auto
  with Cons [of "i # seen"] show ?case by (simp add: x)
qed simp

lemma parentsFirst_same:
  assumes "map fst xs = map fst ys" "list_all2 (\<lambda>(i, s) (j, t). head_header (st_head s) = head_header (st_head t)) xs ys" "parentsFirst seen xs"
  shows "parentsFirst seen ys"
  using assms(2,1,3) by (induction arbitrary: seen rule: list_all2_induct) (auto split: option.splits)

lemma parentsFirst_filter:
  assumes "parentsFirst seen xs" "\<forall>(k, s) \<in> set xs. P k \<longrightarrow> (case hdr_parent (head_header (st_head s)) of None \<Rightarrow> True | Some p \<Rightarrow> P (lin_id p))"
  shows "parentsFirst (filter P seen) (filter (\<lambda>(k, v). P k) xs)"
  using assms
proof (induction xs arbitrary: seen)
  case (Cons x xs)
  obtain i s where x: "x = (i, s)" by (cases x)
  from Cons x have "parentsFirst (filter P (i # seen)) (filter (\<lambda>(k, v). P k) xs)" by (intro Cons.IH) auto
  with Cons.prems show ?case by (auto simp: x split: option.splits if_splits)
qed simp

lemma lineage_put:
  assumes "parentsFirst [] all" "map_of all i = Some s" "head_header (st_head t) = head_header (st_head s)"
    "distinct (map fst all)"
  shows "parentsFirst [] (put i t all)"
proof (rule parentsFirst_same [OF _ _ assms(1)])
  show "map fst all = map fst (put i t all)" using assms(2) by (simp add: keys_put)
  have "\<And>k v. (k, v) \<in> set all \<Longrightarrow> k = i \<Longrightarrow> v = s" using assms(2,4) by (metis map_of_eq_Some_iff option.inject)
  then have "list_all2 (\<lambda>(k, v) (j, u). head_header (st_head v) = head_header (st_head u)) xs (map (\<lambda>(k, v). if k = i then (k, t) else (k, v)) xs)"
    if "set xs \<subseteq> set all" for xs
    using that assms(3) by (induction xs) (auto split: prod.splits)
  then show "list_all2 (\<lambda>(k, v) (j, u). head_header (st_head v) = head_header (st_head u)) all (put i t all)"
    using assms(2) by (simp add: put_def)
qed

lemma lineage_step: "lineage_ok all \<Longrightarrow> lineage_ok (logStep all op)"
proof (cases op)
  case (OpCreate at minted header)
  assume ok: "lineage_ok all"
  show ?thesis
  proof (cases "map_of all (hdr_id header) = None
      \<and> Option.bind (hdr_parent header) (\<lambda>p. if map_of all (lin_id p) = None then Some (lin_id p) else None) = None")
    case True
    then have parent: "case hdr_parent header of None \<Rightarrow> True | Some p \<Rightarrow> lin_id p \<in> fst ` set all"
      by (auto simp: map_of_eq_None_iff split: option.splits if_splits)
    have "logStep all op = all @ [(hdr_id header, \<lparr>st_head = \<lparr>head_header = header, head_incarnation = minted, head_seq = 0, head_revision = 0,
               head_state = JObj [], head_updatedAt = at\<rparr>, st_events = []\<rparr>)]"
      using True by (simp add: OpCreate create_def Let_def put_def)
    with ok parent have "parentsFirst [] (logStep all op)" by (simp add: lineage_ok_def parentsFirst_append image_iff split: option.splits)
    with ok OpCreate show ?thesis by (simp add: lineage_ok_def create_ok)
  next
    case False
    with ok OpCreate show ?thesis by (auto simp: create_def Let_def split: option.splits)
  qed
next
  case (OpCommit at i c)
  assume ok: "lineage_ok all"
  show ?thesis
  proof (cases rule: commitEvents_cases [of at i c all])
    case (2 s)
    with ok have "parentsFirst [] (logStep all op)" by (auto simp: OpCommit lineage_ok_def store_ok_def intro: lineage_put)
    with ok OpCommit show ?thesis by (simp add: lineage_ok_def commit_ok)
  qed (use ok OpCommit in simp)
next
  case (OpRemove i)
  assume ok: "lineage_ok all"
  have "parentsFirst (filter (\<lambda>k. k \<notin> set (withDescendants all [i])) []) (filter (\<lambda>(k, v). k \<notin> set (withDescendants all [i])) all)"
  proof (rule parentsFirst_filter)
    show "parentsFirst [] all" using ok by (simp add: lineage_ok_def)
    show "\<forall>(k, s) \<in> set all. k \<notin> set (withDescendants all [i]) \<longrightarrow>
        (case hdr_parent (head_header (st_head s)) of None \<Rightarrow> True | Some p \<Rightarrow> lin_id p \<notin> set (withDescendants all [i]))"
      using withDescendants_closed [of "[i]" all] by (force simp: childrenOf_def split: option.splits)
  qed
  with ok OpRemove show ?thesis by (simp add: lineage_ok_def remove_ok) (simp add: removeSession_def)
qed

interpretation lineage_machine: invariant_machine logStep lineage_ok
  by unfold_locales (rule lineage_step)

lemma lineage_reached: "lineage_ok (foldl logStep [] ops)"
  by (rule lineage_machine.inv_run) (simp add: lineage_ok_def store_ok_def parents_ok_def)

text \<open>Induction over a session's ancestors.\<close>

lemma parent_before:
  assumes "parentsFirst [] (xs @ (i, s) # ys)" "inheritedFrom (head_header (st_head s)) = Some p"
  shows "lin_id p \<in> fst ` set xs"
  using assms by (auto simp: parentsFirst_append inheritedFrom_def opt_filter_eq_Some)

lemma ancestry_induct [consumes 1, case_names step]:
  assumes ok: "lineage_ok all"
    and step: "\<And>h. (\<And>p head. inheritedFrom h = Some p \<Longrightarrow> readHead 0 (lin_id p) all = Inr head \<Longrightarrow> P (head_header (fst head))) \<Longrightarrow> P h"
  shows "P h"
proof -
  have within: "\<forall>p. inheritedFrom h = Some p \<longrightarrow> lin_id p \<in> fst ` set xs \<or> map_of all (lin_id p) = None \<Longrightarrow> all = xs @ ys \<Longrightarrow> P h" for xs ys h
  proof (induction "length xs" arbitrary: xs ys h rule: less_induct)
    case less
    show ?case
    proof (rule step)
      fix p head assume p: "inheritedFrom h = Some p" "readHead 0 (lin_id p) all = Inr head"
      then obtain x where x: "map_of all (lin_id p) = Some x" "fst head = st_head x" by (auto simp: readHead_def split: option.splits)
      with less.prems(1) p(1) obtain v where "(lin_id p, v) \<in> set xs" by fastforce
      then obtain us vs where xs: "xs = us @ (lin_id p, v) # vs" by (auto dest: split_list)
      have "distinct (map fst all)" using ok by (simp add: lineage_ok_def store_ok_def)
      moreover have "(lin_id p, v) \<in> set all" using \<open>(lin_id p, v) \<in> set xs\<close> less.prems(2) by simp
      ultimately have "v = x" using map_of_SomeD [OF x(1)] by (rule eq_key_imp_eq_value)
      then have all: "all = us @ (lin_id p, x) # (vs @ ys)" using less.prems(2) xs by simp
      show "P (head_header (fst head))" unfolding x(2)
      proof (rule less.hyps [OF _ _ all])
        show "length us < length xs" by (simp add: xs)
        show "\<forall>q. inheritedFrom (head_header (st_head x)) = Some q \<longrightarrow> lin_id q \<in> fst ` set us \<or> map_of all (lin_id q) = None"
        proof (intro allI impI disjI1)
          fix q assume "inheritedFrom (head_header (st_head x)) = Some q"
          moreover have "parentsFirst [] (us @ (lin_id p, x) # (vs @ ys))" using ok unfolding all [symmetric] by (simp add: lineage_ok_def)
          ultimately show "lin_id q \<in> fst ` set us" by (rule parent_before [rotated])
        qed
      qed
    qed
  qed
  show ?thesis by (rule within [of h all "[]"]) (auto simp: map_of_eq_None_iff)
qed

section \<open>Every walk returns\<close>

lemma slices_return: "lineage_ok all \<Longrightarrow> slicesOf all h through \<noteq> None"
proof (induction arbitrary: through rule: ancestry_induct)
  case (step h)
  show ?case
  proof (cases "inheritedFrom h")
    case None
    then show ?thesis by (subst slicesOf.simps) simp
  next
    case (Some p)
    show ?thesis
    proof (cases "readHead 0 (lin_id p) all")
      case (Inl e)
      with Some show ?thesis by (subst slicesOf.simps) simp
    next
      case (Inr head)
      from step [OF Some Inr] obtain r where "slicesOf all (head_header (fst head)) (lin_through p) = Some r" by auto
      with Some Inr show ?thesis by (subst slicesOf.simps) simp
    qed
  qed
qed

lemma ancestors_return: "lineage_ok all \<Longrightarrow> ancestorEvents all kinds h \<noteq> None"
proof (induction rule: ancestry_induct)
  case (step h)
  show ?case
  proof (cases "inheritedFrom h")
    case None
    then show ?thesis by (subst ancestorEvents.simps) simp
  next
    case (Some p)
    show ?thesis
    proof (cases "readHead 0 (lin_id p) all")
      case (Inl e)
      with Some show ?thesis by (subst ancestorEvents.simps) simp
    next
      case (Inr head)
      from step [OF Some Inr] obtain r where "ancestorEvents all kinds (head_header (fst head)) = Some r" by auto
      with Some Inr show ?thesis by (subst ancestorEvents.simps) simp
    qed
  qed
qed

lemma inheritedRun_returns: "lineage_ok all \<Longrightarrow> inheritedRun c all runId h \<noteq> None"
proof (induction rule: ancestry_induct)
  case (step h)
  show ?case
    by (subst inheritedRun.simps) (use step in \<open>auto split: option.splits sum.splits\<close>)
qed

lemma rowAt_returns: "lineage_ok all \<Longrightarrow> rowAt decode all h c \<noteq> None"
  using slices_return [of all h] by (auto simp: rowAt_def bind_Some_map split: sum.splits list.splits)

lemma selected_returns:
  assumes "lineage_ok all"
  shows "snapshotSelected decode pointerOf all h ceiling pointer \<noteq> None"
  using assms
proof (induction arbitrary: ceiling pointer rule: ancestry_induct)
  case (step h)
  have row: "rowAt decode all h c \<noteq> None" for c using assms by (rule rowAt_returns)
  show ?case
    by (subst snapshotSelected.simps) (use step row in \<open>auto split: option.splits sum.splits\<close>)
qed

text \<open>
  Every walk over a lineage returns: on every store the log's operations can make (sessions
  created, forked, committed to and removed in any order), a session's slices, the history its turn
  reads, the lookup of a run id it inherits and the selection of its memory snapshot all end, with
  an answer or a failure.
\<close>
theorem lineage_walks_return:
  "slicesOf (foldl logStep [] ops) h through \<noteq> None
   \<and> historyOf (foldl logStep [] ops) h startedSeq kinds includeCurrent \<noteq> None
   \<and> inheritedRun c (foldl logStep [] ops) runId h \<noteq> None
   \<and> readMemorySnapshot decode pointerOf (foldl logStep [] ops) h startedSeq st \<noteq> None"
  using slices_return ancestors_return inheritedRun_returns selected_returns lineage_reached
  by (simp add: historyOf_def readMemorySnapshot_def bind_Some_map)

section \<open>A history is its lineage's slices\<close>

definition sliceEvents :: "store \<Rightarrow> string list \<Rightarrow> journal_cursor \<Rightarrow> log_event list" where
  "sliceEvents all kinds c = (case map_of all (jc_session c) of
      None \<Rightarrow> []
    | Some x \<Rightarrow> filter (\<lambda>e. ev_seq e \<le> jc_seq c \<and> (kinds = [] \<or> ev_kind e \<in> set kinds)) (st_events x))"

lemma read_through:
  assumes "store_ok all" "map_of all i = Some x"
  shows "readEvents i (throughQuery n kinds) all = Inr (sliceEvents all kinds \<lparr>jc_session = i, jc_seq = n\<rparr>)"
proof -
  have "session_ok i x" using assms by (auto simp: store_ok_def dest!: map_of_SomeD)
  then have "\<forall>e \<in> set (st_events x). ev_seq e > 0" using events_positive by blast
  then show ?thesis using assms(2)
    by (auto simp: readEvents_def throughQuery_def sliceEvents_def Let_def intro!: filter_cong)
qed

lemma slices_own:
  "slicesOf all h through = Some (Inr slices) \<Longrightarrow> \<exists>earlier. slices = earlier @ [\<lparr>jc_session = hdr_id h, jc_seq = through\<rparr>]
     \<and> slicesOf all h through' = Some (Inr (earlier @ [\<lparr>jc_session = hdr_id h, jc_seq = through'\<rparr>]))"
  by (subst slicesOf.simps, subst (asm) slicesOf.simps)
    (auto simp: bind_Some_map result_simps split: option.splits sum.splits)

lemma header_id: "store_ok all \<Longrightarrow> map_of all i = Some x \<Longrightarrow> hdr_id (head_header (st_head x)) = i"
  by (auto simp: store_ok_def session_ok_def dest!: map_of_SomeD)

lemma ancestors_slices:
  assumes "lineage_ok all" "slicesOf all h through = Some (Inr slices)"
  shows "ancestorEvents all kinds h = Some (Inr (concat (map (sliceEvents all kinds) (butlast slices))))"
  using assms
proof (induction arbitrary: through slices rule: ancestry_induct)
  case (step h)
  show ?case
  proof (cases "inheritedFrom h")
    case None
    with step(2) show ?thesis by (subst ancestorEvents.simps) (subst (asm) slicesOf.simps, auto)
  next
    case (Some p)
    with step(2) obtain head where head: "readHead 0 (lin_id p) all = Inr head"
      by (subst (asm) slicesOf.simps) (auto split: sum.splits)
    with Some step(2) obtain earlier where earlier: "slicesOf all (head_header (fst head)) (lin_through p) = Some (Inr earlier)"
        "slices = earlier @ [\<lparr>jc_session = hdr_id h, jc_seq = through\<rparr>]"
      by (subst (asm) slicesOf.simps) (auto simp: bind_Some_map result_simps)
    from head obtain x where x: "map_of all (lin_id p) = Some x" "fst head = st_head x" by (auto simp: readHead_def split: option.splits)
    have ok: "store_ok all" using assms(1) by (simp add: lineage_ok_def)
    from slices_own [OF earlier(1)] obtain before where before: "earlier = before @ [\<lparr>jc_session = lin_id p, jc_seq = lin_through p\<rparr>]"
      by (auto simp: x(2) header_id [OF ok x(1)])
    have "filter (\<lambda>e. ev_seq e \<le> n) (sliceEvents all kinds \<lparr>jc_session = i, jc_seq = n\<rparr>) = sliceEvents all kinds \<lparr>jc_session = i, jc_seq = n\<rparr>" for i n
      by (auto simp: sliceEvents_def filter_id_conv split: option.splits)
    with step(1) [OF Some head earlier(1)] Some head show ?thesis
      by (subst ancestorEvents.simps) (simp add: read_through [OF ok x(1)] earlier(2) before butlast_append)
  qed
qed

text \<open>
  A turn reads exactly its lineage: the history a turn is given is the events of its lineage's
  slices (the same ones a memory snapshot is checked against), in lineage order, each ancestor's up
  to the point the next session was forked at and the session's own up to the turn, none missed,
  none repeated, none from beyond a fork.
\<close>
theorem history_is_the_lineage:
  assumes "lineage_ok all" "map_of all (hdr_id h) = Some x" "slicesOf all h (startedSeq - 1) = Some (Inr slices)"
  shows "historyOf all h startedSeq kinds False = Some (Inr (concat (map (sliceEvents all kinds) slices)))"
proof -
  have ok: "store_ok all" using assms(1) by (simp add: lineage_ok_def)
  from slices_own [OF assms(3)] obtain earlier where e: "slices = earlier @ [\<lparr>jc_session = hdr_id h, jc_seq = startedSeq - 1\<rparr>]" by auto
  have own: "filter (\<lambda>e. ev_seq e < startedSeq) (sliceEvents all kinds \<lparr>jc_session = hdr_id h, jc_seq = startedSeq - 1\<rparr>)
      = sliceEvents all kinds \<lparr>jc_session = hdr_id h, jc_seq = startedSeq - 1\<rparr>"
    by (auto simp: sliceEvents_def filter_id_conv split: option.splits)
  show ?thesis
    using ancestors_slices [OF assms(1,3), of kinds]
    by (simp add: historyOf_def bind_Some_map read_through [OF ok assms(2)] e own)
qed

section \<open>A published snapshot\<close>

lemma slices_cong:
  assumes "lineage_ok all" "\<And>k. map_option (\<lambda>x. head_header (st_head x)) (map_of all' k) = map_option (\<lambda>x. head_header (st_head x)) (map_of all k)"
  shows "slicesOf all' h through = slicesOf all h through"
  using assms(1)
proof (induction arbitrary: through rule: ancestry_induct)
  case (step h)
  show ?case
  proof (cases "inheritedFrom h")
    case None
    then show ?thesis by (subst (1 2) slicesOf.simps) simp
  next
    case (Some p)
    show ?thesis
    proof (cases "map_of all (lin_id p)")
      case None
      then have "map_of all' (lin_id p) = None" using assms(2) [of "lin_id p"] by simp
      with None Some show ?thesis by (subst (1 2) slicesOf.simps) (simp add: readHead_def)
    next
      case (Some x)
      then obtain y where y: "map_of all' (lin_id p) = Some y" "head_header (st_head y) = head_header (st_head x)"
        using assms(2) [of "lin_id p"] by auto
      have "readHead 0 (lin_id p) all = Inr (st_head x, 0)" by (simp add: readHead_def Some)
      from step [OF \<open>inheritedFrom h = Some p\<close> this] have "slicesOf all' (head_header (st_head x)) t = slicesOf all (head_header (st_head x)) t" for t by simp
      with \<open>inheritedFrom h = Some p\<close> Some y show ?thesis by (subst (1 2) slicesOf.simps) (simp add: readHead_def)
    qed
  qed
qed

lemma position_grows:
  assumes "slicePosition (earlier @ [\<lparr>jc_session = i, jc_seq = q\<rparr>]) c = Some n" "q \<le> q'"
  shows "slicePosition (earlier @ [\<lparr>jc_session = i, jc_seq = q'\<rparr>]) c = Some n"
  using assms by (auto simp: slicePosition_def findIndex_append findIndex_simps split: option.splits if_splits)

lemma frontier_grows:
  assumes "frontierOk d (earlier @ [\<lparr>jc_session = i, jc_seq = q\<rparr>])" "q \<le> q'"
  shows "frontierOk d (earlier @ [\<lparr>jc_session = i, jc_seq = q'\<rparr>])"
proof -
  from assms(1) obtain a t where "slicePosition (earlier @ [\<lparr>jc_session = i, jc_seq = q\<rparr>]) (snap_anchor d) = Some a"
      "slicePosition (earlier @ [\<lparr>jc_session = i, jc_seq = q\<rparr>]) (snap_through d) = Some t"
    by (auto simp: frontierOk_def split: option.splits)
  from position_grows [OF this(1) assms(2)] position_grows [OF this(2) assms(2)] this assms(1) show ?thesis by (simp add: frontierOk_def)
qed

lemma each_r_in: "each_r f xs = Inr ys \<Longrightarrow> x \<in> set xs \<Longrightarrow> \<exists>y. f x = Inr y"
  by (induction xs arbitrary: ys) (auto simp: result_simps)

lemma snapshotDrafts_nth: "(n, d) \<in> set (snapshotDrafts drafts) \<Longrightarrow> n < length drafts \<and> drafts ! n = d \<and> sd_kind d = ''memory.snapshot''"
  by (auto simp: snapshotDrafts_def in_set_enumerate_eq)

lemma snapshotState_pointer:
  assumes "snapshotState decode all h seq st drafts = Some (Inr st')" "snapshotDrafts drafts \<noteq> []"
  obtains n d data earlier where "n = fst (last (snapshotDrafts drafts))" "n < length drafts" "drafts ! n = d" "sd_kind d = ''memory.snapshot''" "decode (sd_data d) = Inr data"
    "slicesOf all h seq = Some (Inr (earlier @ [\<lparr>jc_session = hdr_id h, jc_seq = seq\<rparr>]))"
    "frontierOk data (earlier @ [\<lparr>jc_session = hdr_id h, jc_seq = seq\<rparr>])"
    "ss_memorySnapshot st' = Some \<lparr>jc_session = hdr_id h, jc_seq = seq + int n + 1\<rparr>"
proof -
  from assms obtain lineage us where l: "slicesOf all h seq = Some (Inr lineage)"
      "each_r (\<lambda>(offset, d). and_then (decodeSnapshot decode (sd_data d)) (\<lambda>x. validateFrontier x lineage)) (snapshotDrafts drafts) = Inr us"
      "st' = st\<lparr>ss_memorySnapshot := Some \<lparr>jc_session = hdr_id h, jc_seq = seq + int (fst (last (snapshotDrafts drafts))) + 1\<rparr>\<rparr>"
    by (auto simp: snapshotState_def bind_Some_map result_simps)
  obtain n d where nd: "last (snapshotDrafts drafts) = (n, d)" by (cases "last (snapshotDrafts drafts)")
  with assms(2) have mem: "(n, d) \<in> set (snapshotDrafts drafts)" by (metis last_in_set)
  from each_r_in [OF l(2) mem] obtain data where data: "decode (sd_data d) = Inr data" "frontierOk data lineage"
    by (auto simp: result_simps decodeSnapshot_def validateFrontier_def split: sum.splits if_splits)
  from slices_own [OF l(1)] obtain earlier where "lineage = earlier @ [\<lparr>jc_session = hdr_id h, jc_seq = seq\<rparr>]" by auto
  with l nd have at: "slicesOf all h seq = Some (Inr (earlier @ [\<lparr>jc_session = hdr_id h, jc_seq = seq\<rparr>]))"
    "ss_memorySnapshot st' = Some \<lparr>jc_session = hdr_id h, jc_seq = seq + int n + 1\<rparr>" "frontierOk data (earlier @ [\<lparr>jc_session = hdr_id h, jc_seq = seq\<rparr>])"
    using data by simp_all
  from snapshotDrafts_nth [OF mem] show thesis using data(1) at by (intro that [of n d data earlier]) (simp_all add: nd)
qed

lemma stamp_nth: "n < length drafts \<Longrightarrow> stampEvents i q at drafts ! n =
    \<lparr>ev_session = i, ev_seq = q + int n + 1, ev_turn = sd_turn (drafts ! n), ev_kind = sd_kind (drafts ! n), ev_at = at, ev_data = sd_data (drafts ! n)\<rparr>"
  by (simp add: stampEvents_def nth_enumerate_eq)

text \<open>The one row a pointer names.\<close>

lemma filter_seq:
  assumes "numbered es" "k < length es"
  shows "filter (\<lambda>e. int k < ev_seq e \<and> ev_seq e \<le> int k + 1) es = [es ! k]"
proof -
  have es: "es = take k es @ [es ! k] @ drop (Suc k) es" using id_take_nth_drop [OF assms(2)] by simp
  have "numbered (take k es @ [es ! k] @ drop (Suc k) es)" using assms(1) es by simp
  from numbered_between [OF this, unfolded es [symmetric]] show ?thesis using assms(2) by (simp add: min_absorb2 algebra_simps)
qed

lemma row_read:
  assumes "store_ok all" "map_of all i = Some x" "k < length (st_events x)" "ev_kind (st_events x ! k) = ''memory.snapshot''"
  shows "readEvents i (rowQuery (int k + 1)) all = Inr [st_events x ! k]"
proof -
  have "session_ok i x" using assms(1,2) by (auto simp: store_ok_def dest!: map_of_SomeD)
  then have "numbered (st_events x)" by (simp add: session_ok_def numbered_def)
  from filter_seq [OF this assms(3)] have one: "filter (\<lambda>e. int k < ev_seq e \<and> ev_seq e \<le> int k + 1) (st_events x) = [st_events x ! k]" .
  have "filter (\<lambda>e. int k < ev_seq e \<and> ev_seq e \<le> int k + 1 \<and> ev_kind e = ''memory.snapshot'') (st_events x)
      = filter (\<lambda>e. ev_kind e = ''memory.snapshot'') (filter (\<lambda>e. int k < ev_seq e \<and> ev_seq e \<le> int k + 1) (st_events x))"
    by (simp add: conj_ac cong: filter_cong)
  then show ?thesis using assms(2,4) by (simp add: readEvents_def rowQuery_def one)
qed


section \<open>A fork\<close>

definition forkHeader :: "string \<Rightarrow> lineage option \<Rightarrow> session_header" where
  "forkHeader i p = \<lparr>hdr_id = i, hdr_owner = ''o'', hdr_origin = ''user'', hdr_createdAt = 0, hdr_meta = JObj [], hdr_parent = p\<rparr>"

definition forkDraft :: "string \<Rightarrow> session_draft" where
  "forkDraft kind = \<lparr>sd_kind = kind, sd_turn = None, sd_data = JNull\<rparr>"

definition forkOps :: "log_op list" where
  "forkOps = [OpCreate 0 ''n'' (forkHeader ''a'' None),
     OpCommit 1 ''a'' \<lparr>cm_expect = 0, cm_notAfter = None, cm_events = map forkDraft [''note'', ''turn.ended'', ''late''], cm_state = None, cm_incarnation = None\<rparr>,
     OpCreate 2 ''m'' (forkHeader ''b'' (Some \<lparr>lin_id = ''a'', lin_through = 2, lin_turnAtFork = 1\<rparr>)),
     OpCommit 3 ''b'' \<lparr>cm_expect = 0, cm_notAfter = None, cm_events = [forkDraft ''own''], cm_state = None, cm_incarnation = None\<rparr>]"

definition forkStore :: store where
  "forkStore = foldl logStep [] forkOps"

definition forkedHeader :: session_header where
  "forkedHeader = forkHeader ''b'' (Some \<lparr>lin_id = ''a'', lin_through = 2, lin_turnAtFork = 1\<rparr>)"

lemma fork_slices: "slicesOf forkStore forkedHeader n = Some (Inr [\<lparr>jc_session = ''a'', jc_seq = 2\<rparr>, \<lparr>jc_session = ''b'', jc_seq = n\<rparr>])"
proof -
  have "inheritedFrom forkedHeader = Some \<lparr>lin_id = ''a'', lin_through = 2, lin_turnAtFork = 1\<rparr>"
    "inheritedFrom (forkHeader ''a'' None) = None" by (simp_all add: inheritedFrom_def forkedHeader_def forkHeader_def)
  moreover have "case readHead 0 ''a'' forkStore of Inl e \<Rightarrow> False | Inr head \<Rightarrow> head_header (fst head) = forkHeader ''a'' None" by code_simp
  then obtain head where "readHead 0 ''a'' forkStore = Inr head" "head_header (fst head) = forkHeader ''a'' None" by (auto split: sum.splits)
  moreover have "slicesOf forkStore (forkHeader ''a'' None) 2 = Some (Inr [\<lparr>jc_session = ''a'', jc_seq = 2\<rparr>])"
    by (subst slicesOf.simps) (simp add: inheritedFrom_def forkHeader_def)
  ultimately show ?thesis by (subst slicesOf.simps) (simp add: forkedHeader_def forkHeader_def)
qed

theorem history_is_the_lineage_witness:
  "map_option (map_r (map ev_kind)) (historyOf forkStore forkedHeader 2 [] False) = Some (Inr [''note'', ''turn.ended'', ''own''])"
proof -
  have ok: "lineage_ok forkStore" unfolding forkStore_def by (rule lineage_reached)
  have "case map_of forkStore (hdr_id forkedHeader) of None \<Rightarrow> False | Some x \<Rightarrow> True" by code_simp
  then obtain x where x: "map_of forkStore (hdr_id forkedHeader) = Some x" by (auto split: option.splits)
  from history_is_the_lineage [OF ok x fork_slices [of "2 - 1"], of "[]"]
  have "historyOf forkStore forkedHeader 2 [] False = Some (Inr (concat (map (sliceEvents forkStore []) [\<lparr>jc_session = ''a'', jc_seq = 2\<rparr>, \<lparr>jc_session = ''b'', jc_seq = 1\<rparr>])))"
    by simp
  moreover have "map ev_kind (concat (map (sliceEvents forkStore []) [\<lparr>jc_session = ''a'', jc_seq = 2\<rparr>, \<lparr>jc_session = ''b'', jc_seq = 1\<rparr>]))
      = [''note'', ''turn.ended'', ''own'']" by code_simp
  ultimately show ?thesis by simp
qed

definition forkSnapshot :: "json \<Rightarrow> string + snapshot_data" where
  "forkSnapshot j = Inr \<lparr>snap_anchor = \<lparr>jc_session = ''a'', jc_seq = 1\<rparr>, snap_through = \<lparr>jc_session = ''b'', jc_seq = 1\<rparr>\<rparr>"

definition forkCommit :: session_commit where
  "forkCommit = \<lparr>cm_expect = 1, cm_notAfter = None, cm_events = map forkDraft [''turn.reply'', ''memory.snapshot''], cm_state = None, cm_incarnation = None\<rparr>"


end
