(* ===== verification/ModelFailure.thy ===== *)
theory ModelFailure
  imports Canonical
begin

text \<open>
  How a model request's failure is classified (\<open>core/src/domain/model-failure.entity.ts\<close> and its
  functions, \<open>core/src/domain/engine-stamp.entity.ts\<close>). An \<open>AiError\<close> of \<open>effect/ai\<close> is its reason with
  the reason's metadata (none for the reasons that keep none); an explicit stamp in the metadata
  wins over the reason. The failures a step of the loop can have are those, a turn's own errors and
  anything else; each says whether one of the step's guarded callbacks raised it, which stands for
  the identity test of the sources.
\<close>

type_synonym json_fields = "(string \<times> json) list"

definition ENGINE_KEY :: string where
  "ENGINE_KEY = ''engine''"

datatype model_failure_kind =
    MfContextOverflow | MfAuthentication | MfInvalidRequest | MfRateLimit | MfQuota | MfTransient
  | MfInvalidResponse | MfTimeout | MfUnknown

definition failureKinds :: "(string \<times> model_failure_kind) list" where
  "failureKinds = [(''ContextOverflow'', MfContextOverflow), (''Authentication'', MfAuthentication), (''InvalidRequest'', MfInvalidRequest),
     (''RateLimit'', MfRateLimit), (''Quota'', MfQuota), (''Transient'', MfTransient), (''InvalidResponse'', MfInvalidResponse),
     (''Timeout'', MfTimeout), (''Unknown'', MfUnknown)]"

datatype ai_reason =
    RateLimitError | QuotaExhaustedError | AuthenticationError | ContentPolicyError
  | InvalidRequestError string
  | InvalidResponseError | InternalProviderError
  | NetworkError bool
  | UnknownError | UnsupportedSchemaError | InvalidUserInputError
  | InvalidOutputError string
  | StructuredOutputError
  | ToolNotFoundError string "string list"
  | ToolParameterValidationError string string
  | InvalidToolResultError | ToolResultEncodingError | ToolConfigurationError | ToolkitRequiredError

record ai_error =
  ai_reason :: ai_reason
  ai_metadata :: json_fields

definition stampIn :: "json_fields \<Rightarrow> model_failure_kind option" where
  "stampIn metadata =
     (case map_of metadata ENGINE_KEY of
        Some (JObj stamp) \<Rightarrow> Option.bind (jsonStr (map_of stamp ''failure'')) (map_of failureKinds)
      | _ \<Rightarrow> None)"

fun neutralFailure :: "ai_reason \<Rightarrow> model_failure_kind option" where
  "neutralFailure RateLimitError = Some MfRateLimit"
| "neutralFailure QuotaExhaustedError = Some MfQuota"
| "neutralFailure AuthenticationError = Some MfAuthentication"
| "neutralFailure ContentPolicyError = Some MfInvalidRequest"
| "neutralFailure (InvalidRequestError m) = Some MfInvalidRequest"
| "neutralFailure InvalidResponseError = Some MfInvalidResponse"
| "neutralFailure InternalProviderError = Some MfTransient"
| "neutralFailure (NetworkError transport) = Some (if transport then MfTransient else MfInvalidRequest)"
| "neutralFailure UnknownError = Some MfUnknown"
| "neutralFailure UnsupportedSchemaError = Some MfInvalidRequest"
| "neutralFailure InvalidUserInputError = Some MfInvalidRequest"
| "neutralFailure _ = None"

definition explicitFailure :: "ai_error \<Rightarrow> model_failure_kind option" where
  "explicitFailure e = stampIn (ai_metadata e)"

definition failureOf :: "ai_error \<Rightarrow> model_failure_kind option" where
  "failureOf e = or_else (explicitFailure e) (neutralFailure (ai_reason e))"

datatype error_cause = AiFailure ai_error | TurnFailure string string | OtherFailure string

record step_error =
  se_callback :: bool
  se_cause :: error_cause

definition modelFailureOf :: "step_error \<Rightarrow> model_failure_kind option" where
  "modelFailureOf e = (case se_cause e of AiFailure a \<Rightarrow> failureOf a | _ \<Rightarrow> None)"

definition isTurnError :: "step_error \<Rightarrow> bool" where
  "isTurnError e = (case se_cause e of TurnFailure code message \<Rightarrow> True | _ \<Rightarrow> False)"

fun modelFailureCodeOf :: "model_failure_kind \<Rightarrow> string" where
  "modelFailureCodeOf MfContextOverflow = ''model.context-overflow''"
| "modelFailureCodeOf MfAuthentication = ''model.auth''"
| "modelFailureCodeOf MfInvalidRequest = ''model.invalid-request''"
| "modelFailureCodeOf MfRateLimit = ''model.rate-limit''"
| "modelFailureCodeOf MfQuota = ''model.quota''"
| "modelFailureCodeOf MfTransient = ''model.unavailable''"
| "modelFailureCodeOf MfInvalidResponse = ''model.invalid-response''"
| "modelFailureCodeOf MfTimeout = ''model.timeout''"
| "modelFailureCodeOf MfUnknown = ''model.failed''"

fun modelFailureMessageOf :: "model_failure_kind \<Rightarrow> string" where
  "modelFailureMessageOf MfContextOverflow = ''The model request exceeded the context limit.''"
| "modelFailureMessageOf MfAuthentication = ''The model request could not be authenticated.''"
| "modelFailureMessageOf MfInvalidRequest = ''The model request was rejected.''"
| "modelFailureMessageOf MfRateLimit = ''The model request was rate limited.''"
| "modelFailureMessageOf MfQuota = ''The model request exceeded the available quota.''"
| "modelFailureMessageOf MfTransient = ''The model service is temporarily unavailable.''"
| "modelFailureMessageOf MfInvalidResponse = ''The model returned an invalid response.''"
| "modelFailureMessageOf MfTimeout = ''The model request timed out.''"
| "modelFailureMessageOf MfUnknown = ''The model request failed.''"

text \<open>\<open>malformedReasons\<close>, \<open>permanentModelFailures\<close> and the image refusal of the step loop.\<close>

fun malformedReason :: "ai_reason \<Rightarrow> bool" where
  "malformedReason (InvalidOutputError d) = True"
| "malformedReason (ToolParameterValidationError t d) = True"
| "malformedReason (ToolNotFoundError t ts) = True"
| "malformedReason _ = False"

definition isMalformed :: "step_error \<Rightarrow> bool" where
  "isMalformed e = (case se_cause e of AiFailure a \<Rightarrow> failureOf a = None \<and> malformedReason (ai_reason a) | _ \<Rightarrow> False)"

definition permanentModelFailures :: "model_failure_kind list" where
  "permanentModelFailures = [MfContextOverflow, MfAuthentication, MfInvalidRequest, MfQuota, MfInvalidResponse]"

definition isPermanentModelFailure :: "step_error \<Rightarrow> bool" where
  "isPermanentModelFailure e = opt_exists (\<lambda>kind. kind \<in> set permanentModelFailures) (modelFailureOf e)"

definition isImageRejection :: "step_error \<Rightarrow> bool" where
  "isImageRejection e = (case se_cause e of
       AiFailure a \<Rightarrow> (case ai_reason a of InvalidRequestError m \<Rightarrow> contains ''image'' (map lower_char m) | _ \<Rightarrow> False)
     | _ \<Rightarrow> False)"

end
