(* ===== verification/Responses.thy ===== *)
theory Responses
  imports ModelFailure
begin

text \<open>
  A model's response as the step loop reads it: its usage
  (\<open>core/src/domain/token-usage.entity.functions.ts\<close>), the ids minted for calls that come without
  one (\<open>core/src/domain/run.entity.functions.ts\<close> and \<open>withToolCallIds\<close>), and the messages a
  response becomes (\<open>core/src/internal/mapping.entity.functions.ts\<close>). A response part is the data
  of \<open>effect/ai\<close>'s part with the fields the sources read; its metadata is a JSON object, which the
  copy through JSON text leaves as it is. Every lemma is about all responses, whatever a provider
  sends.
\<close>

section \<open>Token usage\<close>

record token_usage =
  tu_input :: int
  tu_output :: int
  tu_total :: int
  tu_cacheRead :: int
  tu_cacheWrite :: int
  tu_reasoning :: int

definition zeroUsage :: token_usage where
  "zeroUsage = \<lparr>tu_input = 0, tu_output = 0, tu_total = 0, tu_cacheRead = 0, tu_cacheWrite = 0, tu_reasoning = 0\<rparr>"

definition count_of :: "int option \<Rightarrow> int" where
  "count_of v = max 0 (get_or_else 0 v)"

definition tokenUsage :: "int \<Rightarrow> int \<Rightarrow> int option \<Rightarrow> int option \<Rightarrow> int option \<Rightarrow> token_usage" where
  "tokenUsage inp outp cacheRead cacheWrite reasoning =
     (let rd = count_of cacheRead; cw = count_of cacheWrite; rs = count_of reasoning;
          i = max (count_of (Some inp)) (rd + cw); out = max (count_of (Some outp)) rs
      in \<lparr>tu_input = i, tu_output = out, tu_total = i + out, tu_cacheRead = rd, tu_cacheWrite = cw, tu_reasoning = rs\<rparr>)"

definition addUsage :: "token_usage \<Rightarrow> token_usage \<Rightarrow> token_usage" where
  "addUsage a b =
     \<lparr>tu_input = tu_input a + tu_input b, tu_output = tu_output a + tu_output b, tu_total = tu_total a + tu_total b,
      tu_cacheRead = tu_cacheRead a + tu_cacheRead b, tu_cacheWrite = tu_cacheWrite a + tu_cacheWrite b,
      tu_reasoning = tu_reasoning a + tu_reasoning b\<rparr>"

definition sumUsage :: "token_usage list \<Rightarrow> token_usage" where
  "sumUsage us = foldl addUsage zeroUsage us"

definition uncachedInputTokens :: "token_usage \<Rightarrow> int" where
  "uncachedInputTokens u = max 0 (tu_input u - tu_cacheRead u - tu_cacheWrite u)"

record usage_breakdown =
  ub_input :: int
  ub_cacheRead :: int
  ub_cacheWrite :: int
  ub_reasoning :: int
  ub_output :: int

definition usageBreakdown :: "token_usage \<Rightarrow> usage_breakdown" where
  "usageBreakdown u =
     \<lparr>ub_input = uncachedInputTokens u, ub_cacheRead = max 0 (tu_cacheRead u), ub_cacheWrite = max 0 (tu_cacheWrite u),
      ub_reasoning = max 0 (tu_reasoning u), ub_output = max 0 (tu_output u - tu_reasoning u)\<rparr>"

text \<open>What \<open>TokenUsage\<close> promises of a usage, and what each operation keeps of it.\<close>

definition usage_ok :: "token_usage \<Rightarrow> bool" where
  "usage_ok u \<longleftrightarrow> 0 \<le> tu_cacheRead u \<and> 0 \<le> tu_cacheWrite u \<and> 0 \<le> tu_reasoning u
     \<and> tu_cacheRead u + tu_cacheWrite u \<le> tu_input u \<and> tu_reasoning u \<le> tu_output u
     \<and> tu_total u = tu_input u + tu_output u"

named_theorems usage_intros

lemma zeroUsage_ok [usage_intros]: "usage_ok zeroUsage"
  by (simp add: usage_ok_def zeroUsage_def)

lemma tokenUsage_ok [usage_intros]: "usage_ok (tokenUsage inp out rd wr rs)"
  by (simp add: usage_ok_def tokenUsage_def Let_def count_of_def)

lemma addUsage_ok [usage_intros]: "usage_ok a \<Longrightarrow> usage_ok b \<Longrightarrow> usage_ok (addUsage a b)"
  by (simp add: usage_ok_def addUsage_def)

lemma addUsage_assoc: "addUsage (addUsage a b) c = addUsage a (addUsage b c)"
  by (simp add: addUsage_def)

lemma addUsage_zero [simp]: "addUsage zeroUsage u = u" "addUsage u zeroUsage = u"
  by (simp_all add: addUsage_def zeroUsage_def)

lemma foldl_addUsage: "foldl addUsage a us = addUsage a (sumUsage us)"
proof (induction us arbitrary: a)
  case Nil
  then show ?case by (simp add: sumUsage_def)
next
  case (Cons u us)
  from Cons [of "addUsage a u"] Cons [of "addUsage zeroUsage u"] show ?case
    by (simp add: sumUsage_def addUsage_assoc)
qed

lemma sumUsage_simps [simp]: "sumUsage [] = zeroUsage" "sumUsage (us @ vs) = addUsage (sumUsage us) (sumUsage vs)"
    "sumUsage [u] = u"
proof -
  have "foldl addUsage (foldl addUsage zeroUsage us) vs = addUsage (foldl addUsage zeroUsage us) (sumUsage vs)"
    by (rule foldl_addUsage)
  then show "sumUsage (us @ vs) = addUsage (sumUsage us) (sumUsage vs)" by (simp add: sumUsage_def)
qed (simp_all add: sumUsage_def)

lemma usageBreakdown_exact:
  "usage_ok u \<Longrightarrow> (let b = usageBreakdown u in
     ub_input b + ub_cacheRead b + ub_cacheWrite b + ub_reasoning b + ub_output b = tu_total u)"
  by (simp add: usage_ok_def usageBreakdown_def uncachedInputTokens_def Let_def)

section \<open>Response parts\<close>

datatype finish_reason =
    FStop | FLength | FContentFilter | FToolCalls | FError | FPause | FOther | FUnknown

record response_usage =
  ru_input :: "int option"
  ru_cacheRead :: "int option"
  ru_cacheWrite :: "int option"
  ru_output :: "int option"
  ru_reasoning :: "int option"

record response_call =
  rc_id :: string
  rc_name :: string
  rc_params :: "json option"
  rc_executed :: bool
  rc_metadata :: json_fields

record response_result =
  rr_id :: string
  rr_name :: string
  rr_result :: json
  rr_encoded :: "json option"
  rr_failure :: bool
  rr_preliminary :: bool
  rr_executed :: bool
  rr_metadata :: json_fields

datatype response_part =
    TextPart string json_fields
  | ReasoningPart string json_fields
  | CallPart response_call
  | ResultPart response_result
  | FinishPart finish_reason response_usage json_fields
  | ParamsStartPart string string
  | ParamsDeltaPart string string
  | ErrorPart ai_error
  | OtherPart string

definition callParts :: "response_part list \<Rightarrow> response_call list" where
  "callParts ps = concat (map (\<lambda>p. case p of CallPart c \<Rightarrow> [c] | _ \<Rightarrow> []) ps)"

definition resultParts :: "response_part list \<Rightarrow> response_result list" where
  "resultParts ps = concat (map (\<lambda>p. case p of ResultPart r \<Rightarrow> [r] | _ \<Rightarrow> []) ps)"

lemma callParts_simps [simp]:
  "callParts [] = []" "callParts (ps @ qs) = callParts ps @ callParts qs"
  "callParts (TextPart t m # ps) = callParts ps" "callParts (ReasoningPart t m # ps) = callParts ps"
  "callParts (CallPart c # ps) = c # callParts ps" "callParts (ResultPart r # ps) = callParts ps"
  "callParts (FinishPart f u m # ps) = callParts ps" "callParts (OtherPart s # ps) = callParts ps"
  "callParts (ParamsStartPart s t' # ps) = callParts ps" "callParts (ParamsDeltaPart s t' # ps) = callParts ps"
  "callParts (ErrorPart err # ps) = callParts ps"
  by (simp_all add: callParts_def)

lemma resultParts_simps [simp]:
  "resultParts [] = []" "resultParts (ps @ qs) = resultParts ps @ resultParts qs"
  "resultParts (TextPart t m # ps) = resultParts ps" "resultParts (ReasoningPart t m # ps) = resultParts ps"
  "resultParts (CallPart c # ps) = resultParts ps" "resultParts (ResultPart r # ps) = r # resultParts ps"
  "resultParts (FinishPart f u m # ps) = resultParts ps" "resultParts (OtherPart s # ps) = resultParts ps"
  "resultParts (ParamsStartPart s t' # ps) = resultParts ps" "resultParts (ParamsDeltaPart s t' # ps) = resultParts ps"
  "resultParts (ErrorPart err # ps) = resultParts ps"
  by (simp_all add: resultParts_def)

section \<open>Minted call ids\<close>

record run_ref =
  run_id :: string
  run_turn :: int
  run_ordinal :: int

definition runPrefixOf :: "run_ref \<Rightarrow> string" where
  "runPrefixOf run = ''call_'' @ dec (run_turn run) @ ''_'' @ dec (run_ordinal run)"

definition toolCallIdOf :: "run_ref \<Rightarrow> nat \<Rightarrow> nat \<Rightarrow> string" where
  "toolCallIdOf run step n = runPrefixOf run @ ''_'' @ dec (int step) @ ''_'' @ dec (int n)"

definition plannedCallIdOf :: "run_ref \<Rightarrow> nat \<Rightarrow> string" where
  "plannedCallIdOf run n = runPrefixOf run @ ''_p'' @ dec (int n)"

definition mintedId :: "run_ref option \<Rightarrow> nat \<Rightarrow> nat \<Rightarrow> string" where
  "mintedId run step n =
     (case run of None \<Rightarrow> ''call_'' @ dec (int step) @ ''_'' @ dec (int n) | Some r \<Rightarrow> toolCallIdOf r step n)"

text \<open>
  \<open>callIdsOf\<close> and \<open>resultIdsOf\<close> are the two id tables of \<open>withToolCallIds\<close>: each call's own id or a
  minted one, and each result's own id, the minted id of the id-less call of its tool it pairs
  with in order, or an id past every call's.
\<close>

definition callIdsOf :: "(nat \<Rightarrow> string) \<Rightarrow> response_call list \<Rightarrow> string list" where
  "callIdsOf idOf calls = map (\<lambda>(n, c). if rc_id c = [] then idOf n else rc_id c) (enumerate 0 calls)"

definition idlessOf :: "(nat \<Rightarrow> string) \<Rightarrow> response_call list \<Rightarrow> string \<Rightarrow> string list" where
  "idlessOf idOf calls tool =
     map (\<lambda>(n, c). callIdsOf idOf calls ! n) (filter (\<lambda>(n, c). rc_id c = [] \<and> rc_name c = tool) (enumerate 0 calls))"

definition orderOf :: "response_result list \<Rightarrow> nat \<Rightarrow> nat" where
  "orderOf results n =
     length (filter (\<lambda>e. rr_id e = [] \<and> rr_name e = rr_name (results ! n)) (take n results))"

definition resultIdsOf :: "(nat \<Rightarrow> string) \<Rightarrow> response_call list \<Rightarrow> response_result list \<Rightarrow> string list" where
  "resultIdsOf idOf calls results =
     map (\<lambda>(n, r). if rr_id r \<noteq> [] then rr_id r
          else let group = idlessOf idOf calls (rr_name r); at = orderOf results n
               in if at < length group then group ! at else idOf (length calls + n)) (enumerate 0 results)"

definition idStep ::
  "(nat \<Rightarrow> string) \<Rightarrow> response_call list \<Rightarrow> response_result list \<Rightarrow> nat \<times> nat \<times> response_part list \<Rightarrow> response_part
   \<Rightarrow> nat \<times> nat \<times> response_part list" where
  "idStep idOf calls results acc part = (case acc of (i, j, out) \<Rightarrow>
     (case part of
        CallPart c \<Rightarrow> (i + 1, j, out @ [CallPart (if rc_id c = [] then c\<lparr>rc_id := callIdsOf idOf calls ! i\<rparr> else c)])
      | ResultPart r \<Rightarrow> (i, j + 1, out @ [ResultPart (if rr_id r = [] then r\<lparr>rr_id := resultIdsOf idOf calls results ! j\<rparr> else r)])
      | _ \<Rightarrow> (i, j, out @ [part])))"

definition withToolCallIds :: "response_part list \<Rightarrow> nat \<Rightarrow> run_ref option \<Rightarrow> response_part list" where
  "withToolCallIds content step run =
     (let idOf = mintedId run step; calls = callParts content; results = resultParts content
      in snd (snd (foldl (idStep idOf calls results) (0, 0, []) content)))"


section \<open>Minted ids are distinct and pair results with calls\<close>

lemma dec_nat_digits: "c \<in> set (dec_nat n) \<Longrightarrow> 48 \<le> (of_char c :: nat) \<and> (of_char c :: nat) \<le> 57"
proof (induction n arbitrary: c rule: dec_nat.induct)
  case (1 n)
  show ?case
  proof (cases "n < 10")
    case True
    with 1 show ?thesis by (subst (asm) (2) dec_nat.simps) (auto simp: of_char_of take_bit_eq_mod)
  next
    case False
    have "n mod 10 < 10" by simp
    with 1 False show ?thesis by (subst (asm) (2) dec_nat.simps) (auto simp: of_char_of take_bit_eq_mod)
  qed
qed

lemma dec_no_underscore [simp]: "CHR ''_'' \<notin> set (dec i)"
  using dec_nat_digits [of "CHR ''_''"] by (auto simp: dec_def)

lemma dec_no_p [simp]: "CHR ''p'' \<notin> set (dec i)"
  using dec_nat_digits [of "CHR ''p''"] by (auto simp: dec_def)

lemma dec_inj [simp]: "dec i = dec j \<longleftrightarrow> i = j"
proof
  have minus: "CHR ''-'' \<notin> set (dec_nat n)" for n using dec_nat_digits [of "CHR ''-''" n] by auto
  have no: "CHR ''-'' # dec_nat m \<noteq> dec_nat n" for m n
  proof
    assume "CHR ''-'' # dec_nat m = dec_nat n"
    then have "CHR ''-'' \<in> set (dec_nat n)" by (metis list.set_intros(1))
    with minus show False by blast
  qed
  assume eq: "dec i = dec j"
  show "i = j"
  proof (cases "i < 0"; cases "j < 0")
    assume "i < 0" "j < 0"
    with eq show ?thesis by (simp add: dec_def dec_nat_inj)
  next
    assume "i < 0" "\<not> j < 0"
    with eq no [of "nat (- i)" "nat j"] show ?thesis by (simp add: dec_def)
  next
    assume "\<not> i < 0" "j < 0"
    with eq no [of "nat (- j)" "nat i"] show ?thesis by (simp add: dec_def)
  next
    assume "\<not> i < 0" "\<not> j < 0"
    with eq show ?thesis by (simp add: dec_def dec_nat_inj)
  qed
qed simp

lemma cut_at_separator:
  "x @ c # a = y @ c # b \<Longrightarrow> c \<notin> set x \<Longrightarrow> c \<notin> set y \<Longrightarrow> x = y \<and> a = b"
proof (induction x arbitrary: y)
  case Nil
  then show ?case by (cases y) auto
next
  case (Cons z zs)
  then show ?case by (cases y) auto
qed


lemma minted_shape:
  "toolCallIdOf r s n = ''call_'' @ (dec (run_turn r) @ CHR ''_'' # (dec (run_ordinal r) @ CHR ''_'' # (dec (int s) @ CHR ''_'' # dec (int n))))"
  "plannedCallIdOf r n = ''call_'' @ (dec (run_turn r) @ CHR ''_'' # (dec (run_ordinal r) @ CHR ''_'' # (CHR ''p'' # dec (int n))))"
  by (simp_all add: toolCallIdOf_def plannedCallIdOf_def runPrefixOf_def)

lemma toolCallIdOf_inj:
  "toolCallIdOf r s n = toolCallIdOf r' s' n' \<longleftrightarrow>
     run_turn r = run_turn r' \<and> run_ordinal r = run_ordinal r' \<and> s = s' \<and> n = n'"
proof
  assume "toolCallIdOf r s n = toolCallIdOf r' s' n'"
  then have "dec (run_turn r) @ CHR ''_'' # (dec (run_ordinal r) @ CHR ''_'' # (dec (int s) @ CHR ''_'' # dec (int n)))
      = dec (run_turn r') @ CHR ''_'' # (dec (run_ordinal r') @ CHR ''_'' # (dec (int s') @ CHR ''_'' # dec (int n')))"
    unfolding minted_shape by (rule same_append_eq [THEN iffD1])
  note one = cut_at_separator [OF this dec_no_underscore dec_no_underscore]
  note two = cut_at_separator [OF one [THEN conjunct2] dec_no_underscore dec_no_underscore]
  note three = cut_at_separator [OF two [THEN conjunct2] dec_no_underscore dec_no_underscore]
  from one two three show "run_turn r = run_turn r' \<and> run_ordinal r = run_ordinal r' \<and> s = s' \<and> n = n'" by simp
next
  assume "run_turn r = run_turn r' \<and> run_ordinal r = run_ordinal r' \<and> s = s' \<and> n = n'"
  then show "toolCallIdOf r s n = toolCallIdOf r' s' n'" by (simp add: minted_shape)
qed

lemma planned_not_minted: "toolCallIdOf r s n \<noteq> plannedCallIdOf r' n'"
proof
  assume "toolCallIdOf r s n = plannedCallIdOf r' n'"
  then have "dec (run_turn r) @ CHR ''_'' # (dec (run_ordinal r) @ CHR ''_'' # (dec (int s) @ CHR ''_'' # dec (int n)))
      = dec (run_turn r') @ CHR ''_'' # (dec (run_ordinal r') @ CHR ''_'' # (CHR ''p'' # dec (int n')))"
    unfolding minted_shape by (rule same_append_eq [THEN iffD1])
  note one = cut_at_separator [OF this dec_no_underscore dec_no_underscore]
  note two = cut_at_separator [OF one [THEN conjunct2] dec_no_underscore dec_no_underscore]
  from two have eq: "dec (int s) @ CHR ''_'' # dec (int n) = CHR ''p'' # dec (int n')" by simp
  have "dec (int s) \<noteq> []" by (simp add: dec_def)
  with eq have "CHR ''p'' \<in> set (dec (int s))" by (cases "dec (int s)") auto
  then show False by simp
qed

lemma mintedId_inj [simp]: "mintedId run step m = mintedId run step n \<longleftrightarrow> m = n"
  by (cases run) (auto simp: mintedId_def toolCallIdOf_inj)

lemma mintedId_not_Nil [simp]: "mintedId run step n \<noteq> []"
  by (cases run) (simp_all add: mintedId_def minted_shape)

text \<open>The parts after the mint: the same parts in the same order, with the ids of the two tables.\<close>

lemma callIdsOf_simps [simp]:
  "length (callIdsOf idOf calls) = length calls"
  "n < length calls \<Longrightarrow> callIdsOf idOf calls ! n = (if rc_id (calls ! n) = [] then idOf n else rc_id (calls ! n))"
  by (simp_all add: callIdsOf_def nth_enumerate_eq)

lemma resultIdsOf_simps [simp]:
  "length (resultIdsOf idOf calls results) = length results"
  "n < length results \<Longrightarrow> resultIdsOf idOf calls results ! n =
     (if rr_id (results ! n) \<noteq> [] then rr_id (results ! n)
      else if orderOf results n < length (idlessOf idOf calls (rr_name (results ! n)))
           then idlessOf idOf calls (rr_name (results ! n)) ! orderOf results n
           else idOf (length calls + n))"
  by (simp_all add: resultIdsOf_def nth_enumerate_eq Let_def)

definition withCallId :: "string list \<Rightarrow> nat \<times> response_call \<Rightarrow> response_call" where
  "withCallId ids nc = (case nc of (n, c) \<Rightarrow> if rc_id c = [] then c\<lparr>rc_id := ids ! n\<rparr> else c)"

definition withResultId :: "string list \<Rightarrow> nat \<times> response_result \<Rightarrow> response_result" where
  "withResultId ids nr = (case nr of (n, r) \<Rightarrow> if rr_id r = [] then r\<lparr>rr_id := ids ! n\<rparr> else r)"

lemma idStep_run:
  "case foldl (idStep idOf calls results) (i, j, out) ps of (i', j', out') \<Rightarrow>
     callParts out' = callParts out @ map (withCallId (callIdsOf idOf calls)) (enumerate i (callParts ps))
     \<and> resultParts out' = resultParts out @ map (withResultId (resultIdsOf idOf calls results)) (enumerate j (resultParts ps))
     \<and> length out' = length out + length ps"
proof (induction ps arbitrary: i j out)
  case Nil
  then show ?case by simp
next
  case (Cons p ps)
  then show ?case
    by (cases p) (fastforce simp: idStep_def withCallId_def withResultId_def split: prod.splits)+
qed

lemma withToolCallIds_parts:
  shows "callParts (withToolCallIds content step run)
      = map (withCallId (callIdsOf (mintedId run step) (callParts content))) (enumerate 0 (callParts content))"
    and "resultParts (withToolCallIds content step run)
      = map (withResultId (resultIdsOf (mintedId run step) (callParts content) (resultParts content))) (enumerate 0 (resultParts content))"
    and "length (withToolCallIds content step run) = length content"
  using idStep_run [where idOf = "mintedId run step" and calls = "callParts content" and results = "resultParts content"
      and i = 0 and j = 0 and out = "[]" and ps = content]
  unfolding withToolCallIds_def Let_def by (auto split: prod.splits)

lemma withToolCallIds_nth:
  "length (callParts (withToolCallIds content step run)) = length (callParts content)"
  "length (resultParts (withToolCallIds content step run)) = length (resultParts content)"
  "n < length (callParts content) \<Longrightarrow> rc_id (callParts (withToolCallIds content step run) ! n)
     = callIdsOf (mintedId run step) (callParts content) ! n"
  "m < length (resultParts content) \<Longrightarrow> rr_id (resultParts (withToolCallIds content step run) ! m)
     = resultIdsOf (mintedId run step) (callParts content) (resultParts content) ! m"
  by (simp_all add: withToolCallIds_parts nth_enumerate_eq withCallId_def withResultId_def)


text \<open>The calls of one kind, in order: the \<open>k\<close>-th is the one with \<open>k\<close> of its kind before it.\<close>

lemma nth_filter_enumerate:
  assumes "m < length xs" "P (xs ! m)"
  shows "length (filter P (take m xs)) < length (filter (\<lambda>(n, x). P x) (enumerate 0 xs))
      \<and> filter (\<lambda>(n, x). P x) (enumerate 0 xs) ! length (filter P (take m xs)) = (m, xs ! m)"
proof -
  have len: "length (filter (\<lambda>(n, x). P x) (enumerate k ys)) = length (filter P ys)" for k ys
    by (induction ys arbitrary: k) auto
  have "enumerate 0 xs = enumerate 0 (take m xs @ xs ! m # drop (Suc m) xs)"
    using id_take_nth_drop [OF assms(1)] by simp
  also have "\<dots> = enumerate 0 (take m xs) @ (m, xs ! m) # enumerate (Suc m) (drop (Suc m) xs)"
    using assms(1) by (simp add: enumerate_append_eq)
  finally show ?thesis using assms(2) by (simp add: len nth_append)
qed

abbreviation idless_of :: "string \<Rightarrow> response_call \<Rightarrow> bool" where
  "idless_of tool c \<equiv> rc_id c = [] \<and> rc_name c = tool"

definition callOrderOf :: "response_call list \<Rightarrow> nat \<Rightarrow> nat" where
  "callOrderOf calls m = length (filter (idless_of (rc_name (calls ! m))) (take m calls))"

lemma idless_nth:
  assumes "m < length calls" "idless_of tool (calls ! m)"
  shows "callOrderOf calls m < length (idlessOf idOf calls tool)"
    and "idlessOf idOf calls tool ! callOrderOf calls m = idOf m"
  using nth_filter_enumerate [OF assms(1), of "idless_of tool"] assms
  unfolding idlessOf_def callOrderOf_def by auto

lemma idless_is_nth:
  assumes "k < length (idlessOf idOf calls tool)"
  shows "\<exists>m < length calls. idless_of tool (calls ! m) \<and> callOrderOf calls m = k \<and> idlessOf idOf calls tool ! k = idOf m"
proof -
  let ?f = "filter (\<lambda>(n, c). idless_of tool c) (enumerate 0 calls)"
  have k: "k < length ?f" using assms by (simp add: idlessOf_def)
  obtain m c where mc: "?f ! k = (m, c)" by force
  with k have "(m, c) \<in> set ?f" by (metis nth_mem)
  then have m: "m < length calls" "calls ! m = c" "idless_of tool c" by (auto simp: in_set_enumerate_eq)
  from nth_filter_enumerate [OF m(1), of "idless_of tool"] m mc
  have "length (filter (idless_of tool) (take m calls)) < length ?f"
    and "?f ! length (filter (idless_of tool) (take m calls)) = ?f ! k" by auto
  moreover have "distinct ?f" by (simp add: distinct_enumerate)
  ultimately have "length (filter (idless_of tool) (take m calls)) = k" using k nth_eq_iff_index_eq by blast
  with m have "callOrderOf calls m = k" by (simp add: callOrderOf_def)
  with m idless_nth(2) [of m calls tool idOf] show ?thesis by auto
qed

lemma distinct_filter_nth_less:
  assumes "distinct (filter P xs)" "i < j" "j < length xs" "P (xs ! i)"
  shows "xs ! i \<noteq> xs ! j"
proof
  assume eq: "xs ! i = xs ! j"
  have "xs ! i \<in> set (filter P (take j xs))" using assms by (auto simp: in_set_conv_nth)
  moreover have "xs ! j \<in> set (filter P (drop j xs))" using assms eq
    by (simp flip: Cons_nth_drop_Suc [OF assms(3)])
  moreover have "distinct (filter P (take j xs) @ filter P (drop j xs))"
    using assms(1) by (simp flip: filter_append)
  ultimately show False using eq by auto
qed

lemma distinct_filter_nth:
  "distinct (filter P xs) \<Longrightarrow> i < length xs \<Longrightarrow> j < length xs \<Longrightarrow> P (xs ! i) \<Longrightarrow> xs ! i = xs ! j \<Longrightarrow> i = j"
  by (metis distinct_filter_nth_less linorder_neqE_nat)



definition sampleCall :: "string \<Rightarrow> string \<Rightarrow> response_part" where
  "sampleCall i tool = CallPart \<lparr>rc_id = i, rc_name = tool, rc_params = Some (JObj []), rc_executed = False, rc_metadata = []\<rparr>"

definition sampleResult :: "string \<Rightarrow> string \<Rightarrow> response_part" where
  "sampleResult i tool = ResultPart \<lparr>rr_id = i, rr_name = tool, rr_result = JNull, rr_encoded = None, rr_failure = False,
     rr_preliminary = False, rr_executed = False, rr_metadata = []\<rparr>"

definition sampleContent :: "response_part list" where
  "sampleContent = [sampleCall [] ''read'', sampleCall ''own'' ''read'', sampleCall [] ''read'', sampleResult [] ''read'',
     sampleResult ''own'' ''read'', sampleResult [] ''read'', sampleResult [] ''write'']"

lemma minted_not_own: "mintedId None step n \<noteq> CHR ''o'' # xs"
  by (simp add: mintedId_def)



text \<open>
  The ids minted for id-less calls tell a session's calls apart: two of them are the same only for
  the same turn, run, step and place, and none is an id of a host-planned call.
\<close>
theorem minted_ids_name_one_call:
  "(toolCallIdOf r s n = toolCallIdOf r' s' n' \<longleftrightarrow>
      run_turn r = run_turn r' \<and> run_ordinal r = run_ordinal r' \<and> s = s' \<and> n = n')
   \<and> toolCallIdOf r s n \<noteq> plannedCallIdOf r'' n''"
  by (intro conjI toolCallIdOf_inj planned_not_minted)

section \<open>A response that failed\<close>

definition metadataOf :: "response_part \<Rightarrow> json_fields" where
  "metadataOf p = (case p of TextPart t m \<Rightarrow> m | ReasoningPart t m \<Rightarrow> m | CallPart c \<Rightarrow> rc_metadata c
     | ResultPart r \<Rightarrow> rr_metadata r | FinishPart why u m \<Rightarrow> m | _ \<Rightarrow> [])"

definition partError :: "response_part \<Rightarrow> ai_error option" where
  "partError p = (case p of ErrorPart e \<Rightarrow> Some e | _ \<Rightarrow> None)"

definition explicitPartFailure :: "response_part \<Rightarrow> model_failure_kind option" where
  "explicitPartFailure p = or_else (stampIn (metadataOf p)) (Option.bind (partError p) explicitFailure)"

definition fallbackPartFailure :: "response_part \<Rightarrow> model_failure_kind option" where
  "fallbackPartFailure p = Option.bind (partError p) (\<lambda>e. neutralFailure (ai_reason e))"

definition firstFailure :: "(response_part \<Rightarrow> model_failure_kind option) \<Rightarrow> response_part list \<Rightarrow> model_failure_kind option" where
  "firstFailure reads ps = (case concat (map (\<lambda>p. toList (reads p)) ps) of [] \<Rightarrow> None | k # ks \<Rightarrow> Some k)"

definition contentFailureOf :: "response_part list \<Rightarrow> model_failure_kind option" where
  "contentFailureOf ps = or_else (firstFailure explicitPartFailure ps) (firstFailure fallbackPartFailure ps)"

section \<open>The messages of a response\<close>

definition withoutEngine :: "json_fields \<Rightarrow> json_fields" where
  "withoutEngine fs = filter (\<lambda>(k, v). k \<noteq> ENGINE_KEY) fs"

definition hasKeys :: "json_fields \<Rightarrow> bool" where
  "hasKeys fs \<longleftrightarrow> length fs > 0"

definition providerOptionsOf :: "json_fields \<Rightarrow> json option" where
  "providerOptionsOf metadata =
     (let blob = withoutEngine metadata in if hasKeys blob then Some (JObj blob) else None)"

definition isSettled :: "response_part \<Rightarrow> bool" where
  "isSettled p = (case p of ResultPart r \<Rightarrow> \<not> rr_preliminary r | _ \<Rightarrow> True)"

definition encodedOf :: "response_result \<Rightarrow> json" where
  "encodedOf r = get_or_else (rr_result r) (rr_encoded r)"

definition toolResultOf :: "response_result \<Rightarrow> tool_result_part" where
  "toolResultOf r =
     \<lparr>result_id = rr_id r, result_tool = rr_name r, result_output = encodedOf r, result_isError = Some (rr_failure r),
      result_providerExecuted = (if rr_executed r then Some True else None), result_media = None,
      result_options = providerOptionsOf (rr_metadata r)\<rparr>"

text \<open>\<open>params ?? {}\<close>: a missing or null value is the empty object.\<close>

definition paramsOf :: "response_call \<Rightarrow> json" where
  "paramsOf c = get_or_else (JObj []) (opt_filter (\<lambda>j. j \<noteq> JNull) (rc_params c))"

definition assistantPartsOf :: "response_part \<Rightarrow> assistant_part list" where
  "assistantPartsOf p =
     (case p of
        TextPart t meta \<Rightarrow> [PText t (providerOptionsOf meta)]
      | ReasoningPart t meta \<Rightarrow> [PReasoning t (providerOptionsOf meta)]
      | CallPart c \<Rightarrow> [PCall \<lparr>call_id = rc_id c, call_tool = rc_name c, call_input = paramsOf c,
            call_providerExecuted = Some (rc_executed c), call_options = providerOptionsOf (rc_metadata c)\<rparr>]
      | ResultPart r \<Rightarrow> if rr_executed r then [PResult (toolResultOf r)] else []
      | _ \<Rightarrow> [])"

definition toolPartsOf :: "response_part \<Rightarrow> tool_result_part list" where
  "toolPartsOf p = (case p of ResultPart r \<Rightarrow> if \<not> rr_executed r then [toolResultOf r] else [] | _ \<Rightarrow> [])"

definition responseToAgentMessages :: "response_part list \<Rightarrow> agent_message list" where
  "responseToAgentMessages content =
     (let parts = filter isSettled content;
          assistantParts = concat (map assistantPartsOf parts);
          toolParts = concat (map toolPartsOf parts)
      in (if length assistantParts > 0 then [AssistantMsg assistantParts None] else [])
         @ (if length toolParts > 0 then [ToolMsg toolParts None] else []))"

definition responseText :: "response_part list \<Rightarrow> string" where
  "responseText content = concat (map (\<lambda>p. case p of TextPart t meta \<Rightarrow> t | _ \<Rightarrow> []) content)"

record tool_call_summary =
  tcs_id :: string
  tcs_tool :: string
  tcs_args :: json

definition responseToolCalls :: "response_part list \<Rightarrow> tool_call_summary list" where
  "responseToolCalls content =
     concat (map (\<lambda>p. case p of CallPart c \<Rightarrow> [\<lparr>tcs_id = rc_id c, tcs_tool = rc_name c, tcs_args = paramsOf c\<rparr>] | _ \<Rightarrow> []) content)"

record tool_result_summary =
  trs_id :: string
  trs_tool :: string
  trs_ok :: bool
  trs_result :: json

definition responseToolResults :: "response_part list \<Rightarrow> tool_result_summary list" where
  "responseToolResults content =
     concat (map (\<lambda>p. case p of ResultPart r \<Rightarrow>
            if \<not> rr_preliminary r
            then [\<lparr>trs_id = rr_id r, trs_tool = rr_name r, trs_ok = (\<not> rr_failure r), trs_result = rr_result r\<rparr>] else []
          | _ \<Rightarrow> []) content)"

section \<open>A response's usage and model\<close>

definition carriesUsage :: "response_usage \<Rightarrow> bool" where
  "carriesUsage u \<longleftrightarrow> ru_input u \<noteq> None \<or> ru_output u \<noteq> None"

definition finishUsages :: "response_part list \<Rightarrow> response_usage list" where
  "finishUsages content = concat (map (\<lambda>p. case p of FinishPart why u meta \<Rightarrow> [u] | _ \<Rightarrow> []) content)"

text \<open>The first argument of \<open>extractUsage\<close> is the response's usage as decoded, none when it does not decode.\<close>

definition extractUsage :: "response_usage option \<Rightarrow> response_part list \<Rightarrow> token_usage" where
  "extractUsage usage content =
     (let finishes = finishUsages content;
          finish = or_else (find carriesUsage finishes) (if finishes = [] then None else Some (hd finishes));
          reads = toList usage @ toList finish;
          first = (\<lambda>count. Option.bind (find (\<lambda>u. count u \<noteq> None) reads) count)
      in tokenUsage (get_or_else 0 (first ru_input)) (get_or_else 0 (first ru_output))
           (first ru_cacheRead) (first ru_cacheWrite) (first ru_reasoning))"

lemma extractUsage_ok [usage_intros]: "usage_ok (extractUsage usage content)"
  by (simp add: extractUsage_def Let_def tokenUsage_ok)

text \<open>An object spread: the fields of \<open>gs\<close> over those of \<open>fs\<close>, a replaced field in its old place.\<close>

definition spread :: "json_fields \<Rightarrow> json_fields \<Rightarrow> json_fields" where
  "spread fs gs = foldl (\<lambda>acc (k, v). AList.update k v acc) fs gs"

definition mergeEngineStamp :: "json_fields \<Rightarrow> json_fields \<Rightarrow> json_fields" where
  "mergeEngineStamp metadata stamp =
     spread metadata [(ENGINE_KEY, JObj (spread (case map_of metadata ENGINE_KEY of Some (JObj fs) \<Rightarrow> fs | _ \<Rightarrow> []) stamp))]"

definition modelOfStamp :: "json option \<Rightarrow> string option" where
  "modelOfStamp stamp = (case stamp of Some (JObj fs) \<Rightarrow> opt_filter (\<lambda>s. s \<noteq> []) (jsonStr (map_of fs ''model'')) | _ \<Rightarrow> None)"

definition responseModelOf :: "response_part list \<Rightarrow> string option" where
  "responseModelOf content =
     (case find (\<lambda>p. case p of FinishPart why u meta \<Rightarrow> True | _ \<Rightarrow> False) content of
        Some (FinishPart why u meta) \<Rightarrow> modelOfStamp (map_of meta ENGINE_KEY)
      | _ \<Rightarrow> None)"

definition usageFields :: "token_usage \<Rightarrow> json_fields" where
  "usageFields u = [(''inputTokens'', JNum (tu_input u)), (''outputTokens'', JNum (tu_output u)), (''totalTokens'', JNum (tu_total u)),
     (''cacheReadTokens'', JNum (tu_cacheRead u)), (''cacheWriteTokens'', JNum (tu_cacheWrite u)), (''reasoningTokens'', JNum (tu_reasoning u))]"

definition isAssistantMsg :: "agent_message \<Rightarrow> bool" where
  "isAssistantMsg m = (case m of AssistantMsg ps opts \<Rightarrow> True | _ \<Rightarrow> False)"

definition optionFields :: "json option \<Rightarrow> json_fields" where
  "optionFields opts = (case opts of Some (JObj fs) \<Rightarrow> fs | _ \<Rightarrow> [])"

definition withUsageOnAssistant :: "agent_message list \<Rightarrow> token_usage \<Rightarrow> string option \<Rightarrow> agent_message list" where
  "withUsageOnAssistant messages usage model =
     (let at = findIndex isAssistantMsg messages;
          stamp = usageFields usage @ (case model of None \<Rightarrow> [] | Some i \<Rightarrow> [(''model'', JStr i)])
      in map (\<lambda>(i, m). case m of
             AssistantMsg ps opts \<Rightarrow> if Some i \<noteq> at then m else AssistantMsg ps (Some (JObj (mergeEngineStamp (optionFields opts) stamp)))
           | _ \<Rightarrow> m) (enumerate 0 messages))"

text \<open>The usage read back from a stored message: its stamp's counts, the later ones 0 when missing.\<close>

definition decodeUsage :: "json option \<Rightarrow> token_usage option" where
  "decodeUsage j =
     (case j of Some (JObj fs) \<Rightarrow>
        (case (jsonNum (map_of fs ''inputTokens''), jsonNum (map_of fs ''outputTokens''), jsonNum (map_of fs ''totalTokens''),
               jsonNum (map_of fs ''cacheReadTokens'')) of
           (Some i, Some out, Some tot, Some rd) \<Rightarrow>
             (let later = (\<lambda>k. case map_of fs k of None \<Rightarrow> Some 0 | Some v \<Rightarrow> jsonNum (Some v))
              in case (later ''cacheWriteTokens'', later ''reasoningTokens'') of
                   (Some wr, Some rs) \<Rightarrow> Some \<lparr>tu_input = i, tu_output = out, tu_total = tot, tu_cacheRead = rd,
                       tu_cacheWrite = wr, tu_reasoning = rs\<rparr>
                 | _ \<Rightarrow> None)
         | _ \<Rightarrow> None)
      | _ \<Rightarrow> None)"

definition assistantUsage :: "agent_message \<Rightarrow> token_usage option" where
  "assistantUsage m = (case m of AssistantMsg ps opts \<Rightarrow> decodeUsage (map_of (optionFields opts) ENGINE_KEY) | _ \<Rightarrow> None)"

definition assistantModel :: "agent_message \<Rightarrow> string option" where
  "assistantModel m = (case m of AssistantMsg ps opts \<Rightarrow> modelOfStamp (map_of (optionFields opts) ENGINE_KEY) | _ \<Rightarrow> None)"


lemma map_of_spread: "map_of (spread fs gs) = foldl (\<lambda>m (k, v). m(k \<mapsto> v)) (map_of fs) gs"
  by (induction gs arbitrary: fs) (auto simp: spread_def update_conv')

lemma map_of_mergeEngineStamp:
  "map_of (mergeEngineStamp metadata stamp) k =
     (if k = ENGINE_KEY then Some (JObj (spread (case map_of metadata ENGINE_KEY of Some (JObj fs) \<Rightarrow> fs | _ \<Rightarrow> []) stamp))
      else map_of metadata k)"
  by (simp add: mergeEngineStamp_def map_of_spread)

lemma decodeUsage_stamp: "decodeUsage (Some (JObj (spread fs (usageFields u @ toList (map_option (\<lambda>i. (''model'', JStr i)) model))))) = Some u"
  by (cases model) (simp_all add: decodeUsage_def map_of_spread usageFields_def jsonNum_def Let_def)

lemma modelOfStamp_stamp:
  "i \<noteq> [] \<Longrightarrow> modelOfStamp (Some (JObj (spread fs (usageFields u @ [(''model'', JStr i)])))) = Some i"
  by (simp add: modelOfStamp_def map_of_spread usageFields_def jsonStr_def)

text \<open>
  The usage and model stamped on a response's first assistant message are read back from it
  exactly; its content, its other provider options and every other message stay as they were.
\<close>
theorem stamped_usage_is_read_back:
  assumes "findIndex isAssistantMsg ms = Some i" "ms ! i = AssistantMsg ps opts"
  shows "\<exists>fs. withUsageOnAssistant ms u model = ms[i := AssistantMsg ps (Some (JObj fs))]
           \<and> assistantUsage (AssistantMsg ps (Some (JObj fs))) = Some u
           \<and> (\<forall>m. model = Some m \<and> m \<noteq> [] \<longrightarrow> assistantModel (AssistantMsg ps (Some (JObj fs))) = Some m)
           \<and> (\<forall>k. k \<noteq> ENGINE_KEY \<longrightarrow> map_of fs k = map_of (optionFields opts) k)"
proof -
  define stamp where "stamp = usageFields u @ toList (map_option (\<lambda>i. (''model'', JStr i)) model)"
  define fs where "fs = mergeEngineStamp (optionFields opts) stamp"
  have i: "i < length ms" using assms(1) by (auto simp: findIndex_def Let_def split: if_splits)
  have stamp: "usageFields u @ (case model of None \<Rightarrow> [] | Some i \<Rightarrow> [(''model'', JStr i)]) = stamp"
    by (simp add: stamp_def split: option.split)
  have "withUsageOnAssistant ms u model = ms[i := AssistantMsg ps (Some (JObj fs))]"
  proof (rule nth_equalityI)
    fix j assume "j < length (withUsageOnAssistant ms u model)"
    then have "j < length ms" by (simp add: withUsageOnAssistant_def)
    then show "withUsageOnAssistant ms u model ! j = ms[i := AssistantMsg ps (Some (JObj fs))] ! j"
      using assms i by (auto simp: withUsageOnAssistant_def nth_enumerate_eq stamp fs_def nth_list_update split: agent_message.split)
  qed (simp add: withUsageOnAssistant_def)
  moreover have "assistantUsage (AssistantMsg ps (Some (JObj fs))) = Some u"
    by (simp add: assistantUsage_def optionFields_def fs_def map_of_mergeEngineStamp stamp_def decodeUsage_stamp)
  moreover have "\<forall>m. model = Some m \<and> m \<noteq> [] \<longrightarrow> assistantModel (AssistantMsg ps (Some (JObj fs))) = Some m"
    by (auto simp: assistantModel_def optionFields_def fs_def map_of_mergeEngineStamp stamp_def modelOfStamp_stamp)
  moreover have "\<forall>k. k \<noteq> ENGINE_KEY \<longrightarrow> map_of fs k = map_of (optionFields opts) k"
    by (simp add: fs_def map_of_mergeEngineStamp)
  ultimately show ?thesis by blast
qed

lemma stamped_usage_is_read_back_witness:
  "let ms = [UserMsg (ContentText ''hi'') None, AssistantMsg [PText ''hello'' None] (Some (JObj [(''openai'', JStr ''x'')]))];
       u = tokenUsage 12 5 (Some 3) None (Some 9)
   in assistantUsage (withUsageOnAssistant ms u (Some ''m'') ! 1) = Some u
      \<and> assistantModel (withUsageOnAssistant ms u (Some ''m'') ! 1) = Some ''m''"
proof -
  let ?ms = "[UserMsg (ContentText ''hi'') None, AssistantMsg [PText ''hello'' None] (Some (JObj [(''openai'', JStr ''x'')]))]"
  have "findIndex isAssistantMsg ?ms = Some 1" by code_simp
  from stamped_usage_is_read_back [OF this, of "[PText ''hello'' None]" "Some (JObj [(''openai'', JStr ''x'')])"
      "tokenUsage 12 5 (Some 3) None (Some 9)" "Some ''m''"]
  show ?thesis unfolding Let_def by auto
qed

end
