(* ===== verification/ResponseGate.thy ===== *)
theory ResponseGate
  imports Responses MemoryRender
begin

text \<open>
  Whether a model's response may run (\<open>plugin-agent-loop/src/response-gate.entity.functions.ts\<close>): the
  verdict on its finish reason, the check of each of its calls, and the words the model is answered
  with when calls do not run; with the correctives of \<open>plugin-agent-loop/src/loop.ts\<close> that quote
  them. A tool is its name with the decoder of its parameters (\<open>effect\<close>'s \<open>Schema\<close>), which answers
  with a report when they do not decode; a tool whose parameters are no schema has none.
\<close>

section \<open>The verdict\<close>

definition isWhole :: "finish_reason \<Rightarrow> bool" where
  "isWhole why \<longleftrightarrow> why \<in> {FStop, FToolCalls, FPause}"

datatype verdict = Whole | Cut finish_reason

definition verdictOf :: "finish_reason \<Rightarrow> bool \<Rightarrow> verdict" where
  "verdictOf why callsToRun =
     (if isWhole why \<or> (why = FUnknown \<and> \<not> callsToRun) then Whole else Cut why)"

fun cutWords :: "finish_reason \<Rightarrow> string" where
  "cutWords FLength = ''reached the output limit''"
| "cutWords FContentFilter = ''was stopped by the provider's content filter''"
| "cutWords FError = ''was cut off by an error at the provider''"
| "cutWords FOther = ''was cut short for a reason the provider did not name''"
| "cutWords FUnknown = ''ended before the provider said it was complete''"
| "cutWords why = ''undefined''"

definition failureJson :: "string \<Rightarrow> string \<Rightarrow> json" where
  "failureJson error message = JObj [(''error'', JStr error), (''message'', JStr message)]"

definition replyCutFailure :: "finish_reason \<Rightarrow> json" where
  "replyCutFailure why = failureJson ''ReplyCut''
     (''Your reply '' @ cutWords why @ '', so this call was not run. Call it again if you still need it.'')"

definition MAX_CUT_CORRECTIVES :: nat where
  "MAX_CUT_CORRECTIVES = 2"

definition lengthCorrective :: "bool \<Rightarrow> string" where
  "lengthCorrective callsToRun = hostNote (if callsToRun
     then ''your previous reply reached the output limit and was cut short, so the tool calls it made were not run: their results say so. ''
       @ ''Call the tools you still need again, fewer in one reply and with less text before them.''
     else ''your previous reply reached the output limit and was cut short. Continue from where it stopped, in replies short enough to finish.'')"

definition truncatedMessage :: "finish_reason \<Rightarrow> nat \<Rightarrow> nat \<Rightarrow> string" where
  "truncatedMessage why step cutsInARow =
     (if why = FLength
      then ''the model's replies reached the output limit '' @ dec (int cutsInARow) @ '' times in a row, the last at step ''
        @ dec (int step) @ '', after '' @ dec (int MAX_CUT_CORRECTIVES) @ '' correctives''
      else ''the model's reply at step '' @ dec (int step) @ '' '' @ cutWords why)"

section \<open>The check of each call\<close>

datatype malformed_call =
    NotFound string
  | Invalid string string
  | DuplicateId string

type_synonym tool_decoder = "(json option \<Rightarrow> string option) option"

type_synonym step_tools = "(string \<times> tool_decoder) list"

definition checkCall :: "step_tools \<Rightarrow> response_call list \<Rightarrow> response_call \<Rightarrow> malformed_call option" where
  "checkCall tools earlier c =
     (if \<exists>e \<in> set earlier. rc_id e = rc_id c then Some (DuplicateId (rc_name c))
      else (case map_of tools (rc_name c) of
              None \<Rightarrow> Some (NotFound (rc_name c))
            | Some None \<Rightarrow> None
            | Some (Some decode) \<Rightarrow> map_option (Invalid (rc_name c)) (decode (rc_params c))))"

definition callRejections :: "response_call list \<Rightarrow> step_tools \<Rightarrow> malformed_call option list" where
  "callRejections calls tools = map (\<lambda>(n, c). checkCall tools (take n calls) c) (enumerate 0 calls)"

definition malformedCall :: "response_call list \<Rightarrow> step_tools \<Rightarrow> malformed_call option" where
  "malformedCall calls tools = Option.bind (find (\<lambda>r. r \<noteq> None) (callRejections calls tools)) (\<lambda>r. r)"

fun isRejectedCall :: "malformed_call \<Rightarrow> bool" where
  "isRejectedCall (DuplicateId t) = False"
| "isRejectedCall _ = True"

definition QUOTE_CHARS :: int where
  "QUOTE_CHARS = 600"

fun rejectedCallFailure :: "malformed_call \<Rightarrow> string list \<Rightarrow> json" where
  "rejectedCallFailure (NotFound tool) tools = failureJson ''ToolNotFound''
     (''This call was not run: it names a tool you do not have; the name follows, as you wrote it. ''
      @ (if tools = [] then ''You can call no tools now.'' else ''The tools you can call are: '' @ join '', '' tools @ ''.'')
      @ [nl, nl] @ framed ''tool-name'' (clipTo tool QUOTE_CHARS))"
| "rejectedCallFailure (Invalid tool description) tools = failureJson ''InvalidParameters''
     (''This call was not run: its parameters do not match the schema of '' @ tool
      @ ''; what did not match follows, and it may quote your call. Call '' @ tool
      @ '' again with its parameters as its schema gives them if you still need it.''
      @ [nl, nl] @ framed ''parameter-errors'' (clipTo description QUOTE_CHARS))"
| "rejectedCallFailure (DuplicateId tool) tools = JNull"

lemma callRejections_simps [simp]:
  "length (callRejections calls tools) = length calls"
  "n < length calls \<Longrightarrow> callRejections calls tools ! n = checkCall tools (take n calls) (calls ! n)"
  by (simp_all add: callRejections_def nth_enumerate_eq)

lemma callRejections_Nil [simp]: "callRejections [] tools = []"
  by (simp add: callRejections_def)

lemma checkCall_None:
  "checkCall tools earlier c = None \<longleftrightarrow>
     (\<forall>e \<in> set earlier. rc_id e \<noteq> rc_id c)
     \<and> (\<exists>d. map_of tools (rc_name c) = Some d \<and> (\<forall>decode. d = Some decode \<longrightarrow> decode (rc_params c) = None))"
  by (auto simp: checkCall_def split: option.splits)

text \<open>A response none of whose calls is malformed has distinct ids, each call for a tool of the step that decodes.\<close>

lemma no_malformed_call:
  assumes "malformedCall calls tools = None"
  shows "distinct (map rc_id calls)"
    and "c \<in> set calls \<Longrightarrow> \<exists>d. map_of tools (rc_name c) = Some d \<and> (\<forall>decode. d = Some decode \<longrightarrow> decode (rc_params c) = None)"
proof -
  have none: "r = None" if "r \<in> set (callRejections calls tools)" for r
  proof (rule ccontr)
    assume "r \<noteq> None"
    with find_Some_ex [OF that, of "\<lambda>r. r \<noteq> None"] obtain y where "find (\<lambda>r. r \<noteq> None) (callRejections calls tools) = Some y" by blast
    with assms find_SomeD [OF this] show False by (simp add: malformedCall_def)
  qed
  have check: "checkCall tools (take n calls) (calls ! n) = None" if "n < length calls" for n
  proof -
    from that have "callRejections calls tools ! n \<in> set (callRejections calls tools)" by (intro nth_mem) simp
    from none [OF this] that show ?thesis by simp
  qed
  show "distinct (map rc_id calls)"
    unfolding distinct_conv_nth
  proof (intro allI impI)
    have less: "map rc_id calls ! i \<noteq> map rc_id calls ! j" if "i < j" "j < length calls" for i j
    proof -
      have "calls ! i \<in> set (take j calls)" using that by (auto simp: in_set_conv_nth)
      with check [OF that(2)] that show ?thesis by (auto simp: checkCall_None)
    qed
    fix i j assume "i < length (map rc_id calls)" "j < length (map rc_id calls)" "i \<noteq> j"
    then show "map rc_id calls ! i \<noteq> map rc_id calls ! j" using less by (metis length_map linorder_neqE_nat)
  qed
  show "\<exists>d. map_of tools (rc_name c) = Some d \<and> (\<forall>decode. d = Some decode \<longrightarrow> decode (rc_params c) = None)" if "c \<in> set calls"
    using that check by (auto simp: in_set_conv_nth checkCall_None)
qed

section \<open>Correctives\<close>

definition DUPLICATE_CALL_IDS :: string where
  "DUPLICATE_CALL_IDS = ''multiple tool calls have the same pairing id''"

definition duplicateCallCorrective :: "string list \<Rightarrow> string" where
  "duplicateCallCorrective tools = hostNote
     (''your previous reply reused one id for multiple tool calls, so none ran. Reply again with a separate call for each action.''
      @ (if tools = [] then [] else '' The tools you can call are: '' @ join '', '' tools @ ''.''))"

definition replyAgain :: "string list \<Rightarrow> string" where
  "replyAgain tools = (if tools = [] then ''You can call no tools now: reply in plain text.''
     else ''The tools you can call are: '' @ join '', '' tools
       @ ''. Reply again with one of them, its parameters as its schema gives them, or in plain text if you are done.'')"

fun malformedCorrective :: "ai_reason \<Rightarrow> string list \<Rightarrow> string" where
  "malformedCorrective (ToolNotFoundError tool available) tools =
     hostNote (''your previous reply called a tool you do not have; its name follows, as you wrote it. '' @ replyAgain tools)
     @ [nl, nl] @ framed ''tool-name'' (clipTo tool QUOTE_CHARS)"
| "malformedCorrective (ToolParameterValidationError tool description) tools =
     hostNote (''your previous reply called '' @ tool
       @ '' with parameters that do not match its schema; what did not match follows, and it may quote your reply. '' @ replyAgain tools)
     @ [nl, nl] @ framed ''parameter-errors'' (clipTo description QUOTE_CHARS)"
| "malformedCorrective (InvalidOutputError description) tools =
     (if description = DUPLICATE_CALL_IDS then duplicateCallCorrective tools
      else hostNote (''your previous reply could not be decoded, which usually means a tool call's arguments were not valid JSON. ''
        @ replyAgain tools))"
| "malformedCorrective other tools = []"

definition INCOMPLETE_CORRECTIVE :: string where
  "INCOMPLETE_CORRECTIVE = hostNote
     (''the host reports that the required work is not complete, so a reply in text does not finish this turn. ''
      @ ''Complete it with the tools you can call; if it cannot be completed, use one of them that reports why, when there is one.'')"

definition DEGENERATE_REPEAT_NUDGE :: string where
  "DEGENERATE_REPEAT_NUDGE =
     ''You've called the same tool(s) and gotten the same result several times in '' @
     ''a row '' @ [emDash] @ '' you're looping without making progress. STOP repeating that call. '' @
     ''Take a DIFFERENT concrete action toward the task; if you're genuinely '' @
     ''stuck, say what's blocking you and stop.''"

definition DEGENERATE_LOOP_STOP :: string where
  "DEGENERATE_LOOP_STOP =
     ''[stopped: repeated the same tool call with no progress '' @ [emDash] @ '' the run was looping]''"

end
