(* ===== verification/StreamFold.thy ===== *)
theory StreamFold
  imports Responses
begin

text \<open>
  The fold of a streamed response into its settled shape
  (\<open>core/src/internal/stream-fold.entity.functions.ts\<close>): text and reasoning arrive as chunks of
  blocks, each of which keeps the place it first arrived at; every other part passes through. What
  \<open>onDelta\<close> is called with is the list of deltas a part gives. The theorem states the fold by a
  reference that says for each place what it holds, however the blocks interleave.
\<close>

section \<open>The fold\<close>

datatype stream_channel = ChText | ChReasoning

datatype chunk_kind = ChunkStart | ChunkDelta | ChunkEnd

record chunk_part =
  cp_kind :: chunk_kind
  cp_channel :: stream_channel
  cp_id :: string
  cp_delta :: string
  cp_metadata :: json_fields

datatype stream_part = StreamChunk chunk_part | StreamPart response_part

datatype delta_channel = DeltaText | DeltaReasoning | DeltaParams

record stream_delta =
  sd_channel :: delta_channel
  sd_id :: string
  sd_delta :: string
  sd_tool :: "string option"

datatype fold_entry =
    EntryChunk stream_channel string string json_fields
  | EntryPart response_part

record fold_state =
  fs_entries :: "fold_entry list"
  fs_finish :: "finish_reason option"
  fs_usage :: "response_usage option"

record folded_turn =
  ft_content :: "response_part list"
  ft_finish :: finish_reason
  ft_usage :: "response_usage option"

definition mergeProvider :: "json_fields \<Rightarrow> string \<times> json \<Rightarrow> json_fields" where
  "mergeProvider merged pf = (case pf of (provider, now) \<Rightarrow>
     AList.update provider
       (case (map_of merged provider, now) of
          (Some (JObj before), JObj fs) \<Rightarrow> JObj (spread before fs)
        | _ \<Rightarrow> now) merged)"

definition mergeMetadata :: "json_fields \<Rightarrow> json_fields \<Rightarrow> json_fields" where
  "mergeMetadata earlier later = foldl mergeProvider earlier later"

definition isChunk :: "stream_channel \<Rightarrow> string \<Rightarrow> fold_entry \<Rightarrow> bool" where
  "isChunk channel i e = (case e of EntryChunk ch j t meta \<Rightarrow> ch = channel \<and> j = i | EntryPart p \<Rightarrow> False)"

definition extendChunk ::
  "fold_entry list \<Rightarrow> stream_channel \<Rightarrow> string \<Rightarrow> string \<Rightarrow> json_fields \<Rightarrow> fold_entry list" where
  "extendChunk entries channel i delta metadata =
     (let begun = (if \<exists>e \<in> set entries. isChunk channel i e then entries
                   else entries @ [EntryChunk channel i [] []])
      in map (\<lambda>e. if isChunk channel i e
              then (case e of EntryChunk ch j t meta \<Rightarrow> EntryChunk ch j (t @ delta) (mergeMetadata meta metadata)
                      | EntryPart p \<Rightarrow> e)
              else e) begun)"

definition entryParts :: "fold_entry \<Rightarrow> response_part list" where
  "entryParts e = (case e of
       EntryPart p \<Rightarrow> [p]
     | EntryChunk ch i t meta \<Rightarrow>
         if length t > 0 \<or> length meta > 0
         then [case ch of ChText \<Rightarrow> TextPart t meta | ChReasoning \<Rightarrow> ReasoningPart t meta] else [])"

definition settle_part :: "fold_state \<Rightarrow> response_part \<Rightarrow> fold_state" where
  "settle_part s p = s\<lparr>fs_entries := fs_entries s @ [EntryPart p]\<rparr>"

definition chunkDelta :: "chunk_part \<Rightarrow> string" where
  "chunkDelta c = (if cp_kind c = ChunkDelta then cp_delta c else [])"

fun deltaChannel :: "stream_channel \<Rightarrow> delta_channel" where
  "deltaChannel ChText = DeltaText"
| "deltaChannel ChReasoning = DeltaReasoning"

text \<open>One part of the stream: the deltas fanned out for it, in order, and the state after it.\<close>

definition foldPart :: "fold_state \<Rightarrow> stream_part \<Rightarrow> stream_delta list \<times> fold_state" where
  "foldPart s part =
     (case part of
        StreamChunk c \<Rightarrow>
          (let delta = chunkDelta c;
               s' = s\<lparr>fs_entries := extendChunk (fs_entries s) (cp_channel c) (cp_id c) delta (cp_metadata c)\<rparr>
           in (if length delta > 0
               then [\<lparr>sd_channel = deltaChannel (cp_channel c), sd_id = cp_id c, sd_delta = delta, sd_tool = None\<rparr>] else [], s'))
      | StreamPart (ParamsStartPart i tool) \<Rightarrow>
          ([\<lparr>sd_channel = DeltaParams, sd_id = i, sd_delta = [], sd_tool = Some tool\<rparr>], settle_part s (ParamsStartPart i tool))
      | StreamPart (ParamsDeltaPart i delta) \<Rightarrow>
          ([\<lparr>sd_channel = DeltaParams, sd_id = i, sd_delta = delta, sd_tool = None\<rparr>], settle_part s (ParamsDeltaPart i delta))
      | StreamPart (FinishPart why usage meta) \<Rightarrow>
          ([], \<lparr>fs_entries = fs_entries s @ [EntryPart (FinishPart why usage meta)],
                fs_finish = or_else (fs_finish s) (Some why),
                fs_usage = (if carriesUsage usage \<or> fs_usage s = None then Some usage else fs_usage s)\<rparr>)
      | StreamPart p \<Rightarrow> ([], settle_part s p))"

definition emptyFold :: fold_state where
  "emptyFold = \<lparr>fs_entries = [], fs_finish = None, fs_usage = None\<rparr>"

definition foldStep :: "stream_delta list \<times> fold_state \<Rightarrow> stream_part \<Rightarrow> stream_delta list \<times> fold_state" where
  "foldStep acc part = (case foldPart (snd acc) part of (ds, s) \<Rightarrow> (fst acc @ ds, s))"

definition foldedTurn :: "fold_state \<Rightarrow> folded_turn" where
  "foldedTurn s =
     \<lparr>ft_content = concat (map entryParts (fs_entries s)), ft_finish = get_or_else FUnknown (fs_finish s), ft_usage = fs_usage s\<rparr>"

definition foldStreamParts :: "stream_part list \<Rightarrow> stream_delta list \<times> folded_turn" where
  "foldStreamParts parts = (case foldl foldStep ([], emptyFold) parts of (ds, s) \<Rightarrow> (ds, foldedTurn s))"

section \<open>What each place of the settled content holds\<close>

text \<open>
  The places of the settled content: each block where its first chunk arrived, every other part at its
  own arrival (told apart by its position in the stream).
\<close>

datatype fold_slot = BlockSlot stream_channel string | PartSlot nat response_part

definition slotOf :: "nat \<times> stream_part \<Rightarrow> fold_slot" where
  "slotOf np = (case np of (n, p) \<Rightarrow> (case p of StreamChunk c \<Rightarrow> BlockSlot (cp_channel c) (cp_id c) | StreamPart q \<Rightarrow> PartSlot n q))"

definition slotsOfStream :: "stream_part list \<Rightarrow> fold_slot list" where
  "slotsOfStream parts = js_distinct (map slotOf (enumerate 0 parts))"

definition chunksOf :: "stream_channel \<Rightarrow> string \<Rightarrow> stream_part list \<Rightarrow> chunk_part list" where
  "chunksOf ch i parts = concat (map (\<lambda>p. case p of
       StreamChunk c \<Rightarrow> if cp_channel c = ch \<and> cp_id c = i then [c] else [] | StreamPart q \<Rightarrow> []) parts)"

definition slotEntry :: "stream_part list \<Rightarrow> fold_slot \<Rightarrow> fold_entry" where
  "slotEntry parts slot = (case slot of
       PartSlot n q \<Rightarrow> EntryPart q
     | BlockSlot ch i \<Rightarrow> EntryChunk ch i (concat (map chunkDelta (chunksOf ch i parts)))
         (foldl mergeMetadata [] (map cp_metadata (chunksOf ch i parts))))"

definition finishesOf :: "stream_part list \<Rightarrow> (finish_reason \<times> response_usage) list" where
  "finishesOf parts = concat (map (\<lambda>p. case p of StreamPart (FinishPart why u meta) \<Rightarrow> [(why, u)] | _ \<Rightarrow> []) parts)"

definition settledReference :: "stream_part list \<Rightarrow> folded_turn" where
  "settledReference parts =
     \<lparr>ft_content = concat (map (\<lambda>slot. entryParts (slotEntry parts slot)) (slotsOfStream parts)),
      ft_finish = (case finishesOf parts of [] \<Rightarrow> FUnknown | (why, u) # fs \<Rightarrow> why),
      ft_usage = (let us = map snd (finishesOf parts)
                  in or_else (at_last (filter carriesUsage us)) (if us = [] then None else Some (hd us)))\<rparr>"

definition deltasShown :: "stream_channel \<Rightarrow> string \<Rightarrow> stream_delta list \<Rightarrow> string" where
  "deltasShown ch i ds = concat (map sd_delta (filter (\<lambda>d. sd_channel d = deltaChannel ch \<and> sd_id d = i) ds))"

lemma js_distinct_snoc: "js_distinct (xs @ [x]) = (if x \<in> set xs then js_distinct xs else js_distinct xs @ [x])"
  by (simp add: js_distinct_def)


lemma chunksOf_snoc:
  "chunksOf ch i (ps @ [p]) = chunksOf ch i ps @ (case p of StreamChunk c \<Rightarrow> if cp_channel c = ch \<and> cp_id c = i then [c] else [] | StreamPart q \<Rightarrow> [])"
  by (simp add: chunksOf_def)

lemma slotsOfStream_snoc:
  "slotsOfStream (ps @ [p]) = (let s = slotOf (length ps, p) in
     if s \<in> set (slotsOfStream ps) then slotsOfStream ps else slotsOfStream ps @ [s])"
  by (simp add: slotsOfStream_def enumerate_append_eq js_distinct_snoc Let_def)

lemma chunksOf_absent: "BlockSlot ch i \<notin> set (slotsOfStream ps) \<Longrightarrow> chunksOf ch i ps = []"
proof (induction ps rule: rev_induct)
  case Nil
  then show ?case by (simp add: chunksOf_def)
next
  case (snoc p ps)
  then show ?case
    by (cases p) (auto simp: slotsOfStream_snoc chunksOf_snoc slotOf_def Let_def split: if_splits)
qed

lemma part_slot_is_new: "PartSlot (length ps) q \<notin> set (slotsOfStream ps)"
  by (auto simp: slotsOfStream_def slotOf_def in_set_enumerate_eq split: stream_part.splits)

lemma slotEntry_snoc_part: "slotEntry (ps @ [StreamPart q]) slot = slotEntry ps slot"
  by (simp add: slotEntry_def chunksOf_snoc split: fold_slot.split)

lemma slotEntry_snoc_chunk:
  "slotEntry (ps @ [StreamChunk c]) slot =
     (if slot = BlockSlot (cp_channel c) (cp_id c)
      then (case slotEntry ps slot of EntryChunk ch j t meta \<Rightarrow> EntryChunk ch j (t @ chunkDelta c) (mergeMetadata meta (cp_metadata c))
              | EntryPart p \<Rightarrow> EntryPart p)
      else slotEntry ps slot)"
  by (auto simp: slotEntry_def chunksOf_snoc split: fold_slot.split)

lemma isChunk_slotEntry: "isChunk ch i (slotEntry ps slot) \<longleftrightarrow> slot = BlockSlot ch i"
  by (auto simp: isChunk_def slotEntry_def split: fold_slot.split)

lemma extendChunk_slots:
  "extendChunk (map (slotEntry ps) (slotsOfStream ps)) (cp_channel c) (cp_id c) (chunkDelta c) (cp_metadata c)
     = map (slotEntry (ps @ [StreamChunk c])) (slotsOfStream (ps @ [StreamChunk c]))"
proof -
  let ?s = "BlockSlot (cp_channel c) (cp_id c)"
  let ?slots = "slotsOfStream (ps @ [StreamChunk c])"
  have slots: "?slots = (if ?s \<in> set (slotsOfStream ps) then slotsOfStream ps else slotsOfStream ps @ [?s])"
    by (simp add: slotsOfStream_snoc slotOf_def)
  have absent: "slotEntry ps ?s = EntryChunk (cp_channel c) (cp_id c) [] []" if "?s \<notin> set (slotsOfStream ps)"
    using chunksOf_absent [OF that] by (simp add: slotEntry_def)
  have begun: "(if \<exists>e \<in> set (map (slotEntry ps) (slotsOfStream ps)). isChunk (cp_channel c) (cp_id c) e
        then map (slotEntry ps) (slotsOfStream ps)
        else map (slotEntry ps) (slotsOfStream ps) @ [EntryChunk (cp_channel c) (cp_id c) [] []])
      = map (slotEntry ps) ?slots"
    using absent by (auto simp: slots isChunk_slotEntry)
  show ?thesis
    unfolding extendChunk_def Let_def begun
    by (auto simp: isChunk_slotEntry slotEntry_snoc_chunk split: fold_entry.split)
qed

lemma foldPart_entries:
  assumes "fs_entries s = map (slotEntry ps) (slotsOfStream ps)"
  shows "fs_entries (snd (foldPart s p)) = map (slotEntry (ps @ [p])) (slotsOfStream (ps @ [p]))"
proof (cases p)
  case (StreamChunk c)
  with assms show ?thesis by (simp add: foldPart_def Let_def extendChunk_slots)
next
  case (StreamPart q)
  have "slotsOfStream (ps @ [StreamPart q]) = slotsOfStream ps @ [PartSlot (length ps) q]"
    by (simp add: slotsOfStream_snoc slotOf_def part_slot_is_new)
  moreover have "fs_entries (snd (foldPart s (StreamPart q))) = fs_entries s @ [EntryPart q]"
    by (cases q) (simp_all add: foldPart_def settle_part_def)
  ultimately show ?thesis using assms StreamPart by (simp add: slotEntry_snoc_part) (simp add: slotEntry_def)
qed

lemma foldPart_ends:
  assumes "fs_finish s = map_option fst (case fs of [] \<Rightarrow> None | f # fs' \<Rightarrow> Some f)"
    and "fs_usage s = or_else (at_last (filter carriesUsage (map snd fs))) (if fs = [] then None else Some (snd (hd fs)))"
  shows "fs_finish (snd (foldPart s p)) = map_option fst (case fs @ finishesOf [p] of [] \<Rightarrow> None | f # fs' \<Rightarrow> Some f)
    \<and> fs_usage (snd (foldPart s p)) =
        or_else (at_last (filter carriesUsage (map snd (fs @ finishesOf [p]))))
          (if fs @ finishesOf [p] = [] then None else Some (snd (hd (fs @ finishesOf [p]))))"
proof (cases "\<exists>why u meta. p = StreamPart (FinishPart why u meta)")
  case True
  then obtain why u meta where p: "p = StreamPart (FinishPart why u meta)" by blast
  then have f: "finishesOf [p] = [(why, u)]" by (simp add: finishesOf_def)
  have "fs_usage s = None \<longleftrightarrow> fs = []" using assms(2)
    by (cases "at_last (filter carriesUsage (map snd fs))") (auto simp: at_last_def split: if_splits)
  with assms show ?thesis unfolding f by (cases fs) (auto simp: p foldPart_def at_last_def)
next
  case False
  then have "finishesOf [p] = []" and "fs_finish (snd (foldPart s p)) = fs_finish s \<and> fs_usage (snd (foldPart s p)) = fs_usage s"
    by (auto simp: finishesOf_def foldPart_def settle_part_def Let_def split: stream_part.split response_part.split)
  with assms show ?thesis by simp
qed

lemma deltaChannel_inj [simp]: "deltaChannel a = deltaChannel b \<longleftrightarrow> a = b" "DeltaParams \<noteq> deltaChannel b" "deltaChannel b \<noteq> DeltaParams"
  by (cases a; cases b; simp)+

lemma foldPart_shown: "deltasShown ch i (fst (foldPart s p)) = concat (map chunkDelta (chunksOf ch i [p]))"
  by (auto simp: deltasShown_def chunksOf_def foldPart_def Let_def split: stream_part.split response_part.split)

text \<open>
  C20. Whatever order a stream's chunks come in, the settled content holds at each place what that place
  was sent: a block, at the arrival of its first chunk, the text of all its deltas in order and the
  metadata of all its chunks merged; every other part at its own arrival, unchanged; the reason of
  the first finish and the usage of the last that carries one. The text of each block is exactly
  what the deltas fanned out for it show.
\<close>
theorem streamed_response_settles_to_the_reference:
  "snd (foldStreamParts parts) = settledReference parts
   \<and> deltasShown ch i (fst (foldStreamParts parts)) = concat (map chunkDelta (chunksOf ch i parts))"
proof -
  let ?run = "\<lambda>ps. foldl foldStep ([], emptyFold) ps"
  have snoc: "?run (ps @ [p]) = foldStep (?run ps) p" for ps p by simp
  have step: "snd (foldStep acc p) = snd (foldPart (snd acc) p)" "fst (foldStep acc p) = fst acc @ fst (foldPart (snd acc) p)"
    for acc p by (simp_all add: foldStep_def split: prod.split)
  have entries: "fs_entries (snd (?run ps)) = map (slotEntry ps) (slotsOfStream ps)" for ps
  proof (induction ps rule: rev_induct)
    case Nil
    then show ?case by (simp add: emptyFold_def slotsOfStream_def js_distinct_def)
  next
    case (snoc p ps)
    then show ?case unfolding \<open>\<And>ps p. ?run (ps @ [p]) = foldStep (?run ps) p\<close> step by (rule foldPart_entries)
  qed
  have ends: "fs_finish (snd (?run ps)) = map_option fst (case finishesOf ps of [] \<Rightarrow> None | f # fs \<Rightarrow> Some f)
      \<and> fs_usage (snd (?run ps)) = or_else (at_last (filter carriesUsage (map snd (finishesOf ps))))
           (if finishesOf ps = [] then None else Some (snd (hd (finishesOf ps))))" for ps
  proof (induction ps rule: rev_induct)
    case Nil
    then show ?case by (simp add: emptyFold_def finishesOf_def)
  next
    case (snoc p ps)
    have app: "finishesOf (ps @ [p]) = finishesOf ps @ finishesOf [p]" by (simp add: finishesOf_def)
    show ?case unfolding \<open>\<And>ps p. ?run (ps @ [p]) = foldStep (?run ps) p\<close> step app
      by (rule foldPart_ends) (use snoc in simp_all)
  qed
  have shown: "deltasShown ch i (fst (?run ps)) = concat (map chunkDelta (chunksOf ch i ps))" for ps
  proof (induction ps rule: rev_induct)
    case Nil
    then show ?case by (simp add: deltasShown_def chunksOf_def)
  next
    case (snoc p ps)
    have app: "chunksOf ch i (ps @ [p]) = chunksOf ch i ps @ chunksOf ch i [p]" by (simp add: chunksOf_def)
    have shown: "deltasShown ch i (as @ bs) = deltasShown ch i as @ deltasShown ch i bs" for as bs
      by (simp add: deltasShown_def)
    show ?case unfolding \<open>\<And>ps p. ?run (ps @ [p]) = foldStep (?run ps) p\<close> step app shown by (simp add: snoc foldPart_shown)
  qed
  have "foldStreamParts parts = (fst (?run parts), foldedTurn (snd (?run parts)))"
    by (simp add: foldStreamParts_def split: prod.split)
  moreover have "foldedTurn (snd (?run parts)) = settledReference parts"
    using ends [of parts]
    by (cases "finishesOf parts") (simp_all add: foldedTurn_def settledReference_def entries Let_def comp_def split: prod.split)
  ultimately show ?thesis by (simp add: shown)
qed

end
