(* ===== verification/RequestAttempt.thy ===== *)
theory RequestAttempt
  imports ResponseGate StreamFold
begin

text \<open>
  One step's model request (\<open>plugin-agent-loop/src/request-attempt.entity.functions.ts\<close> and the
  \<open>attempt\<close> and \<open>send\<close> of \<open>execute\<close> in \<open>plugin-agent-loop/src/loop.ts\<close>): the messages are rendered, the
  request dispatched, streamed or not, and a stream that fails before its first part falls back to a
  plain request; a refusal over an image or an overflow of the context may be recovered from, once
  each. The model and the host's callbacks are functions of the record \<open>request_env\<close> on a state of
  their own; a stream is the parts that arrive and how it ends. A host's callback that is absent is
  one that does nothing, or none where the source tells the two apart.
\<close>

section \<open>Effects\<close>

type_synonym ('w, 'a) eff = "'w \<Rightarrow> (step_error + 'a) \<times> 'w"

definition eff_return :: "'a \<Rightarrow> ('w, 'a) eff" where
  "eff_return x w = (Inr x, w)"

definition eff_bind :: "('w, 'a) eff \<Rightarrow> ('a \<Rightarrow> ('w, 'b) eff) \<Rightarrow> ('w, 'b) eff" where
  "eff_bind m k w = (case m w of (Inl e, w') \<Rightarrow> (Inl e, w') | (Inr x, w') \<Rightarrow> k x w')"

text \<open>A guarded callback's failure is marked as the callback's; the provider's never is.\<close>

definition marked :: "bool \<Rightarrow> ('w, 'a) eff \<Rightarrow> ('w, 'a) eff" where
  "marked callback m w = (case m w of (Inl e, w') \<Rightarrow> (Inl (e\<lparr>se_callback := callback\<rparr>), w') | r \<Rightarrow> r)"

named_theorems eff_simps

lemma eff_return_simp [eff_simps, simp]: "eff_return x w = (Inr x, w)"
  by (simp add: eff_return_def)

lemma eff_bind_Inr [eff_simps]: "eff_bind m k w = (Inr y, w'') \<longleftrightarrow> (\<exists>x w'. m w = (Inr x, w') \<and> k x w' = (Inr y, w''))"
  by (auto simp: eff_bind_def split: prod.splits sum.splits)

lemma eff_bind_Inl [eff_simps]:
  "eff_bind m k w = (Inl e, w'') \<longleftrightarrow> m w = (Inl e, w'') \<or> (\<exists>x w'. m w = (Inr x, w') \<and> k x w' = (Inl e, w''))"
  by (auto simp: eff_bind_def split: prod.splits sum.splits)

lemma marked_Inr [eff_simps]: "marked c m w = (Inr x, w') \<longleftrightarrow> m w = (Inr x, w')"
  by (auto simp: marked_def split: prod.splits sum.splits)

lemma marked_Inl [eff_simps]: "marked c m w = (Inl e, w') \<longleftrightarrow> (\<exists>e'. m w = (Inl e', w') \<and> e = e'\<lparr>se_callback := c\<rparr>)"
  by (auto simp: marked_def split: prod.splits sum.splits)

section \<open>A step's allowances\<close>

datatype stream_capability = Streamable | SettledOnly

datatype visibility = Silent | Visible

datatype allowance = Available | Used

record request_attempt =
  ra_tag :: stream_capability
  ra_visibility :: visibility
  ra_media :: allowance
  ra_overflow :: allowance

datatype recovery_kind = RecoverMedia | RecoverOverflow

definition initialAttempt :: "bool \<Rightarrow> request_attempt" where
  "initialAttempt streamable = \<lparr>ra_tag = (if streamable then Streamable else SettledOnly), ra_visibility = Silent,
     ra_media = Available, ra_overflow = Available\<rparr>"

definition visibleAttempt :: "request_attempt \<Rightarrow> request_attempt" where
  "visibleAttempt a = a\<lparr>ra_visibility := Visible\<rparr>"

definition settledAttempt :: "request_attempt \<Rightarrow> request_attempt" where
  "settledAttempt a = a\<lparr>ra_tag := SettledOnly\<rparr>"

definition claimRecovery :: "request_attempt \<Rightarrow> recovery_kind \<Rightarrow> bool \<times> request_attempt" where
  "claimRecovery a kind =
     (case kind of
        RecoverMedia \<Rightarrow> if ra_media a = Used then (False, a) else (True, a\<lparr>ra_media := Used\<rparr>)
      | RecoverOverflow \<Rightarrow> if ra_overflow a = Used \<or> ra_visibility a = Visible then (False, a) else (True, a\<lparr>ra_overflow := Used\<rparr>))"

definition allowances :: "request_attempt \<Rightarrow> nat" where
  "allowances a = (if ra_media a = Available then 1 else 0) + (if ra_overflow a = Available then 1 else 0)"

lemma allowances_simps [simp]:
  "allowances (visibleAttempt a) = allowances a" "allowances (settledAttempt a) = allowances a"
  "allowances (initialAttempt s) = 2"
  by (simp_all add: allowances_def visibleAttempt_def settledAttempt_def initialAttempt_def)

lemma claimRecovery_True:
  "claimRecovery a kind = (True, a') \<Longrightarrow> Suc (allowances a') = allowances a \<and> ra_visibility a' = ra_visibility a \<and> ra_tag a' = ra_tag a"
  by (cases "ra_media a"; cases "ra_overflow a")
     (auto simp: claimRecovery_def allowances_def split: recovery_kind.splits if_splits)

section \<open>One attempt\<close>

record generated =
  gn_content :: "response_part list"
  gn_finish :: finish_reason
  gn_usage :: "response_usage option"

datatype stream_end = StreamDone | StreamFailed step_error | StreamDied step_error

record attempted =
  at_content :: "response_part list"
  at_finish :: finish_reason
  at_usage :: "response_usage option"
  at_streamingHealthy :: bool

record 'w request_env =
  rq_planned :: "generated option"
  rq_streaming :: bool
  rq_messages :: "agent_message list"
  rq_render :: "('w, agent_message list) eff option"
  rq_dispatch :: "agent_message list \<Rightarrow> ('w, unit) eff"
  rq_generate :: "agent_message list \<Rightarrow> ('w, generated) eff"
  rq_stream :: "agent_message list \<Rightarrow> 'w \<Rightarrow> (stream_part list \<times> stream_end) \<times> 'w"
  rq_delta :: "stream_delta \<Rightarrow> ('w, unit) eff"
  rq_fallback :: "string \<Rightarrow> ('w, unit) eff"
  rq_mediaRejected :: "(string \<Rightarrow> ('w, bool) eff) option"
  rq_overflow :: "('w, bool) eff option"
  rq_failureText :: "step_error \<Rightarrow> string"

record 'w attempt_world =
  aw_attempt :: request_attempt
  aw_seen :: bool
  aw_world :: 'w

definition lifted :: "('w, 'a) eff \<Rightarrow> ('w attempt_world, 'a) eff" where
  "lifted m aw = (case m (aw_world aw) of (r, w') \<Rightarrow> (r, aw\<lparr>aw_world := w'\<rparr>))"

lemma lifted_eq [eff_simps]: "lifted m aw = (r, aw') \<longleftrightarrow> (\<exists>w'. m (aw_world aw) = (r, w') \<and> aw' = aw\<lparr>aw_world := w'\<rparr>)"
  by (auto simp: lifted_def split: prod.splits)

definition FALLBACK_MESSAGE_CHARS :: nat where
  "FALLBACK_MESSAGE_CHARS = 300"

definition settledRequest :: "'w request_env \<Rightarrow> agent_message list \<Rightarrow> bool \<Rightarrow> ('w attempt_world, attempted) eff" where
  "settledRequest env visible streamingHealthy =
     eff_bind (lifted (marked True (rq_dispatch env visible))) (\<lambda>u.
     eff_bind (lifted (marked False (rq_generate env visible))) (\<lambda>g.
     eff_return \<lparr>at_content = gn_content g, at_finish = gn_finish g, at_usage = gn_usage g, at_streamingHealthy = streamingHealthy\<rparr>))"

text \<open>A delta is fanned out; one with text makes the attempt visible first.\<close>

definition showDelta :: "'w request_env \<Rightarrow> stream_delta \<Rightarrow> ('w attempt_world, unit) eff" where
  "showDelta env d aw =
     lifted (marked True (rq_delta env d))
       (if length (sd_delta d) = 0 then aw else aw\<lparr>aw_attempt := visibleAttempt (aw_attempt aw)\<rparr>)"

fun showDeltas :: "'w request_env \<Rightarrow> stream_delta list \<Rightarrow> ('w attempt_world, unit) eff" where
  "showDeltas env [] = eff_return ()"
| "showDeltas env (d # ds) = eff_bind (showDelta env d) (\<lambda>u. showDeltas env ds)"

text \<open>The parts of the stream as they arrive, folded: each arms \<open>partSeen\<close> before it is read.\<close>

fun foldStream :: "'w request_env \<Rightarrow> fold_state \<Rightarrow> stream_part list \<Rightarrow> ('w attempt_world, fold_state) eff" where
  "foldStream env s [] aw = (Inr s, aw)"
| "foldStream env s (p # ps) aw =
     (case foldPart s p of (ds, s') \<Rightarrow>
        eff_bind (showDeltas env ds) (\<lambda>u. foldStream env s' ps) (aw\<lparr>aw_seen := True\<rparr>))"

definition fallbackFailed :: "step_error \<Rightarrow> bool \<Rightarrow> bool" where
  "fallbackFailed e armed \<longleftrightarrow> armed \<or> se_callback e \<or> isTurnError e \<or> isImageRejection e \<or> isPermanentModelFailure e"

definition fallbackRequest :: "'w request_env \<Rightarrow> agent_message list \<Rightarrow> step_error \<Rightarrow> ('w attempt_world, attempted) eff" where
  "fallbackRequest env visible e aw =
     eff_bind (lifted (marked True (rq_fallback env (take FALLBACK_MESSAGE_CHARS (rq_failureText env e)))))
       (\<lambda>u. settledRequest env visible False) (aw\<lparr>aw_attempt := settledAttempt (aw_attempt aw)\<rparr>)"

definition streamedRequest :: "'w request_env \<Rightarrow> agent_message list \<Rightarrow> ('w attempt_world, attempted) eff" where
  "streamedRequest env visible =
     eff_bind (lifted (marked True (rq_dispatch env visible))) (\<lambda>u aw.
       case rq_stream env visible (aw_world aw) of ((parts, ends), w') \<Rightarrow>
         (case foldStream env emptyFold parts (aw\<lparr>aw_world := w'\<rparr>) of
            (Inl e, aw1) \<Rightarrow> if fallbackFailed e (aw_seen aw1) then (Inl e, aw1) else fallbackRequest env visible e aw1
          | (Inr s, aw1) \<Rightarrow>
              (case ends of
                 StreamDone \<Rightarrow> (let t = foldedTurn s in
                   (Inr \<lparr>at_content = ft_content t, at_finish = ft_finish t, at_usage = ft_usage t, at_streamingHealthy = True\<rparr>, aw1))
               | StreamFailed e \<Rightarrow> (let e' = e\<lparr>se_callback := False\<rparr> in
                   if fallbackFailed e' (aw_seen aw1) then (Inl e', aw1) else fallbackRequest env visible e' aw1)
               | StreamDied e \<Rightarrow> (let e' = e\<lparr>se_callback := False\<rparr> in
                   if aw_seen aw1 \<or> isTurnError e' then (Inl e', aw1) else fallbackRequest env visible e' aw1))))"

definition attempt :: "'w request_env \<Rightarrow> bool \<Rightarrow> ('w attempt_world, attempted) eff" where
  "attempt env streamingHealthy aw =
     (let aw0 = aw\<lparr>aw_seen := False\<rparr> in
      eff_bind (case rq_render env of None \<Rightarrow> eff_return (rq_messages env) | Some r \<Rightarrow> lifted (marked True r)) (\<lambda>visible.
        case rq_planned env of
          Some g \<Rightarrow> eff_return \<lparr>at_content = gn_content g, at_finish = gn_finish g, at_usage = gn_usage g,
              at_streamingHealthy = streamingHealthy\<rparr>
        | None \<Rightarrow> if rq_streaming env \<and> ra_tag (aw_attempt aw0) = Streamable then streamedRequest env visible
                  else settledRequest env visible (ra_tag (aw_attempt aw0) = Streamable)) aw0)"

section \<open>Sending a step's request\<close>

definition clipMessage :: "string \<Rightarrow> nat \<Rightarrow> string" where
  "clipMessage s limit = (if length s \<le> limit then s else take limit s @ [ellipsis])"

definition imageReason :: "step_error \<Rightarrow> string" where
  "imageReason e = (case se_cause e of AiFailure a \<Rightarrow> (case ai_reason a of InvalidRequestError m \<Rightarrow> m | _ \<Rightarrow> []) | _ \<Rightarrow> [])"

text \<open>
  What follows an attempt: its outcome, or none when the request is sent again. An allowance is
  claimed before its callback is asked, so one that fails or refuses has used it.
\<close>

definition recovering ::
  "recovery_kind \<Rightarrow> ('w, bool) eff \<Rightarrow> step_error \<Rightarrow> 'w attempt_world \<Rightarrow> (step_error + attempted) option \<times> 'w attempt_world" where
  "recovering kind hook e aw =
     (case claimRecovery (aw_attempt aw) kind of
        (False, a) \<Rightarrow> (Some (Inl e), aw)
      | (True, a) \<Rightarrow>
          (case lifted (marked True hook) (aw\<lparr>aw_attempt := a\<rparr>) of
             (Inl e', aw1) \<Rightarrow> (Some (Inl e'), aw1)
           | (Inr again, aw1) \<Rightarrow> (if again then None else Some (Inl e), aw1)))"

definition overflowed :: "'w request_env \<Rightarrow> step_error \<Rightarrow> 'w attempt_world \<Rightarrow> (step_error + attempted) option \<times> 'w attempt_world" where
  "overflowed env e aw =
     (case rq_overflow env of
        None \<Rightarrow> (Some (Inl e), aw)
      | Some hook \<Rightarrow> if rq_planned env \<noteq> None then (Some (Inl e), aw) else recovering RecoverOverflow hook e aw)"

definition overflowError :: step_error where
  "overflowError = \<lparr>se_callback = False,
     se_cause = TurnFailure (modelFailureCodeOf MfContextOverflow) (modelFailureMessageOf MfContextOverflow)\<rparr>"

definition afterAttempt ::
  "'w request_env \<Rightarrow> step_error + attempted \<Rightarrow> 'w attempt_world \<Rightarrow> (step_error + attempted) option \<times> 'w attempt_world" where
  "afterAttempt env r aw =
     (case r of
        Inr v \<Rightarrow> if contentFailureOf (at_content v) = Some MfContextOverflow then overflowed env overflowError aw else (Some (Inr v), aw)
      | Inl e \<Rightarrow>
          if isTurnError e \<or> se_callback e then (Some (Inl e), aw)
          else if modelFailureOf e = Some MfContextOverflow then overflowed env e aw
          else (case rq_mediaRejected env of
                  None \<Rightarrow> (Some (Inl e), aw)
                | Some hook \<Rightarrow>
                    if rq_planned env \<noteq> None \<or> aw_seen aw \<or> \<not> isImageRejection e then (Some (Inl e), aw)
                    else recovering RecoverMedia (hook (clipMessage (imageReason e) 600)) e aw))"

lemma recovering_None:
  assumes "recovering kind hook e aw = (None, aw')"
  shows "Suc (allowances (aw_attempt aw')) = allowances (aw_attempt aw) \<and> ra_visibility (aw_attempt aw') = ra_visibility (aw_attempt aw)
     \<and> (kind = RecoverOverflow \<longrightarrow> ra_visibility (aw_attempt aw) \<noteq> Visible)"
proof -
  obtain ok a where claim: "claimRecovery (aw_attempt aw) kind = (ok, a)" by (cases "claimRecovery (aw_attempt aw) kind")
  with assms have ok: ok by (simp add: recovering_def split: if_splits bool.splits)
  have "aw_attempt aw' = a"
    using assms claim ok by (auto simp: recovering_def lifted_def split: prod.splits sum.splits if_splits)
  moreover have "kind = RecoverOverflow \<longrightarrow> ra_visibility (aw_attempt aw) \<noteq> Visible"
    using claim ok by (auto simp: claimRecovery_def split: if_splits)
  ultimately show ?thesis using claimRecovery_True [of "aw_attempt aw" kind a] claim ok by simp
qed

lemma afterAttempt_None:
  assumes "afterAttempt env r aw = (None, aw')"
  shows "Suc (allowances (aw_attempt aw')) = allowances (aw_attempt aw) \<and> ra_visibility (aw_attempt aw') = ra_visibility (aw_attempt aw)
     \<and> (ra_visibility (aw_attempt aw) = Visible \<longrightarrow> \<not> aw_seen aw)"
proof -
  have over: ?thesis if "overflowed env e aw = (None, aw')" for e
    using that recovering_None [of RecoverOverflow _ e aw aw']
    by (auto simp: overflowed_def split: option.splits if_splits)
  show ?thesis
  proof (cases r)
    case (Inr v)
    with assms over show ?thesis by (auto simp: afterAttempt_def split: if_splits)
  next
    case (Inl e)
    show ?thesis
    proof (cases "modelFailureOf e = Some MfContextOverflow")
      case True
      with Inl assms over show ?thesis by (auto simp: afterAttempt_def split: if_splits)
    next
      case False
      with Inl assms obtain hook where "rq_mediaRejected env = Some hook" "\<not> aw_seen aw"
        "recovering RecoverMedia (hook (clipMessage (imageReason e) 600)) e aw = (None, aw')"
        by (auto simp: afterAttempt_def split: if_splits option.splits)
      with recovering_None [of RecoverMedia "hook (clipMessage (imageReason e) 600)" e aw aw'] show ?thesis by simp
    qed
  qed
qed


text \<open>What an attempt leaves of the allowances, and what it shows only once a part arrived.\<close>

definition keeps :: "'w attempt_world \<Rightarrow> 'w attempt_world \<Rightarrow> bool" where
  "keeps aw aw' \<longleftrightarrow> allowances (aw_attempt aw') = allowances (aw_attempt aw)
     \<and> (aw_seen aw \<longrightarrow> aw_seen aw') \<and> (ra_visibility (aw_attempt aw') = Visible \<longrightarrow> ra_visibility (aw_attempt aw) = Visible \<or> aw_seen aw')"

named_theorems keeps_intros

lemma keeps_refl [keeps_intros]: "keeps aw aw"
  by (simp add: keeps_def)

lemma keeps_trans: "keeps a b \<Longrightarrow> keeps b c \<Longrightarrow> keeps a c"
  by (auto simp: keeps_def)

lemma keeps_bind:
  assumes "eff_bind m k aw = (r, aw')" "\<And>r1 aw1. m aw = (r1, aw1) \<Longrightarrow> keeps aw aw1"
    "\<And>x aw1 r2 aw2. m aw = (Inr x, aw1) \<Longrightarrow> k x aw1 = (r2, aw2) \<Longrightarrow> keeps aw1 aw2"
  shows "keeps aw aw'"
proof (cases "m aw")
  case (Pair r1 aw1)
  show ?thesis
  proof (cases r1)
    case (Inl e)
    with assms(1) Pair have "aw' = aw1" by (simp add: eff_bind_def)
    with assms(2) Pair show ?thesis by blast
  next
    case (Inr x)
    with assms(1) Pair have "k x aw1 = (r, aw')" by (simp add: eff_bind_def)
    with assms(2,3) Pair Inr show ?thesis by (blast intro: keeps_trans)
  qed
qed

lemma keeps_lifted: "lifted m aw = (r, aw') \<Longrightarrow> keeps aw aw'"
  by (auto simp: eff_simps keeps_def)

lemma keeps_settledRequest: "settledRequest env visible h aw = (r, aw') \<Longrightarrow> keeps aw aw'"
  unfolding settledRequest_def
  by (erule keeps_bind, erule keeps_lifted, erule keeps_bind, erule keeps_lifted) (auto simp: keeps_refl)

lemma keeps_showDeltas: "showDeltas env ds aw = (r, aw') \<Longrightarrow> aw_seen aw \<Longrightarrow> keeps aw aw' \<and> aw_seen aw'"
proof (induction ds arbitrary: aw r aw')
  case Nil
  then show ?case by (auto simp: keeps_refl)
next
  case (Cons d ds)
  have one: "keeps aw aw1 \<and> aw_seen aw1" if "showDelta env d aw = (r1, aw1)" for r1 aw1
    using that Cons.prems(2) by (auto simp: showDelta_def eff_simps keeps_def visibleAttempt_def allowances_def split: if_splits)
  have "keeps aw aw'"
    by (rule keeps_bind [OF Cons.prems(1) [unfolded showDeltas.simps]]) (use one Cons.IH in blast)+
  with Cons.prems(2) show ?case by (simp add: keeps_def)
qed

lemma keeps_foldStream: "foldStream env s ps aw = (r, aw') \<Longrightarrow> keeps aw aw'"
proof (induction ps arbitrary: s aw r aw')
  case Nil
  then show ?case by (auto simp: keeps_refl)
next
  case (Cons p ps)
  let ?aw = "aw\<lparr>aw_seen := True\<rparr>"
  obtain ds s' where fp: "foldPart s p = (ds, s')" by (cases "foldPart s p")
  with Cons.prems have run: "eff_bind (showDeltas env ds) (\<lambda>u. foldStream env s' ps) ?aw = (r, aw')" by simp
  have "keeps ?aw aw'"
    by (rule keeps_bind [OF run]) (use keeps_showDeltas [of env ds ?aw] Cons.IH in auto)
  then show ?case by (auto simp: keeps_def)
qed

lemma keeps_fallback: "fallbackRequest env visible e aw = (r, aw') \<Longrightarrow> keeps aw aw'"
proof -
  assume run: "fallbackRequest env visible e aw = (r, aw')"
  let ?aw = "aw\<lparr>aw_attempt := settledAttempt (aw_attempt aw)\<rparr>"
  have "keeps ?aw aw'"
    by (rule keeps_bind [OF run [unfolded fallbackRequest_def]]) (auto dest: keeps_lifted keeps_settledRequest)
  then show ?thesis by (auto simp: keeps_def settledAttempt_def allowances_def)
qed

lemma keeps_streamed: "streamedRequest env visible aw = (r, aw') \<Longrightarrow> keeps aw aw'"
  unfolding streamedRequest_def
proof (erule keeps_bind)
  fix r1 aw1 assume "lifted (marked True (rq_dispatch env visible)) aw = (r1, aw1)"
  then show "keeps aw aw1" by (rule keeps_lifted)
next
  fix aw1 r2 aw2
  assume run: "(case rq_stream env visible (aw_world aw1) of ((parts, ends), w') \<Rightarrow>
         (case foldStream env emptyFold parts (aw1\<lparr>aw_world := w'\<rparr>) of
            (Inl e, aw1) \<Rightarrow> if fallbackFailed e (aw_seen aw1) then (Inl e, aw1) else fallbackRequest env visible e aw1
          | (Inr s, aw1) \<Rightarrow>
              (case ends of
                 StreamDone \<Rightarrow> (let t = foldedTurn s in
                   (Inr \<lparr>at_content = ft_content t, at_finish = ft_finish t, at_usage = ft_usage t, at_streamingHealthy = True\<rparr>, aw1))
               | StreamFailed e \<Rightarrow> (let e' = e\<lparr>se_callback := False\<rparr> in
                   if fallbackFailed e' (aw_seen aw1) then (Inl e', aw1) else fallbackRequest env visible e' aw1)
               | StreamDied e \<Rightarrow> (let e' = e\<lparr>se_callback := False\<rparr> in
                   if aw_seen aw1 \<or> isTurnError e' then (Inl e', aw1) else fallbackRequest env visible e' aw1)))) = (r2, aw2)"
  obtain parts ends w' where st: "rq_stream env visible (aw_world aw1) = ((parts, ends), w')" by (metis prod.exhaust)
  obtain rf aw3 where fold: "foldStream env emptyFold parts (aw1\<lparr>aw_world := w'\<rparr>) = (rf, aw3)"
    by (cases "foldStream env emptyFold parts (aw1\<lparr>aw_world := w'\<rparr>)")
  have "keeps aw1 (aw1\<lparr>aw_world := w'\<rparr>)" by (simp add: keeps_def)
  then have start: "keeps aw1 aw3" using keeps_foldStream [OF fold] keeps_trans by blast
  moreover have "keeps aw3 aw2"
    using run unfolding st fold prod.case Let_def
    by (auto split: sum.splits stream_end.splits if_splits intro: keeps_refl dest: keeps_fallback)
  ultimately show "keeps aw1 aw2" by (rule keeps_trans)
qed

lemma keeps_attempt:
  assumes "attempt env h aw = (r, aw')"
  shows "allowances (aw_attempt aw') = allowances (aw_attempt aw)
     \<and> (ra_visibility (aw_attempt aw') = Visible \<longrightarrow> ra_visibility (aw_attempt aw) = Visible \<or> aw_seen aw')"
proof -
  let ?aw = "aw\<lparr>aw_seen := False\<rparr>"
  have "keeps ?aw aw'"
    by (rule keeps_bind [OF assms [unfolded attempt_def Let_def]])
       (auto split: option.splits if_splits intro: keeps_refl dest: keeps_lifted keeps_streamed keeps_settledRequest)
  then show ?thesis by (auto simp: keeps_def)
qed

lemma resend_decreases:
  assumes "attempt env h aw = (r, aw1)" "afterAttempt env r aw1 = (None, aw2)"
  shows "allowances (aw_attempt aw2) < allowances (aw_attempt aw)"
    and "ra_visibility (aw_attempt aw) \<noteq> Visible \<Longrightarrow> ra_visibility (aw_attempt aw2) \<noteq> Visible"
  using keeps_attempt [OF assms(1)] afterAttempt_None [OF assms(2)] by auto

function send :: "'w request_env \<Rightarrow> bool \<Rightarrow> ('w attempt_world, attempted) eff" where
  "send env h aw =
     (case attempt env h aw of (r, aw1) \<Rightarrow>
        (case afterAttempt env r aw1 of
           (Some r', aw2) \<Rightarrow> (r', aw2)
         | (None, aw2) \<Rightarrow> send env h aw2))"
  by pat_completeness auto

termination
proof (relation "measure (\<lambda>(env, h, aw). allowances (aw_attempt aw))", goal_cases)
  case (2 env h aw r aw1 x y)
  then have "attempt env h aw = (r, aw1)" "afterAttempt env r aw1 = (None, y)" by simp_all
  then show ?case using resend_decreases by simp
qed simp

declare send.simps [simp del]

text \<open>The states the step's attempts start in, one for each time the request is sent.\<close>

function attemptStarts :: "'w request_env \<Rightarrow> bool \<Rightarrow> 'w attempt_world \<Rightarrow> 'w attempt_world list" where
  "attemptStarts env h aw =
     aw # (case attempt env h aw of (r, aw1) \<Rightarrow>
             (case afterAttempt env r aw1 of (Some r', aw2) \<Rightarrow> [] | (None, aw2) \<Rightarrow> attemptStarts env h aw2))"
  by pat_completeness auto

termination
proof (relation "measure (\<lambda>(env, h, aw). allowances (aw_attempt aw))", goal_cases)
  case (2 env h aw r aw1 x y)
  then have "attempt env h aw = (r, aw1)" "afterAttempt env r aw1 = (None, y)" by simp_all
  then show ?case using resend_decreases by simp
qed simp

declare attemptStarts.simps [simp del]


lemma attemptStarts_length: "length (attemptStarts env h aw) \<le> Suc (allowances (aw_attempt aw))"
proof (induction env h aw rule: attemptStarts.induct)
  case (1 env h aw)
  obtain r aw1 where at: "attempt env h aw = (r, aw1)" by (cases "attempt env h aw")
  show ?case
  proof (cases "afterAttempt env r aw1")
    case (Pair o' aw2)
    show ?thesis
    proof (cases o')
      case None
      with Pair resend_decreases(1) [OF at] 1 [OF at [symmetric]] show ?thesis
        by (subst attemptStarts.simps) (force simp: at)
    next
      case (Some r')
      with Pair show ?thesis by (subst attemptStarts.simps) (simp add: at)
    qed
  qed
qed

lemma attemptStarts_silent:
  "ra_visibility (aw_attempt aw) \<noteq> Visible \<Longrightarrow> list_all (\<lambda>a. ra_visibility (aw_attempt a) \<noteq> Visible) (attemptStarts env h aw)"
proof (induction env h aw rule: attemptStarts.induct)
  case (1 env h aw)
  obtain r aw1 where at: "attempt env h aw = (r, aw1)" by (cases "attempt env h aw")
  show ?case
  proof (cases "afterAttempt env r aw1")
    case (Pair o' aw2)
    show ?thesis
    proof (cases o')
      case None
      with Pair resend_decreases(2) [OF at] 1(1) [OF at [symmetric]] 1(2) show ?thesis
        by (subst attemptStarts.simps) (simp add: at)
    next
      case (Some r')
      with Pair 1(2) show ?thesis by (subst attemptStarts.simps) (simp add: at)
    qed
  qed
qed

lemma send_is_its_last_attempt:
  "\<exists>r aw1. attempt env h (last (attemptStarts env h aw)) = (r, aw1)
     \<and> afterAttempt env r aw1 = (Some (fst (send env h aw)), snd (send env h aw))"
proof (induction env h aw rule: attemptStarts.induct)
  case (1 env h aw)
  obtain r aw1 where at: "attempt env h aw = (r, aw1)" by (cases "attempt env h aw")
  show ?case
  proof (cases "afterAttempt env r aw1")
    case (Pair o' aw2)
    show ?thesis
    proof (cases o')
      case None
      have "attemptStarts env h aw2 \<noteq> []" by (subst attemptStarts.simps) simp
      with None Pair have "last (attemptStarts env h aw) = last (attemptStarts env h aw2)" "send env h aw = send env h aw2"
        by (subst attemptStarts.simps send.simps; simp add: at)+
      with None Pair 1 [OF at [symmetric]] show ?thesis by simp
    next
      case (Some r')
      with Pair have "last (attemptStarts env h aw) = aw" "send env h aw = (r', aw2)"
        by (subst attemptStarts.simps send.simps; simp add: at)+
      with Some Pair at show ?thesis by simp
    qed
  qed
qed


end
