(* ===== verification/AgentLoop.thy ===== *)
theory AgentLoop
  imports RequestAttempt
begin

text \<open>
  The step loop of a turn (\<open>runLoop\<close> of \<open>plugin-agent-loop/src/loop.ts\<close>): a step asks the model, checks
  the response, records it, runs its calls, records their results and settles; what follows
  (recovering from a malformed reply, answering a cut one, completion, compaction, steering) is
  decided after it settled. The host's callbacks, the model and the tools are functions of the
  record \<open>loop_env\<close> on a state of their own; the loop's own calls of \<open>onEvent\<close>, \<open>onTail\<close> and
  \<open>onStepSettled\<close> are kept in order as the run's acts. Calls of one response run concurrently: they
  are taken one after another in the order the host's schedule completes them. Interruption,
  spans, metrics and log lines are left out.
\<close>

section \<open>The loop's vocabulary\<close>

datatype step_status = SsCompleted | SsFailed | SsMalformed | SsTruncated

datatype run_outcome = OutcomeOk | OutcomeWaiting | OutcomePartial

datatype loop_phase = PhContinue | PhCompleted | PhStepCap | PhDegenerate | PhWaiting

datatype degenerate_policy = DegenerateDisabled | DegenerateEnabled int int

record loop_policy =
  lp_degenerate :: degenerate_policy
  lp_malformedLimit :: int
  lp_answerInvalid :: bool

definition policyValid :: "loop_policy \<Rightarrow> bool" where
  "policyValid p \<longleftrightarrow>
     (case lp_degenerate p of
        DegenerateDisabled \<Rightarrow> True
      | DegenerateEnabled nudgeAfter breakAfter \<Rightarrow>
          1 \<le> nudgeAfter \<and> nudgeAfter \<le> 1000000 \<and> 2 \<le> breakAfter \<and> breakAfter \<le> 1000000 \<and> nudgeAfter < breakAfter)
     \<and> 1 \<le> lp_malformedLimit p \<and> lp_malformedLimit p \<le> 1000"

datatype loop_event =
    EvTurnStart nat
  | EvAssistant nat string token_usage finish_reason
  | EvToolStart nat string string
  | EvToolEnd nat string string bool
  | EvCompaction nat int nat
  | EvTurnEnd nat step_status
  | EvAgentEnd run_outcome loop_phase string

datatype loop_act =
    ActEvent loop_event
  | ActTail "agent_message list" nat
  | ActSettled nat step_status
  | ActTaken "agent_message list" nat

record tool_answer =
  ta_result :: json
  ta_encoded :: "json option"
  ta_failure :: bool

record compaction_plan =
  cp_summary :: string
  cp_keepFrom :: int

record 'w loop_env =
  le_maxSteps :: nat
  le_policy :: loop_policy
  le_pollable :: "string list"
  le_requireCompletion :: bool
  le_run :: "run_ref option"
  le_initialStep :: "(string \<times> json) list option"
  le_toolkit :: step_tools
  le_incomplete :: "string option"
  le_malformedText :: "(string list \<Rightarrow> string \<Rightarrow> string) option"
  le_reasonText :: "ai_reason \<Rightarrow> string"
  le_do :: "loop_act \<Rightarrow> ('w, unit) eff"
  le_active :: "('w, string list) eff option"
  le_request :: "nat \<Rightarrow> string list \<Rightarrow> token_usage option \<Rightarrow> agent_message list \<Rightarrow> ('w, 'w request_env) eff"
  le_tool :: "nat \<Rightarrow> response_call \<Rightarrow> ('w, tool_answer) eff"
  le_schedule :: "'w \<Rightarrow> nat list"
  le_waiting :: "('w, bool) eff option"
  le_isComplete :: "(nat \<Rightarrow> ('w, bool) eff) option"
  le_compact :: "(agent_message list \<Rightarrow> token_usage \<Rightarrow> ('w, compaction_plan option) eff) option"
  le_pendingInput :: "('w, string option) eff option"
  le_durable :: "(('w, bool) eff \<times> (nat \<Rightarrow> ('w, agent_message list) eff)) option"

record 'w loop_world =
  lw_world :: 'w
  lw_acts :: "loop_act list"

type_synonym ('w, 'a) loop_eff = "('w loop_world, 'a) eff"

text \<open>
  A callback asked for an answer; an act the loop performs (noted as it is tried); and messages the
  host's store handed over, noted where they were taken.
\<close>

definition ask :: "('w, 'a) eff \<Rightarrow> ('w, 'a) loop_eff" where
  "ask m lw = (case m (lw_world lw) of (r, w') \<Rightarrow> (r, lw\<lparr>lw_world := w'\<rparr>))"

definition perform :: "'w loop_env \<Rightarrow> loop_act \<Rightarrow> ('w, unit) loop_eff" where
  "perform env a lw = (case le_do env a (lw_world lw) of (r, w') \<Rightarrow> (r, \<lparr>lw_world = w', lw_acts = lw_acts lw @ [a]\<rparr>))"

definition noted :: "loop_act \<Rightarrow> ('w, unit) loop_eff" where
  "noted a lw = (Inr (), lw\<lparr>lw_acts := lw_acts lw @ [a]\<rparr>)"

definition fail_with :: "step_error \<Rightarrow> ('w, 'a) loop_eff" where
  "fail_with e lw = (Inl e, lw)"

definition eff_either :: "('w, 'a) eff \<Rightarrow> (step_error \<Rightarrow> ('w, 'b) eff) \<Rightarrow> ('a \<Rightarrow> ('w, 'b) eff) \<Rightarrow> ('w, 'b) eff" where
  "eff_either m f g w = (case m w of (Inl e, w') \<Rightarrow> f e w' | (Inr x, w') \<Rightarrow> g x w')"

definition turnFailure :: "string \<Rightarrow> string \<Rightarrow> step_error" where
  "turnFailure code message = \<lparr>se_callback = False, se_cause = TurnFailure code message\<rparr>"

section \<open>The state of a run\<close>

record loop_state =
  ls_messages :: "agent_message list"
  ls_newTail :: "agent_message list"
  ls_finalText :: string
  ls_carried :: string
  ls_step :: nat
  ls_malformedStreak :: nat
  ls_cutStreak :: nat
  ls_seen :: "string list"
  ls_stale :: nat
  ls_usage :: token_usage
  ls_lastUsage :: "token_usage option"
  ls_phase :: loop_phase
  ls_toolCalls :: nat
  ls_toolFailures :: nat
  ls_corrections :: nat
  ls_streaming :: bool

definition initialLoopState :: "agent_message list \<Rightarrow> loop_state" where
  "initialLoopState messages =
     \<lparr>ls_messages = messages, ls_newTail = [], ls_finalText = [], ls_carried = [], ls_step = 0, ls_malformedStreak = 0,
      ls_cutStreak = 0, ls_seen = [], ls_stale = 0, ls_usage = zeroUsage, ls_lastUsage = None, ls_phase = PhContinue,
      ls_toolCalls = 0, ls_toolFailures = 0, ls_corrections = 0, ls_streaming = True\<rparr>"

text \<open>The text after a step that ends a continuation, and after one the next step continues.\<close>

definition settledText :: "loop_state \<Rightarrow> string \<Rightarrow> string \<times> string" where
  "settledText s t = (let whole = ls_carried s @ t in (if length whole > 0 then whole else ls_finalText s, []))"

definition carriedText :: "loop_state \<Rightarrow> string \<Rightarrow> string \<times> string" where
  "carriedText s t = (ls_finalText s, ls_carried s @ t)"

definition withTexts :: "string \<times> string \<Rightarrow> loop_state \<Rightarrow> loop_state" where
  "withTexts texts s = s\<lparr>ls_finalText := fst texts, ls_carried := snd texts\<rparr>"

section \<open>Progress\<close>

definition progressSignature :: "response_part list \<Rightarrow> string list \<Rightarrow> string" where
  "progressSignature content pollable =
     (let calls = responseToolCalls content in
      if calls = [] then []
      else if list_all (\<lambda>c. tcs_tool c \<in> set pollable) calls then []
      else join ''|'' (sort (map (\<lambda>r. trs_tool r @ '':'' @ (if trs_ok r then ''ok'' else ''err'') @ '':''
               @ clipMessage (stringify (trs_result r)) 300)
             (filter (\<lambda>r. trs_tool r \<notin> set pollable) (responseToolResults content)))))"

record progress =
  pr_stale :: nat
  pr_seen :: "string list"
  pr_nudge :: bool
  pr_broke :: bool

definition foldProgress :: "string list \<Rightarrow> nat \<Rightarrow> string \<Rightarrow> degenerate_policy \<Rightarrow> progress" where
  "foldProgress seen staleTurns sig policy =
     (let stale = (if sig = [] then staleTurns else if sig \<in> set seen then staleTurns + 1 else 0)
      in \<lparr>pr_stale = stale,
          pr_seen = (if sig = [] \<or> sig \<in> set seen then seen else seen @ [sig]),
          pr_nudge = (case policy of DegenerateDisabled \<Rightarrow> False | DegenerateEnabled nudgeAfter breakAfter \<Rightarrow> sig \<noteq> [] \<and> int stale = nudgeAfter),
          pr_broke = (case policy of DegenerateDisabled \<Rightarrow> False | DegenerateEnabled nudgeAfter breakAfter \<Rightarrow> sig \<noteq> [] \<and> int stale \<ge> breakAfter)\<rparr>)"

definition nextPhase :: "bool \<Rightarrow> bool \<Rightarrow> nat \<Rightarrow> nat \<Rightarrow> loop_phase" where
  "nextPhase broke wantsMore turnIndex maxSteps =
     (if broke then PhDegenerate
      else if \<not> wantsMore then PhCompleted
      else if turnIndex \<ge> maxSteps then PhStepCap
      else PhContinue)"

section \<open>A step's execution\<close>

definition answerPart :: "response_call \<Rightarrow> json \<Rightarrow> response_part" where
  "answerPart c failure = ResultPart \<lparr>rr_id = rc_id c, rr_name = rc_name c, rr_result = failure, rr_encoded = Some failure,
     rr_failure = True, rr_preliminary = False, rr_executed = False, rr_metadata = []\<rparr>"

definition cutResult :: "response_call \<Rightarrow> finish_reason \<Rightarrow> response_part" where
  "cutResult c why = answerPart c (replyCutFailure why)"

definition rejectedResult :: "response_call \<Rightarrow> malformed_call \<Rightarrow> string list \<Rightarrow> response_part" where
  "rejectedResult c rejection tools = answerPart c (rejectedCallFailure rejection tools)"

datatype call_plan = RunCall response_call | AnswerCall response_part

definition runPart :: "response_call \<Rightarrow> tool_answer \<Rightarrow> response_part" where
  "runPart c a = ResultPart \<lparr>rr_id = rc_id c, rr_name = rc_name c, rr_result = ta_result a, rr_encoded = ta_encoded a,
     rr_failure = ta_failure a, rr_preliminary = False, rr_executed = False, rr_metadata = []\<rparr>"

datatype executed =
    XMalformed ai_reason "string list"
  | XResponded
      (x_content: "response_part list") (x_finish: finish_reason) (x_cut: "finish_reason option") (x_usage: token_usage)
      (x_tail: "agent_message list") (x_text: string) (x_toolCalls: "tool_call_summary list")
      (x_toolResults: "tool_result_summary list") (x_planned: bool) (x_callsToRun: bool) (x_streaming: bool)

definition beginStep :: "'w loop_env \<Rightarrow> loop_state \<Rightarrow> ('w, string list \<times> loop_state) loop_eff" where
  "beginStep env s =
     eff_bind (perform env (ActEvent (EvTurnStart (ls_step s)))) (\<lambda>u.
     eff_bind (case le_active env of None \<Rightarrow> eff_return (map fst (le_toolkit env)) | Some m \<Rightarrow> ask m) (\<lambda>active.
     eff_bind (case le_durable env of None \<Rightarrow> eff_return [] | Some (pending, takeSteers) \<Rightarrow> ask (takeSteers (ls_step s))) (\<lambda>steering.
     eff_bind (noted (ActTaken steering (ls_step s))) (\<lambda>u.
     eff_return (active, if steering = [] then s
       else s\<lparr>ls_messages := ls_messages s @ steering, ls_newTail := ls_newTail s @ steering\<rparr>)))))"

definition selectedTools :: "step_tools \<Rightarrow> string list \<Rightarrow> step_tools" where
  "selectedTools toolkit active =
     own_order (concat (map (\<lambda>name. case map_of toolkit name of None \<Rightarrow> [] | Some d \<Rightarrow> [(name, d)]) (js_distinct active)))"

definition noUsage :: response_usage where
  "noUsage = \<lparr>ru_input = None, ru_cacheRead = None, ru_cacheWrite = None, ru_output = None, ru_reasoning = None\<rparr>"

text \<open>The host-planned first batch, as its own provider answers it.\<close>

definition plannedBatch :: "run_ref option \<Rightarrow> (string \<times> json) list \<Rightarrow> generated" where
  "plannedBatch run batch =
     \<lparr>gn_content = map (\<lambda>(index, name, params). CallPart \<lparr>rc_id = (case run of None \<Rightarrow> ''call_p'' @ dec (int index) | Some r \<Rightarrow> plannedCallIdOf r index),
            rc_name = name, rc_params = Some params, rc_executed = False, rc_metadata = []\<rparr>) (enumerate 0 batch)
          @ [FinishPart FToolCalls noUsage []],
      gn_finish = FToolCalls, gn_usage = Some noUsage\<rparr>"

definition reasonOf :: "malformed_call \<Rightarrow> string list \<Rightarrow> ai_reason" where
  "reasonOf bad tools =
     (case bad of
        NotFound tool \<Rightarrow> ToolNotFoundError tool tools
      | Invalid tool description \<Rightarrow> ToolParameterValidationError tool description
      | DuplicateId tool \<Rightarrow> InvalidOutputError DUPLICATE_CALL_IDS)"

definition firstMalformed :: "bool \<Rightarrow> malformed_call option list \<Rightarrow> malformed_call option" where
  "firstMalformed answerInvalid rejections =
     (case concat (map (\<lambda>r. toList (if answerInvalid then opt_filter (\<lambda>m. \<not> isRejectedCall m) r else r)) rejections) of
        [] \<Rightarrow> None | m # ms \<Rightarrow> Some m)"

definition planOf :: "string list \<Rightarrow> response_call \<Rightarrow> malformed_call option \<Rightarrow> call_plan" where
  "planOf tools c rejection =
     (case opt_filter isRejectedCall rejection of None \<Rightarrow> RunCall c | Some m \<Rightarrow> AnswerCall (rejectedResult c m tools))"

definition answeredParts :: "verdict \<Rightarrow> response_call list \<Rightarrow> call_plan list \<Rightarrow> response_part list" where
  "answeredParts verdict calls plans =
     (case verdict of
        Whole \<Rightarrow> concat (map (\<lambda>p. case p of RunCall c \<Rightarrow> [] | AnswerCall part \<Rightarrow> [part]) plans)
      | Cut why \<Rightarrow> map (\<lambda>c. cutResult c why) calls)"

definition runPlan :: "'w loop_env \<Rightarrow> nat \<Rightarrow> call_plan \<Rightarrow> ('w, response_part) loop_eff" where
  "runPlan env step plan =
     (case plan of
        AnswerCall part \<Rightarrow> eff_return part
      | RunCall c \<Rightarrow>
          eff_bind (perform env (ActEvent (EvToolStart step (rc_id c) (rc_name c)))) (\<lambda>u.
          eff_bind (ask (le_tool env step c)) (\<lambda>a.
          eff_bind (perform env (ActEvent (EvToolEnd step (rc_id c) (rc_name c) (\<not> ta_failure a)))) (\<lambda>u.
          eff_bind (perform env (ActTail (responseToAgentMessages [runPart c a]) step)) (\<lambda>u.
          eff_return (runPart c a))))))"

fun runEach :: "'w loop_env \<Rightarrow> nat \<Rightarrow> call_plan list \<Rightarrow> nat list \<Rightarrow> ('w, (nat \<times> response_part) list) loop_eff" where
  "runEach env step plans [] = eff_return []"
| "runEach env step plans (i # is) =
     eff_bind (runPlan env step (plans ! i)) (\<lambda>part.
     eff_bind (runEach env step plans is) (\<lambda>rest. eff_return ((i, part) # rest)))"

text \<open>Every place once, those the schedule names first and in its order.\<close>

definition completionOrder :: "nat list \<Rightarrow> nat \<Rightarrow> nat list" where
  "completionOrder schedule n =
     (let first = filter (\<lambda>i. i < n) (js_distinct schedule) in first @ filter (\<lambda>i. i \<notin> set first) [0..<n])"

definition runPlans :: "'w loop_env \<Rightarrow> nat \<Rightarrow> call_plan list \<Rightarrow> ('w, response_part list) loop_eff" where
  "runPlans env step plans lw =
     eff_bind (runEach env step plans (completionOrder (le_schedule env (lw_world lw)) (length plans))) (\<lambda>done.
       eff_return (map (\<lambda>i. the (map_of done i)) [0..<length plans])) lw"

text \<open>The step's request, sent with the attempts of theory \<open>RequestAttempt\<close> over the host's state.\<close>

definition sendRequest :: "'w request_env \<Rightarrow> bool \<Rightarrow> ('w, attempted) eff" where
  "sendRequest rq streamingHealthy w =
     (case send rq streamingHealthy \<lparr>aw_attempt = initialAttempt streamingHealthy, aw_seen = False, aw_world = w\<rparr> of
        (r, aw) \<Rightarrow> (r, aw_world aw))"

text \<open>What a response that arrived becomes: refused whole, or recorded, run and summed up.\<close>

definition respond :: "'w loop_env \<Rightarrow> loop_state \<Rightarrow> step_tools \<Rightarrow> bool \<Rightarrow> attempted \<Rightarrow> ('w, executed) loop_eff" where
  "respond env s selected planned v =
     (let toolNames = map fst selected;
          response = withToolCallIds (at_content v) (ls_step s) (le_run env);
          calls = filter (\<lambda>c. \<not> rc_executed c) (callParts response);
          verdict = verdictOf (at_finish v) (calls \<noteq> []);
          rejections = (if verdict = Whole then callRejections calls selected else map (\<lambda>c. None) calls)
      in case firstMalformed (lp_answerInvalid (le_policy env)) rejections of
           Some m \<Rightarrow> eff_return (XMalformed (reasonOf m toolNames) toolNames)
         | None \<Rightarrow>
             (let plans = map (\<lambda>(c, r). planOf toolNames c r) (zip calls rejections);
                  answers = answeredParts verdict calls plans;
                  usage = extractUsage (at_usage v) response;
                  model = responseModelOf response;
                  responseTail = (if planned then responseToAgentMessages response
                    else withUsageOnAssistant (responseToAgentMessages (response @ answers)) usage model)
              in eff_bind (perform env (ActTail responseTail (ls_step s))) (\<lambda>u.
                 eff_bind (perform env (ActEvent (EvAssistant (ls_step s) (responseText response) usage (at_finish v)))) (\<lambda>u.
                 eff_bind (if verdict = Whole then runPlans env (ls_step s) plans else eff_return answers) (\<lambda>results.
                 let content = response @ results in
                 eff_return (XResponded content (at_finish v) (if verdict = Whole then None else Some (at_finish v)) usage
                   (if planned then responseToAgentMessages content
                    else withUsageOnAssistant (responseToAgentMessages content) usage model)
                   (responseText response) (responseToolCalls response) (responseToolResults content) planned
                   (calls \<noteq> []) (at_streamingHealthy v)))))))"

definition malformedReasonOf :: "step_error \<Rightarrow> ai_reason option" where
  "malformedReasonOf e = (case se_cause e of
       AiFailure a \<Rightarrow> if \<not> se_callback e \<and> isMalformed e then Some (ai_reason a) else None
     | _ \<Rightarrow> None)"

definition execute :: "'w loop_env \<Rightarrow> loop_state \<Rightarrow> string list \<Rightarrow> ('w, executed) loop_eff" where
  "execute env s active =
     (let selected = selectedTools (le_toolkit env) active;
          toolNames = map fst selected;
          batch = (if ls_step s = 0 then le_initialStep env else None)
      in eff_bind (ask (le_request env (ls_step s) toolNames (ls_lastUsage s) (ls_messages s))) (\<lambda>rq.
         eff_either (ask (sendRequest (rq\<lparr>rq_messages := ls_messages s, rq_planned := map_option (plannedBatch (le_run env)) batch\<rparr>)
                (ls_streaming s)))
           (\<lambda>e. case malformedReasonOf e of
                  None \<Rightarrow> fail_with e
                | Some reason \<Rightarrow> eff_return (XMalformed reason toolNames))
           (\<lambda>v. case contentFailureOf (at_content v) of
                  None \<Rightarrow> respond env s selected (batch \<noteq> None) v
                | Some kind \<Rightarrow> fail_with (turnFailure (modelFailureCodeOf kind) (modelFailureMessageOf kind)))))"


section \<open>What follows a step\<close>

definition statusOf :: "step_error + loop_state \<times> executed \<Rightarrow> step_status" where
  "statusOf r =
     (case r of
        Inl e \<Rightarrow> SsFailed
      | Inr (s, XMalformed reason tools) \<Rightarrow> SsMalformed
      | Inr (s, x) \<Rightarrow> if x_cut x \<noteq> None then SsTruncated else SsCompleted)"

definition settleStep :: "'w loop_env \<Rightarrow> nat \<Rightarrow> step_status \<Rightarrow> ('w, unit) loop_eff" where
  "settleStep env step status =
     eff_bind (perform env (ActSettled step status)) (\<lambda>u. perform env (ActEvent (EvTurnEnd step status)))"

definition pendingSteers :: "'w loop_env \<Rightarrow> ('w, bool) loop_eff" where
  "pendingSteers env = (case le_durable env of None \<Rightarrow> eff_return False | Some (pending, takeSteers) \<Rightarrow> ask pending)"

definition userNote :: "string \<Rightarrow> agent_message" where
  "userNote t = UserMsg (ContentText t) None"

definition recover :: "'w loop_env \<Rightarrow> loop_state \<Rightarrow> ai_reason \<Rightarrow> string list \<Rightarrow> ('w, loop_state) loop_eff" where
  "recover env s reason tools =
     eff_bind (pendingSteers env) (\<lambda>p.
       let streak = ls_malformedStreak s + 1; step = ls_step s + 1 in
       if int streak \<ge> lp_malformedLimit (le_policy env)
       then fail_with \<lparr>se_callback = False, se_cause = AiFailure \<lparr>ai_reason = reason, ai_metadata = []\<rparr>\<rparr>
       else if step \<ge> le_maxSteps env
       then eff_return (withTexts (settledText s []) s\<lparr>ls_step := step, ls_malformedStreak := streak, ls_cutStreak := 0, ls_phase := PhStepCap\<rparr>)
       else (let corrective = userNote (case le_malformedText env of
                   Some text_of \<Rightarrow> text_of tools (clipTo (le_reasonText env reason) QUOTE_CHARS)
                 | None \<Rightarrow> malformedCorrective reason tools)
             in eff_bind (perform env (ActTail [corrective] step)) (\<lambda>u.
                eff_return (s\<lparr>ls_messages := ls_messages s @ [corrective], ls_newTail := ls_newTail s @ [corrective], ls_step := step,
                    ls_malformedStreak := streak, ls_cutStreak := 0, ls_corrections := ls_corrections s + 1\<rparr>))))"

definition foldable :: "agent_message list \<Rightarrow> compaction_plan \<Rightarrow> bool" where
  "foldable messages p \<longleftrightarrow> cp_keepFrom p > 0 \<and> cp_keepFrom p < int (length messages)
     \<and> isAssistantMsg (messages ! nat (cp_keepFrom p))"

definition nextInput ::
  "'w loop_env \<Rightarrow> loop_state \<Rightarrow> agent_message list \<Rightarrow> agent_message list \<Rightarrow> token_usage \<Rightarrow> ('w, agent_message list \<times> agent_message list) loop_eff" where
  "nextInput env s tail appended usage =
     (let nextMessages = ls_messages s @ tail @ appended in
      eff_bind (case le_compact env of None \<Rightarrow> eff_return None | Some m \<Rightarrow> ask (m nextMessages usage)) (\<lambda>plan.
      let applied = opt_filter (foldable nextMessages) plan in
      eff_bind (case applied of None \<Rightarrow> eff_return ()
          | Some p \<Rightarrow> perform env (ActEvent (EvCompaction (ls_step s) (tu_input usage) (length nextMessages - nat (cp_keepFrom p))))) (\<lambda>u.
      eff_bind (case le_pendingInput env of None \<Rightarrow> eff_return None | Some m \<Rightarrow> ask m) (\<lambda>steered.
      let steerTail = (case steered of None \<Rightarrow> [] | Some t \<Rightarrow> [userNote t]) in
      eff_bind (if steerTail \<noteq> [] then perform env (ActTail steerTail (ls_step s + 1)) else eff_return ()) (\<lambda>u.
      eff_return
        ((case applied of None \<Rightarrow> nextMessages
          | Some p \<Rightarrow> handoffToMessage (cp_summary p) # drop (nat (cp_keepFrom p)) nextMessages) @ steerTail,
         ls_newTail s @ tail @ appended @ steerTail))))))"

definition recut :: "'w loop_env \<Rightarrow> loop_state \<Rightarrow> executed \<Rightarrow> finish_reason \<Rightarrow> ('w, loop_state) loop_eff" where
  "recut env s x why =
     eff_bind (pendingSteers env) (\<lambda>p.
       let streak = ls_cutStreak s + 1; step = ls_step s + 1 in
       if why \<noteq> FLength \<or> streak > MAX_CUT_CORRECTIVES
       then fail_with (turnFailure ''loop.truncated'' (truncatedMessage why (ls_step s) streak))
       else (let answered = s\<lparr>ls_step := step, ls_malformedStreak := 0, ls_cutStreak := streak, ls_usage := addUsage (ls_usage s) (x_usage x),
                  ls_lastUsage := (if x_planned x then ls_lastUsage s else Some (x_usage x)), ls_streaming := x_streaming x\<rparr>
             in if step \<ge> le_maxSteps env
                then eff_return (withTexts (settledText s (x_text x)) answered\<lparr>ls_messages := ls_messages s @ x_tail x,
                       ls_newTail := ls_newTail s @ x_tail x, ls_phase := PhStepCap\<rparr>)
                else (let corrective = userNote (lengthCorrective (x_callsToRun x)) in
                  eff_bind (perform env (ActTail [corrective] step)) (\<lambda>u.
                  eff_bind (nextInput env s (x_tail x) [corrective] (x_usage x)) (\<lambda>inp.
                  eff_return (withTexts (if x_callsToRun x then settledText s (x_text x) else carriedText s (x_text x))
                    answered\<lparr>ls_messages := fst inp, ls_newTail := snd inp, ls_corrections := ls_corrections s + 1\<rparr>))))))"

definition noteTail :: "'w loop_env \<Rightarrow> agent_message list \<Rightarrow> nat \<Rightarrow> ('w, unit) loop_eff" where
  "noteTail env ms step = (if ms \<noteq> [] then perform env (ActTail ms step) else eff_return ())"

definition failedResults :: "executed \<Rightarrow> nat" where
  "failedResults x = length (filter (\<lambda>r. \<not> trs_ok r) (x_toolResults x))"

definition decideNext :: "'w loop_env \<Rightarrow> loop_state \<Rightarrow> executed \<Rightarrow> ('w, loop_state) loop_eff" where
  "decideNext env s x =
     (let step = ls_step s + 1; pr = foldProgress (ls_seen s) (ls_stale s) (progressSignature (x_content x) (le_pollable env)) (lp_degenerate (le_policy env)) in
      eff_bind (case le_isComplete env of None \<Rightarrow> eff_return False | Some m \<Rightarrow> ask (m (ls_step s))) (\<lambda>completed.
      eff_bind (pendingSteers env) (\<lambda>steered.
      let requireMore = (\<not> completed \<and> le_requireCompletion env);
          wantsMore = (steered \<or> (\<not> completed \<and> (requireMore \<or> (x_finish x = FToolCalls \<and> x_toolCalls x \<noteq> []) \<or> x_finish x = FPause)));
          phase = nextPhase (pr_broke pr) wantsMore step (le_maxSteps env);
          continues = (phase = PhContinue);
          nudge = (if continues \<and> pr_nudge pr then [userNote (hostNote DEGENERATE_REPEAT_NUDGE)] else []);
          completionNudge = (if continues \<and> requireMore \<and> x_toolCalls x = [] \<and> x_finish x \<noteq> FPause
             then [userNote (get_or_else INCOMPLETE_CORRECTIVE (le_incomplete env))] else []);
          texts = (if continues \<and> x_finish x = FPause then carriedText s (x_text x) else settledText s (x_text x))
      in eff_bind (noteTail env nudge step) (\<lambda>u.
         eff_bind (noteTail env completionNudge step) (\<lambda>u.
         eff_bind (if continues then nextInput env s (x_tail x) (nudge @ completionNudge) (x_usage x)
                   else eff_return (ls_messages s @ x_tail x, ls_newTail s @ x_tail x)) (\<lambda>inp.
         eff_return
           \<lparr>ls_messages = fst inp, ls_newTail = snd inp,
            ls_finalText = (if pr_broke pr \<and> length (fst texts) = 0 then DEGENERATE_LOOP_STOP else fst texts),
            ls_carried = snd texts, ls_step = step, ls_malformedStreak = 0, ls_cutStreak = 0,
            ls_seen = pr_seen pr, ls_stale = pr_stale pr, ls_usage = addUsage (ls_usage s) (x_usage x),
            ls_lastUsage = (if x_planned x then ls_lastUsage s else Some (x_usage x)), ls_phase = phase,
            ls_toolCalls = ls_toolCalls s + length (x_toolCalls x), ls_toolFailures = ls_toolFailures s + failedResults x,
            ls_corrections = ls_corrections s + (if nudge \<noteq> [] then 1 else 0), ls_streaming = x_streaming x\<rparr>))))))"

definition isWaiting :: "'w loop_env \<Rightarrow> ('w, bool) loop_eff" where
  "isWaiting env = (case le_waiting env of None \<Rightarrow> eff_return False | Some m \<Rightarrow> ask m)"

definition decide :: "'w loop_env \<Rightarrow> loop_state \<Rightarrow> executed \<Rightarrow> ('w, loop_state) loop_eff" where
  "decide env s x =
     eff_bind (isWaiting env) (\<lambda>waits.
       if waits
       then eff_return (s\<lparr>ls_messages := ls_messages s @ x_tail x, ls_newTail := ls_newTail s @ x_tail x, ls_finalText := [], ls_carried := [],
              ls_step := ls_step s + 1, ls_usage := addUsage (ls_usage s) (x_usage x),
              ls_lastUsage := (if x_planned x then ls_lastUsage s else Some (x_usage x)),
              ls_toolCalls := ls_toolCalls s + length (x_toolCalls x), ls_toolFailures := ls_toolFailures s + failedResults x,
              ls_streaming := x_streaming x, ls_phase := PhWaiting\<rparr>)
       else decideNext env s x)"

definition follow :: "'w loop_env \<Rightarrow> loop_state \<Rightarrow> executed \<Rightarrow> ('w, loop_state) loop_eff" where
  "follow env s x =
     (case x of
        XMalformed reason tools \<Rightarrow> recover env s reason tools
      | _ \<Rightarrow> (case x_cut x of None \<Rightarrow> decide env s x | Some why \<Rightarrow> recut env s x why))"

text \<open>
  One step: it begins and executes, and settles once with that exit's status, also when it failed;
  then the loop decides. A settlement that fails fails the step, unless it had failed before.
\<close>

definition executeStep :: "'w loop_env \<Rightarrow> loop_state \<Rightarrow> ('w, loop_state \<times> executed) loop_eff" where
  "executeStep env s =
     eff_bind (beginStep env s) (\<lambda>begun. eff_bind (execute env (snd begun) (fst begun)) (\<lambda>x. eff_return (snd begun, x)))"

definition loopStep :: "'w loop_env \<Rightarrow> loop_state \<Rightarrow> ('w, loop_state) loop_eff" where
  "loopStep env s lw =
     (case executeStep env s lw of (r, lw1) \<Rightarrow>
        (case settleStep env (ls_step s) (statusOf r) lw1 of
           (Inl e, lw2) \<Rightarrow> (Inl (case r of Inl e' \<Rightarrow> e' | Inr sx \<Rightarrow> e), lw2)
         | (Inr u, lw2) \<Rightarrow> (case r of Inl e' \<Rightarrow> (Inl e', lw2) | Inr sx \<Rightarrow> follow env (fst sx) (snd sx) lw2)))"

end
