(* ===== verification/LoopTrace.thy ===== *)
theory LoopTrace
  imports AgentLoop
begin

text \<open>
  What the loop's operations perform: \<open>emits m P\<close> says that every run of \<open>m\<close> appends acts to the
  trace which satisfy \<open>P\<close> together with its result. The rules follow the program; each operation of
  theory \<open>AgentLoop\<close> has one lemma that sums up its acts, and the run's theorems rest on them.
\<close>

section \<open>Summaries of acts\<close>

definition settledIn :: "loop_act list \<Rightarrow> (nat \<times> step_status) list" where
  "settledIn as = concat (map (\<lambda>a. case a of ActSettled n st \<Rightarrow> [(n, st)] | _ \<Rightarrow> []) as)"

definition startsIn :: "loop_act list \<Rightarrow> (nat \<times> string) list" where
  "startsIn as = concat (map (\<lambda>a. case a of ActEvent (EvToolStart n i t) \<Rightarrow> [(n, i)] | _ \<Rightarrow> []) as)"

definition usagesIn :: "loop_act list \<Rightarrow> token_usage list" where
  "usagesIn as = concat (map (\<lambda>a. case a of ActEvent (EvAssistant n t u why) \<Rightarrow> [u] | _ \<Rightarrow> []) as)"

definition recordedIn :: "loop_act list \<Rightarrow> agent_message list" where
  "recordedIn as = concat (map (\<lambda>a. case a of ActTail ms n \<Rightarrow> ms | ActTaken ms n \<Rightarrow> ms | _ \<Rightarrow> []) as)"

definition storedBy :: "loop_act \<Rightarrow> (nat \<times> string) set" where
  "storedBy a = (case a of ActTail ms n \<Rightarrow> {(n, i) |i m. m \<in> set ms \<and> i \<in> set (toolCallIds m)} | _ \<Rightarrow> {})"

text \<open>Every tool starts after the response that calls it was recorded, \<open>K\<close> holding the calls recorded before.\<close>

fun stored_first :: "(nat \<times> string) set \<Rightarrow> loop_act list \<Rightarrow> bool" where
  "stored_first K [] = True"
| "stored_first K (a # as) \<longleftrightarrow> set (startsIn [a]) \<subseteq> K \<and> stored_first (K \<union> storedBy a) as"

named_theorems act_simps

lemma acts_append [act_simps]:
  "settledIn (as @ bs) = settledIn as @ settledIn bs" "startsIn (as @ bs) = startsIn as @ startsIn bs"
  "usagesIn (as @ bs) = usagesIn as @ usagesIn bs" "recordedIn (as @ bs) = recordedIn as @ recordedIn bs"
  by (simp_all add: settledIn_def startsIn_def usagesIn_def recordedIn_def)

lemma acts_Nil [act_simps]: "settledIn [] = []" "startsIn [] = []" "usagesIn [] = []" "recordedIn [] = []"
  by (simp_all add: settledIn_def startsIn_def usagesIn_def recordedIn_def)

lemma settledIn_Cons [act_simps]:
  "settledIn (ActSettled n st # as) = (n, st) # settledIn as" "settledIn (ActEvent ev # as) = settledIn as"
  "settledIn (ActTail ms n # as) = settledIn as" "settledIn (ActTaken ms n # as) = settledIn as"
  by (simp_all add: settledIn_def)

lemma startsIn_Cons [act_simps]:
  "startsIn (ActSettled n st # as) = startsIn as" "startsIn (ActTail ms n # as) = startsIn as" "startsIn (ActTaken ms n # as) = startsIn as"
  "startsIn (ActEvent (EvToolStart n i t) # as) = (n, i) # startsIn as" "startsIn (ActEvent (EvTurnStart n) # as) = startsIn as"
  "startsIn (ActEvent (EvAssistant n t u why) # as) = startsIn as" "startsIn (ActEvent (EvToolEnd n i t ok) # as) = startsIn as"
  "startsIn (ActEvent (EvCompaction n k l) # as) = startsIn as" "startsIn (ActEvent (EvTurnEnd n st) # as) = startsIn as"
  "startsIn (ActEvent (EvAgentEnd oc ph t) # as) = startsIn as"
  by (simp_all add: startsIn_def)

lemma usagesIn_Cons [act_simps]:
  "usagesIn (ActSettled n st # as) = usagesIn as" "usagesIn (ActTail ms n # as) = usagesIn as" "usagesIn (ActTaken ms n # as) = usagesIn as"
  "usagesIn (ActEvent (EvAssistant n t u why) # as) = u # usagesIn as" "usagesIn (ActEvent (EvTurnStart n) # as) = usagesIn as"
  "usagesIn (ActEvent (EvToolStart n i t) # as) = usagesIn as" "usagesIn (ActEvent (EvToolEnd n i t ok) # as) = usagesIn as"
  "usagesIn (ActEvent (EvCompaction n k l) # as) = usagesIn as" "usagesIn (ActEvent (EvTurnEnd n st) # as) = usagesIn as"
  "usagesIn (ActEvent (EvAgentEnd oc ph t) # as) = usagesIn as"
  by (simp_all add: usagesIn_def)

lemma recordedIn_Cons [act_simps]:
  "recordedIn (ActSettled n st # as) = recordedIn as" "recordedIn (ActEvent ev # as) = recordedIn as"
  "recordedIn (ActTail ms n # as) = ms @ recordedIn as" "recordedIn (ActTaken ms n # as) = ms @ recordedIn as"
  by (simp_all add: recordedIn_def)

lemma stored_first_mono: "stored_first K as \<Longrightarrow> K \<subseteq> L \<Longrightarrow> stored_first L as"
proof (induction as arbitrary: K L)
  case (Cons a as)
  then have "stored_first (K \<union> storedBy a) as" "K \<union> storedBy a \<subseteq> L \<union> storedBy a" by auto
  then have "stored_first (L \<union> storedBy a) as" by (rule Cons.IH)
  with Cons.prems show ?case by auto
qed simp

lemma stored_first_append: "stored_first K (as @ bs) \<longleftrightarrow> stored_first K as \<and> stored_first (K \<union> (\<Union>a\<in>set as. storedBy a)) bs"
  by (induction as arbitrary: K) (auto simp: Un_assoc)

lemma stored_first_appendI: "stored_first K as \<Longrightarrow> stored_first {} bs \<Longrightarrow> stored_first K (as @ bs)"
  by (auto simp: stored_first_append intro: stored_first_mono)

lemma stored_first_both: "stored_first K as \<Longrightarrow> stored_first K bs \<Longrightarrow> stored_first K (as @ bs)"
  by (auto simp: stored_first_append intro: stored_first_mono)

lemma stored_first_quiet: "startsIn as = [] \<Longrightarrow> stored_first K as"
proof (induction as arbitrary: K)
  case (Cons a as)
  have "startsIn (a # as) = startsIn [a] @ startsIn as" by (simp flip: acts_append)
  with Cons show ?case by simp
qed simp

section \<open>The acts of an operation\<close>

definition emits :: "('w, 'a) loop_eff \<Rightarrow> (loop_act list \<Rightarrow> step_error + 'a \<Rightarrow> bool) \<Rightarrow> bool" where
  "emits m P \<longleftrightarrow> (\<forall>lw r lw'. m lw = (r, lw') \<longrightarrow> (\<exists>new. lw_acts lw' = lw_acts lw @ new \<and> P new r))"

definition answers :: "('w, 'a) eff \<Rightarrow> step_error + 'a \<Rightarrow> bool" where
  "answers m r \<longleftrightarrow> (\<exists>w w'. m w = (r, w'))"

named_theorems emits_rules

lemma emitsD: "emits m P \<Longrightarrow> m lw = (r, lw') \<Longrightarrow> \<exists>new. lw_acts lw' = lw_acts lw @ new \<and> P new r"
  by (auto simp: emits_def)

lemma emits_mono: "emits m P \<Longrightarrow> (\<And>new r. P new r \<Longrightarrow> Q new r) \<Longrightarrow> emits m Q"
  by (fastforce simp: emits_def)

lemma emits_return [emits_rules]: "P [] (Inr x) \<Longrightarrow> emits (eff_return x) P"
  by (auto simp: emits_def)

lemma emits_fail [emits_rules]: "P [] (Inl e) \<Longrightarrow> emits (fail_with e) P"
  by (auto simp: emits_def fail_with_def)

lemma emits_ask [emits_rules]: "(\<And>r. answers m r \<Longrightarrow> P [] r) \<Longrightarrow> emits (ask m) P"
  by (auto simp: emits_def ask_def answers_def split: prod.splits)

lemma emits_perform [emits_rules]: "(\<And>r. P [a] r) \<Longrightarrow> emits (perform env a) P"
  by (auto simp: emits_def perform_def split: prod.splits)

lemma emits_noted [emits_rules]: "P [a] (Inr ()) \<Longrightarrow> emits (noted a) P"
  by (auto simp: emits_def noted_def)

lemma emits_bind:
  assumes "emits m (\<lambda>new r. case r of Inl e \<Rightarrow> Q new (Inl e) | Inr x \<Rightarrow> emits (k x) (\<lambda>new2 r2. Q (new @ new2) r2))"
  shows "emits (eff_bind m k) Q"
  unfolding emits_def
proof (intro allI impI)
  fix lw r lw' assume run: "eff_bind m k lw = (r, lw')"
  obtain r1 lw1 where m: "m lw = (r1, lw1)" by (cases "m lw")
  from emitsD [OF assms m] obtain new where new: "lw_acts lw1 = lw_acts lw @ new"
    "case r1 of Inl e \<Rightarrow> Q new (Inl e) | Inr x \<Rightarrow> emits (k x) (\<lambda>new2 r2. Q (new @ new2) r2)" by blast
  show "\<exists>new. lw_acts lw' = lw_acts lw @ new \<and> Q new r"
  proof (cases r1)
    case (Inl e)
    with run m new show ?thesis by (auto simp: eff_bind_def)
  next
    case (Inr x)
    with run m have "k x lw1 = (r, lw')" by (simp add: eff_bind_def)
    moreover from new Inr have "emits (k x) (\<lambda>new2 r2. Q (new @ new2) r2)" by simp
    ultimately obtain new2 where "lw_acts lw' = lw_acts lw1 @ new2" "Q (new @ new2) r" using emitsD by blast
    with new show ?thesis by auto
  qed
qed

lemma emits_perform_bind [emits_rules]:
  "(\<And>e. Q [a] (Inl e)) \<Longrightarrow> emits (k ()) (\<lambda>new r. Q (a # new) r) \<Longrightarrow> emits (eff_bind (perform env a) k) Q"
  by (rule emits_bind, rule emits_perform) (auto split: sum.split)

lemma emits_noted_bind [emits_rules]: "emits (k ()) (\<lambda>new r. Q (a # new) r) \<Longrightarrow> emits (eff_bind (noted a) k) Q"
  by (rule emits_bind, rule emits_noted) auto

lemma emits_ask_bind [emits_rules]:
  "(\<And>e. Q [] (Inl e)) \<Longrightarrow> (\<And>x. answers m (Inr x) \<Longrightarrow> emits (k x) Q) \<Longrightarrow> emits (eff_bind (ask m) k) Q"
  by (rule emits_bind, rule emits_ask) (auto split: sum.split)

lemma emits_return_bind [emits_rules]: "emits (k x) Q \<Longrightarrow> emits (eff_bind (eff_return x) k) Q"
  by (rule emits_bind, rule emits_return) simp

lemma emits_bind_use:
  assumes "emits m P" "\<And>new e. P new (Inl e) \<Longrightarrow> Q new (Inl e)"
    and "\<And>new x. P new (Inr x) \<Longrightarrow> emits (k x) (\<lambda>new2 r. Q (new @ new2) r)"
  shows "emits (eff_bind m k) Q"
  by (rule emits_bind, rule emits_mono [OF assms(1)]) (auto split: sum.split intro: assms(2,3))

lemma emits_option [emits_rules]:
  "(x = None \<Longrightarrow> emits (f) Q) \<Longrightarrow> (\<And>y. x = Some y \<Longrightarrow> emits (g y) Q) \<Longrightarrow> emits (case x of None \<Rightarrow> f | Some y \<Rightarrow> g y) Q"
  by (cases x) auto

lemma emits_if [emits_rules]:
  "(b \<Longrightarrow> emits f Q) \<Longrightarrow> (\<not> b \<Longrightarrow> emits g Q) \<Longrightarrow> emits (if b then f else g) Q"
  by simp

text \<open>The operations that ask, with or without a callback, add nothing.\<close>

definition silent :: "('w, 'a) loop_eff \<Rightarrow> bool" where
  "silent m \<longleftrightarrow> emits m (\<lambda>new r. new = [])"

lemma silent_bind: "silent m \<Longrightarrow> (\<And>e. Q [] (Inl e)) \<Longrightarrow> (\<And>x. emits (k x) Q) \<Longrightarrow> emits (eff_bind m k) Q"
  unfolding silent_def by (rule emits_bind_use [where P = "\<lambda>new r. new = []"]) auto

lemma silent_ask: "silent (case x of None \<Rightarrow> eff_return d | Some y \<Rightarrow> ask (f y))"
  unfolding silent_def by (rule emits_option) (auto intro: emits_rules)

lemma silent_pending: "silent (pendingSteers env)"
  unfolding silent_def pendingSteers_def by (cases "le_durable env") (auto intro!: emits_rules)

lemma silent_waiting: "silent (isWaiting env)"
  unfolding isWaiting_def silent_def by (rule emits_option) (auto intro: emits_rules)


section \<open>What the record of a message holds\<close>

text \<open>A message in the pieces the record may hold apart: a tool message is its results.\<close>

datatype piece =
    PieceUser user_content "json option"
  | PieceAssistant "assistant_part list" "json option"
  | PieceResult tool_result_part

definition piecesOf :: "agent_message \<Rightarrow> piece list" where
  "piecesOf m = (case m of UserMsg c opts \<Rightarrow> [PieceUser c opts] | AssistantMsg ps opts \<Rightarrow> [PieceAssistant ps opts]
     | ToolMsg rs opts \<Rightarrow> map PieceResult rs)"

definition pieces :: "agent_message list \<Rightarrow> piece list" where
  "pieces ms = concat (map piecesOf ms)"

lemma pieces_simps [simp]: "pieces [] = []" "pieces (m # ms) = piecesOf m @ pieces ms" "pieces (ms @ ns) = pieces ms @ pieces ns"
  by (simp_all add: pieces_def)

definition assistantSide :: "response_part list \<Rightarrow> assistant_part list" where
  "assistantSide content = concat (map assistantPartsOf (filter isSettled content))"

definition toolSide :: "response_part list \<Rightarrow> tool_result_part list" where
  "toolSide content = concat (map toolPartsOf (filter isSettled content))"

lemma sides_append [simp]: "assistantSide (xs @ ys) = assistantSide xs @ assistantSide ys" "toolSide (xs @ ys) = toolSide xs @ toolSide ys"
  by (simp_all add: assistantSide_def toolSide_def)

text \<open>The tail of a response, stamped or not: its assistant message and its tool message, each when it holds a part.\<close>

definition stampOf :: "token_usage \<Rightarrow> string option \<Rightarrow> json_fields" where
  "stampOf u model = mergeEngineStamp [] (usageFields u @ (case model of None \<Rightarrow> [] | Some i \<Rightarrow> [(''model'', JStr i)]))"

lemma tail_plain:
  "responseToAgentMessages content =
     (if assistantSide content = [] then [] else [AssistantMsg (assistantSide content) None])
     @ (if toolSide content = [] then [] else [ToolMsg (toolSide content) None])"
  by (simp add: responseToAgentMessages_def assistantSide_def toolSide_def Let_def)

lemma tail_stamped:
  "withUsageOnAssistant (responseToAgentMessages content) u model =
     (if assistantSide content = [] then [] else [AssistantMsg (assistantSide content) (Some (JObj (stampOf u model)))])
     @ (if toolSide content = [] then [] else [ToolMsg (toolSide content) None])"
  unfolding tail_plain
  by (simp add: withUsageOnAssistant_def findIndex_simps isAssistantMsg_def Let_def stampOf_def optionFields_def)

definition tailOf :: "bool \<Rightarrow> response_part list \<Rightarrow> token_usage \<Rightarrow> string option \<Rightarrow> agent_message list" where
  "tailOf planned content u model =
     (if planned then responseToAgentMessages content else withUsageOnAssistant (responseToAgentMessages content) u model)"

lemma tailOf_eq:
  "tailOf planned content u model =
     (if assistantSide content = [] then []
      else [AssistantMsg (assistantSide content) (if planned then None else Some (JObj (stampOf u model)))])
     @ (if toolSide content = [] then [] else [ToolMsg (toolSide content) None])"
proof (cases planned)
  case True
  then show ?thesis by (simp add: tailOf_def tail_plain)
next
  case False
  then show ?thesis by (simp add: tailOf_def tail_stamped)
qed

lemma pieces_tailOf:
  "pieces (tailOf planned content u model) =
     (if assistantSide content = [] then []
      else [PieceAssistant (assistantSide content) (if planned then None else Some (JObj (stampOf u model)))])
     @ map PieceResult (toolSide content)"
  by (simp add: tailOf_eq piecesOf_def)

lemma callsOfParts_append: "callsOfParts (xs @ ys) = callsOfParts xs @ callsOfParts ys"
  by (simp add: callsOfParts_def)

lemma assistantSide_calls:
  "map call_id (callsOfParts (assistantSide content)) = map rc_id (filter (\<lambda>c. \<not> rc_executed c) (callParts content))"
proof (induction content)
  case Nil
  then show ?case by (simp add: assistantSide_def callsOfParts_def)
next
  case (Cons p ps)
  have side: "assistantSide (p # ps) = (if isSettled p then assistantPartsOf p else []) @ assistantSide ps"
    by (simp add: assistantSide_def)
  show ?case unfolding side
    using Cons by (cases p) (auto simp: callsOfParts_append isSettled_def assistantPartsOf_def callsOfParts_def executable_def)
qed

lemma toolCallIds_tailOf:
  "m \<in> set (tailOf planned content u model) \<Longrightarrow> isAssistantMsg m \<Longrightarrow>
     toolCallIds m = map rc_id (filter (\<lambda>c. \<not> rc_executed c) (callParts content))"
  by (auto simp: tailOf_eq toolCallIds_def assistantSide_calls isAssistantMsg_def split: if_splits)

text \<open>A tail whose results answer its calls is answered, and what is appended to an answered buffer leaves it so.\<close>

lemma answered_append: "answered ms \<Longrightarrow> answered ns \<Longrightarrow> answered (ms @ ns)"
  by (induction ms) (auto split: list.splits)

lemma answered_drop: "answered ms \<Longrightarrow> answered (drop n ms)"
proof (induction ms arbitrary: n)
  case (Cons m ms)
  then show ?case by (cases n) auto
qed simp

lemma answered_userNote: "answered (userNote t # ms) = answered ms" "answered (handoffToMessage t # ms) = answered ms"
  by (simp_all add: userNote_def handoffToMessage_def toolCallIds_def)

lemma answered_fold: "answered ms \<Longrightarrow> answered (handoffToMessage t # drop n ms)"
  by (simp only: answered_userNote answered_drop)

lemma user_answered: "answered []" "answered [userNote t]" "answered [userNote t, userNote t']"
  by (simp_all add: userNote_def toolCallIds_def)

lemma answered_note: "answered (a @ b @ c) \<Longrightarrow> answered (a @ b @ c @ [userNote t])"
  using answered_append [of "a @ b @ c" "[userNote t]"] user_answered(2) by simp

lemma toolSide_results: "result_id ` set (toolSide content) = rr_id ` {r. ResultPart r \<in> set content \<and> \<not> rr_preliminary r \<and> \<not> rr_executed r}"
proof (induction content)
  case Nil
  then show ?case by (simp add: toolSide_def)
next
  case (Cons p ps)
  have side: "toolSide (p # ps) = (if isSettled p then toolPartsOf p else []) @ toolSide ps"
    by (simp add: toolSide_def)
  show ?case unfolding side image_Un set_append Cons
    by (cases p) (auto simp: isSettled_def toolPartsOf_def toolResultOf_def)
qed

lemma answered_tailOf:
  assumes "\<And>c. c \<in> set (callParts content) \<Longrightarrow> \<not> rc_executed c \<Longrightarrow>
      \<exists>r. ResultPart r \<in> set content \<and> rr_id r = rc_id c \<and> \<not> rr_preliminary r \<and> \<not> rr_executed r"
  shows "answered (tailOf planned content u model)"
proof -
  have "set (map call_id (callsOfParts (assistantSide content))) \<subseteq> result_id ` set (toolSide content)"
    unfolding assistantSide_calls toolSide_results
  proof
    fix x assume "x \<in> set (map rc_id (filter (\<lambda>c. \<not> rc_executed c) (callParts content)))"
    then obtain c where c: "c \<in> set (callParts content)" "\<not> rc_executed c" "x = rc_id c" by auto
    from assms [OF c(1,2)] obtain r where "ResultPart r \<in> set content" "rr_id r = rc_id c" "\<not> rr_preliminary r" "\<not> rr_executed r" by blast
    with c show "x \<in> rr_id ` {r. ResultPart r \<in> set content \<and> \<not> rr_preliminary r \<and> \<not> rr_executed r}" by force
  qed
  then show ?thesis by (auto simp: tailOf_eq toolCallIds_def toolContent_def)
qed


section \<open>A step's beginning and its calls\<close>

definition takesAnswered :: "'w loop_env \<Rightarrow> bool" where
  "takesAnswered env \<longleftrightarrow> (case le_durable env of None \<Rightarrow> True
     | Some (pending, takeSteers) \<Rightarrow> \<forall>n msgs. answers (takeSteers n) (Inr msgs) \<longrightarrow> answered msgs)"

lemma begin_acts:
  "emits (beginStep env s) (\<lambda>new r. settledIn new = [] \<and> startsIn new = [] \<and> usagesIn new = []
     \<and> (\<forall>active s'. r = Inr (active, s') \<longrightarrow>
          s' = s\<lparr>ls_messages := ls_messages s @ recordedIn new, ls_newTail := ls_newTail s @ recordedIn new\<rparr>
          \<and> (takesAnswered env \<longrightarrow> answered (recordedIn new))))"
proof -
  have taking: "emits (case le_durable env of None \<Rightarrow> eff_return [] | Some (pending, takeSteers) \<Rightarrow> ask (takeSteers (ls_step s)))
      (\<lambda>new r. new = [] \<and> (\<forall>msgs. r = Inr msgs \<longrightarrow> takesAnswered env \<longrightarrow> answered msgs))"
  proof (cases "le_durable env")
    case None
    then show ?thesis by (auto intro!: emits_rules)
  next
    case (Some d)
    obtain pending takeSteers where d: "d = (pending, takeSteers)" by (cases d)
    with Some show ?thesis
      by (auto intro!: emits_rules simp: takesAnswered_def)
  qed
  show ?thesis
    unfolding beginStep_def
    apply (rule emits_perform_bind)
     apply (simp add: act_simps)
    apply (rule silent_bind [OF silent_ask [where f = "\<lambda>m. m"]])
     apply (simp add: act_simps)
    apply (rule emits_bind_use [OF taking])
     apply (simp add: act_simps)
    apply (rule emits_noted_bind)
    apply (rule emits_return)
    apply (auto simp: act_simps)
    done
qed

definition partOf :: "call_plan \<Rightarrow> response_part \<Rightarrow> bool" where
  "partOf plan part = (case plan of AnswerCall q \<Rightarrow> part = q | RunCall c \<Rightarrow> \<exists>a. part = runPart c a)"

definition ranPieces :: "call_plan \<times> response_part \<Rightarrow> piece list" where
  "ranPieces pp = (case fst pp of AnswerCall q \<Rightarrow> [] | RunCall c \<Rightarrow> map PieceResult (toolSide [snd pp]))"

lemma runPart_side: "toolSide [runPart c a] \<noteq> []" "assistantSide [runPart c a] = []"
  by (simp_all add: toolSide_def assistantSide_def runPart_def isSettled_def toolPartsOf_def assistantPartsOf_def)

lemma run_acts:
  "emits (runPlan env step plan) (\<lambda>new r. settledIn new = [] \<and> usagesIn new = []
     \<and> set (startsIn new) \<subseteq> (case plan of RunCall c \<Rightarrow> {(step, rc_id c)} | AnswerCall q \<Rightarrow> {})
     \<and> (\<forall>K. (case plan of RunCall c \<Rightarrow> (step, rc_id c) \<in> K | AnswerCall q \<Rightarrow> True) \<longrightarrow> stored_first K new)
     \<and> (\<forall>part. r = Inr part \<longrightarrow> partOf plan part \<and> pieces (recordedIn new) = ranPieces (plan, part)))"
proof (cases plan)
  case (AnswerCall q)
  then show ?thesis by (auto simp: runPlan_def act_simps partOf_def ranPieces_def intro!: emits_return)
next
  case (RunCall c)
  show ?thesis
    unfolding runPlan_def RunCall call_plan.case
    apply (rule emits_perform_bind)
     apply (simp add: act_simps)
    apply (rule emits_ask_bind)
     apply (simp add: act_simps)
    apply (rule emits_perform_bind)
     apply (simp add: act_simps)
    apply (rule emits_perform_bind)
     apply (simp add: act_simps)
    apply (rule emits_return)
    apply (auto simp: act_simps partOf_def ranPieces_def tail_plain runPart_side piecesOf_def)
    done
qed

lemma each_acts:
  "list_all (\<lambda>i. i < length plans) is \<Longrightarrow>
   emits (runEach env step plans is) (\<lambda>new r. settledIn new = [] \<and> usagesIn new = []
     \<and> set (startsIn new) \<subseteq> {(step, rc_id c) |c. RunCall c \<in> set plans}
     \<and> (\<forall>K. {(step, rc_id c) |c. RunCall c \<in> set plans} \<subseteq> K \<longrightarrow> stored_first K new)
     \<and> (\<forall>ps. r = Inr ps \<longrightarrow> map fst ps = is \<and> list_all (\<lambda>(i, p). partOf (plans ! i) p) ps
          \<and> pieces (recordedIn new) = concat (map (\<lambda>(i, p). ranPieces (plans ! i, p)) ps)))"
proof (induction "is")
  case Nil
  show ?case unfolding runEach.simps by (rule emits_return) (auto simp: act_simps)
next
  case (Cons i "is")
  then have i: "plans ! i \<in> set plans" by simp
  have IH: "list_all (\<lambda>i. i < length plans) is" using Cons.prems by simp
  show ?case
    unfolding runEach.simps
  proof (rule emits_bind_use [OF run_acts], goal_cases)
    case (1 new e)
    with i show ?case by (auto split: call_plan.splits)
  next
    case (2 new part)
    have first: "set (startsIn new) \<subseteq> {(step, rc_id c) |c. RunCall c \<in> set plans}"
      "{(step, rc_id c) |c. RunCall c \<in> set plans} \<subseteq> K \<Longrightarrow> stored_first K new" for K
      using 2 i by (auto split: call_plan.splits)
    show ?case
    proof (rule emits_bind_use [OF Cons.IH [OF IH]], goal_cases)
      case (1 new2 e)
      with 2 first show ?case by (auto simp: act_simps intro!: stored_first_both)
    next
      case (2 new2 rest)
      note second = 2
      show ?case
        by (rule emits_return)
           (use second first \<open>settledIn new = [] \<and> _\<close> in
            \<open>auto simp: act_simps list_all_iff intro!: stored_first_both\<close>)
    qed
  qed
qed


lemma completionOrder_perm: "distinct (completionOrder schedule n) \<and> set (completionOrder schedule n) = {..<n}"
  by (auto simp: completionOrder_def Let_def)

lemma mset_concat_map:
  assumes "distinct xs" "distinct ys" "set xs = set ys"
  shows "mset (concat (map g xs)) = mset (concat (map g ys))"
proof -
  have "mset xs = mset ys" using assms by (simp add: set_eq_iff_mset_eq_distinct)
  then have "mset (map (\<lambda>x. mset (g x)) xs) = mset (map (\<lambda>x. mset (g x)) ys)" by (simp only: mset_map)
  then have "sum_list (map (\<lambda>x. mset (g x)) xs) = sum_list (map (\<lambda>x. mset (g x)) ys)"
    by (metis sum_mset_sum_list)
  then show ?thesis by (simp add: mset_concat comp_def)
qed

lemma keyed_list: "distinct (map fst ps) \<Longrightarrow> ps = map (\<lambda>i. (i, the (map_of ps i))) (map fst ps)"
proof -
  assume "distinct (map fst ps)"
  then have "(fst x, the (map_of ps (fst x))) = x" if "x \<in> set ps" for x
    using that by (cases x) (simp add: map_of_is_SomeI)
  then show ?thesis by (simp add: comp_def map_idI)
qed

definition callStarts :: "nat \<Rightarrow> call_plan list \<Rightarrow> (nat \<times> string) set" where
  "callStarts step plans = {(step, rc_id c) |c. RunCall c \<in> set plans}"

lemma plans_acts:
  "emits (runPlans env step plans) (\<lambda>new r. settledIn new = [] \<and> usagesIn new = []
     \<and> set (startsIn new) \<subseteq> callStarts step plans
     \<and> (\<forall>K. callStarts step plans \<subseteq> K \<longrightarrow> stored_first K new)
     \<and> (\<forall>parts. r = Inr parts \<longrightarrow> list_all2 partOf plans parts
          \<and> mset (pieces (recordedIn new)) = mset (concat (map ranPieces (zip plans parts)))))"
proof -
  have "emits (eff_bind (runEach env step plans (completionOrder schedule (length plans))) (\<lambda>done.
       eff_return (map (\<lambda>i. the (map_of done i)) [0..<length plans])))
     (\<lambda>new r. settledIn new = [] \<and> usagesIn new = []
     \<and> set (startsIn new) \<subseteq> callStarts step plans
     \<and> (\<forall>K. callStarts step plans \<subseteq> K \<longrightarrow> stored_first K new)
     \<and> (\<forall>parts. r = Inr parts \<longrightarrow> list_all2 partOf plans parts
          \<and> mset (pieces (recordedIn new)) = mset (concat (map ranPieces (zip plans parts)))))" for schedule
  proof (rule emits_bind_use [OF each_acts], goal_cases)
    case 1
    show ?case using completionOrder_perm [of schedule "length plans"] by (auto simp: list_all_iff)
  next
    case (2 new e)
    then show ?case by (simp add: callStarts_def)
  next
    case (3 new ps)
    let ?g = "\<lambda>i. ranPieces (plans ! i, the (map_of ps i))"
    let ?parts = "map (\<lambda>i. the (map_of ps i)) [0..<length plans]"
    have keys: "map fst ps = completionOrder schedule (length plans)" using 3 by simp
    then have distinct: "distinct (map fst ps)" using completionOrder_perm by simp
    note keyed = keyed_list [OF distinct]
    have "partOf (plans ! i) (the (map_of ps i))" if "i < length plans" for i
    proof -
      from that keys have "i \<in> set (map fst ps)" using completionOrder_perm by simp
      then have "(i, the (map_of ps i)) \<in> set ps" using keyed by (metis (no_types, lifting) imageI image_set)
      with 3 show ?thesis by (auto simp: list_all_iff)
    qed
    then have parts: "list_all2 partOf plans ?parts" by (simp add: list_all2_conv_all_nth)
    have "pieces (recordedIn new) = concat (map (\<lambda>(i, p). ranPieces (plans ! i, p)) ps)" using 3 by blast
    also have "map (\<lambda>(i, p). ranPieces (plans ! i, p)) ps = map ?g (map fst ps)"
      by (subst (1) keyed) simp
    finally have "mset (pieces (recordedIn new)) = mset (concat (map ?g (map fst ps)))" by simp
    also have "\<dots> = mset (concat (map ?g [0..<length plans]))"
      by (rule mset_concat_map) (use completionOrder_perm keys distinct in auto)
    also have "map ?g [0..<length plans] = map ranPieces (zip plans ?parts)"
      by (rule nth_equalityI) simp_all
    finally have sum: "mset (pieces (recordedIn new)) = mset (concat (map ranPieces (zip plans ?parts)))" .
    show ?case by (rule emits_return) (use 3 parts sum in \<open>simp add: act_simps callStarts_def\<close>)
  qed
  then show ?thesis unfolding emits_def runPlans_def by simp
qed


section \<open>A response\<close>

lemma answerPart_sides [simp]: "assistantSide [answerPart c failure] = []" "callParts [answerPart c failure] = []"
  by (simp_all add: assistantSide_def answerPart_def isSettled_def assistantPartsOf_def)

text \<open>The part a call is answered with, whether it ran or not, carries its id and is a final result of the loop's.\<close>

definition answersCall :: "response_call \<Rightarrow> response_part \<Rightarrow> bool" where
  "answersCall c p \<longleftrightarrow> (\<exists>r. p = ResultPart r \<and> rr_id r = rc_id c \<and> \<not> rr_preliminary r \<and> \<not> rr_executed r)"

lemma answersCall_parts: "answersCall c (answerPart c failure)" "answersCall c (runPart c a)"
  by (simp_all add: answersCall_def answerPart_def runPart_def)

lemma answersCall_sides: "answersCall c p \<Longrightarrow> assistantSide [p] = [] \<and> callParts [p] = []"
  by (auto simp: answersCall_def assistantSide_def isSettled_def assistantPartsOf_def)

definition plannedFor :: "response_call \<Rightarrow> call_plan \<Rightarrow> bool" where
  "plannedFor c plan \<longleftrightarrow> plan = RunCall c \<or> (\<exists>q. plan = AnswerCall q \<and> answersCall c q)"

lemma planOf_for: "plannedFor c (planOf tools c rejection)"
  by (auto simp: planOf_def plannedFor_def rejectedResult_def answersCall_parts split: option.split)

lemma plans_for: "length rejections = length calls \<Longrightarrow>
    list_all2 plannedFor calls (map (\<lambda>(c, r). planOf tools c r) (zip calls rejections))"
  by (auto simp: list_all2_conv_all_nth planOf_for)

lemma plan_answered: "plannedFor c plan \<Longrightarrow> partOf plan part \<Longrightarrow> answersCall c part"
  by (auto simp: plannedFor_def partOf_def answersCall_parts)

lemma plans_answered: "list_all2 plannedFor calls plans \<Longrightarrow> list_all2 partOf plans parts \<Longrightarrow> list_all2 answersCall calls parts"
  by (rule list_all2_trans [OF plan_answered])

lemma answers_sides: "list_all2 answersCall calls parts \<Longrightarrow> assistantSide parts = [] \<and> callParts parts = []"
proof (induction rule: list_all2_induct)
  case Nil
  then show ?case by (simp add: assistantSide_def)
next
  case (Cons c cs p ps)
  from answersCall_sides [OF Cons.hyps(1)] Cons.IH show ?case
    using sides_append(1) [of "[p]" ps] callParts_simps(2) [of "[p]" ps] by simp
qed

lemma all2_left: "list_all2 P xs ys \<Longrightarrow> x \<in> set xs \<Longrightarrow> \<exists>y\<in>set ys. P x y"
  by (induction rule: list_all2_induct) auto

lemma all2_right: "list_all2 P xs ys \<Longrightarrow> y \<in> set ys \<Longrightarrow> \<exists>x\<in>set xs. P x y"
  by (induction rule: list_all2_induct) auto

lemma answered_content:
  assumes "list_all2 answersCall (filter (\<lambda>c. \<not> rc_executed c) (callParts response)) results"
  shows "answered (tailOf planned (response @ results) u model)"
proof (rule answered_tailOf)
  fix c assume "c \<in> set (callParts (response @ results))" "\<not> rc_executed c"
  with answers_sides [OF assms] have "c \<in> set (filter (\<lambda>c. \<not> rc_executed c) (callParts response))" by simp
  then obtain p where "p \<in> set results" "answersCall c p"
    using all2_left [OF assms] by blast
  then show "\<exists>r. ResultPart r \<in> set (response @ results) \<and> rr_id r = rc_id c \<and> \<not> rr_preliminary r \<and> \<not> rr_executed r"
    by (auto simp: answersCall_def)
qed

lemma results_pieces:
  "list_all2 partOf plans parts \<Longrightarrow>
     mset (map PieceResult (toolSide parts))
     = mset (map PieceResult (toolSide (answeredParts Whole calls plans))) + mset (concat (map ranPieces (zip plans parts)))"
proof (induction rule: list_all2_induct)
  case Nil
  then show ?case by (simp add: toolSide_def answeredParts_def)
next
  case (Cons plan plans part parts)
  have split: "toolSide (part # parts) = toolSide [part] @ toolSide parts" by (simp flip: sides_append)
  show ?case
  proof (cases plan)
    case (RunCall c)
    with Cons show ?thesis unfolding split by (simp add: answeredParts_def ranPieces_def)
  next
    case (AnswerCall q)
    have "toolSide (q # answeredParts Whole calls plans) = toolSide [q] @ toolSide (answeredParts Whole calls plans)"
      by (simp flip: sides_append)
    with Cons AnswerCall show ?thesis unfolding split by (simp add: answeredParts_def ranPieces_def partOf_def)
  qed
qed

lemma tailOf_stores:
  assumes "c \<in> set (callParts content)" "\<not> rc_executed c"
  shows "(n, rc_id c) \<in> storedBy (ActTail (tailOf planned content u model) n)"
proof -
  have "rc_id c \<in> set (map call_id (callsOfParts (assistantSide content)))" using assms by (auto simp: assistantSide_calls)
  moreover from this have "assistantSide content \<noteq> []" by (auto simp: callsOfParts_def)
  ultimately show ?thesis by (auto simp: storedBy_def tailOf_eq toolCallIds_def)
qed

definition respondedWell :: "loop_act list \<Rightarrow> bool \<Rightarrow> executed \<Rightarrow> bool" where
  "respondedWell new planned x =
     (case x of
        XMalformed reason tools \<Rightarrow> startsIn new = [] \<and> recordedIn new = [] \<and> usagesIn new = []
      | _ \<Rightarrow> (x_cut x \<noteq> None \<longrightarrow> startsIn new = []) \<and> usagesIn new = [x_usage x] \<and> answered (x_tail x)
          \<and> (\<not> planned \<longrightarrow> mset (pieces (recordedIn new)) = mset (pieces (x_tail x))))"

lemma respond_acts:
  "emits (respond env s selected planned v) (\<lambda>new r. settledIn new = []
     \<and> fst ` set (startsIn new) \<subseteq> {ls_step s} \<and> stored_first {} new \<and> (\<forall>x. r = Inr x \<longrightarrow> respondedWell new planned x))"
proof -
  define toolNames where "toolNames = map fst selected"
  define response where "response = withToolCallIds (at_content v) (ls_step s) (le_run env)"
  define calls where "calls = filter (\<lambda>c. \<not> rc_executed c) (callParts response)"
  define verdict where "verdict = verdictOf (at_finish v) (calls \<noteq> [])"
  define rejections where "rejections = (if verdict = Whole then callRejections calls selected else map (\<lambda>c. None) calls)"
  define plans where "plans = map (\<lambda>(c, r). planOf toolNames c r) (zip calls rejections)"
  define answers where "answers = answeredParts verdict calls plans"
  define usage where "usage = extractUsage (at_usage v) response"
  define model where "model = responseModelOf response"
  have for_calls: "list_all2 plannedFor calls plans" unfolding plans_def by (rule plans_for) (simp add: rejections_def)
  have starts: "callStarts n plans \<subseteq> storedBy (ActTail (tailOf planned (if planned then response else response @ answers) usage model) n)"
    if "callParts answers = []" for n
  proof
    fix x assume "x \<in> callStarts n plans"
    then obtain c where c: "x = (n, rc_id c)" "RunCall c \<in> set plans" by (auto simp: callStarts_def)
    with all2_right [OF for_calls c(2)] have "c \<in> set calls" by (auto simp: plannedFor_def)
    then have "c \<in> set (callParts (if planned then response else response @ answers))" "\<not> rc_executed c"
      using that by (auto simp: calls_def)
    then show "x \<in> storedBy (ActTail (tailOf planned (if planned then response else response @ answers) usage model) n)"
      unfolding c by (rule tailOf_stores)
  qed
  have tail: "(if planned then responseToAgentMessages response else withUsageOnAssistant (responseToAgentMessages (response @ answers)) usage model)
      = tailOf planned (if planned then response else response @ answers) usage model"
    by (simp add: tailOf_def)
  have run: "respond env s selected planned v =
      (case firstMalformed (lp_answerInvalid (le_policy env)) rejections of
           Some m \<Rightarrow> eff_return (XMalformed (reasonOf m toolNames) toolNames)
         | None \<Rightarrow>
             eff_bind (perform env (ActTail (tailOf planned (if planned then response else response @ answers) usage model) (ls_step s))) (\<lambda>u.
                 eff_bind (perform env (ActEvent (EvAssistant (ls_step s) (responseText response) usage (at_finish v)))) (\<lambda>u.
                 eff_bind (if verdict = Whole then runPlans env (ls_step s) plans else eff_return answers) (\<lambda>results.
                 eff_return (XResponded (response @ results) (at_finish v) (if verdict = Whole then None else Some (at_finish v)) usage
                   (tailOf planned (response @ results) usage model)
                   (responseText response) (responseToolCalls response) (responseToolResults (response @ results)) planned
                   (calls \<noteq> []) (at_streamingHealthy v))))))"
    unfolding respond_def Let_def toolNames_def [symmetric] response_def [symmetric] calls_def [symmetric]
      verdict_def [symmetric] rejections_def [symmetric] plans_def [symmetric] answers_def [symmetric]
      usage_def [symmetric] model_def [symmetric] tail tailOf_def ..
  have stored: "storedBy (ActEvent ev) = {}" for ev by (simp add: storedBy_def)
  have wholly: "verdict = Whole \<or> (\<exists>why. verdict = Cut why)" by (cases verdict) auto
  have cut_answers: "list_all2 answersCall calls answers" if "verdict \<noteq> Whole"
    using that by (cases verdict) (auto simp: answers_def answeredParts_def cutResult_def list_all2_conv_all_nth answersCall_parts)
  have no_calls: "callParts answers = []"
  proof (cases verdict)
    case Whole
    have "callParts [q] = []" if "AnswerCall q \<in> set plans" for q
      using all2_right [OF for_calls that] answersCall_sides by (auto simp: plannedFor_def)
    then have "callParts p = []" if "p \<in> set (map (\<lambda>p. case p of RunCall c \<Rightarrow> [] | AnswerCall part \<Rightarrow> [part]) plans)" for p
      using that by (auto split: call_plan.splits)
    moreover have "callParts (concat pss) = concat (map callParts pss)" for pss by (induction pss) simp_all
    ultimately show ?thesis unfolding answers_def Whole answeredParts_def by (auto simp: comp_def)
  next
    case (Cut why)
    with cut_answers answers_sides show ?thesis by blast
  qed
  let ?tail = "tailOf planned (if planned then response else response @ answers) usage model"
  have answered_calls: "answered (tailOf planned (response @ results) usage model)" if "list_all2 answersCall calls results" for results
    using that unfolding calls_def by (rule answered_content)
  have answers_quiet: "assistantSide answers = []" if "list_all2 answersCall calls answers"
    using answers_sides [OF that] by blast
  show ?thesis
  proof (cases "firstMalformed (lp_answerInvalid (le_policy env)) rejections")
    case (Some m)
    then show ?thesis unfolding run by (auto intro!: emits_return simp: act_simps respondedWell_def simp del: eff_return_simp)
  next
    case None
    show ?thesis
      unfolding run None option.case
    proof (rule emits_perform_bind, goal_cases)
      case 2
      show ?case
      proof (rule emits_perform_bind, goal_cases)
        case 2
        show ?case
        proof (cases "verdict = Whole")
          case True
          have "emits (eff_bind (runPlans env (ls_step s) plans) (\<lambda>results.
                 eff_return (XResponded (response @ results) (at_finish v) None usage
                   (tailOf planned (response @ results) usage model)
                   (responseText response) (responseToolCalls response) (responseToolResults (response @ results)) planned
                   (calls \<noteq> []) (at_streamingHealthy v))))
             (\<lambda>new r. settledIn (ActTail ?tail (ls_step s) # ActEvent (EvAssistant (ls_step s) (responseText response) usage (at_finish v)) # new) = []
              \<and> fst ` set (startsIn (ActTail ?tail (ls_step s) # ActEvent (EvAssistant (ls_step s) (responseText response) usage (at_finish v)) # new)) \<subseteq> {ls_step s}
              \<and> stored_first {} (ActTail ?tail (ls_step s) # ActEvent (EvAssistant (ls_step s) (responseText response) usage (at_finish v)) # new)
              \<and> (\<forall>x. r = Inr x \<longrightarrow> respondedWell (ActTail ?tail (ls_step s) # ActEvent (EvAssistant (ls_step s) (responseText response) usage (at_finish v)) # new) planned x))"
          proof (rule emits_bind_use [OF plans_acts], goal_cases)
            case (1 new e)
            with starts [OF no_calls, of "ls_step s"] show ?case by (auto simp: act_simps stored callStarts_def)
          next
            case (2 new parts)
            then have parts: "list_all2 partOf plans parts"
              and sum: "mset (pieces (recordedIn new)) = mset (concat (map ranPieces (zip plans parts)))" by blast+
            have ans: "list_all2 answersCall calls parts" by (rule plans_answered [OF for_calls parts])
            have quiet: "assistantSide answers = []"
            proof -
              have "assistantSide [q] = []" if "AnswerCall q \<in> set plans" for q
                using all2_right [OF for_calls that] answersCall_sides by (auto simp: plannedFor_def)
              then have "assistantSide p = []" if "p \<in> set (map (\<lambda>p. case p of RunCall c \<Rightarrow> [] | AnswerCall part \<Rightarrow> [part]) plans)" for p
                using that by (auto split: call_plan.splits simp: assistantSide_def)
              moreover have "assistantSide (concat pss) = concat (map assistantSide pss)" for pss
                by (induction pss) (simp_all, simp add: assistantSide_def)
              ultimately show ?thesis unfolding answers_def True answeredParts_def by (auto simp: comp_def)
            qed
            have "\<not> planned \<longrightarrow> mset (pieces (tailOf planned (response @ answers) usage model)) + mset (pieces (recordedIn new))
                = mset (pieces (tailOf planned (response @ parts) usage model))"
              using results_pieces [OF parts, of calls] sum quiet answers_sides [OF ans]
              by (simp add: pieces_tailOf answers_def True)
            with 2 answered_calls [OF ans] starts [OF no_calls, of "ls_step s"] show ?case
              by (intro emits_return) (auto simp: act_simps stored callStarts_def respondedWell_def)
          qed
          then show ?thesis unfolding True by simp
        next
          case False
          with cut_answers have ans: "list_all2 answersCall calls answers" by blast
          show ?thesis
            by (simp only: if_not_P [OF False], rule emits_return_bind, rule emits_return)
               (auto simp: act_simps stored respondedWell_def answered_calls [OF ans])
        qed
      qed (simp add: act_simps)
    qed (simp add: act_simps)
  qed
qed


section \<open>A step's execution and what follows it\<close>

lemma emits_either_ask [emits_rules]:
  assumes "\<And>e. emits (f e) Q" "\<And>x. emits (g x) Q"
  shows "emits (eff_either (ask m) f g) Q"
  unfolding emits_def
proof (intro allI impI)
  fix lw r lw' assume run: "eff_either (ask m) f g lw = (r, lw')"
  obtain r1 w1 where m: "m (lw_world lw) = (r1, w1)" by (cases "m (lw_world lw)")
  show "\<exists>new. lw_acts lw' = lw_acts lw @ new \<and> Q new r"
  proof (cases r1)
    case (Inl e)
    with run m have "f e (lw\<lparr>lw_world := w1\<rparr>) = (r, lw')" by (simp add: eff_either_def ask_def)
    from emitsD [OF assms(1) this] show ?thesis by simp
  next
    case (Inr x)
    with run m have "g x (lw\<lparr>lw_world := w1\<rparr>) = (r, lw')" by (simp add: eff_either_def ask_def)
    from emitsD [OF assms(2) this] show ?thesis by simp
  qed
qed

definition hostPlanned :: "'w loop_env \<Rightarrow> loop_state \<Rightarrow> bool" where
  "hostPlanned env s \<longleftrightarrow> ls_step s = 0 \<and> le_initialStep env \<noteq> None"

lemma execute_acts:
  "emits (execute env s active) (\<lambda>new r. settledIn new = []
     \<and> fst ` set (startsIn new) \<subseteq> {ls_step s} \<and> stored_first {} new \<and> (\<forall>x. r = Inr x \<longrightarrow> respondedWell new (hostPlanned env s) x))"
proof -
  have planned: "((if ls_step s = 0 then le_initialStep env else None) \<noteq> None) = hostPlanned env s"
    by (simp add: hostPlanned_def)
  show ?thesis
    unfolding execute_def Let_def planned
    apply (rule emits_ask_bind)
     apply (simp add: act_simps)
    apply (rule emits_either_ask)
     apply (rule emits_option)
      apply (rule emits_fail)
      apply (simp add: act_simps)
     apply (rule emits_return)
     apply (simp add: act_simps respondedWell_def)
    apply (rule emits_option)
     apply (rule respond_acts)
    apply (rule emits_fail)
    apply (simp add: act_simps)
    done
qed

definition quiet_acts :: "loop_act list \<Rightarrow> bool" where
  "quiet_acts new \<longleftrightarrow> settledIn new = [] \<and> startsIn new = [] \<and> usagesIn new = []"

lemma quiet_simps [act_simps]:
  "quiet_acts []" "quiet_acts (as @ bs) \<longleftrightarrow> quiet_acts as \<and> quiet_acts bs" "quiet_acts (ActTail ms n # as) = quiet_acts as"
  "quiet_acts (ActEvent (EvCompaction n k l) # as) = quiet_acts as"
  by (auto simp: quiet_acts_def act_simps)

definition tailX :: "executed \<Rightarrow> agent_message list" where
  "tailX x = (case x of XMalformed reason tools \<Rightarrow> [] | _ \<Rightarrow> x_tail x)"

definition usageX :: "executed \<Rightarrow> token_usage" where
  "usageX x = (case x of XMalformed reason tools \<Rightarrow> zeroUsage | _ \<Rightarrow> x_usage x)"

lemma input_acts:
  "emits (nextInput env s tail appended usage) (\<lambda>new r. quiet_acts new
     \<and> (\<forall>inp. r = Inr inp \<longrightarrow> snd inp = ls_newTail s @ tail @ appended @ recordedIn new
          \<and> (answered (ls_messages s @ tail @ appended) \<longrightarrow> answered (fst inp))
          \<and> (answered (ls_newTail s @ tail @ appended) \<longrightarrow> answered (snd inp))))"
proof -

  have steer: "emits (eff_bind (case le_pendingInput env of None \<Rightarrow> eff_return None | Some m \<Rightarrow> ask m) (\<lambda>steered.
      eff_bind (if (case steered of None \<Rightarrow> [] | Some t \<Rightarrow> [userNote t]) \<noteq> []
          then perform env (ActTail (case steered of None \<Rightarrow> [] | Some t \<Rightarrow> [userNote t]) (ls_step s + 1)) else eff_return ()) (\<lambda>u.
      eff_return (ms @ (case steered of None \<Rightarrow> [] | Some t \<Rightarrow> [userNote t]), nt @ tail @ appended @ (case steered of None \<Rightarrow> [] | Some t \<Rightarrow> [userNote t])))))
    (\<lambda>new r. quiet_acts new \<and> (\<forall>inp. r = Inr inp \<longrightarrow> snd inp = nt @ tail @ appended @ recordedIn new \<and> (answered ms \<longrightarrow> answered (fst inp))
       \<and> (answered (nt @ tail @ appended) \<longrightarrow> answered (snd inp))))" for ms nt
    apply (rule silent_bind [OF silent_ask [where f = "\<lambda>m. m"]])
     apply (simp add: act_simps)
    subgoal for steered
      by (cases steered) (auto intro!: emits_return_bind emits_perform_bind emits_return simp: act_simps intro: answered_append user_answered answered_note simp del: eff_return_simp)
    done
  show ?thesis
    unfolding nextInput_def Let_def
    apply (rule silent_bind [OF silent_ask [where f = "\<lambda>m. m (ls_messages s @ tail @ appended) usage"]])
     apply (simp add: act_simps)
    subgoal for plan
    proof (cases "opt_filter (foldable (ls_messages s @ tail @ appended)) plan")
      case None
      show ?thesis
        unfolding None option.case
        by (rule emits_return_bind, rule emits_mono [OF steer]) auto
    next
      case (Some p)
      show ?thesis
        unfolding Some option.case
        apply (rule emits_perform_bind)
         apply (simp add: act_simps)
        apply (rule emits_mono [OF steer])
        apply (auto simp: act_simps intro: answered_fold simp del: drop_append answered.simps)
        done
    qed
    done
qed


text \<open>What the loop decides after a step keeps: the step counted, the tail and the loop's own messages in the run's record.\<close>

definition followedBy :: "'w loop_env \<Rightarrow> loop_state \<Rightarrow> executed \<Rightarrow> loop_act list \<Rightarrow> loop_state \<Rightarrow> bool" where
  "followedBy env s x new s' \<longleftrightarrow>
     ls_step s' = Suc (ls_step s) \<and> (ls_phase s' = PhContinue \<longrightarrow> ls_step s' < le_maxSteps env)
     \<and> ls_newTail s' = ls_newTail s @ tailX x @ recordedIn new \<and> ls_usage s' = addUsage (ls_usage s) (usageX x)
     \<and> (answered (ls_messages s) \<longrightarrow> answered (tailX x) \<longrightarrow> answered (ls_messages s'))
     \<and> (answered (ls_newTail s) \<longrightarrow> answered (tailX x) \<longrightarrow> answered (ls_newTail s'))"

lemma withTexts_simps [simp]:
  "ls_step (withTexts t s) = ls_step s" "ls_phase (withTexts t s) = ls_phase s" "ls_newTail (withTexts t s) = ls_newTail s"
  "ls_usage (withTexts t s) = ls_usage s" "ls_messages (withTexts t s) = ls_messages s"
  "ls_malformedStreak (withTexts t s) = ls_malformedStreak s" "ls_cutStreak (withTexts t s) = ls_cutStreak s"
  by (simp_all add: withTexts_def)

lemma recover_acts:
  "emits (recover env s reason tools) (\<lambda>new r. quiet_acts new
     \<and> (\<forall>s'. r = Inr s' \<longrightarrow> followedBy env s (XMalformed reason tools) new s'))"
  unfolding recover_def Let_def
  apply (rule silent_bind [OF silent_pending])
   apply (simp add: act_simps)
  apply (rule emits_if)
   apply (rule emits_fail, simp add: act_simps)
  apply (rule emits_if)
   apply (rule emits_return, simp add: act_simps followedBy_def tailX_def usageX_def)
  apply (rule emits_perform_bind)
   apply (simp add: act_simps)
  apply (rule emits_return)
  apply (auto simp: act_simps followedBy_def tailX_def usageX_def simp del: answered.simps intro: answered_append user_answered)
  done

lemma recut_acts:
  "x = XResponded a b c d e f g h i j k \<Longrightarrow> emits (recut env s x why) (\<lambda>new r. quiet_acts new
     \<and> (\<forall>s'. r = Inr s' \<longrightarrow> followedBy env s x new s'))"
  unfolding recut_def Let_def
  apply (rule silent_bind [OF silent_pending])
   apply (simp add: act_simps)
  apply (rule emits_if)
   apply (rule emits_fail, simp add: act_simps)
  apply (rule emits_if)
   apply (rule emits_return, simp add: act_simps followedBy_def tailX_def usageX_def answered_append)
  apply (rule emits_perform_bind)
   apply (simp add: act_simps)
  apply (rule emits_bind_use [OF input_acts])
   apply (simp add: act_simps)
  apply (rule emits_return)
  apply (auto simp: act_simps followedBy_def tailX_def usageX_def simp del: answered.simps intro: answered_append user_answered)
  done

lemma input_or_end:
  "emits (if continues then nextInput env s endTail appended u else eff_return (ls_messages s @ endTail, ls_newTail s @ endTail))
    (\<lambda>new r. quiet_acts new \<and> (\<forall>inp. r = Inr inp \<longrightarrow>
       snd inp = ls_newTail s @ endTail @ (if continues then appended else []) @ recordedIn new
       \<and> (answered (ls_messages s) \<longrightarrow> answered endTail \<longrightarrow> answered appended \<longrightarrow> answered (fst inp))
       \<and> (answered (ls_newTail s) \<longrightarrow> answered endTail \<longrightarrow> answered appended \<longrightarrow> answered (snd inp))))"
  apply (rule emits_if)
   apply (rule emits_mono [OF input_acts])
   apply (auto simp del: answered.simps intro: answered_append)[1]
  apply (rule emits_return)
  apply (auto simp: act_simps intro: answered_append)
  done

lemma nextPhase_continue: "nextPhase b wants n m = PhContinue \<Longrightarrow> n < m"
  by (auto simp: nextPhase_def split: if_splits)

lemma noteTail_acts: "emits (noteTail env ms n) (\<lambda>new r. quiet_acts new \<and> (\<forall>u. r = Inr u \<longrightarrow> recordedIn new = ms))"
  unfolding noteTail_def by (auto intro!: emits_if emits_perform emits_return simp: act_simps simp del: eff_return_simp)

lemma decide_acts:
  assumes "x = XResponded a b c d e f g h i j k"
  shows "emits (decide env s x) (\<lambda>new r. quiet_acts new \<and> (\<forall>s'. r = Inr s' \<longrightarrow> followedBy env s x new s'))"
proof -
  have next_step: "emits (decideNext env s x) (\<lambda>new r. quiet_acts new \<and> (\<forall>s'. r = Inr s' \<longrightarrow> followedBy env s x new s'))"
    unfolding decideNext_def Let_def
    apply (rule silent_bind [OF silent_ask [where f = "\<lambda>m. m (ls_step s)"]])
     apply (simp add: act_simps)
    apply (rule silent_bind [OF silent_pending])
     apply (simp add: act_simps)
    apply (rule emits_bind_use [OF noteTail_acts])
     apply (simp add: act_simps)
    apply (rule emits_bind_use [OF noteTail_acts])
     apply (simp add: act_simps)
    apply (rule emits_bind_use [OF input_or_end])
     apply (simp add: act_simps)
    apply (rule emits_return)
    apply (auto simp: act_simps followedBy_def assms tailX_def usageX_def user_answered simp del: answered.simps(2)
        dest: nextPhase_continue intro: answered_append split: if_splits)
    done
  show ?thesis
    unfolding decide_def
    apply (rule silent_bind [OF silent_waiting])
     apply (simp add: act_simps)
    apply (rule emits_if)
     apply (rule emits_return)
     apply (simp add: act_simps followedBy_def assms tailX_def usageX_def answered_append)
    apply (rule next_step)
    done
qed


lemma follow_acts:
  "emits (follow env s x) (\<lambda>new r. quiet_acts new \<and> (\<forall>s'. r = Inr s' \<longrightarrow> followedBy env s x new s'))"
proof (cases x)
  case (XMalformed reason tools)
  then show ?thesis unfolding follow_def by (simp add: recover_acts)
next
  case (XResponded a b c d e f g h i j k)
  then show ?thesis unfolding follow_def
    by (cases c) (simp_all add: decide_acts [OF refl] recut_acts [OF refl])
qed

lemma settle_acts:
  "emits (settleStep env n st) (\<lambda>new r. settledIn new = [(n, st)] \<and> startsIn new = [] \<and> usagesIn new = [] \<and> recordedIn new = [])"
  unfolding settleStep_def by (auto intro!: emits_perform_bind emits_perform simp: act_simps)

lemma executed_acts:
  "emits (executeStep env s) (\<lambda>new r. settledIn new = [] \<and> fst ` set (startsIn new) \<subseteq> {ls_step s} \<and> stored_first {} new
     \<and> (\<forall>s1 x. r = Inr (s1, x) \<longrightarrow> (\<exists>begun rest. new = begun @ rest \<and> quiet_acts begun
          \<and> s1 = s\<lparr>ls_messages := ls_messages s @ recordedIn begun, ls_newTail := ls_newTail s @ recordedIn begun\<rparr>
          \<and> (takesAnswered env \<longrightarrow> answered (recordedIn begun)) \<and> respondedWell rest (hostPlanned env s) x)))"
  unfolding executeStep_def
proof (rule emits_bind_use [OF begin_acts], goal_cases)
  case (1 new e)
  then show ?case by (auto intro: stored_first_quiet)
next
  case (2 begun b)
  obtain active s1 where b: "b = (active, s1)" by (cases b)
  with 2 have s1: "s1 = s\<lparr>ls_messages := ls_messages s @ recordedIn begun, ls_newTail := ls_newTail s @ recordedIn begun\<rparr>"
    and begun: "settledIn begun = []" "startsIn begun = []" "usagesIn begun = []" "takesAnswered env \<longrightarrow> answered (recordedIn begun)"
    by auto
  have planned: "hostPlanned env s1 = hostPlanned env s" "ls_step s1 = ls_step s" by (simp_all add: hostPlanned_def s1)
  show ?case
    unfolding b fst_conv snd_conv
  proof (rule emits_bind_use [OF execute_acts], goal_cases)
    case (1 new e)
    with begun planned show ?case by (auto simp: act_simps intro: stored_first_both stored_first_quiet)
  next
    case (2 rest x)
    then show ?case
      by (intro emits_return) (use begun planned s1 in \<open>auto simp: act_simps quiet_acts_def intro: stored_first_both stored_first_quiet\<close>)
  qed
qed

definition stepped :: "'w loop_env \<Rightarrow> loop_state \<Rightarrow> loop_act list \<Rightarrow> step_error + loop_state \<Rightarrow> bool" where
  "stepped env s new r \<longleftrightarrow>
     (\<exists>st. settledIn new = [(ls_step s, st)] \<and> (st \<in> {SsMalformed, SsTruncated} \<longrightarrow> startsIn new = [])
        \<and> (\<forall>s'. r = Inr s' \<longrightarrow> st \<noteq> SsFailed))
     \<and> fst ` set (startsIn new) \<subseteq> {ls_step s} \<and> stored_first {} new
     \<and> (\<forall>s'. r = Inr s' \<longrightarrow>
          ls_step s' = Suc (ls_step s) \<and> (ls_phase s' = PhContinue \<longrightarrow> ls_step s' < le_maxSteps env)
          \<and> ls_usage s' = addUsage (ls_usage s) (sumUsage (usagesIn new))
          \<and> (\<not> hostPlanned env s \<longrightarrow> mset (pieces (ls_newTail s')) = mset (pieces (ls_newTail s)) + mset (pieces (recordedIn new)))
          \<and> (takesAnswered env \<longrightarrow> answered (ls_messages s) \<longrightarrow> answered (ls_messages s'))
          \<and> (takesAnswered env \<longrightarrow> answered (ls_newTail s) \<longrightarrow> answered (ls_newTail s')))"

lemma stepped_follow:
  assumes "quiet_acts begun" "takesAnswered env \<longrightarrow> answered (recordedIn begun)"
    and s1: "s1 = s\<lparr>ls_messages := ls_messages s @ recordedIn begun, ls_newTail := ls_newTail s @ recordedIn begun\<rparr>"
    and x: "respondedWell rest (hostPlanned env s) x"
    and settled: "recordedIn ends = []" "usagesIn ends = []"
    and next_acts: "quiet_acts new" "followedBy env s1 x new s'"
  shows "ls_step s' = Suc (ls_step s) \<and> (ls_phase s' = PhContinue \<longrightarrow> ls_step s' < le_maxSteps env)
      \<and> ls_usage s' = addUsage (ls_usage s) (sumUsage (usagesIn (begun @ rest @ ends @ new)))
      \<and> (\<not> hostPlanned env s \<longrightarrow> mset (pieces (ls_newTail s')) = mset (pieces (ls_newTail s)) + mset (pieces (recordedIn (begun @ rest @ ends @ new))))
      \<and> (takesAnswered env \<longrightarrow> answered (ls_messages s) \<longrightarrow> answered (ls_messages s'))
      \<and> (takesAnswered env \<longrightarrow> answered (ls_newTail s) \<longrightarrow> answered (ls_newTail s'))"
proof -
  have x': "answered (tailX x)" "\<not> hostPlanned env s \<longrightarrow> mset (pieces (recordedIn rest)) = mset (pieces (tailX x))"
    "sumUsage (usagesIn rest) = usageX x"
    using x by (cases x; simp add: respondedWell_def tailX_def usageX_def)+
  show ?thesis
    using assms(1,2) next_acts x' settled by (auto simp: followedBy_def s1 act_simps quiet_acts_def intro: answered_append)
qed

lemma step_acts: "emits (loopStep env s) (stepped env s)"
  unfolding emits_def
proof (intro allI impI)
  fix lw r lw' assume run: "loopStep env s lw = (r, lw')"
  obtain r1 lw1 where ex: "executeStep env s lw = (r1, lw1)" by (cases "executeStep env s lw")
  obtain r2 lw2 where se: "settleStep env (ls_step s) (statusOf r1) lw1 = (r2, lw2)" by (cases "settleStep env (ls_step s) (statusOf r1) lw1")
  from emitsD [OF executed_acts ex] obtain new1 where new1: "lw_acts lw1 = lw_acts lw @ new1"
    and acts1: "settledIn new1 = []" "fst ` set (startsIn new1) \<subseteq> {ls_step s}" "stored_first {} new1"
    and ok1: "\<And>s1 x. r1 = Inr (s1, x) \<Longrightarrow> \<exists>begun rest. new1 = begun @ rest \<and> quiet_acts begun
          \<and> s1 = s\<lparr>ls_messages := ls_messages s @ recordedIn begun, ls_newTail := ls_newTail s @ recordedIn begun\<rparr>
          \<and> (takesAnswered env \<longrightarrow> answered (recordedIn begun)) \<and> respondedWell rest (hostPlanned env s) x" by blast
  from emitsD [OF settle_acts se] obtain new2 where new2: "lw_acts lw2 = lw_acts lw1 @ new2"
    and acts2: "settledIn new2 = [(ls_step s, statusOf r1)]" "startsIn new2 = []" "usagesIn new2 = []" "recordedIn new2 = []" by blast
  have quiet: "statusOf r1 \<in> {SsMalformed, SsTruncated} \<longrightarrow> startsIn new1 = []"
  proof
    assume st: "statusOf r1 \<in> {SsMalformed, SsTruncated}"
    then obtain s1 x where r1: "r1 = Inr (s1, x)" by (cases r1) (auto simp: statusOf_def)
    from ok1 [OF r1] obtain begun rest where "new1 = begun @ rest" "quiet_acts begun" "respondedWell rest (hostPlanned env s) x" by blast
    with st r1 show "startsIn new1 = []"
      by (cases x) (auto simp: statusOf_def respondedWell_def quiet_acts_def act_simps split: if_splits)
  qed
  show "\<exists>new. lw_acts lw' = lw_acts lw @ new \<and> stepped env s new r"
  proof (cases "\<exists>u sx. r2 = Inr u \<and> r1 = Inr sx")
    case False
    then have "lw' = lw2" "\<nexists>s'. r = Inr s'"
      using run ex se by (auto simp: loopStep_def split: sum.splits)
    moreover have "stored_first {} (new1 @ new2)" by (rule stored_first_both [OF acts1(3) stored_first_quiet [OF acts2(2)]])
    moreover have "\<exists>st. settledIn (new1 @ new2) = [(ls_step s, st)] \<and> (st \<in> {SsMalformed, SsTruncated} \<longrightarrow> startsIn (new1 @ new2) = [])
        \<and> (\<forall>s'. r = Inr s' \<longrightarrow> st \<noteq> SsFailed)"
      by (rule exI [of _ "statusOf r1"], intro conjI) (use acts1 acts2 quiet \<open>\<nexists>s'. r = Inr s'\<close> in \<open>simp_all add: act_simps\<close>)
    moreover have "fst ` set (startsIn (new1 @ new2)) \<subseteq> {ls_step s}" using acts1 acts2 by (simp add: act_simps)
    ultimately have "stepped env s (new1 @ new2) r" unfolding stepped_def by blast
    then show ?thesis using new1 new2 \<open>lw' = lw2\<close> by auto
  next
    case True
    then obtain u s1 x where r: "r2 = Inr u" "r1 = Inr (s1, x)" by auto
    then have fo: "follow env s1 x lw2 = (r, lw')" using run ex se by (simp add: loopStep_def)
    from emitsD [OF follow_acts fo] obtain new3 where new3: "lw_acts lw' = lw_acts lw2 @ new3"
      and acts3: "quiet_acts new3" "\<And>s'. r = Inr s' \<Longrightarrow> followedBy env s1 x new3 s'" by blast
    from ok1 [OF r(2)] obtain begun rest where b: "new1 = begun @ rest" "quiet_acts begun"
      "s1 = s\<lparr>ls_messages := ls_messages s @ recordedIn begun, ls_newTail := ls_newTail s @ recordedIn begun\<rparr>"
      "takesAnswered env \<longrightarrow> answered (recordedIn begun)" "respondedWell rest (hostPlanned env s) x" by blast
    have "statusOf r1 \<noteq> SsFailed" using r(2) by (cases x) (auto simp: statusOf_def)
    moreover have "stored_first {} (new1 @ new2 @ new3)"
      by (rule stored_first_both [OF acts1(3) stored_first_quiet]) (use acts2 acts3 in \<open>simp add: act_simps quiet_acts_def\<close>)
    moreover have "\<exists>st. settledIn (new1 @ new2 @ new3) = [(ls_step s, st)]
        \<and> (st \<in> {SsMalformed, SsTruncated} \<longrightarrow> startsIn (new1 @ new2 @ new3) = []) \<and> (\<forall>s'. r = Inr s' \<longrightarrow> st \<noteq> SsFailed)"
      by (rule exI [of _ "statusOf r1"], intro conjI)
        (use acts1 acts2 acts3 quiet \<open>statusOf r1 \<noteq> SsFailed\<close> in \<open>simp_all add: act_simps quiet_acts_def\<close>)
    moreover have "fst ` set (startsIn (new1 @ new2 @ new3)) \<subseteq> {ls_step s}"
      using acts1 acts2 acts3 by (simp add: act_simps quiet_acts_def)
    ultimately have "stepped env s (new1 @ new2 @ new3) r"
      using stepped_follow [OF b(2,4,3,5) acts2(4,3) acts3(1) acts3(2)] unfolding stepped_def b(1) append_assoc by blast
    with new1 new2 new3 show ?thesis by auto
  qed
qed

end
