(* ===== verification/AgentRun.thy ===== *)
theory AgentRun
  imports LoopTrace
begin

text \<open>
  The run itself: steps until the loop leaves \<open>PhContinue\<close>, which the step bound forces, and the
  event that ends it. The theorems state what a run performs whatever the host's callbacks, the model
  and the tools answer: its steps settle once each, in order; no tool starts before the response with
  its call was recorded; every buffer the loop sends answers its calls; and what the run returns for
  the record is what it recorded.
\<close>

section \<open>Steps until the loop stops\<close>

function runSteps :: "'w loop_env \<Rightarrow> loop_state \<Rightarrow> ('w, loop_state) loop_eff" where
  "runSteps env s lw =
     (if ls_phase s = PhContinue
      then (case isWaiting env lw of
          (Inl e, lw1) \<Rightarrow> (Inl e, lw1)
        | (Inr True, lw1) \<Rightarrow> (Inr (s\<lparr>ls_finalText := [], ls_phase := PhWaiting\<rparr>), lw1)
        | (Inr False, lw1) \<Rightarrow>
            (case loopStep env s lw1 of
               (Inl e, lw2) \<Rightarrow> (Inl e, lw2)
             | (Inr s', lw2) \<Rightarrow> runSteps env s' lw2))
      else (Inr s, lw))"
  by auto

definition stepsLeft :: "'w loop_env \<Rightarrow> loop_state \<Rightarrow> nat" where
  "stepsLeft env s = (if ls_phase s = PhContinue then Suc (le_maxSteps env - ls_step s) else 0)"

lemma loopStep_steps:
  assumes "loopStep env s lw = (Inr s', lw')"
  shows "ls_step s' = Suc (ls_step s)" "ls_phase s' = PhContinue \<Longrightarrow> ls_step s' < le_maxSteps env"
  using emitsD [OF step_acts assms] by (auto simp: stepped_def)

lemma stepsLeft_less:
  assumes "ls_phase s = PhContinue" "loopStep env s lw = (Inr s', lw')"
  shows "stepsLeft env s' < stepsLeft env s"
  using loopStep_steps [OF assms(2)] assms(1) by (auto simp: stepsLeft_def)

termination runSteps
  by (relation "measure (\<lambda>(env, s, lw). stepsLeft env s)") (auto intro: stepsLeft_less [OF _ sym])

declare runSteps.simps [simp del]

record run_result =
  rs_finalText :: string
  rs_messages :: "agent_message list"
  rs_newTail :: "agent_message list"
  rs_outcome :: run_outcome
  rs_reason :: loop_phase
  rs_usage :: token_usage

definition outcomeOf :: "loop_phase \<Rightarrow> run_outcome" where
  "outcomeOf phase = (case phase of PhCompleted \<Rightarrow> OutcomeOk | PhWaiting \<Rightarrow> OutcomeWaiting | _ \<Rightarrow> OutcomePartial)"

definition runLoop :: "'w loop_env \<Rightarrow> agent_message list \<Rightarrow> ('w, run_result) loop_eff" where
  "runLoop env messages =
     (if policyValid (le_policy env)
      then eff_bind (runSteps env (initialLoopState messages)) (\<lambda>s.
           eff_bind (perform env (ActEvent (EvAgentEnd (outcomeOf (ls_phase s)) (ls_phase s) (ls_finalText s)))) (\<lambda>u.
           eff_return \<lparr>rs_finalText = ls_finalText s, rs_messages = ls_messages s, rs_newTail = ls_newTail s,
             rs_outcome = outcomeOf (ls_phase s), rs_reason = ls_phase s, rs_usage = ls_usage s\<rparr>))
      else fail_with \<lparr>se_callback = False, se_cause = TurnFailure ''config.options'' ''Loop policy limits are invalid''\<rparr>)"


section \<open>What a run performs\<close>

definition ranTo :: "'w loop_env \<Rightarrow> loop_state \<Rightarrow> loop_act list \<Rightarrow> loop_state \<Rightarrow> bool" where
  "ranTo env s new s' \<longleftrightarrow>
     ls_phase s' \<noteq> PhContinue \<and> ls_step s' = ls_step s + length (settledIn new) \<and> SsFailed \<notin> snd ` set (settledIn new)
     \<and> ls_usage s' = addUsage (ls_usage s) (sumUsage (usagesIn new))
     \<and> (le_initialStep env = None \<longrightarrow> mset (pieces (ls_newTail s')) = mset (pieces (ls_newTail s)) + mset (pieces (recordedIn new)))
     \<and> (takesAnswered env \<longrightarrow> answered (ls_messages s) \<longrightarrow> answered (ls_messages s'))
     \<and> (takesAnswered env \<longrightarrow> answered (ls_newTail s) \<longrightarrow> answered (ls_newTail s'))"

definition ran :: "'w loop_env \<Rightarrow> loop_state \<Rightarrow> loop_act list \<Rightarrow> step_error + loop_state \<Rightarrow> bool" where
  "ran env s new r \<longleftrightarrow>
     map fst (settledIn new) = [ls_step s..<ls_step s + length (settledIn new)]
     \<and> length (settledIn new) \<le> (if ls_phase s = PhContinue then max 1 (le_maxSteps env - ls_step s) else 0)
     \<and> SsFailed \<notin> snd ` set (butlast (settledIn new))
     \<and> fst ` set (startsIn new) \<subseteq> fst ` set (settledIn new)
     \<and> list_all (\<lambda>(n, st). st \<in> {SsMalformed, SsTruncated} \<longrightarrow> n \<notin> fst ` set (startsIn new)) (settledIn new)
     \<and> stored_first {} new
     \<and> (\<forall>s'. r = Inr s' \<longrightarrow> ranTo env s new s')"

lemma ran_nothing: "ran env s [] (Inl e)"
  by (simp add: ran_def act_simps)

lemma ran_stops: "ls_phase s \<noteq> PhContinue \<Longrightarrow> ran env s [] (Inr s)"
  by (simp add: ran_def ranTo_def act_simps)

lemma ran_waits: "ran env s [] (Inr (s\<lparr>ls_finalText := [], ls_phase := PhWaiting\<rparr>))"
  by (simp add: ran_def ranTo_def act_simps)

lemma ran_failed_step:
  assumes "stepped env s new (Inl e)" "ls_phase s = PhContinue"
  shows "ran env s new (Inl e)"
  using assms unfolding stepped_def ran_def by (elim conjE exE) auto

lemma ranTo_step:
  assumes "stepped env s new (Inr s')" "ranTo env s' new2 s''"
  shows "ranTo env s (new @ new2) s''"
  using assms unfolding stepped_def ranTo_def
  by (elim conjE exE) (auto simp: act_simps addUsage_assoc hostPlanned_def)

lemma ran_step:
  assumes step: "stepped env s new (Inr s')" "ls_phase s = PhContinue" and rest: "ran env s' new2 r"
  shows "ran env s (new @ new2) r"
proof -
  from step obtain st where st: "settledIn new = [(ls_step s, st)]" "st \<in> {SsMalformed, SsTruncated} \<longrightarrow> startsIn new = []" "st \<noteq> SsFailed"
    "fst ` set (startsIn new) \<subseteq> {ls_step s}" "stored_first {} new" "ls_step s' = Suc (ls_step s)"
    "ls_phase s' = PhContinue \<longrightarrow> ls_step s' < le_maxSteps env"
    by (auto simp: stepped_def)
  from rest have order: "map fst (settledIn new2) = [Suc (ls_step s)..<Suc (ls_step s) + length (settledIn new2)]"
    and bound: "length (settledIn new2) \<le> (if ls_phase s' = PhContinue then max 1 (le_maxSteps env - ls_step s') else 0)"
    and failed: "SsFailed \<notin> snd ` set (butlast (settledIn new2))"
    and starts: "fst ` set (startsIn new2) \<subseteq> fst ` set (settledIn new2)"
    and cuts: "list_all (\<lambda>(n, st). st \<in> {SsMalformed, SsTruncated} \<longrightarrow> n \<notin> fst ` set (startsIn new2)) (settledIn new2)"
    and stored: "stored_first {} new2" and to: "\<And>s''. r = Inr s'' \<Longrightarrow> ranTo env s' new2 s''"
    by (simp_all add: ran_def st(6))
  have later: "n \<in> fst ` set (settledIn new2) \<Longrightarrow> ls_step s < n" for n
  proof -
    assume "n \<in> fst ` set (settledIn new2)"
    then have "n \<in> set (map fst (settledIn new2))" by simp
    then show "ls_step s < n" unfolding order by auto
  qed
  have upto: "ls_step s # [Suc (ls_step s)..<Suc (ls_step s) + k] = [ls_step s..<ls_step s + Suc k]" for k
    by (subst upt_conv_Cons [of "ls_step s" "ls_step s + Suc k"]) (simp_all del: upt_Suc)
  show ?thesis
    unfolding ran_def
  proof (intro conjI allI impI)
    show "map fst (settledIn (new @ new2)) = [ls_step s..<ls_step s + length (settledIn (new @ new2))]"
      using upto [of "length (settledIn new2)"] by (simp add: act_simps st(1) order del: upt_Suc)
    show "length (settledIn (new @ new2)) \<le> (if ls_phase s = PhContinue then max 1 (le_maxSteps env - ls_step s) else 0)"
      using bound st(6,7) step(2) by (auto simp: act_simps st(1) split: if_splits)
    show "SsFailed \<notin> snd ` set (butlast (settledIn (new @ new2)))"
      using failed st(3) by (auto simp: act_simps st(1) butlast_append)
    show "fst ` set (startsIn (new @ new2)) \<subseteq> fst ` set (settledIn (new @ new2))"
      using starts st(4) by (auto simp: act_simps st(1))
    show "stored_first {} (new @ new2)" by (rule stored_first_both [OF st(5) stored])
    show "ranTo env s (new @ new2) s''" if "r = Inr s''" for s'' by (rule ranTo_step [OF step(1) to [OF that]])
    have first: "ls_step s \<notin> fst ` set (startsIn new2)" using subsetD [OF starts] later [of "ls_step s"] by auto
    have rest: "n \<notin> fst ` set (startsIn new)" if "(n, st') \<in> set (settledIn new2)" for n st'
    proof -
      from that have "n \<in> fst ` set (settledIn new2)" by (rule rev_image_eqI) simp
      then have "ls_step s < n" by (rule later)
      then show ?thesis using subsetD [OF st(4), of n] by auto
    qed
    have "n \<notin> fst ` set (startsIn (new @ new2))"
      if "(n, st') \<in> set (settledIn (new @ new2))" "st' \<in> {SsMalformed, SsTruncated}" for n st'
    proof (cases "(n, st') \<in> set (settledIn new2)")
      case True
      with cuts that(2) have "n \<notin> fst ` set (startsIn new2)" unfolding list_all_iff by blast
      with rest [OF True] show ?thesis by (simp add: act_simps image_Un)
    next
      case False
      with that st(1) have "n = ls_step s" "st' = st" by (simp_all add: act_simps)
      with that(2) st(2) first show ?thesis by (simp add: act_simps)
    qed
    then show "list_all (\<lambda>(n, st). st \<in> {SsMalformed, SsTruncated} \<longrightarrow> n \<notin> fst ` set (startsIn (new @ new2))) (settledIn (new @ new2))"
      unfolding list_all_iff by blast
  qed
qed

lemma steps_acts: "\<exists>new. lw_acts (snd (runSteps env s lw)) = lw_acts lw @ new \<and> ran env s new (fst (runSteps env s lw))"
proof (induction env s lw rule: runSteps.induct)
  case (1 env s lw)
  show ?case
  proof (cases "ls_phase s = PhContinue")
    case False
    then show ?thesis by (subst (1 2) runSteps.simps) (simp add: ran_stops)
  next
    case True
    obtain r1 lw1 where waits: "isWaiting env lw = (r1, lw1)" by (cases "isWaiting env lw")
    have same: "lw_acts lw1 = lw_acts lw" using emitsD [OF silent_waiting [unfolded silent_def] waits] by simp
    consider e where "r1 = Inl e" | "r1 = Inr True" | "r1 = Inr False" by (cases r1) auto
    then show ?thesis
    proof cases
      case 3
      obtain r2 lw2 where step: "loopStep env s lw1 = (r2, lw2)" by (cases "loopStep env s lw1")
      from emitsD [OF step_acts step] obtain new where new: "lw_acts lw2 = lw_acts lw1 @ new" "stepped env s new r2" by blast
      show ?thesis
      proof (cases r2)
        case (Inl e)
        then have "runSteps env s lw = (Inl e, lw2)" using True waits 3 step by (subst runSteps.simps) simp
        then show ?thesis using new same Inl ran_failed_step [OF _ True] by auto
      next
        case (Inr s')
        then have run: "runSteps env s lw = runSteps env s' lw2" using True waits 3 step by (subst runSteps.simps) simp
        from 1 [OF True waits [symmetric] 3 refl] step Inr obtain new2 where
          "lw_acts (snd (runSteps env s' lw2)) = lw_acts lw2 @ new2" "ran env s' new2 (fst (runSteps env s' lw2))"
          by fastforce
        with ran_step [of env s new s'] new same True Inr show ?thesis unfolding run by auto
      qed
    qed (use True waits same in \<open>subst (1 2) runSteps.simps; simp add: ran_nothing ran_waits\<close>)+
  qed
qed


lemma loop_run_acts:
  "\<exists>new. lw_acts (snd (runLoop env messages lw)) = lw_acts lw @ new
     \<and> length (settledIn new) \<le> max 1 (le_maxSteps env) \<and> map fst (settledIn new) = [0..<length (settledIn new)]
     \<and> SsFailed \<notin> snd ` set (butlast (settledIn new))
     \<and> fst ` set (startsIn new) \<subseteq> fst ` set (settledIn new)
     \<and> list_all (\<lambda>(n, st). st \<in> {SsMalformed, SsTruncated} \<longrightarrow> n \<notin> fst ` set (startsIn new)) (settledIn new)
     \<and> stored_first {} new
     \<and> (\<forall>res. fst (runLoop env messages lw) = Inr res \<longrightarrow>
          rs_reason res \<noteq> PhContinue \<and> rs_outcome res = outcomeOf (rs_reason res) \<and> SsFailed \<notin> snd ` set (settledIn new)
          \<and> rs_usage res = sumUsage (usagesIn new)
          \<and> (le_initialStep env = None \<longrightarrow> mset (pieces (rs_newTail res)) = mset (pieces (recordedIn new)))
          \<and> (takesAnswered env \<longrightarrow> answered messages \<longrightarrow> answered (rs_messages res))
          \<and> (takesAnswered env \<longrightarrow> answered (rs_newTail res)))"
proof (cases "policyValid (le_policy env)")
  case False
  then show ?thesis by (simp add: runLoop_def fail_with_def act_simps)
next
  case True
  obtain r lw1 where steps: "runSteps env (initialLoopState messages) lw = (r, lw1)" by (cases "runSteps env (initialLoopState messages) lw")
  from steps_acts [of env "initialLoopState messages" lw] steps obtain new where
    new: "lw_acts lw1 = lw_acts lw @ new" and run: "ran env (initialLoopState messages) new r" by auto
  have start: "ls_step (initialLoopState messages) = 0" "ls_phase (initialLoopState messages) = PhContinue" "ls_newTail (initialLoopState messages) = []"
    "ls_messages (initialLoopState messages) = messages" "ls_usage (initialLoopState messages) = zeroUsage"
    by (simp_all add: initialLoopState_def)
  show ?thesis
  proof (cases r)
    case (Inl e)
    then have "runLoop env messages lw = (Inl e, lw1)" using True steps by (simp add: runLoop_def eff_bind_def)
    with new run show ?thesis by (auto simp: ran_def start)
  next
    case (Inr s)
    let ?lastAct = "ActEvent (EvAgentEnd (outcomeOf (ls_phase s)) (ls_phase s) (ls_finalText s))"
    obtain r2 lw2 where ends: "perform env ?lastAct lw1 = (r2, lw2)" by (cases "perform env ?lastAct lw1")
    then have "lw_acts lw2 = lw_acts lw @ new @ [?lastAct]" by (auto simp: perform_def new split: prod.splits)
    moreover have "snd (runLoop env messages lw) = lw2" and result: "\<And>res. fst (runLoop env messages lw) = Inr res \<Longrightarrow> res = \<lparr>rs_finalText = ls_finalText s, rs_messages = ls_messages s,
         rs_newTail = ls_newTail s, rs_outcome = outcomeOf (ls_phase s), rs_reason = ls_phase s, rs_usage = ls_usage s\<rparr>"
      using True steps Inr ends by (auto simp: runLoop_def eff_bind_def split: sum.splits)
    moreover have "stored_first {} (new @ [?lastAct])"
      by (rule stored_first_both [OF _ stored_first_quiet]) (use run in \<open>auto simp: ran_def act_simps\<close>)
    moreover have "\<forall>res. fst (runLoop env messages lw) = Inr res \<longrightarrow>
          rs_reason res \<noteq> PhContinue \<and> rs_outcome res = outcomeOf (rs_reason res) \<and> SsFailed \<notin> snd ` set (settledIn new)
          \<and> rs_usage res = sumUsage (usagesIn new)
          \<and> (le_initialStep env = None \<longrightarrow> mset (pieces (rs_newTail res)) = mset (pieces (recordedIn new)))
          \<and> (takesAnswered env \<longrightarrow> answered messages \<longrightarrow> answered (rs_messages res))
          \<and> (takesAnswered env \<longrightarrow> answered (rs_newTail res))"
    proof (intro allI impI)
      fix res assume "fst (runLoop env messages lw) = Inr res"
      then have "res = \<lparr>rs_finalText = ls_finalText s, rs_messages = ls_messages s, rs_newTail = ls_newTail s,
         rs_outcome = outcomeOf (ls_phase s), rs_reason = ls_phase s, rs_usage = ls_usage s\<rparr>" by (rule result)
      moreover have "ranTo env (initialLoopState messages) new s" using run Inr by (simp add: ran_def)
      ultimately show "rs_reason res \<noteq> PhContinue \<and> rs_outcome res = outcomeOf (rs_reason res) \<and> SsFailed \<notin> snd ` set (settledIn new)
          \<and> rs_usage res = sumUsage (usagesIn new)
          \<and> (le_initialStep env = None \<longrightarrow> mset (pieces (rs_newTail res)) = mset (pieces (recordedIn new)))
          \<and> (takesAnswered env \<longrightarrow> answered messages \<longrightarrow> answered (rs_messages res))
          \<and> (takesAnswered env \<longrightarrow> answered (rs_newTail res))"
        by (simp add: ranTo_def start)
    qed
    ultimately show ?thesis
      using run by (intro exI [of _ "new @ [?lastAct]"]) (simp add: ran_def start act_simps)
  qed
qed


section \<open>The states of a run\<close>

text \<open>The states the run's steps start from, and the one it ends in, whatever the world answers.\<close>

inductive reached :: "'w loop_env \<Rightarrow> agent_message list \<Rightarrow> loop_state \<Rightarrow> bool" for env messages where
  reached_start: "reached env messages (initialLoopState messages)"
| reached_step: "reached env messages s \<Longrightarrow> ls_phase s = PhContinue \<Longrightarrow> loopStep env s lw = (Inr s', lw') \<Longrightarrow> reached env messages s'"

lemma reached_answered:
  "reached env messages s \<Longrightarrow> takesAnswered env \<Longrightarrow> answered messages \<Longrightarrow> answered (ls_messages s) \<and> answered (ls_newTail s)"
proof (induction rule: reached.induct)
  case reached_start
  then show ?case by (simp add: initialLoopState_def)
next
  case (reached_step s lw s' lw')
  from emitsD [OF step_acts reached_step.hyps(3)] obtain new where "stepped env s new (Inr s')" by blast
  with reached_step show ?case by (simp add: stepped_def)
qed

lemma begin_answered:
  assumes "beginStep env s lw = (Inr (active, s1), lw')" "takesAnswered env" "answered (ls_messages s)"
  shows "answered (ls_messages s1)"
  using emitsD [OF begin_acts assms(1)] assms(2,3) by (auto intro: answered_append)

text \<open>A host with one tool, whose model calls it once and then answers; the world counts the requests.\<close>

definition sampleRequest :: "nat request_env" where
  "sampleRequest =
     \<lparr>rq_planned = None, rq_streaming = False, rq_messages = [], rq_render = None, rq_dispatch = (\<lambda>ms. eff_return ()),
      rq_generate = (\<lambda>ms n. (Inr (if n = 0
          then \<lparr>gn_content = [CallPart \<lparr>rc_id = ''a'', rc_name = ''read'', rc_params = Some JNull, rc_executed = False, rc_metadata = []\<rparr>],
             gn_finish = FToolCalls, gn_usage = None\<rparr>
          else \<lparr>gn_content = [], gn_finish = FStop, gn_usage = None\<rparr>), Suc n)),
      rq_stream = (\<lambda>ms n. (([], StreamDone), n)), rq_delta = (\<lambda>d. eff_return ()), rq_fallback = (\<lambda>m. eff_return ()),
      rq_mediaRejected = None, rq_overflow = None, rq_failureText = (\<lambda>e. [])\<rparr>"

definition sampleHost :: "nat loop_env" where
  "sampleHost =
     \<lparr>le_maxSteps = 5, le_policy = \<lparr>lp_degenerate = DegenerateDisabled, lp_malformedLimit = 3, lp_answerInvalid = False\<rparr>,
      le_pollable = [], le_requireCompletion = False, le_run = None, le_initialStep = None, le_toolkit = [(''read'', None)],
      le_incomplete = None, le_malformedText = None, le_reasonText = (\<lambda>r. []), le_do = (\<lambda>a. eff_return ()), le_active = None,
      le_request = (\<lambda>n tools u ms. eff_return sampleRequest),
      le_tool = (\<lambda>n c. eff_return \<lparr>ta_result = JNull, ta_encoded = Some JNull, ta_failure = False\<rparr>),
      le_schedule = (\<lambda>w. []), le_waiting = None, le_isComplete = None, le_compact = None, le_pendingInput = None,
      le_durable = Some (eff_return False, \<lambda>n. eff_return (if n = 1 then [userNote ''more''] else []))\<rparr>"

definition sampleRun :: "(step_error + run_result) \<times> nat loop_world" where
  "sampleRun = runLoop sampleHost [userNote ''hello''] \<lparr>lw_world = 0, lw_acts = []\<rparr>"

lemma sample_takes: "takesAnswered sampleHost"
  by (auto simp: takesAnswered_def sampleHost_def answers_def userNote_def toolCallIds_def)

lemma sampleRun_runs: "map (length \<circ> rs_newTail) (case fst sampleRun of Inr res \<Rightarrow> [res] | _ \<Rightarrow> []) = [3]"
  by code_simp


section \<open>What holds of every run\<close>



text \<open>
  C8. A run is bounded and settles each of its steps exactly once, in order: it ends whatever the
  callbacks, the model and the tools answer, the settlements it performs are those of the steps 0, 1,
  2, ... and at most as many as the step limit (one, when that is 0); only the last of them can be of a
  failed step, and none is when the run succeeds, which it then never does while it still continues.
\<close>
theorem run_is_bounded_and_settles_each_step:
  "case runLoop env messages lw of (r, lw') \<Rightarrow>
     \<exists>new. lw_acts lw' = lw_acts lw @ new
       \<and> length (settledIn new) \<le> max 1 (le_maxSteps env)
       \<and> map fst (settledIn new) = [0..<length (settledIn new)]
       \<and> SsFailed \<notin> snd ` set (butlast (settledIn new))
       \<and> (case r of Inl e \<Rightarrow> True | Inr res \<Rightarrow> SsFailed \<notin> snd ` set (settledIn new) \<and> rs_reason res \<noteq> PhContinue
            \<and> rs_outcome res = outcomeOf (rs_reason res) \<and> rs_usage res = sumUsage (usagesIn new))"
proof (cases "runLoop env messages lw")
  case (Pair r lw')
  with loop_run_acts [of env messages lw] show ?thesis by (cases r) auto
qed

text \<open>
  C21. A tool runs only after the response that called it was recorded, in a step the loop settles, and
  never in a step it settles as malformed or truncated: a reply the loop refuses or finds cut short
  has no effect through any of its calls.
\<close>
theorem cut_replies_run_nothing:
  "\<exists>new. lw_acts (snd (runLoop env messages lw)) = lw_acts lw @ new
     \<and> stored_first {} new
     \<and> fst ` set (startsIn new) \<subseteq> fst ` set (settledIn new)
     \<and> list_all (\<lambda>(n, st). n \<notin> fst ` set (startsIn new)) (filter (\<lambda>(n, st). st \<in> {SsMalformed, SsTruncated}) (settledIn new))"
proof -
  from loop_run_acts [of env messages lw] obtain new where
    "lw_acts (snd (runLoop env messages lw)) = lw_acts lw @ new" "stored_first {} new" "fst ` set (startsIn new) \<subseteq> fst ` set (settledIn new)"
    "list_all (\<lambda>(n, st). st \<in> {SsMalformed, SsTruncated} \<longrightarrow> n \<notin> fst ` set (startsIn new)) (settledIn new)" by blast
  then show ?thesis by (intro exI [of _ new]) (auto simp: list_all_iff)
qed

text \<open>
  C9. What a run returns for the record is what it recorded: when no first batch was planned by the
  host, the messages the run handed to \<open>onTail\<close> or took from the host's store, and those of the tail
  it returns, are the same, a tool message taken as its results: nothing is lost, added or recorded
  twice, whatever the order in which concurrent calls completed.
\<close>
theorem record_is_the_new_tail:
  assumes "le_initialStep env = None" "runLoop env messages lw = (Inr res, lw')"
  shows "\<exists>new. lw_acts lw' = lw_acts lw @ new \<and> mset (pieces (rs_newTail res)) = mset (pieces (recordedIn new))"
  using loop_run_acts [of env messages lw] assms by auto

lemma record_is_the_new_tail_witness:
  "\<exists>res lw'. sampleRun = (Inr res, lw') \<and> mset (pieces (rs_newTail res)) = mset (pieces (recordedIn (lw_acts lw')))"
proof -
  obtain r lw' where run: "runLoop sampleHost [userNote ''hello''] \<lparr>lw_world = 0, lw_acts = []\<rparr> = (r, lw')" by fastforce
  from sampleRun_runs obtain res where res: "r = Inr res"
    unfolding sampleRun_def run by (cases r) auto
  have "le_initialStep sampleHost = None" by (simp add: sampleHost_def)
  from record_is_the_new_tail [OF this run [unfolded res]] show ?thesis
    using run res by (auto simp: sampleRun_def)
qed


text \<open>
  A host-planned first batch whose only call the loop will not run, under a policy that answers such
  calls: the failure result that answers it is in the tail the run returns and was never recorded.
\<close>

definition plannedHost :: "nat loop_env" where
  "plannedHost = sampleHost\<lparr>le_initialStep := Some [(''write'', JNull)],
     le_policy := \<lparr>lp_degenerate = DegenerateDisabled, lp_malformedLimit = 3, lp_answerInvalid = True\<rparr>\<rparr>"

lemma planned_answer_is_not_recorded:
  "case runLoop plannedHost [userNote ''hello''] \<lparr>lw_world = 1, lw_acts = []\<rparr> of
     (Inl e, lw') \<Rightarrow> False
   | (Inr res, lw') \<Rightarrow>
       answered (rs_newTail res) \<and> \<not> answered (recordedIn (lw_acts lw')) \<and> startsIn (lw_acts lw') = []"
  by code_simp


end
