(* ===== verification/PluginGraph.thy ===== *)
theory PluginGraph
  imports Vocabulary "HOL-Library.Multiset"
begin

text \<open>
  The plugin graph (\<open>runtime/src/graph.ts\<close>): a configuration's instances are resolved against the
  installed plugins, each service gets the one instance that provides it, and the instances are put
  in an order in which each comes after those it depends on; activation then builds them in that
  order, each with the services it declares. A plugin's schema (its defaults and the options merged
  over them) and its build are functions of the plugin record, a build's scope and effects left out.
  A failure is a constructor of \<open>graph_error\<close> with what its message names. Instances are told apart by
  their ids, which the resolution checks to be distinct first.
\<close>

section \<open>Plugins and configurations\<close>

datatype plugin_scope = RuntimeScope | SessionScope

text \<open>A service's value, an array of contributions kept apart (\<open>Array.isArray\<close>).\<close>

datatype 'v service = One 'v | Many "'v list"

type_synonym 'v services = "string \<Rightarrow> 'v service option"

record 'v plugin =
  pl_id :: string
  pl_version :: string
  pl_apiVersion :: int
  pl_scope :: plugin_scope
  pl_requires :: "string list"
  pl_provides :: "string list"
  pl_contributes :: "string list option"
  pl_optional :: "string list option"
  pl_configure :: "json \<Rightarrow> string + json"
  pl_build :: "json \<Rightarrow> 'v services \<Rightarrow> string + 'v services"

record plugin_entry =
  pe_id :: string
  pe_use :: string
  pe_enabled :: "bool option"
  pe_options :: "json option"

record harness_config =
  hc_plugins :: "plugin_entry list option"
  hc_bindings :: "(string \<times> string) list option"
  hc_system :: "string option"
  hc_profiles :: bool

record 'v plugin_node =
  nd_entry :: plugin_entry
  nd_plugin :: "'v plugin"
  nd_options :: json

record 'v plugin_graph =
  pg_nodes :: "'v plugin_node list"
  pg_providers :: "(string \<times> string) list"
  pg_config :: harness_config

datatype graph_error =
    DuplicatePlugin string
  | ProfilesUnresolved
  | DuplicateInstance string
  | NotInstalled string string
  | IncompatibleApi string int
  | BadOptions string string
  | BindingDoesNotProvide string string
  | ChooseBinding string "string list"
  | BindingUnavailable string
  | ProvidedAndContributed string
  | MissingService string string
  | RuntimeNeedsSession string string
  | DependencyCycle "string list"
  | BuildFailed string string
  | NotProvided string "string list"
  | NotAnArray string string

definition SUPPORTED_PLUGIN_API_VERSIONS :: "int list" where
  "SUPPORTED_PLUGIN_API_VERSIONS = [1, 2, 3]"

definition nodeId :: "'v plugin_node \<Rightarrow> string" where
  "nodeId n = pe_id (nd_entry n)"

definition provides :: "'v plugin_node \<Rightarrow> string list" where
  "provides n = pl_provides (nd_plugin n)"

definition requires :: "'v plugin_node \<Rightarrow> string list" where
  "requires n = pl_requires (nd_plugin n)"

definition contributes :: "'v plugin_node \<Rightarrow> string list" where
  "contributes n = get_or_else [] (pl_contributes (nd_plugin n))"

definition optionalKeys :: "'v plugin_node \<Rightarrow> string list" where
  "optionalKeys n = get_or_else [] (pl_optional (nd_plugin n))"

definition needs :: "'v plugin_node \<Rightarrow> string list" where
  "needs n = requires n @ optionalKeys n"

definition scopeOf :: "'v plugin_node \<Rightarrow> plugin_scope" where
  "scopeOf n = pl_scope (nd_plugin n)"

section \<open>Resolution\<close>

text \<open>The first element whose key an earlier one has.\<close>

definition duplicateOf :: "('a \<Rightarrow> string) \<Rightarrow> 'a list \<Rightarrow> 'a option" where
  "duplicateOf key xs = map_option snd (find (\<lambda>(i, x). findIndex (\<lambda>y. key y = key x) xs \<noteq> Some i) (enumerate 0 xs))"

definition noDuplicate :: "('a \<Rightarrow> string) \<Rightarrow> (string \<Rightarrow> graph_error) \<Rightarrow> 'a list \<Rightarrow> graph_error + unit" where
  "noDuplicate key err xs = (case duplicateOf key xs of None \<Rightarrow> Inr () | Some x \<Rightarrow> Inl (err (key x)))"

definition enabledEntries :: "harness_config \<Rightarrow> plugin_entry list" where
  "enabledEntries config = filter (\<lambda>e. pe_enabled e \<noteq> Some False) (get_or_else [] (hc_plugins config))"

definition resolveNode :: "'v plugin list \<Rightarrow> plugin_entry \<Rightarrow> graph_error + 'v plugin_node" where
  "resolveNode plugins entry =
     and_then (or_fail (NotInstalled (pe_use entry) (pe_id entry)) (find (\<lambda>p. pl_id p = pe_use entry) plugins)) (\<lambda>plugin.
       if pl_apiVersion plugin \<notin> set SUPPORTED_PLUGIN_API_VERSIONS then Inl (IncompatibleApi (pe_id entry) (pl_apiVersion plugin))
       else (case pl_configure plugin (get_or_else (JObj []) (pe_options entry)) of
               Inl message \<Rightarrow> Inl (BadOptions (pe_id entry) message)
             | Inr options \<Rightarrow> Inr \<lparr>nd_entry = entry, nd_plugin = plugin, nd_options = options\<rparr>))"

definition bindingsOf :: "harness_config \<Rightarrow> (string \<times> string) list" where
  "bindingsOf config = get_or_else [] (hc_bindings config)"

definition chooseProvider :: "'v plugin_node list \<Rightarrow> (string \<times> string) list \<Rightarrow> string \<Rightarrow> graph_error + string \<times> string" where
  "chooseProvider nodes bindings key =
     (let candidates = filter (\<lambda>n. key \<in> set (provides n)) nodes in
      case map_of bindings key of
        Some binding \<Rightarrow>
          if list_all (\<lambda>n. nodeId n \<noteq> binding) candidates then Inl (BindingDoesNotProvide key binding) else Inr (key, binding)
      | None \<Rightarrow>
          if length candidates > 1 then Inl (ChooseBinding key (map nodeId candidates)) else Inr (key, nodeId (hd candidates)))"

definition providedKeys :: "'v plugin_node list \<Rightarrow> string list" where
  "providedKeys nodes = js_distinct (concat (map provides nodes))"

definition contributedBy :: "'v plugin_node list \<Rightarrow> string list" where
  "contributedBy nodes = concat (map contributes nodes)"

definition contributors :: "'v plugin_node list \<Rightarrow> string \<Rightarrow> 'v plugin_node \<Rightarrow> 'v plugin_node list" where
  "contributors nodes key except = filter (\<lambda>n. nodeId n \<noteq> nodeId except \<and> key \<in> set (contributes n)) nodes"

definition providerOf :: "'v plugin_node list \<Rightarrow> (string \<times> string) list \<Rightarrow> string \<Rightarrow> 'v plugin_node option" where
  "providerOf nodes providers key = find (\<lambda>n. map_of providers key = Some (nodeId n)) nodes"

text \<open>The instances a need waits for: a capability's other contributors, or the service's provider.\<close>

definition sources :: "'v plugin_node list \<Rightarrow> (string \<times> string) list \<Rightarrow> 'v plugin_node \<Rightarrow> string \<Rightarrow> 'v plugin_node list" where
  "sources nodes providers n key =
     (if key \<in> set (contributedBy nodes) then contributors nodes key n else toList (providerOf nodes providers key))"

definition checkNeed :: "'v plugin_node list \<Rightarrow> (string \<times> string) list \<Rightarrow> string list \<Rightarrow> 'v plugin_node \<Rightarrow> string \<Rightarrow> graph_error + unit" where
  "checkNeed nodes providers external n key =
     (let provider = providerOf nodes providers key; isCapability = key \<in> set (contributedBy nodes) in
      if provider \<noteq> None \<and> isCapability then Inl (ProvidedAndContributed key)
      else if provider = None \<and> \<not> isCapability \<and> key \<notin> set external \<and> key \<in> set (requires n) then Inl (MissingService (nodeId n) key)
      else if scopeOf n = RuntimeScope \<and> list_ex (\<lambda>source. scopeOf source = SessionScope) (sources nodes providers n key)
      then Inl (RuntimeNeedsSession (nodeId n) key)
      else Inr ())"

text \<open>Whether a node may come next: each of its needs is met by those already placed, or from outside.\<close>

definition needMet ::
  "'v plugin_node list \<Rightarrow> (string \<times> string) list \<Rightarrow> string list \<Rightarrow> 'v plugin_node list \<Rightarrow> 'v plugin_node \<Rightarrow> string \<Rightarrow> bool" where
  "needMet nodes providers external placed n key \<longleftrightarrow>
     key \<in> set external
     \<or> (if key \<in> set (contributedBy nodes)
        then list_all (\<lambda>source. nodeId source \<in> nodeId ` set placed) (contributors nodes key n)
        else (case map_of providers key of
                None \<Rightarrow> key \<notin> set (requires n)
              | Some p \<Rightarrow> p \<in> nodeId ` set placed))"

definition readyNode ::
  "'v plugin_node list \<Rightarrow> (string \<times> string) list \<Rightarrow> string list \<Rightarrow> 'v plugin_node list \<Rightarrow> 'v plugin_node \<Rightarrow> bool" where
  "readyNode nodes providers external placed n = list_all (needMet nodes providers external placed n) (needs n)"

function (sequential) orderNodes ::
  "'v plugin_node list \<Rightarrow> (string \<times> string) list \<Rightarrow> string list \<Rightarrow> 'v plugin_node list \<Rightarrow> 'v plugin_node list \<Rightarrow> graph_error + 'v plugin_node list" where
  "orderNodes nodes providers external remaining placed =
     (if remaining = [] then Inr placed
      else (let ready = filter (readyNode nodes providers external placed) remaining in
        if ready = [] then Inl (DependencyCycle (map nodeId remaining))
        else orderNodes nodes providers external (filter (\<lambda>n. nodeId n \<notin> nodeId ` set ready) remaining) (placed @ ready)))"
  by pat_completeness auto

lemma fewer_remaining:
  assumes "filter p xs \<noteq> []"
  shows "length (filter (\<lambda>n. f n \<notin> f ` set (filter p xs)) xs) < length xs"
proof -
  from assms obtain x where "x \<in> set xs" "p x" by (auto simp: filter_empty_conv)
  then show ?thesis by (intro length_filter_less [of x]) auto
qed

termination orderNodes
  by (relation "measure (\<lambda>(nodes, providers, external, remaining, placed). length remaining)") (simp_all add: fewer_remaining del: set_filter)

declare orderNodes.simps [simp del]

definition resolveGraph :: "harness_config \<Rightarrow> 'v plugin list \<Rightarrow> string list \<Rightarrow> graph_error + 'v plugin_graph" where
  "resolveGraph config plugins external =
     and_then (noDuplicate pl_id DuplicatePlugin plugins) (\<lambda>u.
     if hc_profiles config then Inl ProfilesUnresolved else
     and_then (noDuplicate pe_id DuplicateInstance (enabledEntries config)) (\<lambda>u.
     and_then (each_r (resolveNode plugins) (enabledEntries config)) (\<lambda>nodes.
     and_then (each_r (chooseProvider nodes (bindingsOf config)) (providedKeys nodes)) (\<lambda>providers.
     and_then (each_r (\<lambda>(key, b). if key \<in> set (providedKeys nodes) then Inr () else Inl (BindingUnavailable key)) (bindingsOf config)) (\<lambda>u.
     and_then (each_r (\<lambda>n. each_r (checkNeed nodes providers external n) (needs n)) nodes) (\<lambda>u.
     map_r (\<lambda>order. \<lparr>pg_nodes = order, pg_providers = providers, pg_config = config\<rparr>) (orderNodes nodes providers external nodes [])))))))"

section \<open>Activation\<close>

definition asArray :: "'v service option \<Rightarrow> 'v list" where
  "asArray x = (case x of Some (Many vs) \<Rightarrow> vs | _ \<Rightarrow> [])"

definition dependenciesOf :: "'v plugin_graph \<Rightarrow> 'v services \<Rightarrow> 'v plugin_node \<Rightarrow> 'v services" where
  "dependenciesOf graph ctx n k =
     (if k \<in> set (needs n)
      then (case ctx k of Some v \<Rightarrow> Some v | None \<Rightarrow> if k \<in> set (contributedBy (pg_nodes graph)) then Some (Many []) else None)
      else None)"

definition buildNode :: "'v plugin_graph \<Rightarrow> 'v services \<Rightarrow> 'v plugin_node \<Rightarrow> graph_error + 'v services" where
  "buildNode graph ctx n =
     (case pl_build (nd_plugin n) (nd_options n) (dependenciesOf graph ctx n) of
        Inl message \<Rightarrow> Inl (BuildFailed (nodeId n) message)
      | Inr built \<Rightarrow>
          (let missing = filter (\<lambda>k. built k = None) (provides n @ contributes n) in
           if missing \<noteq> [] then Inl (NotProvided (nodeId n) missing)
           else (case find (\<lambda>k. case built k of Some (Many vs) \<Rightarrow> False | _ \<Rightarrow> True) (contributes n) of
                   Some key \<Rightarrow> Inl (NotAnArray (nodeId n) key)
                 | None \<Rightarrow> Inr built)))"

definition selected :: "'v plugin_graph \<Rightarrow> 'v services \<Rightarrow> 'v plugin_node \<Rightarrow> 'v services \<Rightarrow> 'v services" where
  "selected graph ctx n built k =
     (if k \<in> set (contributes n) then Some (Many (asArray (ctx k) @ asArray (built k)))
      else if k \<in> set (provides n) \<and> map_of (pg_providers graph) k = Some (nodeId n) then built k
      else None)"

definition installed :: "'v plugin_graph \<Rightarrow> 'v services \<Rightarrow> 'v plugin_node \<Rightarrow> 'v services \<Rightarrow> 'v services" where
  "installed graph ctx n built k =
     (case selected graph ctx n built k of Some v \<Rightarrow> Some v | None \<Rightarrow> ctx k)"

fun activateAll :: "'v plugin_graph \<Rightarrow> 'v plugin_node list \<Rightarrow> 'v services \<Rightarrow> graph_error + 'v services" where
  "activateAll graph [] ctx = Inr ctx"
| "activateAll graph (n # ns) ctx =
     and_then (buildNode graph ctx n) (\<lambda>built. activateAll graph ns (installed graph ctx n built))"

definition inScope :: "plugin_scope \<Rightarrow> 'v plugin_graph \<Rightarrow> 'v plugin_node list" where
  "inScope lifetime graph = filter (\<lambda>n. scopeOf n = lifetime) (pg_nodes graph)"

definition activateGraph :: "'v plugin_graph \<Rightarrow> plugin_scope \<Rightarrow> 'v services \<Rightarrow> graph_error + 'v services" where
  "activateGraph graph lifetime services = activateAll graph (inScope lifetime graph) services"

section \<open>The order\<close>

lemma findIndex_Some_iff: "findIndex p xs = Some i \<longleftrightarrow> i < length xs \<and> p (xs ! i) \<and> (\<forall>j<i. \<not> p (xs ! j))"
proof (induction xs arbitrary: i)
  case Nil
  then show ?case by (simp add: findIndex_simps)
next
  case (Cons x xs)
  then show ?case
    by (cases i) (auto simp: findIndex_simps All_less_Suc2)
qed

lemma duplicateOf_None: "duplicateOf key xs = None \<Longrightarrow> distinct (map key xs)"
proof -
  assume "duplicateOf key xs = None"
  then have first: "findIndex (\<lambda>y. key y = key (xs ! i)) xs = Some i" if "i < length xs" for i
    using that by (force simp: duplicateOf_def find_None_iff in_set_enumerate_eq)
  show ?thesis
    unfolding distinct_conv_nth length_map
  proof (intro allI impI)
    fix i j assume ij: "i < length xs" "j < length xs" "i \<noteq> j"
    then consider "i < j" | "j < i" by linarith
    then show "map key xs ! i \<noteq> map key xs ! j"
      using first [OF ij(1)] first [OF ij(2)] ij unfolding findIndex_Some_iff by cases auto
  qed
qed

lemma noDuplicate_distinct: "noDuplicate key err xs = Inr u \<Longrightarrow> distinct (map key xs)"
  by (rule duplicateOf_None) (simp add: noDuplicate_def split: option.splits)

lemma needMet_mono:
  assumes "needMet nodes providers external placed n key" "set placed \<subseteq> set later"
  shows "needMet nodes providers external later n key"
proof -
  have "nodeId ` set placed \<subseteq> nodeId ` set later" using assms(2) by (rule image_mono)
  with assms(1) show ?thesis
    by (cases "map_of providers key") (auto simp: needMet_def list_all_iff simp del: image_iff split: if_splits)
qed

lemma readyNode_mono: "readyNode nodes providers external placed n \<Longrightarrow> set placed \<subseteq> set later \<Longrightarrow> readyNode nodes providers external later n"
  unfolding readyNode_def list_all_iff by (blast intro: needMet_mono)

definition orderly :: "'v plugin_node list \<Rightarrow> (string \<times> string) list \<Rightarrow> string list \<Rightarrow> 'v plugin_node list \<Rightarrow> bool" where
  "orderly nodes providers external xs \<longleftrightarrow> (\<forall>i < length xs. readyNode nodes providers external (take i xs) (xs ! i))"

lemma orderly_append:
  assumes "orderly nodes providers external placed" "list_all (readyNode nodes providers external placed) ready"
  shows "orderly nodes providers external (placed @ ready)"
  unfolding orderly_def
proof (intro allI impI)
  fix i assume i: "i < length (placed @ ready)"
  show "readyNode nodes providers external (take i (placed @ ready)) ((placed @ ready) ! i)"
  proof (cases "i < length placed")
    case True
    with assms(1) show ?thesis by (simp add: orderly_def nth_append)
  next
    case False
    with i have "ready ! (i - length placed) \<in> set ready" by simp
    with assms(2) have "readyNode nodes providers external placed (ready ! (i - length placed))" by (simp add: list_all_iff)
    then show ?thesis using False by (auto simp: nth_append intro: readyNode_mono)
  qed
qed

text \<open>The rest of the nodes once the ready ones are taken, told apart by their ids.\<close>

lemma rest_by_id:
  assumes "distinct (map f xs)"
  shows "filter (\<lambda>n. f n \<notin> f ` set (filter p xs)) xs = filter (\<lambda>n. \<not> p n) xs"
proof (rule filter_cong [OF refl])
  fix n assume n: "n \<in> set xs"
  from assms have "inj_on f (set xs)" by (simp add: distinct_map)
  with n show "f n \<notin> f ` set (filter p xs) \<longleftrightarrow> \<not> p n" by (auto dest: inj_onD)
qed

lemma mset_filter_both: "mset (filter p xs) + mset (filter (\<lambda>x. \<not> p x) xs) = mset xs"
  by (induction xs) auto

lemma orderNodes_InrD:
  "orderNodes nodes providers external remaining placed = Inr order \<Longrightarrow> distinct (map nodeId remaining) \<Longrightarrow>
   orderly nodes providers external placed \<Longrightarrow>
   mset order = mset placed + mset remaining \<and> orderly nodes providers external order"
proof (induction nodes providers external remaining placed rule: orderNodes.induct)
  case (1 nodes providers external remaining placed)
  show ?case
  proof (cases "remaining = []")
    case True
    with 1(2,4) show ?thesis by (simp add: orderNodes.simps)
  next
    case False
    let ?ready = "filter (readyNode nodes providers external placed) remaining"
    let ?rest = "filter (\<lambda>n. \<not> readyNode nodes providers external placed n) remaining"
    have rest: "filter (\<lambda>n. nodeId n \<notin> nodeId ` set ?ready) remaining = ?rest" by (rule rest_by_id [OF 1(3)])
    from 1(2) False have ready: "?ready \<noteq> []" by (subst (asm) orderNodes.simps) (auto simp: Let_def split: if_splits)
    with 1(2) False have run: "orderNodes nodes providers external ?rest (placed @ ?ready) = Inr order"
      by (subst (asm) orderNodes.simps) (simp add: Let_def rest del: set_filter)
    have "distinct (map nodeId ?rest)" using 1(3) by (rule distinct_map_filter)
    moreover have "orderly nodes providers external (placed @ ?ready)"
      by (rule orderly_append [OF 1(4)]) (simp add: list_all_iff)
    ultimately have "mset order = mset (placed @ ?ready) + mset ?rest \<and> orderly nodes providers external order"
      using 1(1) [OF False refl ready] run unfolding rest by blast
    then show ?thesis using mset_filter_both [of "readyNode nodes providers external placed" remaining] by (simp add: add.assoc)
  qed
qed

lemma orderNodes_InlD:
  "orderNodes nodes providers external remaining placed = Inl e \<Longrightarrow>
   \<exists>stuck before. e = DependencyCycle (map nodeId stuck) \<and> stuck \<noteq> [] \<and> set stuck \<subseteq> set remaining
     \<and> nodeId ` (set placed \<union> set remaining) \<subseteq> nodeId ` (set before \<union> set stuck)
     \<and> list_all (\<lambda>n. \<not> readyNode nodes providers external before n) stuck"
proof (induction nodes providers external remaining placed rule: orderNodes.induct)
  case (1 nodes providers external remaining placed)
  let ?ready = "filter (readyNode nodes providers external placed) remaining"
  let ?rest = "filter (\<lambda>n. nodeId n \<notin> nodeId ` set ?ready) remaining"
  from 1(2) have False: "remaining \<noteq> []" by (subst (asm) orderNodes.simps) (auto split: if_splits)
  show ?case
  proof (cases "?ready = []")
    case True
    with 1(2) False have "e = DependencyCycle (map nodeId remaining)" by (subst (asm) orderNodes.simps) (simp add: Let_def)
    with True False show ?thesis
      by (intro exI [of _ remaining] exI [of _ placed]) (auto simp: filter_empty_conv list_all_iff)
  next
    case ready: False
    with 1(2) False have "orderNodes nodes providers external ?rest (placed @ ?ready) = Inl e"
      by (subst (asm) orderNodes.simps) (simp add: Let_def)
    from 1(1) [OF False refl ready this] obtain stuck before where
      s: "e = DependencyCycle (map nodeId stuck)" "stuck \<noteq> []" "set stuck \<subseteq> set ?rest"
        "nodeId ` (set (placed @ ?ready) \<union> set ?rest) \<subseteq> nodeId ` (set before \<union> set stuck)"
        "list_all (\<lambda>n. \<not> readyNode nodes providers external before n) stuck" by blast
    have "nodeId ` (set placed \<union> set remaining) \<subseteq> nodeId ` (set (placed @ ?ready) \<union> set ?rest)" by auto
    note all = subset_trans [OF this s(4)]
    have "set stuck \<subseteq> set remaining" using s(3) by auto
    with all s(1,2,5) show ?thesis by blast
  qed
qed


section \<open>What the resolution checked\<close>

definition resolvedAs ::
  "harness_config \<Rightarrow> 'v plugin list \<Rightarrow> string list \<Rightarrow> 'v plugin_node list \<Rightarrow> (string \<times> string) list \<Rightarrow> bool" where
  "resolvedAs config plugins external nodes providers \<longleftrightarrow>
     distinct (map pe_id (enabledEntries config))
     \<and> each_r (resolveNode plugins) (enabledEntries config) = Inr nodes
     \<and> each_r (chooseProvider nodes (bindingsOf config)) (providedKeys nodes) = Inr providers
     \<and> (\<exists>us. each_r (\<lambda>n. each_r (checkNeed nodes providers external n) (needs n)) nodes = Inr us)"

lemma resolveGraph_InrD:
  assumes "resolveGraph config plugins external = Inr g"
  shows "\<exists>nodes. resolvedAs config plugins external nodes (pg_providers g)
     \<and> orderNodes nodes (pg_providers g) external nodes [] = Inr (pg_nodes g) \<and> pg_config g = config"
  using assms unfolding resolveGraph_def resolvedAs_def
  by (auto simp: result_simps dest!: noDuplicate_distinct split: if_splits)

lemma chooseProvider_no_cycle: "chooseProvider nodes bindings key \<noteq> Inl (DependencyCycle ids)"
  by (auto simp: chooseProvider_def Let_def split: option.splits)

lemma each_r_InlD: "each_r f xs = Inl e \<Longrightarrow> \<exists>x \<in> set xs. f x = Inl e"
  by (induction xs) (auto simp: result_simps)

lemma checkNeed_no_cycle: "checkNeed nodes providers external n key \<noteq> Inl (DependencyCycle ids)"
  by (simp add: checkNeed_def Let_def)

lemma resolveNode_no_cycle: "resolveNode plugins entry \<noteq> Inl (DependencyCycle ids)"
  by (auto simp: resolveNode_def or_fail_def split: option.splits sum.splits)

lemma noDuplicate_no_cycle:
  "noDuplicate pl_id DuplicatePlugin plugins \<noteq> Inl (DependencyCycle ids)" "noDuplicate pe_id DuplicateInstance es \<noteq> Inl (DependencyCycle ids)"
  by (simp_all add: noDuplicate_def split: option.splits)

lemma resolveGraph_cycleD:
  assumes "resolveGraph config plugins external = Inl (DependencyCycle ids)"
  shows "\<exists>nodes providers. resolvedAs config plugins external nodes providers
     \<and> orderNodes nodes providers external nodes [] = Inl (DependencyCycle ids)"
  using assms unfolding resolveGraph_def resolvedAs_def map_r_def
  by (auto simp: result_simps noDuplicate_no_cycle dest!: noDuplicate_distinct each_r_InlD
        simp: resolveNode_no_cycle chooseProvider_no_cycle checkNeed_no_cycle split: if_splits)

lemma resolveNode_entry: "resolveNode plugins entry = Inr n \<Longrightarrow> nd_entry n = entry"
  by (auto simp: resolveNode_def result_simps split: if_splits sum.splits)

lemma each_r_map: "each_r f xs = Inr ys \<Longrightarrow> (\<And>x y. f x = Inr y \<Longrightarrow> g y = h x) \<Longrightarrow> map g ys = map h xs"
  by (induction xs arbitrary: ys) (auto simp: result_simps)

lemma resolved_nodes:
  assumes "resolvedAs config plugins external nodes providers"
  shows "map nd_entry nodes = enabledEntries config" "distinct (map nodeId nodes)"
proof -
  show entries: "map nd_entry nodes = enabledEntries config"
    using assms each_r_map [of "resolveNode plugins" "enabledEntries config" nodes nd_entry "\<lambda>e. e"]
    by (simp add: resolvedAs_def resolveNode_entry)
  have "map nodeId nodes = map pe_id (map nd_entry nodes)" by (simp add: nodeId_def)
  then show "distinct (map nodeId nodes)" using assms by (simp add: entries resolvedAs_def)
qed

lemma chooseProvider_InrD:
  assumes "chooseProvider nodes bindings key = Inr (k, p)" "key \<in> set (concat (map provides nodes))"
  shows "k = key \<and> (\<exists>n \<in> set nodes. nodeId n = p \<and> key \<in> set (provides n))"
proof -
  let ?cs = "filter (\<lambda>n. key \<in> set (provides n)) nodes"
  from assms(2) have "?cs \<noteq> []" by (auto simp: filter_empty_conv)
  then have "hd ?cs \<in> set ?cs" by (rule hd_in_set)
  with assms(1) show ?thesis
    by (auto simp: chooseProvider_def Let_def list_all_iff split: option.splits if_splits)
qed

lemma resolved_providers:
  assumes "resolvedAs config plugins external nodes providers"
  shows "map fst providers = providedKeys nodes"
    and "map_of providers key = Some p \<Longrightarrow> \<exists>n \<in> set nodes. nodeId n = p \<and> key \<in> set (provides n)"
    and "n \<in> set nodes \<Longrightarrow> key \<in> set (provides n) \<Longrightarrow> map_of providers key \<noteq> None"
proof -
  have run: "each_r (chooseProvider nodes (bindingsOf config)) (providedKeys nodes) = Inr providers"
    using assms by (simp add: resolvedAs_def)
  have keys: "set (providedKeys nodes) = set (concat (map provides nodes))" by (simp add: providedKeys_def)
  show fsts: "map fst providers = providedKeys nodes"
  proof -
    have "fst y = k" if "chooseProvider nodes (bindingsOf config) k = Inr y" for k y
      using that by (auto simp: chooseProvider_def Let_def split: option.splits if_splits)
    then have "map fst providers = map (\<lambda>k. k) (providedKeys nodes)" by (rule each_r_map [OF run])
    then show ?thesis by simp
  qed
  show "\<exists>n \<in> set nodes. nodeId n = p \<and> key \<in> set (provides n)" if "map_of providers key = Some p"
  proof -
    from that have "(key, p) \<in> set providers" by (rule map_of_SomeD)
    then obtain i where i: "i < length providers" "providers ! i = (key, p)" by (auto simp: in_set_conv_nth)
    then have len: "i < length (providedKeys nodes)" using each_r_length [OF run] by simp
    from each_r_nth [OF run len] i have "chooseProvider nodes (bindingsOf config) (providedKeys nodes ! i) = Inr (key, p)" by simp
    moreover have "providedKeys nodes ! i \<in> set (concat (map provides nodes))" using len keys nth_mem by blast
    ultimately show ?thesis using chooseProvider_InrD by blast
  qed
  show "map_of providers key \<noteq> None" if "n \<in> set nodes" "key \<in> set (provides n)"
  proof -
    have "key \<in> set (map fst providers)" unfolding fsts keys using that by auto
    then show ?thesis by (simp add: map_of_eq_None_iff)
  qed
qed

lemma each_r_all: "each_r f xs = Inr ys \<Longrightarrow> x \<in> set xs \<Longrightarrow> \<exists>y. f x = Inr y"
  by (induction xs arbitrary: ys) (auto simp: result_simps)

lemma resolved_needs:
  assumes "resolvedAs config plugins external nodes providers" "n \<in> set nodes" "key \<in> set (needs n)"
  shows "checkNeed nodes providers external n key = Inr ()"
proof -
  from assms(1) obtain us where "each_r (\<lambda>n. each_r (checkNeed nodes providers external n) (needs n)) nodes = Inr us"
    by (auto simp: resolvedAs_def)
  from each_r_all [OF this assms(2)] obtain vs where "each_r (checkNeed nodes providers external n) (needs n) = Inr vs" by blast
  from each_r_all [OF this assms(3)] show ?thesis by simp
qed


lemma by_id: "distinct (map f xs) \<Longrightarrow> x \<in> set xs \<Longrightarrow> y \<in> set xs \<Longrightarrow> f x = f y \<Longrightarrow> x = y"
  by (auto simp: distinct_map dest: inj_onD)

lemma providerOf_Some:
  assumes "distinct (map nodeId nodes)" "map_of providers key = Some (nodeId m)" "m \<in> set nodes"
  shows "providerOf nodes providers key = Some m"
proof -
  have "providerOf nodes providers key \<noteq> None" using assms(2,3) by (auto simp: providerOf_def find_None_iff)
  then obtain m' where m': "providerOf nodes providers key = Some m'" by blast
  then have "m' \<in> set nodes" "nodeId m' = nodeId m" using assms(2) by (auto simp: providerOf_def dest!: find_SomeD)
  with by_id [OF assms(1) _ assms(3)] m' show ?thesis by simp
qed

text \<open>A need that is not met waits for a source that is not placed.\<close>

lemma unmet_source:
  assumes res: "resolvedAs config plugins external nodes providers" and n: "n \<in> set nodes" "key \<in> set (needs n)"
    and unmet: "\<not> needMet nodes providers external before n key" and all: "nodeId ` set nodes \<subseteq> nodeId ` (set before \<union> set stuck)"
  shows "key \<notin> set external \<and> (\<exists>source \<in> set (sources nodes providers n key). nodeId source \<in> nodeId ` set stuck)"
proof (cases "key \<in> set (contributedBy nodes)")
  case True
  with unmet obtain source where s: "key \<notin> set external" "source \<in> set (contributors nodes key n)" "nodeId source \<notin> nodeId ` set before"
    by (auto simp: needMet_def list_all_iff)
  then have "source \<in> set nodes" by (simp add: contributors_def)
  with all s(3) have "nodeId source \<in> nodeId ` set stuck" by blast
  with s True show ?thesis by (auto simp: sources_def)
next
  case False
  show ?thesis
  proof (cases "map_of providers key")
    case None
    then have "providerOf nodes providers key = None" by (simp add: providerOf_def find_None_iff)
    with resolved_needs [OF res n] None False unmet show ?thesis
      by (auto simp: checkNeed_def Let_def needMet_def split: if_splits)
  next
    case (Some p)
    from resolved_providers(2) [OF res Some] obtain m where m: "m \<in> set nodes" "nodeId m = p" by blast
    with Some have "providerOf nodes providers key = Some m" by (intro providerOf_Some [OF resolved_nodes(2) [OF res]]) auto
    moreover have "key \<notin> set external" "p \<notin> nodeId ` set before" using unmet False Some by (auto simp: needMet_def)
    moreover from this(2) all m have "p \<in> nodeId ` set stuck" by blast
    ultimately show ?thesis using False m by (auto simp: sources_def)
  qed
qed

section \<open>What an activation gives\<close>

text \<open>The instances an activation builds, each with the services it was given and those it built, up to the first failure.\<close>

fun activated :: "'v plugin_graph \<Rightarrow> 'v plugin_node list \<Rightarrow> 'v services \<Rightarrow> ('v plugin_node \<times> 'v services \<times> 'v services) list" where
  "activated graph [] ctx = []"
| "activated graph (n # ns) ctx =
     (case buildNode graph ctx n of
        Inl e \<Rightarrow> []
      | Inr built \<Rightarrow> (n, dependenciesOf graph ctx n, built) # activated graph ns (installed graph ctx n built))"

fun contextAfter :: "'v plugin_graph \<Rightarrow> 'v services \<Rightarrow> ('v plugin_node \<times> 'v services \<times> 'v services) list \<Rightarrow> 'v services" where
  "contextAfter graph ctx [] = ctx"
| "contextAfter graph ctx ((n, deps, built) # ts) = contextAfter graph (installed graph ctx n built) ts"

lemma contextAfter_append: "contextAfter graph ctx (ts @ us) = contextAfter graph (contextAfter graph ctx ts) us"
  by (induction graph ctx ts rule: contextAfter.induct) simp_all

lemma activated_nodes: "\<exists>later. ns = map fst (activated graph ns ctx) @ later"
proof (induction graph ns ctx rule: activated.induct)
  case (2 graph n ns ctx)
  then show ?case by (cases "buildNode graph ctx n") auto
qed simp

lemma activated_nth:
  "i < length (activated graph ns ctx) \<Longrightarrow> activated graph ns ctx ! i = (n, deps, built) \<Longrightarrow>
   n = ns ! i \<and> deps = dependenciesOf graph (contextAfter graph ctx (take i (activated graph ns ctx))) n
   \<and> buildNode graph (contextAfter graph ctx (take i (activated graph ns ctx))) n = Inr built"
proof (induction graph ns ctx arbitrary: i rule: activated.induct)
  case (2 graph m ns ctx)
  obtain b where b: "buildNode graph ctx m = Inr b" using 2(2) by (cases "buildNode graph ctx m") auto
  show ?case
  proof (cases i)
    case 0
    with 2(3) b show ?thesis by auto
  next
    case (Suc j)
    with 2(2,3) b have "j < length (activated graph ns (installed graph ctx m b))"
      "activated graph ns (installed graph ctx m b) ! j = (n, deps, built)" by auto
    from 2(1) [OF b this] show ?thesis by (auto simp: Suc b)
  qed
qed simp

text \<open>A run of \<open>activateAll\<close> succeeds just when every instance was built, and leaves what they installed.\<close>

lemma activateAll_activated:
  "activateAll graph ns ctx = Inr ctx' \<longleftrightarrow>
     length (activated graph ns ctx) = length ns \<and> ctx' = contextAfter graph ctx (activated graph ns ctx)"
proof (induction graph ns ctx rule: activateAll.induct)
  case (2 graph n ns ctx)
  then show ?case by (cases "buildNode graph ctx n") auto
qed auto

lemma activated_two:
  "activateAll graph ns ctx = Inr ctx' \<Longrightarrow> activated graph (ns @ ms) ctx = activated graph ns ctx @ activated graph ms ctx'"
proof (induction graph ns ctx rule: activateAll.induct)
  case (2 graph n ns ctx)
  then show ?case by (cases "buildNode graph ctx n") auto
qed simp

lemma built_arrays:
  assumes "buildNode graph ctx n = Inr built" "k \<in> set (contributes n)"
  shows "\<exists>vs. built k = Some (Many vs)"
proof -
  from assms have "find (\<lambda>k. case built k of Some (Many vs) \<Rightarrow> False | _ \<Rightarrow> True) (contributes n) = None"
    by (auto simp: buildNode_def Let_def split: sum.splits if_splits option.splits)
  from find_NoneD [OF this assms(2)] show ?thesis by (auto split: option.splits service.splits)
qed

lemma built_provided: "buildNode graph ctx n = Inr built \<Longrightarrow> k \<in> set (provides n) \<Longrightarrow> built k \<noteq> None"
  by (auto simp: buildNode_def Let_def filter_empty_conv split: sum.splits if_splits option.splits)


lemma context_grows: "ctx k \<noteq> None \<Longrightarrow> contextAfter graph ctx ts k \<noteq> None"
  by (induction graph ctx ts rule: contextAfter.induct) (auto simp: installed_def split: option.split)

lemma context_provided:
  assumes "map_of (pg_providers graph) k = Some p" "k \<notin> set (contributedBy (map fst ts))"
    and "\<forall>(m, deps, b) \<in> set ts. nodeId m = p \<longrightarrow> k \<in> set (provides m) \<and> b k = Some v"
    and "ctx k = Some v \<or> p \<in> nodeId ` fst ` set ts"
  shows "contextAfter graph ctx ts k = Some v"
  using assms
proof (induction graph ctx ts rule: contextAfter.induct)
  case (2 graph ctx n deps built ts)
  show ?case
  proof (cases "nodeId n = p")
    case True
    with 2(2,3,4) have "installed graph ctx n built k = Some v" by (simp add: installed_def selected_def contributedBy_def)
    with 2 show ?thesis by (simp add: contributedBy_def)
  next
    case False
    with 2(2,3) have "installed graph ctx n built k = ctx k" by (simp add: installed_def selected_def contributedBy_def)
    with 2 False show ?thesis by (simp add: contributedBy_def)
  qed
qed simp

definition contributedTo :: "string \<Rightarrow> ('v plugin_node \<times> 'v services \<times> 'v services) list \<Rightarrow> 'v list" where
  "contributedTo k ts = concat (map (\<lambda>(m, deps, built). asArray (built k)) (filter (\<lambda>(m, deps, built). k \<in> set (contributes m)) ts))"

lemma context_contributed:
  assumes "map_of (pg_providers graph) k = None" "ctx k = None \<or> (\<exists>vs. ctx k = Some (Many vs))"
  shows "(case contextAfter graph ctx ts k of None \<Rightarrow> Many [] | Some v \<Rightarrow> v) = Many (asArray (ctx k) @ contributedTo k ts)"
  using assms
proof (induction graph ctx ts rule: contextAfter.induct)
  case (1 graph ctx)
  then show ?case by (auto simp: contributedTo_def asArray_def)
next
  case (2 graph ctx n deps built ts)
  show ?case
  proof (cases "k \<in> set (contributes n)")
    case True
    then have "installed graph ctx n built k = Some (Many (asArray (ctx k) @ asArray (built k)))"
      by (simp add: installed_def selected_def)
    with 2 True show ?thesis by (simp add: contributedTo_def asArray_def)
  next
    case False
    with 2(2) have "installed graph ctx n built k = ctx k" by (simp add: installed_def selected_def)
    with 2 False show ?thesis by (simp add: contributedTo_def)
  qed
qed

definition activationOrder :: "'v plugin_graph \<Rightarrow> 'v plugin_node list" where
  "activationOrder graph = inScope RuntimeScope graph @ inScope SessionScope graph"

lemma activation_before:
  assumes nodes: "pg_nodes graph = xs @ n # ys" and ids: "distinct (map nodeId (pg_nodes graph))" and source: "source \<in> set xs"
    and scopes: "scopeOf n = RuntimeScope \<Longrightarrow> scopeOf source \<noteq> SessionScope"
    and at: "i < length (activationOrder graph)" "activationOrder graph ! i = n"
  shows "source \<in> set (take i (activationOrder graph))"
proof -
  have dist: "distinct (activationOrder graph)"
    using ids by (auto simp: activationOrder_def inScope_def distinct_map)
  have "\<exists>pre post. activationOrder graph = pre @ n # post \<and> source \<in> set pre"
  proof (cases "scopeOf n")
    case RuntimeScope
    with scopes have "scopeOf source = RuntimeScope" by (cases "scopeOf source") auto
    with RuntimeScope source nodes show ?thesis
      by (intro exI [of _ "filter (\<lambda>n. scopeOf n = RuntimeScope) xs"]
          exI [of _ "filter (\<lambda>n. scopeOf n = RuntimeScope) ys @ inScope SessionScope graph"]) (auto simp: activationOrder_def inScope_def)
  next
    case SessionScope
    with source nodes show ?thesis
      by (intro exI [of _ "inScope RuntimeScope graph @ filter (\<lambda>n. scopeOf n = SessionScope) xs"]
          exI [of _ "filter (\<lambda>n. scopeOf n = SessionScope) ys"])
        (cases "scopeOf source"; auto simp: activationOrder_def inScope_def)
  qed
  then obtain pre post where seq: "activationOrder graph = pre @ n # post" "source \<in> set pre" by blast
  have "activationOrder graph ! length pre = n" "length pre < length (activationOrder graph)" by (simp_all add: seq(1))
  with dist at have "i = length pre" by (metis nth_eq_iff_index_eq)
  with seq show ?thesis by simp
qed


section \<open>The properties\<close>

lemma resolved_before:
  assumes res: "resolvedAs config plugins external nodes providers"
    and order: "orderNodes nodes providers external nodes [] = Inr order" "order = xs @ n # ys"
    and key: "key \<in> set (needs n)" "key \<notin> set external" "source \<in> set (sources nodes providers n key)"
  shows "source \<in> set xs"
proof -
  note ids = resolved_nodes(2) [OF res]
  from orderNodes_InrD [OF order(1) ids] have perm: "mset order = mset nodes" and ord: "orderly nodes providers external order"
    by (simp_all add: orderly_def)
  have "set order = set nodes" using perm by (rule mset_eq_setD)
  then have n: "n \<in> set nodes" and xs: "set xs \<subseteq> set nodes" using order(2) by auto
  have "readyNode nodes providers external xs n" using ord [unfolded orderly_def, rule_format, of "length xs"] by (simp add: order(2))
  with key have met: "needMet nodes providers external xs n key" by (simp add: readyNode_def list_all_iff)
  have "source \<in> set nodes \<and> nodeId source \<in> nodeId ` set xs"
  proof (cases "key \<in> set (contributedBy nodes)")
    case True
    with met key show ?thesis by (auto simp: needMet_def sources_def list_all_iff contributors_def simp del: image_iff)
  next
    case False
    with key(3) have "providerOf nodes providers key = Some source" by (auto simp: sources_def toList_def split: option.splits)
    then have "source \<in> set nodes" "map_of providers key = Some (nodeId source)" by (auto simp: providerOf_def dest!: find_SomeD)
    with met key(2) False show ?thesis by (simp add: needMet_def)
  qed
  then obtain m where "m \<in> set xs" "nodeId m = nodeId source" "source \<in> set nodes" by auto
  with by_id [OF ids, of m source] xs show ?thesis by auto
qed

lemma providerOf_same:
  assumes "distinct (map nodeId nodes)" "set order = set nodes"
  shows "providerOf order providers key = providerOf nodes providers key"
proof (cases "providerOf order providers key")
  case None
  then have "providerOf nodes providers key = None" using assms(2) by (simp add: providerOf_def find_None_iff)
  with None show ?thesis by simp
next
  case (Some m)
  then have "m \<in> set nodes" "map_of providers key = Some (nodeId m)" using assms(2) by (auto simp: providerOf_def dest!: find_SomeD)
  with assms(1) Some show ?thesis by (simp add: providerOf_Some)
qed

lemma sources_same:
  assumes "distinct (map nodeId nodes)" "set order = set nodes"
  shows "set (sources order providers n key) = set (sources nodes providers n key)" "set (contributedBy order) = set (contributedBy nodes)"
proof -
  show keys: "set (contributedBy order) = set (contributedBy nodes)" using assms(2) by (simp add: contributedBy_def)
  have "set (contributors order key n) = set (contributors nodes key n)" using assms(2) by (simp add: contributors_def)
  then show "set (sources order providers n key) = set (sources nodes providers n key)"
    using keys by (simp add: sources_def providerOf_same [OF assms])
qed

text \<open>What the properties use of a resolved graph.\<close>

lemma resolved_graph:
  assumes "resolveGraph config plugins external = Inr g"
  shows "mset (map nd_entry (pg_nodes g)) = mset (enabledEntries config)" "distinct (map nodeId (pg_nodes g))"
    and "pg_nodes g = xs @ n # ys \<Longrightarrow> key \<in> set (needs n) \<Longrightarrow> key \<notin> set external \<Longrightarrow>
         source \<in> set (sources (pg_nodes g) (pg_providers g) n key) \<Longrightarrow> source \<in> set xs"
    and "n \<in> set (pg_nodes g) \<Longrightarrow> key \<in> set (needs n) \<Longrightarrow> checkNeed (pg_nodes g) (pg_providers g) external n key = Inr ()"
    and "map_of (pg_providers g) key = Some p \<Longrightarrow> \<exists>n \<in> set (pg_nodes g). nodeId n = p \<and> key \<in> set (provides n)"
proof -
  from resolveGraph_InrD [OF assms] obtain nodes where res: "resolvedAs config plugins external nodes (pg_providers g)"
    and order: "orderNodes nodes (pg_providers g) external nodes [] = Inr (pg_nodes g)" by blast
  note ids = resolved_nodes(2) [OF res]
  from orderNodes_InrD [OF order ids] have perm: "mset (pg_nodes g) = mset nodes" by (simp add: orderly_def)
  then have same: "set (pg_nodes g) = set nodes" by (rule mset_eq_setD)
  show "mset (map nd_entry (pg_nodes g)) = mset (enabledEntries config)"
    unfolding resolved_nodes(1) [OF res, symmetric] mset_map perm ..
  have "mset (map nodeId (pg_nodes g)) = mset (map nodeId nodes)" by (simp add: perm)
  then show "distinct (map nodeId (pg_nodes g))" using ids mset_eq_imp_distinct_iff by blast
  show "source \<in> set xs" if "pg_nodes g = xs @ n # ys" "key \<in> set (needs n)" "key \<notin> set external"
    "source \<in> set (sources (pg_nodes g) (pg_providers g) n key)"
    using resolved_before [OF res order that(1-3)] that(4) unfolding sources_same [OF ids same] by blast
  show "checkNeed (pg_nodes g) (pg_providers g) external n key = Inr ()" if "n \<in> set (pg_nodes g)" "key \<in> set (needs n)"
  proof -
    have "checkNeed nodes (pg_providers g) external n key = Inr ()"
      using resolved_needs [OF res _ that(2)] that(1) same by blast
    moreover have "checkNeed (pg_nodes g) (pg_providers g) external n key = checkNeed nodes (pg_providers g) external n key"
      by (simp only: checkNeed_def Let_def list_ex_iff providerOf_same [OF ids same] sources_same [OF ids same])
    ultimately show ?thesis by simp
  qed
  show "\<exists>n \<in> set (pg_nodes g). nodeId n = p \<and> key \<in> set (provides n)" if "map_of (pg_providers g) key = Some p"
    using resolved_providers(2) [OF res that] same by blast
qed

text \<open>
  C10. A resolved graph holds each enabled instance of the configuration exactly once, and puts it after
  everything it depends on: whatever comes from outside aside, the instance that provides a service
  it needs, and every other instance that contributes to a capability it needs, come before it.
\<close>
theorem resolved_graph_builds_in_order:
  assumes "resolveGraph config plugins external = Inr g"
  shows "mset (map nd_entry (pg_nodes g)) = mset (enabledEntries config) \<and> distinct (map nodeId (pg_nodes g))
     \<and> (\<forall>xs n ys key source. pg_nodes g = xs @ n # ys \<longrightarrow> key \<in> set (needs n) \<longrightarrow> key \<notin> set external
          \<longrightarrow> source \<in> set (sources (pg_nodes g) (pg_providers g) n key) \<longrightarrow> source \<in> set xs)
     \<and> (\<forall>n key. n \<in> set (pg_nodes g) \<longrightarrow> key \<in> set (requires n) \<longrightarrow>
          key \<in> set external \<or> key \<in> set (contributedBy (pg_nodes g)) \<or> providerOf (pg_nodes g) (pg_providers g) key \<noteq> None)"
proof (intro conjI allI impI)
  show "key \<in> set external \<or> key \<in> set (contributedBy (pg_nodes g)) \<or> providerOf (pg_nodes g) (pg_providers g) key \<noteq> None"
    if "n \<in> set (pg_nodes g)" "key \<in> set (requires n)" for n key
    using resolved_graph(4) [OF assms that(1), of key] that(2) by (auto simp: needs_def checkNeed_def Let_def split: if_splits)
qed (use resolved_graph [OF assms] in blast)+

text \<open>
  C37. A dependency cycle the resolution reports is a real one: every instance it lists needs, from
  inside the graph, something whose source is listed too. So a configuration that is refused for a
  cycle cannot be built in any order, and one without a cycle, its other checks passed, is resolved.
\<close>
theorem reported_cycle_is_real:
  assumes "resolveGraph config plugins external = Inl (DependencyCycle ids)"
  shows "\<exists>nodes providers. each_r (resolveNode plugins) (enabledEntries config) = Inr nodes
     \<and> each_r (chooseProvider nodes (bindingsOf config)) (providedKeys nodes) = Inr providers \<and> ids \<noteq> []
     \<and> (\<forall>i \<in> set ids. \<exists>n \<in> set nodes. nodeId n = i
          \<and> (\<exists>key \<in> set (needs n). key \<notin> set external \<and> (\<exists>source \<in> set (sources nodes providers n key). nodeId source \<in> set ids)))"
proof -
  from resolveGraph_cycleD [OF assms] obtain nodes providers where res: "resolvedAs config plugins external nodes providers"
    and cycle: "orderNodes nodes providers external nodes [] = Inl (DependencyCycle ids)" by blast
  from orderNodes_InlD [OF cycle] obtain stuck before where s: "ids = map nodeId stuck" "stuck \<noteq> []" "set stuck \<subseteq> set nodes"
    "nodeId ` set nodes \<subseteq> nodeId ` (set before \<union> set stuck)"
    "list_all (\<lambda>n. \<not> readyNode nodes providers external before n) stuck" by auto
  have "\<exists>key \<in> set (needs n). key \<notin> set external \<and> (\<exists>source \<in> set (sources nodes providers n key). nodeId source \<in> set ids)"
    if n: "n \<in> set stuck" for n
  proof -
    from s(5) n obtain key where key: "key \<in> set (needs n)" "\<not> needMet nodes providers external before n key"
      by (auto simp: list_all_iff readyNode_def)
    from n s(3) have "n \<in> set nodes" by blast
    from unmet_source [OF res this key s(4)] key(1) show ?thesis by (auto simp: s(1) simp del: image_iff)
  qed
  with s(1,2,3) res show ?thesis
    by (intro exI [of _ nodes] exI [of _ providers]) (auto simp: resolvedAs_def)
qed



lemma activated_prefix:
  "map fst (take i (activated graph ns ctx)) = take (min i (length (activated graph ns ctx))) ns"
  using activated_nodes [of ns graph ctx] by (metis append_eq_conv_conj length_map take_map take_take)

lemma entry_unique:
  assumes "distinct (map fst ts)" "(m, x) \<in> set ts" "(m, y) \<in> set ts"
  shows "x = y"
  using by_id [OF assms(1), of "(m, x)" "(m, y)"] assms(2,3) by simp

lemma activation_given:
  assumes res: "resolveGraph config plugins external = Inr g" and ext: "\<forall>k \<in> set external. services k \<noteq> None"
    and ts: "ts = activated g (activationOrder g) services" and i: "i < length ts" "ts ! i = (n, deps, built)"
    and key: "key \<in> set (needs n)"
  shows "key \<in> set (requires n) \<Longrightarrow> deps key \<noteq> None"
    and "services key = None \<Longrightarrow> key \<in> set (contributedBy (pg_nodes g)) \<Longrightarrow> deps key = Some (Many (contributedTo key (take i ts)))"
    and "services key = None \<Longrightarrow> source \<in> set (sources (pg_nodes g) (pg_providers g) n key) \<Longrightarrow> source \<in> fst ` set (take i ts)"
    and "services key = None \<Longrightarrow> providerOf (pg_nodes g) (pg_providers g) key = Some m \<Longrightarrow>
           \<exists>d b. (m, d, b) \<in> set (take i ts) \<and> deps key = b key \<and> b key \<noteq> None"
proof -
  let ?ctx = "contextAfter g services (take i ts)"
  note ids = resolved_graph(2) [OF res]
  have at: "n = activationOrder g ! i" "deps = dependenciesOf g ?ctx n"
    using activated_nth [of i g "activationOrder g" services n deps built] i unfolding ts by auto
  have fsts: "map fst (take i ts) = take i (activationOrder g)" using activated_prefix [of i g "activationOrder g" services] i(1) by (simp add: ts)
  have len: "i < length (activationOrder g)"
  proof -
    obtain later where "activationOrder g = map fst ts @ later" using activated_nodes unfolding ts by blast
    then have "length ts \<le> length (activationOrder g)" by simp
    with i(1) show ?thesis by simp
  qed
  have dist: "distinct (activationOrder g)" using ids by (auto simp: activationOrder_def inScope_def distinct_map)
  have "n \<in> set (activationOrder g)" using at(1) len nth_mem by blast
  then have n: "n \<in> set (pg_nodes g)" by (auto simp: activationOrder_def inScope_def)
  note checked = resolved_graph(4) [OF res n key]
  have dep: "deps key = (case ?ctx key of Some v \<Rightarrow> Some v | None \<Rightarrow> if key \<in> set (contributedBy (pg_nodes g)) then Some (Many []) else None)"
    using key by (simp add: at(2) dependenciesOf_def)
  show before: "source \<in> fst ` set (take i ts)" if "services key = None" "source \<in> set (sources (pg_nodes g) (pg_providers g) n key)" for source
  proof -
    from n obtain xs ys where split: "pg_nodes g = xs @ n # ys" by (auto dest: split_list)
    have "key \<notin> set external" using that(1) ext by auto
    from resolved_graph(3) [OF res split key this that(2)] have "source \<in> set xs" .
    moreover have "scopeOf n = RuntimeScope \<Longrightarrow> scopeOf source \<noteq> SessionScope"
      using checked that(2) by (auto simp: checkNeed_def Let_def list_ex_iff split: if_splits)
    ultimately have "source \<in> set (take i (activationOrder g))" by (intro activation_before [OF split ids _ _ len]) (simp_all add: at(1))
    then show ?thesis by (simp flip: fsts)
  qed
  show "deps key = Some (Many (contributedTo key (take i ts)))" if "services key = None" "key \<in> set (contributedBy (pg_nodes g))"
  proof -
    have "providerOf (pg_nodes g) (pg_providers g) key = None"
      using checked that(2) by (auto simp: checkNeed_def Let_def split: if_splits)
    moreover have False if some: "map_of (pg_providers g) key = Some p" for p
    proof -
      from resolved_graph(5) [OF res some] obtain m where "m \<in> set (pg_nodes g)" "nodeId m = p" by blast
      with calculation some show False by (auto simp: providerOf_def find_None_iff)
    qed
    ultimately have "map_of (pg_providers g) key = None" by (cases "map_of (pg_providers g) key") auto
    from context_contributed [OF this, of services "take i ts"] that(1)
    have "(case ?ctx key of None \<Rightarrow> Many [] | Some v \<Rightarrow> v) = Many (contributedTo key (take i ts))" by (simp add: asArray_def)
    with dep that(2) show ?thesis by (auto split: option.splits)
  qed
  show provided: "\<exists>d b. (m, d, b) \<in> set (take i ts) \<and> deps key = b key \<and> b key \<noteq> None"
    if free: "services key = None" and prov: "providerOf (pg_nodes g) (pg_providers g) key = Some m" for m
  proof -
    have cap: "key \<notin> set (contributedBy (pg_nodes g))" using checked prov by (auto simp: checkNeed_def Let_def split: if_splits)
    have mem: "m \<in> set (pg_nodes g)" "map_of (pg_providers g) key = Some (nodeId m)" using prov by (auto simp: providerOf_def dest!: find_SomeD)
    from resolved_graph(5) [OF res mem(2)] by_id [OF ids mem(1)] have keyed: "key \<in> set (provides m)" by metis
    have "m \<in> fst ` set (take i ts)" by (rule before [OF free]) (simp add: sources_def cap prov)
    then obtain d b where e: "(m, d, b) \<in> set (take i ts)" by force
    then obtain j where j: "j < length ts" "ts ! j = (m, d, b)" by (meson in_set_conv_nth in_set_takeD)
    have "buildNode g (contextAfter g services (take j ts)) m = Inr b"
      using activated_nth [of j g "activationOrder g" services m d b] j unfolding ts by auto
    from built_provided [OF this keyed] obtain v where v: "b key = Some v" by blast
    have "?ctx key = Some v"
    proof (rule context_provided [OF mem(2)])
      have "set (map fst (take i ts)) \<subseteq> set (pg_nodes g)"
        unfolding fsts by (auto simp: activationOrder_def inScope_def dest!: in_set_takeD)
      then show "key \<notin> set (contributedBy (map fst (take i ts)))" using cap by (auto simp: contributedBy_def)
      show "services key = Some v \<or> nodeId m \<in> nodeId ` fst ` set (take i ts)" using \<open>m \<in> fst ` set (take i ts)\<close> by blast
      show "\<forall>(m', d', b') \<in> set (take i ts). nodeId m' = nodeId m \<longrightarrow> key \<in> set (provides m') \<and> b' key = Some v"
      proof (intro ballI, clarify)
        fix m' d' b' assume e': "(m', d', b') \<in> set (take i ts)" "nodeId m' = nodeId m"
        then have "m' \<in> set (map fst (take i ts))" by force
        with \<open>set (map fst (take i ts)) \<subseteq> set (pg_nodes g)\<close> have "m' = m" using by_id [OF ids _ mem(1) e'(2)] by blast
        moreover have "distinct (map fst (take i ts))" unfolding fsts using dist by (rule distinct_take)
        ultimately have "(d', b') = (d, b)" using entry_unique e e'(1) by fast
        with v keyed \<open>m' = m\<close> show "key \<in> set (provides m') \<and> b' key = Some v" by simp
      qed
    qed
    with dep e v show ?thesis by force
  qed
  show "deps key \<noteq> None" if req: "key \<in> set (requires n)"
  proof (cases "services key = None")
    case False
    then have "?ctx key \<noteq> None" by (rule context_grows)
    with dep show ?thesis by auto
  next
    case True
    then have "key \<notin> set external" using ext by auto
    then consider "key \<in> set (contributedBy (pg_nodes g))" | m where "providerOf (pg_nodes g) (pg_providers g) key = Some m"
      using checked req by (auto simp: checkNeed_def Let_def split: if_splits)
    then show ?thesis
    proof cases
      case 1
      then show ?thesis using dep by (auto split: option.splits)
    next
      case 2
      from provided [OF True this] show ?thesis by auto
    qed
  qed
qed


text \<open>
  C11. Activation gives each plugin what it declares. When a resolved graph's runtime plugins, then its
  session plugins, are activated over services that hold every external one, each plugin that is built
  is given every service it requires; a service not from outside is exactly the one its provider
  built before, and a capability is the contributions, in the order they were built, of all the
  plugins that contribute to it, itself aside: no later plugin replaces or misses one.
\<close>
theorem activation_gives_each_plugin_what_it_needs:
  assumes "resolveGraph config plugins external = Inr g" "\<forall>k \<in> set external. services k \<noteq> None"
    and "activateGraph g RuntimeScope services = Inr ctx"
    and "ts = activated g (inScope RuntimeScope g) services @ activated g (inScope SessionScope g) ctx"
    and "i < length ts" "ts ! i = (n, deps, built)" "key \<in> set (needs n)"
  shows "(key \<in> set (requires n) \<longrightarrow> deps key \<noteq> None)
     \<and> (services key = None \<longrightarrow>
          (key \<in> set (contributedBy (pg_nodes g)) \<longrightarrow>
             deps key = Some (Many (contributedTo key (take i ts))) \<and> set (contributors (pg_nodes g) key n) \<subseteq> fst ` set (take i ts))
        \<and> (\<forall>m. providerOf (pg_nodes g) (pg_providers g) key = Some m \<longrightarrow>
             (\<exists>d b. (m, d, b) \<in> set (take i ts) \<and> deps key = b key \<and> b key \<noteq> None)))"
proof -
  have ts: "ts = activated g (activationOrder g) services"
    using activated_two [of g "inScope RuntimeScope g" services ctx] assms(3,4) by (simp add: activateGraph_def activationOrder_def)
  note given = activation_given [OF assms(1,2) ts assms(5-7)]
  have "set (contributors (pg_nodes g) key n) \<subseteq> fst ` set (take i ts)" if "services key = None" "key \<in> set (contributedBy (pg_nodes g))"
    using given(3) [OF that(1)] that(2) by (auto simp: sources_def)
  with given(1,2,4) show ?thesis by blast
qed

text \<open>A store for the runtime; per session, a tool kit over it and an agent that takes the tools.\<close>

definition samplePlugin :: "string \<Rightarrow> plugin_scope \<Rightarrow> string list \<Rightarrow> string list \<Rightarrow> string list \<Rightarrow> (nat services \<Rightarrow> nat services) \<Rightarrow> nat plugin" where
  "samplePlugin i scope req prov contr build =
     \<lparr>pl_id = i, pl_version = ''1'', pl_apiVersion = 3, pl_scope = scope, pl_requires = req, pl_provides = prov,
      pl_contributes = Some contr, pl_optional = None, pl_configure = Inr, pl_build = (\<lambda>options deps. Inr (build deps))\<rparr>"

definition samplePlugins :: "nat plugin list" where
  "samplePlugins =
     [samplePlugin ''agent'' SessionScope [''tools'', ''db''] [''loop''] [] (\<lambda>deps. [''loop'' \<mapsto> One (length (asArray (deps ''tools'')))]),
      samplePlugin ''kit'' SessionScope [''db''] [] [''tools''] (\<lambda>deps. [''tools'' \<mapsto> Many [1, 2]]),
      samplePlugin ''store'' RuntimeScope [''disk''] [''db''] [] (\<lambda>deps. [''db'' \<mapsto> One 7])]"

definition sampleConfig :: harness_config where
  "sampleConfig = \<lparr>hc_plugins = Some (map (\<lambda>i. \<lparr>pe_id = i, pe_use = i, pe_enabled = None, pe_options = None\<rparr>) [''agent'', ''kit'', ''store'']),
     hc_bindings = None, hc_system = None, hc_profiles = False\<rparr>"

definition sampleServices :: "nat services" where
  "sampleServices = [''disk'' \<mapsto> One 1]"

definition sampleGraph :: "nat plugin_graph" where
  "sampleGraph = (case resolveGraph sampleConfig samplePlugins [''disk''] of Inr g \<Rightarrow> g)"

lemma sampleGraph_resolved: "resolveGraph sampleConfig samplePlugins [''disk''] = Inr sampleGraph"
proof -
  have "(case resolveGraph sampleConfig samplePlugins [''disk''] of Inl e \<Rightarrow> False | Inr g \<Rightarrow> True)" by code_simp
  then show ?thesis by (cases "resolveGraph sampleConfig samplePlugins [''disk'']") (simp_all add: sampleGraph_def)
qed

lemma resolved_graph_builds_in_order_witness:
  "map nodeId (pg_nodes sampleGraph) = [''store'', ''kit'', ''agent''] \<and> distinct (map nodeId (pg_nodes sampleGraph))"
proof -
  have "map nodeId (pg_nodes sampleGraph) = [''store'', ''kit'', ''agent'']" by code_simp
  with resolved_graph_builds_in_order [OF sampleGraph_resolved] show ?thesis by blast
qed

definition cyclicConfig :: harness_config where
  "cyclicConfig = sampleConfig\<lparr>hc_plugins := Some [\<lparr>pe_id = ''self'', pe_use = ''self'', pe_enabled = None, pe_options = None\<rparr>]\<rparr>"

definition cyclicPlugins :: "nat plugin list" where
  "cyclicPlugins = [samplePlugin ''self'' SessionScope [''loop''] [''loop''] [] (\<lambda>deps. Map.empty)]"

lemma reported_cycle_is_real_witness:
  "resolveGraph cyclicConfig cyclicPlugins [] = Inl (DependencyCycle [''self''])
   \<and> (\<exists>nodes. each_r (resolveNode cyclicPlugins) (enabledEntries cyclicConfig) = Inr nodes \<and> ''self'' \<in> nodeId ` set nodes)"
proof -
  have "(case resolveGraph cyclicConfig cyclicPlugins [] of Inl e \<Rightarrow> e = DependencyCycle [''self''] | Inr g \<Rightarrow> False)" by code_simp
  then have cycle: "resolveGraph cyclicConfig cyclicPlugins [] = Inl (DependencyCycle [''self''])"
    by (cases "resolveGraph cyclicConfig cyclicPlugins []") simp_all
  from reported_cycle_is_real [OF this] obtain nodes where "each_r (resolveNode cyclicPlugins) (enabledEntries cyclicConfig) = Inr nodes"
    "\<forall>i \<in> set [''self'']. \<exists>n \<in> set nodes. nodeId n = i" by blast
  with cycle show ?thesis by force
qed

lemma activation_gives_each_plugin_what_it_needs_witness:
  "\<exists>ctx deps built.
     activateGraph sampleGraph RuntimeScope sampleServices = Inr ctx
     \<and> (activated sampleGraph (inScope RuntimeScope sampleGraph) sampleServices @ activated sampleGraph (inScope SessionScope sampleGraph) ctx) ! 2
         = (activationOrder sampleGraph ! 2, deps, built)
     \<and> deps ''tools'' \<noteq> None"
proof -
  let ?runtime = "activateGraph sampleGraph RuntimeScope sampleServices"
  have "(case ?runtime of Inl e \<Rightarrow> False | Inr ctx \<Rightarrow> True)" by code_simp
  then obtain ctx where ctx: "?runtime = Inr ctx" by (cases ?runtime) simp_all
  let ?ts = "activated sampleGraph (inScope RuntimeScope sampleGraph) sampleServices @ activated sampleGraph (inScope SessionScope sampleGraph) ctx"
  have "(case ?runtime of Inl e \<Rightarrow> False | Inr c \<Rightarrow>
      length (activated sampleGraph (inScope RuntimeScope sampleGraph) sampleServices @ activated sampleGraph (inScope SessionScope sampleGraph) c) = 3)"
    by code_simp
  with ctx have len: "2 < length ?ts" by simp
  obtain n deps built where at: "?ts ! 2 = (n, deps, built)" by (cases "?ts ! 2")
  have ext: "\<forall>k \<in> set [''disk'']. sampleServices k \<noteq> None" by (simp add: sampleServices_def)
  have order: "?ts = activated sampleGraph (activationOrder sampleGraph) sampleServices"
    using activated_two [of sampleGraph "inScope RuntimeScope sampleGraph" sampleServices ctx] ctx by (simp add: activateGraph_def activationOrder_def)
  from activated_nth [of 2 sampleGraph "activationOrder sampleGraph" sampleServices n deps built] len at
  have n: "n = activationOrder sampleGraph ! 2" unfolding order by simp
  have "''tools'' \<in> set (requires (activationOrder sampleGraph ! 2))" by code_simp
  then have req: "''tools'' \<in> set (requires n)" "''tools'' \<in> set (needs n)" by (simp_all add: n needs_def)
  from activation_gives_each_plugin_what_it_needs [OF sampleGraph_resolved ext ctx refl len at req(2)] req(1)
  have "deps ''tools'' \<noteq> None" by blast
  with ctx at n show ?thesis by auto
qed


end
