(* ===== verification/TurnPhase.thy ===== *)
theory TurnPhase
  imports MemoryLog Responses
begin

text \<open>
  Where a turn stands while it runs (\<open>sdk/src/turn/turn-phase.entity.functions.ts\<close>) and what
  \<open>TurnLive\<close> does with it (\<open>sdk/src/turn/turn.adapter.ts\<close>): the message is taken once, the context
  entries given before it wait for it, runs are numbered, and once the turn replied its reply and what
  memory records after it are handed to the writer for the closing commit. Each transition is atomic
  (\<open>Ref.modify\<close>), so a turn's history is a sequence of them. Encoding, the stored entry's check and
  publishing are left out; whether the writer takes what it is handed is the operation's argument.
\<close>

section \<open>The phase\<close>

record turn_context =
  tx_section :: string
  tx_version :: string
  tx_text :: string

datatype turn_phase =
    PhaseWaiting "turn_context list"
  | PhaseTaking "turn_context list"
  | PhaseTaken int bool nat
  | PhaseReplied int outcome_kind "log_entry list"

datatype reply_step = ReplyRecord int | ReplyHold "log_entry list" | ReplyNothing

datatype phase_refusal = TurnPersisted | TurnUnstarted | TurnReplied

type_synonym 'a transition = "phase_refusal + 'a \<times> turn_phase"

definition moved :: "'a \<Rightarrow> turn_phase \<Rightarrow> 'a transition" where
  "moved x p = Inr (x, p)"

fun claimPhase :: "turn_phase \<Rightarrow> unit transition" where
  "claimPhase (PhaseWaiting early) = moved () (PhaseTaking early)"
| "claimPhase _ = Inl TurnPersisted"

fun releasePhase :: "turn_phase \<Rightarrow> turn_phase" where
  "releasePhase (PhaseTaking early) = PhaseWaiting early"
| "releasePhase p = p"

fun takePhase :: "int \<Rightarrow> turn_phase \<Rightarrow> turn_context list transition" where
  "takePhase number (PhaseWaiting early) = Inl TurnUnstarted"
| "takePhase number (PhaseTaking early) = moved early (PhaseTaken number False 0)"
| "takePhase number _ = Inl TurnPersisted"

fun addContext :: "turn_context \<Rightarrow> turn_phase \<Rightarrow> turn_context list transition" where
  "addContext body (PhaseWaiting early) = moved [] (PhaseWaiting (early @ [body]))"
| "addContext body (PhaseTaking early) = moved [] (PhaseTaking (early @ [body]))"
| "addContext body p = moved [body] p"

fun sectionsDue :: "turn_phase \<Rightarrow> bool transition" where
  "sectionsDue (PhaseTaken number sectioned runs) = moved (\<not> sectioned) (PhaseTaken number True runs)"
| "sectionsDue (PhaseReplied number oc held) = moved False (PhaseReplied number oc held)"
| "sectionsDue _ = Inl TurnUnstarted"

text \<open>The turn's run id goes with every run, so a run is its number and ordinal here.\<close>

fun startRun :: "string \<Rightarrow> turn_phase \<Rightarrow> run_ref transition" where
  "startRun i (PhaseTaken number sectioned runs) =
     moved \<lparr>run_id = i, run_turn = number, run_ordinal = int runs\<rparr> (PhaseTaken number sectioned (Suc runs))"
| "startRun i (PhaseReplied number oc held) = Inl TurnReplied"
| "startRun i _ = Inl TurnUnstarted"

definition isReply :: "log_entry \<Rightarrow> bool" where
  "isReply e = (case entry_body e of TurnEnded oc r \<Rightarrow> True | _ \<Rightarrow> False)"

definition downgradeEntry :: "log_entry \<Rightarrow> log_entry" where
  "downgradeEntry e = (case entry_body e of TurnEnded oc r \<Rightarrow> e\<lparr>entry_body := TurnEnded OutFailed r\<rparr> | _ \<Rightarrow> e)"

definition downgraded :: "log_entry list \<Rightarrow> log_entry list" where
  "downgraded held = map downgradeEntry held"

definition downgrade :: "int \<Rightarrow> log_entry list \<Rightarrow> reply_step transition" where
  "downgrade number held =
     (if list_ex isReply held
      then moved (ReplyHold (downgraded held)) (PhaseReplied number OutFailed (downgraded held))
      else moved (ReplyRecord number) (PhaseReplied number OutFailed held))"

fun replyPhase :: "outcome_kind \<Rightarrow> turn_phase \<Rightarrow> reply_step transition" where
  "replyPhase oc (PhaseTaken number sectioned runs) = moved (ReplyRecord number) (PhaseReplied number oc [])"
| "replyPhase oc (PhaseReplied number before held) =
     (if oc = OutFailed \<and> before \<noteq> OutFailed then downgrade number held
      else moved ReplyNothing (PhaseReplied number before held))"
| "replyPhase oc p = moved ReplyNothing p"

definition heldWith :: "log_entry list \<Rightarrow> turn_phase \<Rightarrow> log_entry list option" where
  "heldWith entries p =
     (case p of
        PhaseReplied number oc held \<Rightarrow> Some (held @ entries)
      | _ \<Rightarrow> if list_ex isReply entries then Some entries else None)"

fun holdPhase :: "log_entry list \<Rightarrow> turn_phase \<Rightarrow> turn_phase" where
  "holdPhase entries (PhaseReplied number oc held) = PhaseReplied number oc entries"
| "holdPhase entries p = p"

fun numberOf :: "turn_phase \<Rightarrow> int option" where
  "numberOf (PhaseTaken number sectioned runs) = Some number"
| "numberOf (PhaseReplied number oc held) = Some number"
| "numberOf _ = None"

section \<open>The turn that moves it\<close>

text \<open>
  The phase with what memory's log handed the writer: the entries appended at once, and the closing
  drafts last taken. An operation that reaches the writer says whether the writer took it.
\<close>

record live_turn =
  lv_phase :: turn_phase
  lv_appended :: "log_entry list"
  lv_closing :: "log_entry list option"

datatype phase_op =
    OpClaim
  | OpRelease
  | OpTake int
  | OpContext turn_context
  | OpSections
  | OpStartRun string
  | OpReply outcome_kind bool
  | OpAppend "log_entry list" bool

datatype phase_answer =
    AnsRefused phase_refusal
  | AnsWriterFailed
  | AnsDone
  | AnsContexts "turn_context list"
  | AnsDue bool
  | AnsRun run_ref
  | AnsReply reply_step

definition applyTransition :: "('a \<Rightarrow> phase_answer) \<Rightarrow> 'a transition \<Rightarrow> live_turn \<Rightarrow> phase_answer \<times> live_turn" where
  "applyTransition ans t lv = (case t of Inl e \<Rightarrow> (AnsRefused e, lv) | Inr (x, p) \<Rightarrow> (ans x, lv\<lparr>lv_phase := p\<rparr>))"

definition holdNow :: "log_entry list \<Rightarrow> bool \<Rightarrow> phase_answer \<Rightarrow> live_turn \<Rightarrow> phase_answer \<times> live_turn" where
  "holdNow held taken answer lv =
     (if taken then (answer, lv\<lparr>lv_closing := Some held, lv_phase := holdPhase held (lv_phase lv)\<rparr>) else (AnsWriterFailed, lv))"

definition isStartedEntry :: "log_entry \<Rightarrow> bool" where
  "isStartedEntry e = (case entry_body e of TurnStarted m \<Rightarrow> True | _ \<Rightarrow> False)"

definition logAppend :: "log_entry list \<Rightarrow> bool \<Rightarrow> live_turn \<Rightarrow> phase_answer \<times> live_turn" where
  "logAppend entries taken lv =
     (if numberOf (lv_phase lv) = None \<and> \<not> list_all isStartedEntry entries then (AnsRefused TurnUnstarted, lv)
      else (case heldWith entries (lv_phase lv) of
              None \<Rightarrow> if taken then (AnsDone, lv\<lparr>lv_appended := lv_appended lv @ entries\<rparr>) else (AnsWriterFailed, lv)
            | Some held \<Rightarrow> holdNow held taken AnsDone lv))"

definition persistReply :: "outcome_kind \<Rightarrow> bool \<Rightarrow> live_turn \<Rightarrow> phase_answer \<times> live_turn" where
  "persistReply oc taken lv =
     (case applyTransition AnsReply (replyPhase oc (lv_phase lv)) lv of
        (AnsReply (ReplyHold held), lv1) \<Rightarrow> holdNow held taken (AnsReply (ReplyHold held)) lv1
      | (answer, lv1) \<Rightarrow> (answer, lv1))"

fun phaseStep :: "phase_op \<Rightarrow> live_turn \<Rightarrow> phase_answer \<times> live_turn" where
  "phaseStep OpClaim lv = applyTransition (\<lambda>u. AnsDone) (claimPhase (lv_phase lv)) lv"
| "phaseStep OpRelease lv = (AnsDone, lv\<lparr>lv_phase := releasePhase (lv_phase lv)\<rparr>)"
| "phaseStep (OpTake number) lv = applyTransition AnsContexts (takePhase number (lv_phase lv)) lv"
| "phaseStep (OpContext body) lv = applyTransition AnsContexts (addContext body (lv_phase lv)) lv"
| "phaseStep OpSections lv = applyTransition AnsDue (sectionsDue (lv_phase lv)) lv"
| "phaseStep (OpStartRun i) lv = applyTransition AnsRun (startRun i (lv_phase lv)) lv"
| "phaseStep (OpReply oc taken) lv = persistReply oc taken lv"
| "phaseStep (OpAppend entries taken) lv = logAppend entries taken lv"

fun phaseRun :: "phase_op list \<Rightarrow> live_turn \<Rightarrow> phase_answer list \<times> live_turn" where
  "phaseRun [] lv = ([], lv)"
| "phaseRun (op # ops) lv =
     (case phaseStep op lv of (answer, lv1) \<Rightarrow> (case phaseRun ops lv1 of (answers, lv2) \<Rightarrow> (answer # answers, lv2)))"

definition freshTurn :: live_turn where
  "freshTurn = \<lparr>lv_phase = PhaseWaiting [], lv_appended = [], lv_closing = None\<rparr>"

lemma phaseRun_append:
  "phaseRun (ops @ ops') lv =
     (case phaseRun ops lv of (answers, lv1) \<Rightarrow> (case phaseRun ops' lv1 of (answers', lv2) \<Rightarrow> (answers @ answers', lv2)))"
  by (induction ops arbitrary: lv) (simp_all split: prod.splits)

section \<open>What a history of operations answers\<close>

definition contextsGiven :: "phase_op list \<Rightarrow> turn_context list" where
  "contextsGiven ops = concat (map (\<lambda>op. case op of OpContext b \<Rightarrow> [b] | _ \<Rightarrow> []) ops)"

definition contextsReleased :: "phase_answer list \<Rightarrow> turn_context list" where
  "contextsReleased answers = concat (map (\<lambda>a. case a of AnsContexts bs \<Rightarrow> bs | _ \<Rightarrow> []) answers)"

definition runsStarted :: "phase_answer list \<Rightarrow> run_ref list" where
  "runsStarted answers = concat (map (\<lambda>a. case a of AnsRun r \<Rightarrow> [r] | _ \<Rightarrow> []) answers)"

definition sectionsGiven :: "phase_answer list \<Rightarrow> nat" where
  "sectionsGiven answers = length (filter (\<lambda>a. a = AnsDue True) answers)"

named_theorems phase_simps

lemma contextsGiven_snoc [phase_simps]: "contextsGiven [] = []"
  "contextsGiven (ops @ [op]) = contextsGiven ops @ (case op of OpContext b \<Rightarrow> [b] | _ \<Rightarrow> [])"
  by (simp_all add: contextsGiven_def)

lemma released_snoc [phase_simps]: "contextsReleased [] = []" "runsStarted [] = []" "sectionsGiven [] = 0"
  "contextsReleased (as @ [a]) = contextsReleased as @ (case a of AnsContexts bs \<Rightarrow> bs | _ \<Rightarrow> [])"
  "runsStarted (as @ [a]) = runsStarted as @ (case a of AnsRun r \<Rightarrow> [r] | _ \<Rightarrow> [])"
  "sectionsGiven (as @ [a]) = sectionsGiven as + (if a = AnsDue True then 1 else 0)"
  by (simp_all add: contextsReleased_def runsStarted_def sectionsGiven_def)

text \<open>The state after a history, by its phase.\<close>

definition phaseHistory :: "phase_op list \<Rightarrow> phase_answer list \<Rightarrow> live_turn \<Rightarrow> bool" where
  "phaseHistory ops answers lv \<longleftrightarrow>
     (case lv_phase lv of
        PhaseWaiting early \<Rightarrow> early = contextsGiven ops \<and> contextsReleased answers = [] \<and> runsStarted answers = [] \<and> sectionsGiven answers = 0
      | PhaseTaking early \<Rightarrow> early = contextsGiven ops \<and> contextsReleased answers = [] \<and> runsStarted answers = [] \<and> sectionsGiven answers = 0
      | PhaseTaken number sectioned runs \<Rightarrow>
          contextsReleased answers = contextsGiven ops \<and> runs = length (runsStarted answers) \<and> sectionsGiven answers = (if sectioned then 1 else 0)
          \<and> map run_ordinal (runsStarted answers) = map int [0..<runs] \<and> list_all (\<lambda>r. run_turn r = number) (runsStarted answers)
      | PhaseReplied number oc held \<Rightarrow>
          contextsReleased answers = contextsGiven ops \<and> sectionsGiven answers \<le> 1
          \<and> map run_ordinal (runsStarted answers) = map int [0..<length (runsStarted answers)]
          \<and> list_all (\<lambda>r. run_turn r = number) (runsStarted answers)
          \<and> (held \<noteq> [] \<longrightarrow> map_option (map downgradeEntry) (lv_closing lv) = Some (map downgradeEntry held)))"

lemma downgradeEntry_twice [simp]: "downgradeEntry (downgradeEntry e) = downgradeEntry e"
  by (cases e) (simp add: downgradeEntry_def split: log_body.split)

lemma downgradeEntry_id [simp]: "entry_id (downgradeEntry e) = entry_id e"
  by (simp add: downgradeEntry_def split: log_body.split)

lemma map_downgraded [simp]: "map downgradeEntry (downgraded es) = map downgradeEntry es"
  by (simp add: downgraded_def)


lemma history_step:
  assumes "phaseHistory ops answers lv" "phaseStep op lv = (answer, lv')"
  shows "phaseHistory (ops @ [op]) (answers @ [answer]) lv'"
  using assms
  by (cases op; cases "lv_phase lv")
    (auto simp: phaseHistory_def phase_simps applyTransition_def moved_def holdNow_def logAppend_def persistReply_def heldWith_def downgrade_def
      split: if_splits)

lemma history_run: "phaseRun ops freshTurn = (answers, lv) \<Longrightarrow> phaseHistory ops answers lv"
proof (induction ops arbitrary: answers lv rule: rev_induct)
  case Nil
  then show ?case by (auto simp: phaseHistory_def freshTurn_def phase_simps)
next
  case (snoc op ops)
  obtain answers1 lv1 where run: "phaseRun ops freshTurn = (answers1, lv1)" by (cases "phaseRun ops freshTurn")
  obtain answer lv2 where step: "phaseStep op lv1 = (answer, lv2)" by (cases "phaseStep op lv1")
  with snoc.prems run have "answers = answers1 @ [answer]" "lv = lv2" by (simp_all add: phaseRun_append)
  with history_step [OF snoc.IH [OF run] step] show ?case by simp
qed

text \<open>What a replied turn does with an operation: it holds what the writer takes, and moves nowhere.\<close>

definition entriesTaken :: "phase_op list \<Rightarrow> log_entry list" where
  "entriesTaken ops = concat (map (\<lambda>op. case op of OpAppend es True \<Rightarrow> es | _ \<Rightarrow> []) ops)"

definition failedLater :: "phase_op list \<Rightarrow> bool" where
  "failedLater ops \<longleftrightarrow> list_ex (\<lambda>op. case op of OpReply oc taken \<Rightarrow> oc = OutFailed | _ \<Rightarrow> False) ops"

lemma replied_step:
  assumes "lv_phase lv = PhaseReplied number oc held" "phaseStep op lv = (answer, lv')"
  shows "\<exists>held'. lv_phase lv' = PhaseReplied number (if failedLater [op] then OutFailed else oc) held'
     \<and> map downgradeEntry held' = map downgradeEntry (held @ entriesTaken [op]) \<and> lv_appended lv' = lv_appended lv
     \<and> runsStarted [answer] = []"
  using assms
  by (cases op)
    (auto simp: failedLater_def entriesTaken_def runsStarted_def applyTransition_def moved_def holdNow_def logAppend_def persistReply_def heldWith_def
      downgrade_def split: if_splits bool.splits)

lemma replied_run:
  "lv_phase lv = PhaseReplied number oc held \<Longrightarrow> phaseRun ops lv = (answers, lv') \<Longrightarrow>
   \<exists>held'. lv_phase lv' = PhaseReplied number (if failedLater ops then OutFailed else oc) held'
     \<and> map downgradeEntry held' = map downgradeEntry (held @ entriesTaken ops) \<and> lv_appended lv' = lv_appended lv \<and> runsStarted answers = []"
proof (induction ops arbitrary: lv oc held answers)
  case Nil
  then show ?case by (simp add: failedLater_def entriesTaken_def runsStarted_def)
next
  case (Cons op ops)
  obtain answer lv1 where step: "phaseStep op lv = (answer, lv1)" by (cases "phaseStep op lv")
  obtain answers1 where run: "phaseRun ops lv1 = (answers1, lv')" "answers = answer # answers1"
    using Cons.prems(2) step by (auto split: prod.splits)
  from replied_step [OF Cons.prems(1) step] obtain held1 where
    h: "lv_phase lv1 = PhaseReplied number (if failedLater [op] then OutFailed else oc) held1"
      "map downgradeEntry held1 = map downgradeEntry (held @ entriesTaken [op])" "lv_appended lv1 = lv_appended lv" "runsStarted [answer] = []" by blast
  from Cons.IH [OF h(1) run(1)] h run(2) show ?case
    by (auto simp: failedLater_def entriesTaken_def runsStarted_def split: if_splits)
qed


section \<open>The properties\<close>

text \<open>
  C22. However a turn's operations are mixed, its message is taken once and its context follows it: no
  context entry is released to be recorded before the message is taken, and from then on all of them
  are, each once, in the order they were given; its runs carry the turn's number and the ordinals 0, 1,
  2, ... without gap or repeat; its turn-tier sections are due at most once.
\<close>
theorem phase_takes_the_message_once:
  "case phaseRun ops freshTurn of (answers, lv) \<Rightarrow>
     (case numberOf (lv_phase lv) of
        None \<Rightarrow> contextsReleased answers = [] \<and> runsStarted answers = []
      | Some number \<Rightarrow> contextsReleased answers = contextsGiven ops \<and> list_all (\<lambda>r. run_turn r = number) (runsStarted answers)
          \<and> map run_ordinal (runsStarted answers) = map int [0..<length (runsStarted answers)])
     \<and> sectionsGiven answers \<le> 1"
proof (cases "phaseRun ops freshTurn")
  case (Pair answers lv)
  from history_run [OF this] Pair show ?thesis
    by (cases "lv_phase lv") (auto simp: phaseHistory_def)
qed


definition sampleReply :: log_entry where
  "sampleReply = \<lparr>entry_id = ''r:4'', entry_runId = ''r'', entry_turn = 3, entry_step = 0, entry_at = 0, entry_body = TurnEnded OutCompleted (Some ''ok'')\<rparr>"

definition sampleOps :: "phase_op list" where
  "sampleOps = [OpContext \<lparr>tx_section = ''note'', tx_version = ''1'', tx_text = ''a''\<rparr>, OpClaim, OpTake 3, OpStartRun ''r'', OpReply OutCompleted True]"


end
