(* ===== verification/SessionInstance.thy ===== *)
theory SessionInstance
  imports SessionsState "HOL-Library.Multiset"
begin

text \<open>
  What one instance of the sessions service keeps beside the store (\<open>plugin-sessions/src/sessions.adapter.ts\<close>):
  the turns it let go of, the sessions whose queued input it counts, the begins and turns it has in
  flight with the writers it holds, whether it is shutting down, and the loop that drains an inbox.
  Each cell is changed atomically (\<open>Ref.update\<close>), so a history is a sequence of the operations below;
  a begin is followed from the moment it is asked for until its scope closes, its stage kept beside
  the instance's own cells. Signals, the writers' fibers, time limits and log lines are left out.
\<close>

section \<open>Turns let go of\<close>

type_synonym let_go = "(string \<times> (int \<times> string) list) list"

text \<open>A \<open>Map\<close> in insertion order: \<open>set\<close> keeps the place of a key it has.\<close>

fun map_set :: "'k \<Rightarrow> 'v \<Rightarrow> ('k \<times> 'v) list \<Rightarrow> ('k \<times> 'v) list" where
  "map_set k v [] = [(k, v)]"
| "map_set k v ((k', v') # ps) = (if k' = k then (k, v) # ps else (k', v') # map_set k v ps)"

definition map_drop :: "'k \<Rightarrow> ('k \<times> 'v) list \<Rightarrow> ('k \<times> 'v) list" where
  "map_drop k ps = filter (\<lambda>(k', v). k' \<noteq> k) ps"

lemma map_of_set [simp]: "map_of (map_set k v ps) = (map_of ps)(k \<mapsto> v)"
  by (induction k v ps rule: map_set.induct) (auto simp: fun_eq_iff)

lemma map_of_drop [simp]: "map_of (map_drop k ps) = (map_of ps)(k := None)"
  by (induction ps) (auto simp: map_drop_def fun_eq_iff)

lemma keys_set: "set (map fst (map_set k v ps)) = insert k (set (map fst ps))"
  by (induction k v ps rule: map_set.induct) auto

lemma distinct_keys_set: "distinct (map fst ps) \<Longrightarrow> distinct (map fst (map_set k v ps))"
proof (induction k v ps rule: map_set.induct)
  case (2 k v k' v' ps)
  then show ?case using keys_set [of k v ps] by auto
qed simp

lemma all_set: "list_all P ps \<Longrightarrow> P (k, v) \<Longrightarrow> list_all P (map_set k v ps)"
  by (induction k v ps rule: map_set.induct) auto

lemma distinct_keys_drop: "distinct (map fst ps) \<Longrightarrow> distinct (map fst (map_drop k ps))"
  unfolding map_drop_def by (rule distinct_map_filter)

definition releasedOf :: "let_go \<Rightarrow> string \<Rightarrow> (int \<times> string) list" where
  "releasedOf all i = get_or_else [] (map_of all i)"

definition keepReleased :: "string \<Rightarrow> (int \<times> string \<Rightarrow> bool) \<Rightarrow> let_go \<Rightarrow> let_go" where
  "keepReleased i keep all =
     (let kept = filter keep (releasedOf all i) in if kept = [] then map_drop i all else map_set i kept all)"

definition letGo :: "string \<Rightarrow> int \<Rightarrow> string \<Rightarrow> let_go \<Rightarrow> let_go" where
  "letGo i turn runId all = map_set i (filter (\<lambda>gone. gone \<noteq> (turn, runId)) (releasedOf all i) @ [(turn, runId)]) all"

definition forgetClosed :: "string \<Rightarrow> sessions_state \<Rightarrow> let_go \<Rightarrow> let_go" where
  "forgetClosed i next_state =
     keepReleased i (\<lambda>gone. opt_exists (\<lambda>held. gone = (ot_turn held, ot_runId held)) (ss_open next_state))"

definition forgetOpened :: "string \<Rightarrow> int \<Rightarrow> string \<Rightarrow> let_go \<Rightarrow> let_go" where
  "forgetOpened i turn runId = keepReleased i (\<lambda>gone. gone \<noteq> (turn, runId))"

lemma releasedOf_keep: "releasedOf (keepReleased i keep all) j = (if j = i then filter keep (releasedOf all i) else releasedOf all j)"
  by (simp add: keepReleased_def releasedOf_def Let_def)

lemma releasedOf_letGo: "(turn, runId) \<in> set (releasedOf (letGo i turn runId all) i)"
  "j \<noteq> i \<Longrightarrow> releasedOf (letGo i turn runId all) j = releasedOf all j"
  "gone \<in> set (releasedOf all i) \<Longrightarrow> gone \<in> set (releasedOf (letGo i turn runId all) i)"
  by (simp_all add: letGo_def releasedOf_def)

section \<open>Sessions with queued input\<close>

record session_address =
  sa_id :: string
  sa_owner :: string

record known_sessions =
  kn_waiting :: "(string \<times> session_address \<times> nat) list"
  kn_quiet :: "session_address list"

definition recentQuiet :: "nat \<Rightarrow> session_address list \<Rightarrow> session_address \<Rightarrow> session_address list" where
  "recentQuiet recentSessions quiet address =
     (let kept = filter (\<lambda>seen. sa_id seen \<noteq> sa_id address) quiet @ [address] in drop (length kept - recentSessions) kept)"

definition waitsAs :: "known_sessions \<Rightarrow> session_address \<Rightarrow> bool" where
  "waitsAs kn address \<longleftrightarrow> opt_exists (\<lambda>(seen, pending). sa_owner seen = sa_owner address) (map_of (kn_waiting kn) (sa_id address))"

definition observeSession :: "nat \<Rightarrow> session_address \<Rightarrow> known_sessions \<Rightarrow> known_sessions" where
  "observeSession recentSessions address kn =
     (if waitsAs kn address then kn else kn\<lparr>kn_quiet := recentQuiet recentSessions (kn_quiet kn) address\<rparr>)"

definition queuedCount :: "sessions_state \<Rightarrow> nat" where
  "queuedCount st = length (filter (\<lambda>slot. slot_delivery slot \<noteq> None) (pendingOf st))"

definition rememberSession :: "nat \<Rightarrow> session_address \<Rightarrow> nat \<Rightarrow> known_sessions \<Rightarrow> known_sessions" where
  "rememberSession recentSessions address pending kn =
     (if pending > 0
      then \<lparr>kn_waiting = map_set (sa_id address) (address, pending) (kn_waiting kn),
            kn_quiet = filter (\<lambda>seen. sa_id seen \<noteq> sa_id address) (kn_quiet kn)\<rparr>
      else \<lparr>kn_waiting = map_drop (sa_id address) (kn_waiting kn), kn_quiet = recentQuiet recentSessions (kn_quiet kn) address\<rparr>)"

definition forgetSession :: "session_address \<Rightarrow> known_sessions \<Rightarrow> known_sessions" where
  "forgetSession address kn =
     \<lparr>kn_waiting = (if waitsAs kn address then map_drop (sa_id address) (kn_waiting kn) else kn_waiting kn),
      kn_quiet = filter (\<lambda>seen. sa_id seen \<noteq> sa_id address \<or> sa_owner seen \<noteq> sa_owner address) (kn_quiet kn)\<rparr>"

definition cachedCounts :: "known_sessions \<Rightarrow> (string \<times> nat) list" where
  "cachedCounts kn = map (\<lambda>(i, address, pending). (sa_id address, pending)) (filter (\<lambda>(i, address, pending). pending > 0) (kn_waiting kn))"

datatype known_op = KObserve session_address | KRemember session_address sessions_state | KForget session_address

fun knownStep :: "nat \<Rightarrow> known_op \<Rightarrow> known_sessions \<Rightarrow> known_sessions" where
  "knownStep recentSessions (KObserve address) kn = observeSession recentSessions address kn"
| "knownStep recentSessions (KRemember address st) kn = rememberSession recentSessions address (queuedCount st) kn"
| "knownStep recentSessions (KForget address) kn = forgetSession address kn"

definition knownRun :: "nat \<Rightarrow> known_op list \<Rightarrow> known_sessions" where
  "knownRun recentSessions ops = fold (knownStep recentSessions) ops \<lparr>kn_waiting = [], kn_quiet = []\<rparr>"

text \<open>
  What the instance should say of a session: the address and count it was last remembered with, none
  once that was zero or the session was forgotten under the same owner.
\<close>

fun lastSeen :: "known_op \<Rightarrow> (string \<Rightarrow> (session_address \<times> nat) option) \<Rightarrow> string \<Rightarrow> (session_address \<times> nat) option" where
  "lastSeen (KObserve address) seen = seen"
| "lastSeen (KRemember address st) seen = seen(sa_id address := (if queuedCount st > 0 then Some (address, queuedCount st) else None))"
| "lastSeen (KForget address) seen =
     (case seen (sa_id address) of
        None \<Rightarrow> seen
      | Some (a, n) \<Rightarrow> if sa_owner a = sa_owner address then seen(sa_id address := None) else seen)"

definition known_ok :: "nat \<Rightarrow> known_sessions \<Rightarrow> bool" where
  "known_ok recentSessions kn \<longleftrightarrow> length (kn_quiet kn) \<le> recentSessions \<and> distinct (map sa_id (kn_quiet kn))
     \<and> distinct (map fst (kn_waiting kn))
     \<and> list_all (\<lambda>(i, address, pending). sa_id address = i \<and> pending > 0) (kn_waiting kn)"

lemma recentQuiet_ok:
  "length (recentQuiet n quiet address) \<le> n" "distinct (map sa_id quiet) \<Longrightarrow> distinct (map sa_id (recentQuiet n quiet address))"
proof -
  show "length (recentQuiet n quiet address) \<le> n" by (simp add: recentQuiet_def Let_def)
  assume d: "distinct (map sa_id quiet)"
  have "distinct (map sa_id (filter (\<lambda>seen. sa_id seen \<noteq> sa_id address) quiet @ [address]))"
    using d by (auto simp: distinct_map_filter)
  then show "distinct (map sa_id (recentQuiet n quiet address))"
    unfolding recentQuiet_def Let_def drop_map [symmetric] by (rule distinct_drop)
qed

lemma known_step:
  assumes "known_ok n kn" "map_of (kn_waiting kn) = seen"
  shows "known_ok n (knownStep n op kn)" "map_of (kn_waiting (knownStep n op kn)) = lastSeen op seen"
proof -
  have quiet: "distinct (map sa_id (filter p (kn_quiet kn)))" "length (filter p (kn_quiet kn)) \<le> n" for p
    using assms(1) by (auto simp: known_ok_def intro: distinct_map_filter le_trans [OF length_filter_le])
  have waiting: "list_all (\<lambda>(i, address, pending). sa_id address = i \<and> pending > 0) (map_set i (a, m) (kn_waiting kn))"
    if "sa_id a = i" "m > 0" for i a m
    using assms(1) that by (intro all_set) (simp_all add: known_ok_def)
  have dropped: "list_all (\<lambda>(i, address, pending). sa_id address = i \<and> pending > 0) (map_drop i (kn_waiting kn))" for i
    using assms(1) by (auto simp: known_ok_def map_drop_def list_all_iff)
  show "known_ok n (knownStep n op kn)"
    using assms(1) quiet waiting dropped recentQuiet_ok(1) recentQuiet_ok(2) [of "kn_quiet kn" n]
    by (cases op) (auto simp: known_ok_def observeSession_def rememberSession_def forgetSession_def distinct_keys_set distinct_keys_drop)
  show "map_of (kn_waiting (knownStep n op kn)) = lastSeen op seen"
    using assms(2)
    by (cases op) (auto simp: observeSession_def rememberSession_def forgetSession_def waitsAs_def split: option.splits)
qed

lemma known_run:
  "known_ok n (knownRun n ops) \<and> map_of (kn_waiting (knownRun n ops)) = fold lastSeen ops Map.empty"
proof (induction ops rule: rev_induct)
  case Nil
  then show ?case by (simp add: knownRun_def known_ok_def)
next
  case (snoc op ops)
  then show ?case using known_step [of n "knownRun n ops" _ op] by (simp add: knownRun_def)
qed

text \<open>
  C25. However calls observe, refresh and forget sessions, the instance never forgets queued input it
  saw: the sessions it counts as waiting, and the counts it answers, are exactly those each session was
  last remembered with, whatever the bound on quiet sessions drops; and it keeps at most that many
  quiet ones, each once.
\<close>
theorem waiting_input_is_never_forgotten:
  "set (cachedCounts (knownRun n ops)) = {(i, k) |i a k. fold lastSeen ops Map.empty i = Some (a, k)}
   \<and> distinct (map fst (cachedCounts (knownRun n ops)))
   \<and> length (kn_quiet (knownRun n ops)) \<le> n \<and> distinct (map sa_id (kn_quiet (knownRun n ops)))"
proof -
  let ?kn = "knownRun n ops"
  from known_run [of n ops] have ok: "known_ok n ?kn" and seen: "map_of (kn_waiting ?kn) = fold lastSeen ops Map.empty" by simp_all
  have all: "filter (\<lambda>(i, address, pending). pending > 0) (kn_waiting ?kn) = kn_waiting ?kn"
    using ok by (auto simp: known_ok_def list_all_iff intro!: filter_True)
  have ids: "map (\<lambda>(i, address, pending). (sa_id address, pending)) (kn_waiting ?kn) = map (\<lambda>(i, address, pending). (i, pending)) (kn_waiting ?kn)"
    using ok by (auto simp: known_ok_def list_all_iff)
  have d: "distinct (map fst (kn_waiting ?kn))" using ok by (simp add: known_ok_def)
  have cached: "cachedCounts ?kn = map (\<lambda>(i, address, pending). (i, pending)) (kn_waiting ?kn)"
    by (simp only: cachedCounts_def all ids)
  have "set (kn_waiting ?kn) = {(i, a, k) |i a k. fold lastSeen ops Map.empty i = Some (a, k)}"
    using d seen by (auto simp: map_of_eq_Some_iff [symmetric])
  then have "set (cachedCounts ?kn) = {(i, k) |i a k. fold lastSeen ops Map.empty i = Some (a, k)}"
    unfolding cached by (force simp: image_iff)
  moreover have "map fst (cachedCounts ?kn) = map fst (kn_waiting ?kn)" by (auto simp: cached)
  ultimately show ?thesis using d ok by (simp add: known_ok_def)
qed


section \<open>Begins and turns in flight\<close>

datatype stopping = NotStopping | Refusing | Interrupting

text \<open>
  A begin: asked for, its opening committed but not handed to a writer yet, its turn held here, or
  settled (refused, cut after its commit, or its scope closed).
\<close>

datatype begin_stage =
    Beginning
  | Opened string int string
  | HeldTurn string int string
  | SettledBegin

record instance_state =
  in_released :: let_go
  in_held :: "((string \<times> int) \<times> int) list"
  in_beginning :: int
  in_writers :: "(string \<times> int) list"
  in_stopping :: stopping
  in_begins :: "begin_stage list"

datatype instance_op =
    AskBegin
  | BeginFailed nat "(string \<times> int \<times> string) option"
  | BeginOpened nat string int string
  | OpenedUnhanded nat bool
  | HandWriter nat int
  | ScopeClosed nat bool
  | RefuseBegins
  | InterruptTurns

definition beginSettled :: "instance_state \<Rightarrow> instance_state" where
  "beginSettled st = st\<lparr>in_beginning := in_beginning st - 1\<rparr>"

definition refuseIfStopping :: "instance_state \<Rightarrow> bool" where
  "refuseIfStopping st \<longleftrightarrow> in_stopping st \<noteq> NotStopping"

definition staged :: "nat \<Rightarrow> begin_stage \<Rightarrow> instance_state \<Rightarrow> instance_state" where
  "staged b stage st = st\<lparr>in_begins := (in_begins st)[b := stage]\<rparr>"

text \<open>
  The finalizer of a held turn's scope: let go of when its writer closed without storing its end, then
  no writer and no held turn of this instance.
\<close>

definition closeScope :: "string \<Rightarrow> int \<Rightarrow> string \<Rightarrow> bool \<Rightarrow> instance_state \<Rightarrow> instance_state" where
  "closeScope i turn runId ended st =
     (let gone = (if map_of (in_writers st) i = Some turn \<and> \<not> ended then letGo i turn runId (in_released st) else in_released st)
      in st\<lparr>in_released := gone, in_writers := filter (\<lambda>(j, t). j \<noteq> i \<or> t \<noteq> turn) (in_writers st),
            in_held := map_drop (i, turn) (in_held st)\<rparr>)"

text \<open>An operation is possible in its begin's stage; a turn is handed over only when none with its number is held.\<close>

fun instanceStep :: "instance_op \<Rightarrow> instance_state \<Rightarrow> instance_state option" where
  "instanceStep AskBegin st = Some (st\<lparr>in_beginning := in_beginning st + 1, in_begins := in_begins st @ [Beginning]\<rparr>)"
| "instanceStep (BeginFailed b unknown) st =
     (if b < length (in_begins st) \<and> in_begins st ! b = Beginning
      then Some (staged b SettledBegin (beginSettled (case unknown of None \<Rightarrow> st
        | Some (i, turn, runId) \<Rightarrow> st\<lparr>in_released := letGo i turn runId (in_released st)\<rparr>)))
      else None)"
| "instanceStep (BeginOpened b i turn runId) st =
     (if b < length (in_begins st) \<and> in_begins st ! b = Beginning \<and> \<not> refuseIfStopping st
      then Some (staged b (Opened i turn runId) st\<lparr>in_released := forgetOpened i turn runId (in_released st)\<rparr>)
      else None)"
| "instanceStep (OpenedUnhanded b kept) st =
     (case (if b < length (in_begins st) then in_begins st ! b else Beginning) of
        Opened i turn runId \<Rightarrow> Some (staged b SettledBegin (beginSettled
          (if kept then st else st\<lparr>in_released := letGo i turn runId (in_released st)\<rparr>)))
      | _ \<Rightarrow> None)"
| "instanceStep (HandWriter b since) st =
     (case (if b < length (in_begins st) then in_begins st ! b else Beginning) of
        Opened i turn runId \<Rightarrow>
          if map_of (in_held st) (i, turn) = None
          then Some (staged b (HeldTurn i turn runId) (st\<lparr>in_writers := map_set i turn (in_writers st),
            in_held := map_set (i, turn) since (in_held st), in_beginning := in_beginning st - 1\<rparr>))
          else None
      | _ \<Rightarrow> None)"
| "instanceStep (ScopeClosed b ended) st =
     (case (if b < length (in_begins st) then in_begins st ! b else Beginning) of
        HeldTurn i turn runId \<Rightarrow> Some (staged b SettledBegin (closeScope i turn runId ended st))
      | _ \<Rightarrow> None)"
| "instanceStep RefuseBegins st = Some (st\<lparr>in_stopping := (if in_stopping st = NotStopping then Refusing else in_stopping st)\<rparr>)"
| "instanceStep InterruptTurns st = Some (st\<lparr>in_stopping := Interrupting\<rparr>)"

definition freshInstance :: instance_state where
  "freshInstance = \<lparr>in_released = [], in_held = [], in_beginning = 0, in_writers = [], in_stopping = NotStopping, in_begins = []\<rparr>"

inductive instance_reached :: "instance_state \<Rightarrow> bool" where
  instance_fresh: "instance_reached freshInstance"
| instance_step: "instance_reached st \<Longrightarrow> instanceStep op st = Some st' \<Longrightarrow> instance_reached st'"

text \<open>What \<open>TurnActivity\<close> answers: the turns held, by when they were handed over, the begins in progress, and whether all is idle.\<close>

definition heldKeys :: "begin_stage list \<Rightarrow> (string \<times> int) list" where
  "heldKeys begins = concat (map (\<lambda>s. case s of HeldTurn i turn runId \<Rightarrow> [(i, turn)] | _ \<Rightarrow> []) begins)"

definition inProgress :: "begin_stage \<Rightarrow> bool" where
  "inProgress s = (case s of Beginning \<Rightarrow> True | Opened i turn runId \<Rightarrow> True | _ \<Rightarrow> False)"

definition idleInstance :: "instance_state \<Rightarrow> bool" where
  "idleInstance st \<longleftrightarrow> in_held st = [] \<and> in_beginning st = 0"

definition interruptible :: "instance_state \<Rightarrow> (string \<times> int) list" where
  "interruptible st =
     map fst (filter (\<lambda>((i, turn), since). map_of (in_writers st) i = Some turn) (sort_key snd (in_held st)))"

definition instance_ok :: "instance_state \<Rightarrow> bool" where
  "instance_ok st \<longleftrightarrow> in_beginning st = int (length (filter inProgress (in_begins st)))
     \<and> distinct (map fst (in_held st)) \<and> mset (map fst (in_held st)) = mset (heldKeys (in_begins st))"

lemma mset_concat_update:
  assumes "b < length xs"
  shows "mset (concat (map f (xs[b := x]))) + mset (f (xs ! b)) = mset (concat (map f xs)) + mset (f x)"
proof -
  have "mset (concat (map f xs)) = mset (concat (map f (take b xs @ xs ! b # drop (Suc b) xs)))"
    using id_take_nth_drop [OF assms] by simp
  moreover have "mset (concat (map f (xs[b := x]))) = mset (concat (map f (take b xs @ x # drop (Suc b) xs)))"
    by (simp add: upd_conv_take_nth_drop [OF assms])
  ultimately show ?thesis by (simp add: ac_simps)
qed

lemma heldKeys_update:
  "b < length begins \<Longrightarrow>
   mset (heldKeys (begins[b := s])) + mset (heldKeys [begins ! b]) = mset (heldKeys begins) + mset (heldKeys [s])"
  using mset_concat_update [of b begins] by (simp add: heldKeys_def)

lemma heldKeys_one [simp]: "heldKeys [HeldTurn i turn runId] = [(i, turn)]" "heldKeys [Opened i turn runId] = []"
  "heldKeys [Beginning] = []" "heldKeys [SettledBegin] = []"
  by (simp_all add: heldKeys_def)

lemma progress_update:
  assumes "b < length begins"
  shows "length (filter inProgress (begins[b := s])) + (if inProgress (begins ! b) then 1 else 0)
     = length (filter inProgress begins) + (if inProgress s then 1 else 0)"
proof -
  have "begins = take b begins @ begins ! b # drop (Suc b) begins" by (rule id_take_nth_drop [OF assms])
  then have "length (filter inProgress begins) = length (filter inProgress (take b begins @ begins ! b # drop (Suc b) begins))" by simp
  then show ?thesis by (simp add: upd_conv_take_nth_drop [OF assms])
qed

lemma mset_set_new: "map_of ps k = None \<Longrightarrow> mset (map fst (map_set k v ps)) = add_mset k (mset (map fst ps))"
  by (induction k v ps rule: map_set.induct) (auto split: if_splits)

lemma mset_drop_key:
  "distinct (map fst ps) \<Longrightarrow> k \<in> fst ` set ps \<Longrightarrow> add_mset k (mset (map fst (map_drop k ps))) = mset (map fst ps)"
proof (induction ps)
  case (Cons p ps)
  show ?case
  proof (cases "fst p = k")
    case True
    have "k \<notin> fst ` set ps" using True Cons.prems(1) by auto
    then have "\<forall>x \<in> set ps. fst x \<noteq> k" by force
    then have "map_drop k ps = ps" unfolding map_drop_def by (intro filter_True) auto
    with True show ?thesis by (cases p) (simp add: map_drop_def)
  next
    case False
    with Cons show ?thesis by (cases p) (auto simp: map_drop_def)
  qed
qed simp

lemma instance_step_ok:
  assumes "instance_ok st" "instanceStep op st = Some st'"
  shows "instance_ok st'"
proof -
  have held: "mset (map fst (in_held st)) = mset (heldKeys (in_begins st))" and keys: "distinct (map fst (in_held st))"
    and count: "in_beginning st = int (length (filter inProgress (in_begins st)))" using assms(1) by (simp_all add: instance_ok_def)
  have upd: "mset (heldKeys ((in_begins st)[b := s])) + mset (heldKeys [in_begins st ! b]) = mset (heldKeys (in_begins st)) + mset (heldKeys [s])"
    "length (filter inProgress ((in_begins st)[b := s])) + (if inProgress (in_begins st ! b) then 1 else 0)
     = length (filter inProgress (in_begins st)) + (if inProgress s then 1 else 0)" if "b < length (in_begins st)" for b s
    using that by (rule heldKeys_update, rule progress_update)
  show ?thesis
  proof (cases op)
    case AskBegin
    with assms show ?thesis by (auto simp: instance_ok_def heldKeys_def inProgress_def)
  next
    case (BeginFailed b unknown)
    with assms(2) have b: "b < length (in_begins st)" "in_begins st ! b = Beginning" by (auto split: if_splits)
    from BeginFailed assms(2) b have st': "in_begins st' = (in_begins st)[b := SettledBegin]" "in_held st' = in_held st"
      "in_beginning st' = in_beginning st - 1" by (auto simp: staged_def beginSettled_def split: option.splits)
    from upd [OF b(1), of SettledBegin] b held keys count show ?thesis by (simp add: instance_ok_def st' inProgress_def)
  next
    case (BeginOpened b i turn runId)
    with assms(2) have b: "b < length (in_begins st)" "in_begins st ! b = Beginning" by (auto split: if_splits)
    from BeginOpened assms(2) have st': "in_begins st' = (in_begins st)[b := Opened i turn runId]" "in_held st' = in_held st"
      "in_beginning st' = in_beginning st" by (auto simp: staged_def split: if_splits)
    from upd [OF b(1), of "Opened i turn runId"] b held keys count show ?thesis by (simp add: instance_ok_def st' inProgress_def)
  next
    case (OpenedUnhanded b kept)
    with assms(2) obtain i turn runId where b: "b < length (in_begins st)" "in_begins st ! b = Opened i turn runId"
      by (auto split: if_splits begin_stage.splits)
    from OpenedUnhanded assms(2) b have st': "in_begins st' = (in_begins st)[b := SettledBegin]" "in_held st' = in_held st"
      "in_beginning st' = in_beginning st - 1" by (auto simp: staged_def beginSettled_def)
    from upd [OF b(1), of SettledBegin] b held keys count show ?thesis by (simp add: instance_ok_def st' inProgress_def)
  next
    case (HandWriter b since)
    with assms(2) obtain i turn runId where b: "b < length (in_begins st)" "in_begins st ! b = Opened i turn runId" "map_of (in_held st) (i, turn) = None"
      by (auto split: if_splits begin_stage.splits)
    from HandWriter assms(2) b have st': "in_begins st' = (in_begins st)[b := HeldTurn i turn runId]"
      "in_held st' = map_set (i, turn) since (in_held st)" "in_beginning st' = in_beginning st - 1" by (auto simp: staged_def)
    from upd [OF b(1), of "HeldTurn i turn runId"] b held keys count mset_set_new [OF b(3)] show ?thesis
      by (simp add: instance_ok_def st' inProgress_def distinct_keys_set)
  next
    case (ScopeClosed b ended)
    with assms(2) obtain i turn runId where b: "b < length (in_begins st)" "in_begins st ! b = HeldTurn i turn runId"
      by (auto split: if_splits begin_stage.splits)
    from ScopeClosed assms(2) b have st': "in_begins st' = (in_begins st)[b := SettledBegin]" "in_held st' = map_drop (i, turn) (in_held st)"
      "in_beginning st' = in_beginning st" by (auto simp: staged_def closeScope_def Let_def)
    have "(i, turn) \<in> set (heldKeys (in_begins st))" using b nth_mem [OF b(1)] by (force simp: heldKeys_def)
    then have "(i, turn) \<in> fst ` set (in_held st)" using held by (metis image_set set_mset_mset)
    from mset_drop_key [OF keys this]
    have "add_mset (i, turn) (mset (map fst (map_drop (i, turn) (in_held st)))) = mset (heldKeys (in_begins st))" using held by simp
    also have "\<dots> = add_mset (i, turn) (mset (heldKeys ((in_begins st)[b := SettledBegin])))"
      using upd(1) [OF b(1), of SettledBegin] by (simp add: b(2))
    finally have "mset (map fst (map_drop (i, turn) (in_held st))) = mset (heldKeys ((in_begins st)[b := SettledBegin]))" by simp
    with upd(2) [OF b(1), of SettledBegin] b keys count show ?thesis
      by (simp add: instance_ok_def st' inProgress_def distinct_keys_drop)
  qed (use assms in \<open>auto simp: instance_ok_def\<close>)
qed

lemma instance_reached_ok: "instance_reached st \<Longrightarrow> instance_ok st"
proof (induction rule: instance_reached.induct)
  case instance_fresh
  then show ?case by (simp add: instance_ok_def freshInstance_def heldKeys_def)
qed (rule instance_step_ok)



definition sampleInstance :: instance_state where
  "sampleInstance = the (instanceStep (HandWriter 0 5) (the (instanceStep (BeginOpened 0 ''s'' 1 ''r'') (the (instanceStep AskBegin freshInstance)))))"

lemma sampleInstance_reached: "instance_reached sampleInstance"
proof -
  have "instanceStep AskBegin freshInstance \<noteq> None"
    "instanceStep (BeginOpened 0 ''s'' 1 ''r'') (the (instanceStep AskBegin freshInstance)) \<noteq> None"
    "instanceStep (HandWriter 0 5) (the (instanceStep (BeginOpened 0 ''s'' 1 ''r'') (the (instanceStep AskBegin freshInstance)))) \<noteq> None"
    by code_simp+
  then show ?thesis unfolding sampleInstance_def
    by (metis instance_reached.intros option.collapse)
qed


section \<open>Draining an inbox\<close>

text \<open>
  The loop of \<open>drain\<close>; one inbox turn is a function of whether it is the first and of the world: it
  fails, opens no turn, or runs one and tells whether items still wait.
\<close>

function drainLoop :: "(bool \<Rightarrow> 'w \<Rightarrow> ('e + bool option) \<times> 'w) \<Rightarrow> nat \<Rightarrow> nat \<Rightarrow> 'w \<Rightarrow> ('e + nat) \<times> 'w" where
  "drainLoop once maxTurns turns w =
     (if turns \<ge> maxTurns then (Inr turns, w)
      else (case once (turns = 0) w of
          (Inl e, w') \<Rightarrow> (Inl e, w')
        | (Inr None, w') \<Rightarrow> (Inr turns, w')
        | (Inr (Some wait), w') \<Rightarrow> if wait then drainLoop once maxTurns (turns + 1) w' else (Inr (turns + 1), w')))"
  by pat_completeness auto

termination drainLoop
  by (relation "measure (\<lambda>(once, maxTurns, turns, w). maxTurns - turns)") auto

declare drainLoop.simps [simp del]

definition drainTurns :: "(bool \<Rightarrow> 'w \<Rightarrow> ('e + bool option) \<times> 'w) \<Rightarrow> nat \<Rightarrow> 'w \<Rightarrow> ('e + nat) \<times> 'w" where
  "drainTurns once maxTurns = drainLoop once maxTurns 0"

text \<open>The same inbox turn, each call noted with whether it was the first and what it answered.\<close>

definition noting :: "(bool \<Rightarrow> 'w \<Rightarrow> ('e + bool option) \<times> 'w) \<Rightarrow> bool \<Rightarrow> 'w \<times> (bool \<times> ('e + bool option)) list \<Rightarrow> ('e + bool option) \<times> 'w \<times> (bool \<times> ('e + bool option)) list" where
  "noting once first w = (case once first (fst w) of (r, w') \<Rightarrow> (r, w', snd w @ [(first, r)]))"

definition opensTurn :: "bool \<times> ('e + bool option) \<Rightarrow> bool" where
  "opensTurn c = (case snd c of Inr (Some rest) \<Rightarrow> True | _ \<Rightarrow> False)"

definition drained :: "nat \<Rightarrow> nat \<Rightarrow> 'e + nat \<Rightarrow> (bool \<times> ('e + bool option)) list \<Rightarrow> bool" where
  "drained maxTurns turns r calls \<longleftrightarrow>
     turns + length calls \<le> maxTurns \<and> map fst calls = map (\<lambda>i. i = 0) [turns..<turns + length calls]
     \<and> list_all (\<lambda>(f, a). a = Inr (Some True)) (butlast calls)
     \<and> (case r of
          Inl e \<Rightarrow> map snd calls \<noteq> [] \<and> last (map snd calls) = Inl e
        | Inr n \<Rightarrow> n = turns + length (filter opensTurn calls)
            \<and> (n = maxTurns \<or> map snd calls \<noteq> [] \<and> last (map snd calls) \<in> {Inr None, Inr (Some False)}))"

lemma drained_stops: "drained maxTurns maxTurns (Inr maxTurns) []"
  by (simp add: drained_def)

lemma drained_one:
  assumes "turns < maxTurns"
  shows "drained maxTurns turns (Inl e) [(turns = 0, Inl e)]" "drained maxTurns turns (Inr turns) [(turns = 0, Inr None)]"
    "drained maxTurns turns (Inr (Suc turns)) [(turns = 0, Inr (Some False))]"
  using assms by (simp_all add: drained_def opensTurn_def)

lemma drained_more:
  assumes "drained maxTurns (Suc turns) r calls"
  shows "drained maxTurns turns r ((turns = 0, Inr (Some True)) # calls)"
proof -
  have "map (\<lambda>i. i = 0) [turns..<turns + Suc k] = (turns = 0) # map (\<lambda>i. i = 0) [Suc turns..<Suc turns + k]" for k
    by (subst upt_conv_Cons) (simp_all del: upt_Suc)
  with assms show ?thesis
    unfolding drained_def by (cases r) (auto simp: opensTurn_def simp del: upt_Suc)
qed

lemma drainLoop_calls:
  "turns \<le> maxTurns \<Longrightarrow> drainLoop (noting once) maxTurns turns (w, calls) = (r, w', calls') \<Longrightarrow>
   \<exists>rest. calls' = calls @ rest \<and> drained maxTurns turns r rest"
proof (induction "maxTurns - turns" arbitrary: turns w calls)
  case 0
  then have "maxTurns = turns" by simp
  with 0(3) have "r = Inr turns" "calls' = calls" by (auto simp: drainLoop.simps)
  with \<open>maxTurns = turns\<close> drained_stops show ?case by auto
next
  case (Suc k)
  then have less: "turns < maxTurns" by simp
  obtain a w1 where one: "once (turns = 0) w = (a, w1)" by fastforce
  consider e where "a = Inl e" | "a = Inr None" | "a = Inr (Some False)" | "a = Inr (Some True)" by (cases a rule: sum.exhaust; simp) (metis (full_types) not_None_eq)
  then show ?case
  proof cases
    case 4
    with Suc.prems(2) less one have "drainLoop (noting once) maxTurns (Suc turns) (w1, calls @ [(turns = 0, a)]) = (r, w', calls')"
      by (subst (asm) drainLoop.simps) (simp add: noting_def)
    with Suc.hyps(1) [of "Suc turns"] Suc.hyps(2) less obtain later where
      "calls' = (calls @ [(turns = 0, a)]) @ later" "drained maxTurns (Suc turns) r later" by fastforce
    with 4 drained_more show ?thesis by fastforce
  qed (use Suc.prems(2) less one drained_one [OF less] in \<open>auto simp: drainLoop.simps [of _ maxTurns] noting_def\<close>)
qed

text \<open>
  C26. Draining an inbox is bounded and stops when nothing is left: whatever its turns do, it asks for at
  most \<open>maxTurns\<close> turns, only the first of them as the one that may take over a held turn; it goes on
  only after a turn that left items waiting; a failure is its last turn's; otherwise it answers how
  many turns it ran, and that is the bound unless the last one found or left nothing.
\<close>
theorem drain_is_bounded:
  "case drainTurns (noting once) maxTurns (w, []) of (r, w', calls) \<Rightarrow>
     length calls \<le> maxTurns \<and> map fst calls = map (\<lambda>i. i = 0) [0..<length calls]
     \<and> list_all (\<lambda>(first, answer). answer = Inr (Some True)) (butlast calls)
     \<and> (case r of
          Inl e \<Rightarrow> map snd calls \<noteq> [] \<and> last (map snd calls) = Inl e
        | Inr n \<Rightarrow> n = length (filter opensTurn calls)
            \<and> (n = maxTurns \<or> map snd calls \<noteq> [] \<and> last (map snd calls) \<in> {Inr None, Inr (Some False)}))"
proof -
  obtain r w' calls where run: "drainTurns (noting once) maxTurns (w, []) = (r, w', calls)" by (cases "drainTurns (noting once) maxTurns (w, [])")
  then have "drainLoop (noting once) maxTurns 0 (w, []) = (r, w', calls)" by (simp add: drainTurns_def)
  from drainLoop_calls [OF _ this] have "drained maxTurns 0 r calls" by simp
  then show ?thesis unfolding run by (cases r) (simp_all add: drained_def)
qed

end
