(* ===== verification/Glob.thy ===== *)
theory Glob
  imports JsText "HOL-Library.Char_ord"
begin

text \<open>
  Glob patterns over relative paths (\<open>core/src/internal/glob.entity.functions.ts\<close>): braces expanded
  into the patterns they stand for, a pattern's segments compiled, a path matched segment by segment,
  and the test by which a walk enters a directory. A text is its code points, one \<open>char\<close> each. The
  regular expression a segment becomes is kept as its terms; what a term matches is what \<open>RegExp\<close> with
  the flag \<open>u\<close> gives it, and a class whose range runs backwards does not compile.
\<close>

section \<open>Braces\<close>

abbreviation backslash :: char where
  "backslash \<equiv> CHR 0x5C"

definition maxAlternatives :: nat where
  "maxAlternatives = 1024"

definition escapedFlags :: "string \<Rightarrow> bool list" where
  "escapedFlags chars = fst (foldl (\<lambda>(flags, pending) c. (flags @ [pending], \<not> pending \<and> c = backslash))
     ([], False) chars)"

record brace =
  b_open :: nat
  b_close :: nat
  b_commas :: "nat list"

record brace_scan =
  scan_depth :: nat
  scan_commas :: "nat list"
  scan_close :: "nat option"

definition special :: "string \<Rightarrow> nat \<Rightarrow> char \<Rightarrow> bool" where
  "special chars i c \<longleftrightarrow> i < length chars \<and> chars ! i = c \<and> \<not> escapedFlags chars ! i"

definition scanStep :: "string \<Rightarrow> nat \<Rightarrow> brace_scan \<Rightarrow> nat \<Rightarrow> brace_scan" where
  "scanStep chars from st i =
     (if i \<le> from \<or> scan_close st \<noteq> None then st
      else if special chars i (CHR ''{'') then st\<lparr>scan_depth := scan_depth st + 1\<rparr>
      else if special chars i (CHR '','') \<and> scan_depth st = 0 then st\<lparr>scan_commas := scan_commas st @ [i]\<rparr>
      else if \<not> special chars i (CHR ''}'') then st
      else if 0 < scan_depth st then st\<lparr>scan_depth := scan_depth st - 1\<rparr>
      else st\<lparr>scan_close := Some i\<rparr>)"

definition scanBrace :: "string \<Rightarrow> nat \<Rightarrow> brace_scan" where
  "scanBrace chars from = foldl (scanStep chars from)
     \<lparr>scan_depth = 0, scan_commas = [], scan_close = None\<rparr> [0..<length chars]"

definition openBraceFrom :: "string \<Rightarrow> nat \<Rightarrow> nat option" where
  "openBraceFrom chars start = find (\<lambda>i. start \<le> i \<and> special chars i (CHR ''{'')) [0..<length chars]"

lemma openBraceFrom_SomeD: "openBraceFrom chars start = Some i \<Longrightarrow> start \<le> i \<and> i < length chars \<and> special chars i (CHR ''{'')"
  by (auto simp: openBraceFrom_def find_Some_iff)

function scanFrom :: "string \<Rightarrow> nat \<Rightarrow> brace option" where
  "scanFrom chars start =
     (case openBraceFrom chars start of
        None \<Rightarrow> None
      | Some from \<Rightarrow>
          (let scan = scanBrace chars from in
           case scan_close scan of
             Some to \<Rightarrow> if scan_commas scan \<noteq> [] then Some \<lparr>b_open = from, b_close = to, b_commas = scan_commas scan\<rparr>
                        else scanFrom chars (from + 1)
           | None \<Rightarrow> scanFrom chars (from + 1)))"
  by pat_completeness auto
termination
  by (relation "measure (\<lambda>(chars, start). length chars - start)") (auto dest!: openBraceFrom_SomeD)

declare scanFrom.simps [simp del]

definition firstBrace :: "string \<Rightarrow> brace option" where
  "firstBrace chars = scanFrom chars 0"

text \<open>The first brace lies within the pattern, its commas between its ends.\<close>

lemma scanBrace_inv:
  "let scan = scanBrace chars from in
     list_all (\<lambda>i. from < i) (scan_commas scan) \<and>
     list_all (\<lambda>i. i < length chars) (scan_commas scan) \<and>
     (\<forall>to. scan_close scan = Some to \<longrightarrow> from < to \<and> to < length chars \<and> list_all (\<lambda>i. i < to) (scan_commas scan))"
proof -
  have "let scan = foldl (scanStep chars from) \<lparr>scan_depth = 0, scan_commas = [], scan_close = None\<rparr> [0..<n] in
     list_all (\<lambda>i. from < i) (scan_commas scan) \<and>
     list_all (\<lambda>i. i < n) (scan_commas scan) \<and>
     (\<forall>to. scan_close scan = Some to \<longrightarrow> from < to \<and> to < n \<and> list_all (\<lambda>i. i < to) (scan_commas scan))"
    if "n \<le> length chars" for n
    using that
  proof (induction n)
    case (Suc n)
    then show ?case
      by (auto simp: scanStep_def Let_def list_all_iff less_Suc_eq)
  qed simp
  then show ?thesis by (simp add: scanBrace_def)
qed

lemma scanFrom_bounds:
  "scanFrom chars start = Some b \<Longrightarrow>
     b_open b < b_close b \<and> b_close b < length chars \<and> b_commas b \<noteq> [] \<and>
     list_all (\<lambda>i. b_open b < i \<and> i < b_close b) (b_commas b)"
proof (induction chars start rule: scanFrom.induct)
  case (1 chars start)
  show ?case
  proof (cases "openBraceFrom chars start")
    case None
    with "1.prems" show ?thesis by (subst (asm) scanFrom.simps) simp
  next
    case (Some i)
    show ?thesis
    proof (cases "scan_close (scanBrace chars i)")
      case None
      with Some "1.prems" have "scanFrom chars (i + 1) = Some b" by (subst (asm) scanFrom.simps) simp
      with "1.IH"(1) [OF Some refl None] show ?thesis by blast
    next
      case closes: (Some to)
      show ?thesis
      proof (cases "scan_commas (scanBrace chars i) = []")
        case True
        with Some closes "1.prems" have "scanFrom chars (i + 1) = Some b" by (subst (asm) scanFrom.simps) simp
        with "1.IH"(2) [OF Some refl closes] True show ?thesis by blast
      next
        case False
        with Some closes "1.prems"
        have b: "b = \<lparr>b_open = i, b_close = to, b_commas = scan_commas (scanBrace chars i)\<rparr>"
          by (subst (asm) scanFrom.simps) simp
        show ?thesis using scanBrace_inv [of chars i] closes False
          by (simp add: b Let_def list_all_iff)
      qed
    qed
  qed
qed

lemmas firstBrace_bounds = scanFrom_bounds [of _ 0, folded firstBrace_def]

text \<open>The alternatives of a brace, and the pattern with one of them in its place.\<close>

definition braceTexts :: "string \<Rightarrow> brace \<Rightarrow> string list" where
  "braceTexts chars b =
     (let bounds = b_open b # b_commas b @ [b_close b] in
      map (\<lambda>(lo, hi). slice (lo + 1) hi chars) (zip bounds (List.tl bounds)))"

definition withAlternative :: "string \<Rightarrow> brace \<Rightarrow> string \<Rightarrow> string" where
  "withAlternative chars b alternative = take (b_open b) chars @ alternative @ drop (b_close b + 1) chars"

lemma zip_tl_bounds:
  assumes "list_all (\<lambda>i. lo \<le> i \<and> i \<le> hi) xs" and "(a, b) \<in> set (zip xs (List.tl xs))"
  shows "lo \<le> a \<and> b \<le> (hi::nat)"
proof -
  from assms(2) have "a \<in> set xs" by (rule set_zip_leftD)
  moreover have "b \<in> set xs" using set_zip_rightD [OF assms(2)] by (cases xs) auto
  ultimately show ?thesis using assms(1) by (simp add: list_all_iff)
qed

lemma withAlternative_shorter:
  assumes "firstBrace chars = Some b" and "alt \<in> set (braceTexts chars b)"
  shows "length (withAlternative chars b alt) < length chars"
proof -
  note bounds = firstBrace_bounds [OF assms(1)]
  from assms(2) obtain lo hi where
    mem: "(lo, hi) \<in> set (zip (b_open b # b_commas b @ [b_close b]) (List.tl (b_open b # b_commas b @ [b_close b])))"
    and alt: "alt = slice (lo + 1) hi chars"
    unfolding braceTexts_def Let_def by auto
  have "list_all (\<lambda>i. b_open b \<le> i \<and> i \<le> b_close b) (b_open b # b_commas b @ [b_close b])"
    using bounds by (auto simp: list_all_iff)
  from zip_tl_bounds [OF this mem] have "b_open b \<le> lo" "hi \<le> b_close b" by auto
  then have "length alt \<le> b_close b - (b_open b + 1)" by (simp add: alt length_slice)
  with bounds have "b_open b + length alt + 1 \<le> b_close b" by linarith
  with bounds have lt: "b_open b + length alt < b_close b" by linarith
  from bounds have in_range: "b_close b < length chars" by blast
  have "length (withAlternative chars b alt) = b_open b + length alt + (length chars - Suc (b_close b))"
    using bounds by (simp add: withAlternative_def)
  also have "\<dots> < length chars" using lt in_range by arith
  finally show ?thesis .
qed

function expandBraces :: "string \<Rightarrow> string list" where
  "expandBraces pattern =
     (case firstBrace pattern of
        None \<Rightarrow> [pattern]
      | Some b \<Rightarrow> foldl (\<lambda>found alternative.
          if maxAlternatives < length found then found
          else take (Suc maxAlternatives) (found @ expandBraces (withAlternative pattern b alternative)))
          [] (braceTexts pattern b))"
  by pat_completeness auto
termination
  by (relation "measure length") (auto intro: withAlternative_shorter)

declare expandBraces.simps [simp del]

text \<open>Every pattern the braces stand for, however many: what the expansion is cut from.\<close>

function bracePatterns :: "string \<Rightarrow> string list" where
  "bracePatterns pattern =
     (case firstBrace pattern of
        None \<Rightarrow> [pattern]
      | Some b \<Rightarrow> concat (map (\<lambda>alternative. bracePatterns (withAlternative pattern b alternative)) (braceTexts pattern b)))"
  by pat_completeness auto
termination
  by (relation "measure length") (auto intro: withAlternative_shorter)

declare bracePatterns.simps [simp del]

lemma foldl_capped:
  assumes "\<And>x. x \<in> set xs \<Longrightarrow> f x = take (Suc n) (g x)"
  shows "foldl (\<lambda>found x. if n < length found then found else take (Suc n) (found @ f x)) (take (Suc n) ys) xs
       = take (Suc n) (ys @ concat (map g xs))"
  using assms
proof (induction xs arbitrary: ys)
  case (Cons x xs)
  have step: "(if n < length (take (Suc n) ys) then take (Suc n) ys else take (Suc n) (take (Suc n) ys @ f x))
      = take (Suc n) (ys @ g x)"
    using Cons.prems [of x] by auto
  have IH: "foldl (\<lambda>found x. if n < length found then found else take (Suc n) (found @ f x))
      (take (Suc n) (ys @ g x)) xs = take (Suc n) ((ys @ g x) @ concat (map g xs))"
    by (rule Cons.IH) (simp add: Cons.prems)
  show ?case unfolding foldl_Cons step IH by simp
qed simp

lemma expandBraces_cut: "expandBraces pattern = take (Suc maxAlternatives) (bracePatterns pattern)"
proof (induction pattern rule: bracePatterns.induct)
  case (1 pattern)
  show ?case
  proof (cases "firstBrace pattern")
    case None
    then show ?thesis by (simp add: expandBraces.simps bracePatterns.simps maxAlternatives_def)
  next
    case (Some b)
    have "foldl (\<lambda>found alternative. if maxAlternatives < length found then found
          else take (Suc maxAlternatives) (found @ expandBraces (withAlternative pattern b alternative)))
          (take (Suc maxAlternatives) []) (braceTexts pattern b)
        = take (Suc maxAlternatives) ([] @ concat (map (\<lambda>alternative. bracePatterns (withAlternative pattern b alternative)) (braceTexts pattern b)))"
      by (rule foldl_capped) (use 1 [OF Some] in simp)
    then show ?thesis using Some
      by (simp add: expandBraces.simps [of pattern] bracePatterns.simps [of pattern])
  qed
qed

section \<open>One segment of a pattern\<close>

text \<open>
  A class's source is its atoms: a character, or the bare \<open>-\<close> the code writes for a range. A term
  of the regular expression is a character, \<open>[^/]\<close>, \<open>[^/]*\<close> or a class. \<open>rx_guard\<close> says that the
  expression starts with \<open>(?!\.)\<close>.
\<close>

datatype rx_atom = AtomChar char | AtomDash

datatype rx_term = RxChar char | RxAny | RxAnyRun | RxClass bool "rx_atom list"

record rx =
  rx_guard :: bool
  rx_terms :: "rx_term list"

fun atomPoint :: "rx_atom \<Rightarrow> nat" where
  "atomPoint (AtomChar c) = of_char c"
| "atomPoint AtomDash = of_char (CHR ''-'')"

text \<open>The ranges \<open>RegExp\<close> reads in a class, from the left; none when one runs backwards.\<close>

fun classRanges :: "rx_atom list \<Rightarrow> (nat \<times> nat) list option" where
  "classRanges (a # AtomDash # b # rest) =
     (if atomPoint a \<le> atomPoint b then map_option (Cons (atomPoint a, atomPoint b)) (classRanges rest) else None)"
| "classRanges (a # rest) = map_option (Cons (atomPoint a, atomPoint a)) (classRanges rest)"
| "classRanges [] = Some []"

definition classHas :: "rx_atom list \<Rightarrow> char \<Rightarrow> bool" where
  "classHas atoms c = (case classRanges atoms of
     None \<Rightarrow> False
   | Some ranges \<Rightarrow> list_ex (\<lambda>(lo, hi). lo \<le> of_char c \<and> of_char c \<le> hi) ranges)"

text \<open>\<open>new RegExp(source, "u")\<close> fails when a class does not compile; \<open>test\<close> matches the whole name.\<close>

fun termCompiles :: "rx_term \<Rightarrow> bool" where
  "termCompiles (RxClass negated atoms) = (classRanges atoms \<noteq> None)"
| "termCompiles _ = True"

definition newRegExp :: "rx \<Rightarrow> unit + rx" where
  "newRegExp r = (if list_all termCompiles (rx_terms r) then Inr r else Inl ())"

fun termsMatch :: "rx_term list \<Rightarrow> string \<Rightarrow> bool" where
  "termsMatch [] s = (s = [])"
| "termsMatch (RxChar c # ts) [] = False"
| "termsMatch (RxChar c # ts) (x # s) = (x = c \<and> termsMatch ts s)"
| "termsMatch (RxAny # ts) [] = False"
| "termsMatch (RxAny # ts) (x # s) = (x \<noteq> CHR ''/'' \<and> termsMatch ts s)"
| "termsMatch (RxAnyRun # ts) [] = termsMatch ts []"
| "termsMatch (RxAnyRun # ts) (x # s) = (termsMatch ts (x # s) \<or> (x \<noteq> CHR ''/'' \<and> termsMatch (RxAnyRun # ts) s))"
| "termsMatch (RxClass negated atoms # ts) [] = False"
| "termsMatch (RxClass negated atoms # ts) (x # s) = (classHas atoms x \<noteq> negated \<and> termsMatch ts s)"

definition hidden :: "string \<Rightarrow> bool" where
  "hidden name = starts_with ''.'' name"

definition rxTest :: "rx \<Rightarrow> string \<Rightarrow> bool" where
  "rxTest r name \<longleftrightarrow> \<not> (rx_guard r \<and> hidden name) \<and> termsMatch (rx_terms r) name"

record member =
  m_char :: char
  m_escaped :: bool

definition classMembers :: "string \<Rightarrow> member list" where
  "classMembers chars = fst (foldl (\<lambda>(members, escaping) c.
     if \<not> escaping \<and> c = backslash then (members, True)
     else (members @ [\<lparr>m_char = c, m_escaped = escaping\<rparr>], False)) ([], False) chars)"

definition isRange :: "member list \<Rightarrow> nat \<Rightarrow> bool" where
  "isRange members i \<longleftrightarrow> \<not> m_escaped (members ! i) \<and> m_char (members ! i) = CHR ''-'' \<and> 0 < i \<and> i + 1 < length members"

definition codePoint :: "member \<Rightarrow> nat" where
  "codePoint m = of_char (m_char m)"

definition classAtoms :: "member list \<Rightarrow> rx_atom list" where
  "classAtoms members = map (\<lambda>i. if isRange members i then AtomDash else AtomChar (m_char (members ! i))) [0..<length members]"

definition char_at :: "string \<Rightarrow> nat \<Rightarrow> char option" where
  "char_at chars i = (if i < length chars then Some (chars ! i) else None)"

text \<open>The class at \<open>from\<close> (a \<open>[\<close>) and the index of its \<open>]\<close>.\<close>

definition classAt :: "string \<Rightarrow> nat \<Rightarrow> (rx_term \<times> nat) option" where
  "classAt chars from =
     (let negated = char_at chars (from + 1) \<in> {Some (CHR ''!''), Some (CHR ''^'')};
          first = from + 1 + (if negated then 1 else 0)
      in case find (\<lambda>i. first < i \<and> chars ! i = CHR '']'' \<and> chars ! (i - 1) \<noteq> backslash) [0..<length chars] of
           None \<Rightarrow> None
         | Some to \<Rightarrow>
             (let members = classMembers (slice first to chars) in
              if list_ex (\<lambda>i. isRange members i \<and> codePoint (members ! (i + 1)) < codePoint (members ! (i - 1))) [0..<length members]
              then None
              else Some (RxClass negated (classAtoms members), to)))"

definition segmentStep :: "string \<Rightarrow> rx_term list \<times> nat \<Rightarrow> nat \<Rightarrow> rx_term list \<times> nat" where
  "segmentStep chars st i =
     (let (terms, at) = st; c = chars ! i in
      if i < at then st
      else if c = backslash then (terms @ [RxChar (case char_at chars (i + 1) of Some d \<Rightarrow> d | None \<Rightarrow> backslash)], i + 2)
      else if c = CHR ''*'' then (terms @ [RxAnyRun], i + 1)
      else if c = CHR ''?'' then (terms @ [RxAny], i + 1)
      else if c = CHR ''['' then
        (case classAt chars i of
           None \<Rightarrow> (terms @ [RxChar c], i + 1)
         | Some (cls, to) \<Rightarrow> (terms @ [cls], to + 1))
      else (terms @ [RxChar c], i + 1))"

definition segmentTerms :: "string \<Rightarrow> rx_term list" where
  "segmentTerms chars = fst (foldl (segmentStep chars) ([], 0) [0..<length chars])"

definition explicitDot :: "string \<Rightarrow> bool" where
  "explicitDot chars \<longleftrightarrow> char_at chars 0 = Some (CHR ''.'')
     \<or> (char_at chars 0 = Some backslash \<and> char_at chars 1 = Some (CHR ''.''))"

definition segmentRx :: "string \<Rightarrow> bool \<Rightarrow> rx" where
  "segmentRx segment dot = \<lparr>rx_guard = \<not> (dot \<or> explicitDot segment), rx_terms = segmentTerms segment\<rparr>"

definition segmentPattern :: "string \<Rightarrow> bool \<Rightarrow> unit + rx" where
  "segmentPattern segment dot = newRegExp (segmentRx segment dot)"

section \<open>Patterns\<close>

datatype segment = Globstar | NamePat rx

definition segmentsOf :: "string \<Rightarrow> string list" where
  "segmentsOf path = filter (\<lambda>s. 0 < length s \<and> s \<noteq> ''.'') (split_on (CHR ''/'') path)"

lemma segmentsOf_below: "segmentsOf (dir @ CHR ''/'' # rest) = segmentsOf dir @ segmentsOf rest"
  by (simp add: segmentsOf_def split_on_append_sep)

definition compileSegment :: "bool \<Rightarrow> string \<Rightarrow> unit + segment" where
  "compileSegment dot s = (if s = ''**'' then Inr Globstar else map_r NamePat (segmentPattern s dot))"

definition oneGlobstar :: "segment list \<Rightarrow> segment list" where
  "oneGlobstar ps = map ((!) ps)
     (filter (\<lambda>i. \<not> (ps ! i = Globstar \<and> 0 < i \<and> ps ! (i - 1) = Globstar)) [0..<length ps])"

definition compileOne :: "string \<Rightarrow> bool \<Rightarrow> unit + segment list" where
  "compileOne pattern dot = map_r oneGlobstar (each_r (compileSegment dot) (segmentsOf pattern))"

declare conj_cong [fundef_cong]

text \<open>Whether \<open>names\<close> from \<open>from\<close> on are matched by the pattern from \<open>at\<close> on, in full.\<close>

function matchFrom :: "segment list \<Rightarrow> nat \<Rightarrow> string list \<Rightarrow> nat \<Rightarrow> bool \<Rightarrow> bool" where
  "matchFrom pattern at names from dot =
     (if length pattern \<le> at then from = length names
      else case pattern ! at of
        Globstar \<Rightarrow> matchFrom pattern (at + 1) names from dot
          \<or> (from < length names \<and> (dot \<or> \<not> hidden (names ! from)) \<and> matchFrom pattern at names (from + 1) dot)
      | NamePat r \<Rightarrow> from < length names \<and> rxTest r (names ! from) \<and> matchFrom pattern (at + 1) names (from + 1) dot)"
  by pat_completeness auto
termination
  by (relation "measure (\<lambda>(pattern, at, names, from, dot). (length pattern - at) + (length names - from))") auto

declare matchFrom.simps [simp del]

text \<open>Whether some path below \<open>names\<close> can be matched by the pattern from \<open>at\<close> on.\<close>

function prefixFrom :: "segment list \<Rightarrow> nat \<Rightarrow> string list \<Rightarrow> nat \<Rightarrow> bool \<Rightarrow> bool" where
  "prefixFrom pattern at names from dot =
     (if length pattern \<le> at then False
      else if length names \<le> from then True
      else case pattern ! at of
        Globstar \<Rightarrow> prefixFrom pattern (at + 1) names from dot
          \<or> ((dot \<or> \<not> hidden (names ! from)) \<and> prefixFrom pattern at names (from + 1) dot)
      | NamePat r \<Rightarrow> rxTest r (names ! from) \<and> prefixFrom pattern (at + 1) names (from + 1) dot)"
  by pat_completeness auto
termination
  by (relation "measure (\<lambda>(pattern, at, names, from, dot). (length pattern - at) + (length names - from))") auto

declare prefixFrom.simps [simp del]

datatype glob_refusal = TooManyPatterns | DoesNotCompile

record glob_matcher =
  g_matches :: "string \<Rightarrow> bool"
  g_descends :: "string \<Rightarrow> bool"

definition compileGlob :: "string \<Rightarrow> bool \<Rightarrow> glob_refusal + glob_matcher" where
  "compileGlob pattern dot =
     (let expanded = expandBraces pattern in
      if maxAlternatives < length expanded then Inl TooManyPatterns
      else case each_r (\<lambda>one. compileOne one dot) expanded of
        Inl _ \<Rightarrow> Inl DoesNotCompile
      | Inr compiled \<Rightarrow> Inr
          \<lparr>g_matches = \<lambda>path. list_ex (\<lambda>segments. matchFrom segments 0 (segmentsOf path) 0 dot) compiled,
           g_descends = \<lambda>dir. list_ex (\<lambda>segments. prefixFrom segments 0 (segmentsOf dir) 0 dot) compiled\<rparr>)"

end
