(* ===== verification/GlobMatch.thy ===== *)
theory GlobMatch
  imports Glob
begin

text \<open>
  What a glob matches: every class the code writes compiles, a compiled pattern means the union of
  the patterns its braces stand for (with \<open>**\<close> said without the search, and repeated \<open>**\<close> as one),
  a walk that follows the matcher's descent reaches every match, hidden names need a literal dot, and
  an escaped name matches only itself.
\<close>

section \<open>Every pattern compiles\<close>

lemma classRanges_total:
  "(\<And>xs a b ys. atoms = xs @ a # AtomDash # b # ys \<Longrightarrow> atomPoint a \<le> atomPoint b) \<Longrightarrow> classRanges atoms \<noteq> None"
proof (induction atoms rule: classRanges.induct, goal_cases)
  case (1 a b rest)
  have "atomPoint a \<le> atomPoint b" by (rule 1(2) [of "[]"]) simp
  moreover have "classRanges rest \<noteq> None"
  proof (rule 1(1))
    show "atomPoint a \<le> atomPoint b" by fact
    fix xs c d ys assume "rest = xs @ c # AtomDash # d # ys"
    then show "atomPoint c \<le> atomPoint d" by (intro 1(2) [of "a # AtomDash # b # xs"]) simp
  qed
  ultimately show ?case by simp
next
  case (3 a c rest)
  have "classRanges (AtomChar c # rest) \<noteq> None"
  proof (rule 3(1))
    fix xs d e ys assume "AtomChar c # rest = xs @ d # AtomDash # e # ys"
    then show "atomPoint d \<le> atomPoint e" by (intro 3(2) [of "a # xs"]) simp
  qed
  then show ?case by simp
qed simp_all

lemma atomPoint_classAtoms:
  "i < length members \<Longrightarrow> atomPoint (classAtoms members ! i) = codePoint (members ! i)"
  by (auto simp: classAtoms_def isRange_def codePoint_def)

lemma classAtoms_dash: "i < length members \<Longrightarrow> classAtoms members ! i = AtomDash \<longleftrightarrow> isRange members i"
  by (auto simp: classAtoms_def)

lemma classAt_compiles: "classAt chars i = Some (cls, to) \<Longrightarrow> termCompiles cls"
proof -
  assume "classAt chars i = Some (cls, to)"
  then obtain negated members where cls: "cls = RxClass negated (classAtoms members)"
    and ordered: "\<not> list_ex (\<lambda>i. isRange members i \<and> codePoint (members ! (i + 1)) < codePoint (members ! (i - 1))) [0..<length members]"
    by (auto simp: classAt_def Let_def split: option.splits if_splits)
  have "classRanges (classAtoms members) \<noteq> None"
  proof (rule classRanges_total)
    fix xs a b ys assume eq: "classAtoms members = xs @ a # AtomDash # b # ys"
    let ?i = "length xs"
    have len: "length members = ?i + 3 + length ys"
      using arg_cong [OF eq, of length] by (simp add: classAtoms_def)
    have "classAtoms members ! Suc ?i = AtomDash" "classAtoms members ! ?i = a" "classAtoms members ! Suc (Suc ?i) = b"
      by (simp_all add: eq nth_append)
    moreover have "isRange members (Suc ?i)" using calculation(1) len by (simp add: classAtoms_dash)
    ultimately show "atomPoint a \<le> atomPoint b"
      using ordered len atomPoint_classAtoms [of ?i members] atomPoint_classAtoms [of "Suc (Suc ?i)" members]
      by (fastforce simp: list_ex_iff)
  qed
  then show ?thesis by (simp add: cls)
qed

lemma segmentTerms_compile: "list_all termCompiles (segmentTerms chars)"
  unfolding segmentTerms_def
  by (rule foldl_invariant [where P = "\<lambda>st. list_all termCompiles (fst st)"])
     (auto simp: segmentStep_def Let_def split: option.splits prod.splits dest: classAt_compiles)

lemma segmentPattern_total: "segmentPattern segment dot = Inr (segmentRx segment dot)"
  by (simp add: segmentPattern_def newRegExp_def segmentRx_def segmentTerms_compile)

definition segmentOf :: "bool \<Rightarrow> string \<Rightarrow> segment" where
  "segmentOf dot s = (if s = ''**'' then Globstar else NamePat (segmentRx s dot))"

lemma compileOne_total: "compileOne pattern dot = Inr (oneGlobstar (map (segmentOf dot) (segmentsOf pattern)))"
proof -
  have "compileSegment dot = (\<lambda>s. Inr (segmentOf dot s))"
    by (rule ext) (simp add: compileSegment_def segmentOf_def segmentPattern_total)
  then show ?thesis by (simp add: compileOne_def)
qed

section \<open>What a pattern matches\<close>

text \<open>
  A pattern's segments matched by the whole list of names, said without the search: \<open>**\<close> takes any
  number of names, none of them hidden unless \<open>dot\<close>, each other segment takes one.
\<close>

fun segmentsMatch :: "bool \<Rightarrow> segment list \<Rightarrow> string list \<Rightarrow> bool" where
  "segmentsMatch dot [] names = (names = [])"
| "segmentsMatch dot (Globstar # ps) names =
     list_ex (\<lambda>k. (dot \<or> \<not> list_ex hidden (take k names)) \<and> segmentsMatch dot ps (drop k names)) [0..<Suc (length names)]"
| "segmentsMatch dot (NamePat r # ps) names = (names \<noteq> [] \<and> rxTest r (hd names) \<and> segmentsMatch dot ps (List.tl names))"

lemma segmentsMatch_globstar:
  "segmentsMatch dot (Globstar # ps) names
   \<longleftrightarrow> (\<exists>us vs. names = us @ vs \<and> (dot \<or> \<not> list_ex hidden us) \<and> segmentsMatch dot ps vs)" (is "?l \<longleftrightarrow> ?r")
proof
  assume ?l
  then obtain k where "dot \<or> \<not> list_ex hidden (take k names)" "segmentsMatch dot ps (drop k names)"
    unfolding segmentsMatch.simps(2) list_ex_iff [of _ "[0..<_]"] by blast
  moreover have "names = take k names @ drop k names" by simp
  ultimately show ?r by blast
next
  assume ?r
  then obtain us vs where "names = us @ vs" "dot \<or> \<not> list_ex hidden us" "segmentsMatch dot ps vs" by blast
  then show ?l by (auto simp: list_ex_iff intro!: bexI [of _ "length us"])
qed

lemma segmentsMatch_globstar_step:
  "segmentsMatch dot (Globstar # ps) names \<longleftrightarrow> segmentsMatch dot ps names
     \<or> (names \<noteq> [] \<and> (dot \<or> \<not> hidden (hd names)) \<and> segmentsMatch dot (Globstar # ps) (List.tl names))" (is "?l \<longleftrightarrow> ?r")
proof
  assume ?l
  then obtain us vs where *: "names = us @ vs" "dot \<or> \<not> list_ex hidden us" "segmentsMatch dot ps vs"
    unfolding segmentsMatch_globstar by blast
  show ?r
  proof (cases us)
    case (Cons u us')
    with * have "segmentsMatch dot (Globstar # ps) (us' @ vs)" unfolding segmentsMatch_globstar by auto
    with Cons * show ?thesis by (auto simp del: segmentsMatch.simps(2))
  qed (use * in simp)
next
  assume ?r
  then show ?l
  proof
    assume "segmentsMatch dot ps names"
    then show ?l unfolding segmentsMatch_globstar by (intro exI [of _ "[]"] exI [of _ names]) simp
  next
    assume r: "names \<noteq> [] \<and> (dot \<or> \<not> hidden (hd names)) \<and> segmentsMatch dot (Globstar # ps) (List.tl names)"
    then obtain us vs where "List.tl names = us @ vs" "dot \<or> \<not> list_ex hidden us" "segmentsMatch dot ps vs"
      unfolding segmentsMatch_globstar by blast
    with r show ?l unfolding segmentsMatch_globstar
      by (intro exI [of _ "hd names # us"] exI [of _ vs]) (cases names; auto)
  qed
qed

declare segmentsMatch.simps(2) [simp del]

lemma matchFrom_segments:
  "from \<le> length names \<Longrightarrow> matchFrom pattern at names from dot = segmentsMatch dot (drop at pattern) (drop from names)"
proof (induction pattern at names "from" dot rule: matchFrom.induct)
  case (1 pattern at names i dot)
  show ?case
  proof (cases "length pattern \<le> at")
    case True
    with "1.prems" show ?thesis by (subst matchFrom.simps) auto
  next
    case False
    then have p: "drop at pattern = pattern ! at # drop (Suc at) pattern" by (simp add: Cons_nth_drop_Suc)
    have n: "drop i names = names ! i # drop (Suc i) names" if "i < length names"
      using that by (simp add: Cons_nth_drop_Suc)
    show ?thesis
    proof (cases "pattern ! at")
      case Globstar
      have "matchFrom pattern (at + 1) names i dot = segmentsMatch dot (drop (Suc at) pattern) (drop i names)"
        using "1.IH"(1) [OF False Globstar "1.prems"] by simp
      moreover have "matchFrom pattern at names (i + 1) dot = segmentsMatch dot (drop at pattern) (drop (Suc i) names)"
        if "i < length names" "dot \<or> \<not> hidden (names ! i)"
        using "1.IH"(2) [OF False Globstar] that by simp
      ultimately show ?thesis using False Globstar p n "1.prems"
        by (subst matchFrom.simps) (auto simp: segmentsMatch_globstar_step [of dot "drop (Suc at) pattern" "drop i names"])
    next
      case (NamePat r)
      have "matchFrom pattern (at + 1) names (i + 1) dot = segmentsMatch dot (drop (Suc at) pattern) (drop (Suc i) names)"
        if "i < length names" "rxTest r (names ! i)"
        using "1.IH"(3) [OF False NamePat] that by simp
      then show ?thesis using False NamePat p n "1.prems"
        by (subst matchFrom.simps) auto
    qed
  qed
qed

lemma segmentsMatch_append:
  "segmentsMatch dot (ps @ qs) names \<longleftrightarrow> (\<exists>us vs. names = us @ vs \<and> segmentsMatch dot ps us \<and> segmentsMatch dot qs vs)"
proof (induction ps arbitrary: names)
  case (Cons p ps)
  show ?case
  proof (cases p)
    case Globstar
    show ?thesis unfolding Globstar append_Cons segmentsMatch_globstar Cons.IH
      by (metis append_assoc)
  next
    case (NamePat r)
    have "(\<exists>us vs. names = us @ vs \<and> segmentsMatch dot (p # ps) us \<and> segmentsMatch dot qs vs) \<longleftrightarrow>
        (names \<noteq> [] \<and> rxTest r (hd names) \<and> (\<exists>us vs. List.tl names = us @ vs \<and> segmentsMatch dot ps us \<and> segmentsMatch dot qs vs))"
      (is "?l \<longleftrightarrow> ?r")
    proof
      assume ?l
      then obtain us vs where *: "names = us @ vs" "us \<noteq> []" "rxTest r (hd us)" "segmentsMatch dot ps (List.tl us)" "segmentsMatch dot qs vs"
        by (auto simp: NamePat)
      then have "List.tl names = List.tl us @ vs" "hd names = hd us" "names \<noteq> []" by simp_all
      with *(3-5) show ?r by (intro conjI exI [of _ "List.tl us"] exI [of _ vs]) simp_all
    next
      assume r: ?r
      then obtain us vs where "List.tl names = us @ vs" "segmentsMatch dot ps us" "segmentsMatch dot qs vs" by blast
      with r show ?l by (intro exI [of _ "hd names # us"] exI [of _ vs]) (cases names; auto simp: NamePat)
    qed
    then show ?thesis by (simp add: NamePat Cons.IH)
  qed
qed auto

lemma oneGlobstar_snoc:
  "oneGlobstar (ps @ [p]) = oneGlobstar ps @ (if p = Globstar \<and> ps \<noteq> [] \<and> last ps = Globstar then [] else [p])"
proof -
  define keep where "keep qs i \<longleftrightarrow> \<not> (qs ! i = Globstar \<and> 0 < i \<and> qs ! (i - 1) = Globstar)" for qs :: "segment list" and i
  have one: "oneGlobstar qs = map ((!) qs) (filter (keep qs) [0..<length qs])" for qs
    unfolding oneGlobstar_def keep_def ..
  have same: "filter (keep (ps @ [p])) [0..<length ps] = filter (keep ps) [0..<length ps]"
    by (rule filter_cong) (auto simp: keep_def nth_append)
  have elems: "map ((!) (ps @ [p])) (filter (keep ps) [0..<length ps]) = map ((!) ps) (filter (keep ps) [0..<length ps])"
    by (rule map_cong) (auto simp: nth_append)
  have "keep (ps @ [p]) (length ps) \<longleftrightarrow> \<not> (p = Globstar \<and> ps \<noteq> [] \<and> last ps = Globstar)"
    by (cases ps rule: rev_cases) (auto simp: keep_def nth_append)
  then show ?thesis by (simp only: one length_append_singleton upt_Suc_append [OF le0] filter_append same map_append elems)
    (simp add: nth_append)
qed

lemma segmentsMatch_globstar2: "segmentsMatch dot [Globstar, Globstar] names = segmentsMatch dot [Globstar] names"
proof -
  have "segmentsMatch dot [Globstar] names \<longleftrightarrow> dot \<or> \<not> list_ex hidden names" for names
    by (simp add: segmentsMatch_globstar)
  then have "segmentsMatch dot [Globstar, Globstar] names \<longleftrightarrow>
      (\<exists>us vs. names = us @ vs \<and> (dot \<or> \<not> list_ex hidden us) \<and> (dot \<or> \<not> list_ex hidden vs))"
    and one: "segmentsMatch dot [Globstar] names \<longleftrightarrow> dot \<or> \<not> list_ex hidden names"
    by (simp_all only: segmentsMatch_globstar [of dot "[Globstar]"])
  moreover have "(\<exists>us vs. names = us @ vs \<and> (dot \<or> \<not> list_ex hidden us) \<and> (dot \<or> \<not> list_ex hidden vs))
      \<longleftrightarrow> dot \<or> \<not> list_ex hidden names"
  proof
    assume "dot \<or> \<not> list_ex hidden names"
    then show "\<exists>us vs. names = us @ vs \<and> (dot \<or> \<not> list_ex hidden us) \<and> (dot \<or> \<not> list_ex hidden vs)"
      by (intro exI [of _ "[]"] exI [of _ names]) simp
  qed auto
  ultimately show ?thesis by blast
qed

lemma oneGlobstar_matches: "segmentsMatch dot (oneGlobstar ps) names = segmentsMatch dot ps names"
proof (induction ps arbitrary: names rule: rev_induct)
  case Nil
  then show ?case by (simp add: oneGlobstar_def)
next
  case (snoc p ps)
  show ?case
  proof (cases "p = Globstar \<and> ps \<noteq> [] \<and> last ps = Globstar")
    case True
    then have ps: "ps = butlast ps @ [Globstar]" by (metis append_butlast_last_id)
    have "segmentsMatch dot (ps @ [p]) names = segmentsMatch dot (butlast ps @ [Globstar, Globstar]) names"
      using True by (subst ps) simp
    also have "\<dots> = segmentsMatch dot (butlast ps @ [Globstar]) names"
      by (simp only: segmentsMatch_append [of _ "butlast ps"] segmentsMatch_globstar2)
    finally show ?thesis using True snoc ps by (simp add: oneGlobstar_snoc)
  next
    case False
    then have "oneGlobstar (ps @ [p]) = oneGlobstar ps @ [p]" by (auto simp: oneGlobstar_snoc)
    then show ?thesis by (simp only: segmentsMatch_append snoc)
  qed
qed

definition patternMatches :: "bool \<Rightarrow> string \<Rightarrow> string \<Rightarrow> bool" where
  "patternMatches dot pattern path = segmentsMatch dot (map (segmentOf dot) (segmentsOf pattern)) (segmentsOf path)"

lemma compileGlob_eq:
  "compileGlob pattern dot =
     (if maxAlternatives < length (bracePatterns pattern) then Inl TooManyPatterns
      else Inr \<lparr>g_matches = \<lambda>path. list_ex (\<lambda>one. patternMatches dot one path) (bracePatterns pattern),
                g_descends = \<lambda>dir. list_ex (\<lambda>one. prefixFrom (oneGlobstar (map (segmentOf dot) (segmentsOf one))) 0 (segmentsOf dir) 0 dot)
                  (bracePatterns pattern)\<rparr>)"
proof (cases "maxAlternatives < length (bracePatterns pattern)")
  case True
  then show ?thesis by (simp add: compileGlob_def expandBraces_cut)
next
  case False
  then have "expandBraces pattern = bracePatterns pattern" by (simp add: expandBraces_cut)
  with False show ?thesis
    by (simp add: compileGlob_def compileOne_total patternMatches_def list_ex_iff matchFrom_segments oneGlobstar_matches Let_def)
qed

text \<open>
  C35. What a glob means: it is refused exactly when its braces stand for more than 1024 patterns,
  which are never cut short, and for no other reason; a compiled one matches a path exactly when one
  of those patterns does, segment by segment, \<open>**\<close> standing for any number of names.
\<close>
theorem glob_is_the_union_of_its_patterns:
  "case compileGlob pattern dot of
     Inl refusal \<Rightarrow> refusal = TooManyPatterns \<and> 1024 < length (bracePatterns pattern)
   | Inr g \<Rightarrow> length (bracePatterns pattern) \<le> 1024
       \<and> (\<forall>path. g_matches g path = list_ex (\<lambda>one. patternMatches dot one path) (bracePatterns pattern))"
  by (simp add: compileGlob_eq maxAlternatives_def)

section \<open>The walk\<close>

lemma prefixFrom_of_match:
  "matchFrom pattern at (names @ below) from dot \<Longrightarrow> below \<noteq> [] \<Longrightarrow> from \<le> length names \<Longrightarrow> prefixFrom pattern at names from dot"
proof (induction pattern at "names @ below" "from" dot rule: matchFrom.induct)
  case (1 pattern at i dot)
  note m = "1.prems"(1)
  have inside: "\<not> length pattern \<le> at"
  proof
    assume "length pattern \<le> at"
    with m have "i = length (names @ below)" by (subst (asm) matchFrom.simps) simp
    with "1.prems"(2,3) show False by simp
  qed
  show ?case
  proof (cases "length names \<le> i")
    case True
    with inside show ?thesis by (subst prefixFrom.simps) simp
  next
    case False
    then have name: "(names @ below) ! i = names ! i" "i < length (names @ below)" by (simp_all add: nth_append)
    show ?thesis
    proof (cases "pattern ! at")
      case Globstar
      from m inside Globstar have "matchFrom pattern (at + 1) (names @ below) i dot
          \<or> ((dot \<or> \<not> hidden (names ! i)) \<and> matchFrom pattern at (names @ below) (i + 1) dot)"
        by (subst (asm) matchFrom.simps) (auto simp: name(1))
      then have "prefixFrom pattern (at + 1) names i dot
          \<or> ((dot \<or> \<not> hidden (names ! i)) \<and> prefixFrom pattern at names (i + 1) dot)"
      proof
        assume "matchFrom pattern (at + 1) (names @ below) i dot"
        from "1.hyps"(1) [OF inside Globstar this "1.prems"(2,3)] show ?thesis by blast
      next
        assume *: "(dot \<or> \<not> hidden (names ! i)) \<and> matchFrom pattern at (names @ below) (i + 1) dot"
        have "prefixFrom pattern at names (i + 1) dot"
          by (rule "1.hyps"(2) [OF inside Globstar]) (use * name False "1.prems"(2) in auto)
        with * show ?thesis by blast
      qed
      with inside False Globstar show ?thesis by (subst prefixFrom.simps) simp
    next
      case (NamePat r)
      from m inside NamePat have *: "rxTest r (names ! i)" "matchFrom pattern (at + 1) (names @ below) (i + 1) dot"
        by (subst (asm) matchFrom.simps; simp add: name(1))+
      have "prefixFrom pattern (at + 1) names (i + 1) dot"
        by (rule "1.hyps"(3) [OF inside NamePat]) (use * name False "1.prems"(2) in auto)
      with inside False NamePat * show ?thesis by (subst prefixFrom.simps) simp
    qed
  qed
qed

lemma descends_to_match:
  assumes compiled: "compileGlob pattern dot = Inr g"
    and matches: "g_matches g (dir @ ''/'' @ rest)"
    and below: "segmentsOf rest \<noteq> []"
  shows "g_descends g dir"
proof -
  from compiled obtain compiled where c: "each_r (\<lambda>one. compileOne one dot) (expandBraces pattern) = Inr compiled"
    and g: "g = \<lparr>g_matches = \<lambda>path. list_ex (\<lambda>segments. matchFrom segments 0 (segmentsOf path) 0 dot) compiled,
           g_descends = \<lambda>dir. list_ex (\<lambda>segments. prefixFrom segments 0 (segmentsOf dir) 0 dot) compiled\<rparr>"
    by (auto simp: compileGlob_def Let_def split: if_splits sum.splits)
  from matches obtain segments where "segments \<in> set compiled"
    "matchFrom segments 0 (segmentsOf dir @ segmentsOf rest) 0 dot"
    by (auto simp: g list_ex_iff segmentsOf_below)
  with below have "segments \<in> set compiled \<and> prefixFrom segments 0 (segmentsOf dir) 0 dot"
    by (auto intro: prefixFrom_of_match)
  then show ?thesis by (auto simp: g list_ex_iff)
qed

text \<open>
  A walk that enters only the directories the matcher descends into reaches every match: if a
  path below a directory matches, the matcher descends into that directory.
\<close>
theorem walk_reaches_every_match:
  assumes compiled: "compileGlob pattern dot = Inr g"
    and matches: "g_matches g (dir @ ''/'' @ rest)"
    and below: "segmentsOf rest \<noteq> []"
  shows "g_descends g dir"
  by (rule descends_to_match [OF assms])

theorem walk_reaches_every_match_witness:
  "g_descends (projr (compileGlob ''a/**/{x,y}.ts'' False)) ''a/b''"
proof (rule walk_reaches_every_match [where rest = "''c/y.ts''"])
  show "compileGlob ''a/**/{x,y}.ts'' False = Inr (projr (compileGlob ''a/**/{x,y}.ts'' False))"
    by (rule sum.collapse(2) [symmetric]) code_simp
  show "g_matches (projr (compileGlob ''a/**/{x,y}.ts'' False)) (''a/b'' @ ''/'' @ ''c/y.ts'')" by code_simp
  show "segmentsOf ''c/y.ts'' \<noteq> []" by code_simp
qed

section \<open>Hidden names\<close>

lemma bracePatterns_chars: "one \<in> set (bracePatterns pattern) \<Longrightarrow> set one \<subseteq> set pattern"
proof (induction pattern arbitrary: one rule: bracePatterns.induct)
  case (1 pattern)
  show ?case
  proof (cases "firstBrace pattern")
    case None
    with "1.prems" show ?thesis by (simp add: bracePatterns.simps)
  next
    case (Some b)
    with "1.prems" obtain alt where alt: "alt \<in> set (braceTexts pattern b)"
      "one \<in> set (bracePatterns (withAlternative pattern b alt))"
      by (subst (asm) bracePatterns.simps) auto
    then have "set one \<subseteq> set (withAlternative pattern b alt)" by (intro "1.IH" [OF Some])
    moreover have "set alt \<subseteq> set pattern"
      using alt(1) by (auto simp: braceTexts_def Let_def slice_def dest!: in_set_takeD in_set_dropD)
    ultimately show ?thesis
      by (auto simp: withAlternative_def dest!: in_set_takeD in_set_dropD)
  qed
qed

lemma split_on_chars: "w \<in> set (split_on c xs) \<Longrightarrow> set w \<subseteq> set xs"
proof (induction xs arbitrary: w)
  case (Cons x xs)
  obtain v vs where "split_on c xs = v # vs" by (cases "split_on c xs") auto
  with Cons show ?case by (fastforce split: if_splits)
qed simp

lemma segmentsMatch_not_hidden:
  "segmentsMatch False ps names \<Longrightarrow> list_all (\<lambda>p. case p of Globstar \<Rightarrow> True | NamePat r \<Rightarrow> rx_guard r) ps \<Longrightarrow> \<not> list_ex hidden names"
proof (induction ps arbitrary: names)
  case (Cons p ps)
  show ?case
  proof (cases p)
    case Globstar
    with Cons show ?thesis by (auto simp: segmentsMatch_globstar)
  next
    case (NamePat r)
    with Cons.prems have "names \<noteq> []" "\<not> hidden (hd names)" "segmentsMatch False ps (List.tl names)"
      by (auto simp: rxTest_def)
    with Cons NamePat show ?thesis by (cases names) auto
  qed
qed simp

text \<open>
  A glob with no dot in it, compiled without the option, matches no path with a hidden name in it:
  not through \<open>*\<close>, \<open>?\<close>, a class (\<open>[--/]\<close> holds the dot), an alternative or \<open>**\<close>.
\<close>
theorem hidden_names_need_a_dot:
  assumes compiled: "compileGlob pattern False = Inr g"
    and no_dot: "CHR ''.'' \<notin> set pattern"
    and matches: "g_matches g path"
  shows "\<not> list_ex hidden (segmentsOf path)"
proof -
  from compiled matches obtain one where one: "one \<in> set (bracePatterns pattern)" "patternMatches False one path"
    by (auto simp: compileGlob_eq list_ex_iff split: if_splits)
  have "\<not> explicitDot s" if "s \<in> set (segmentsOf one)" for s
  proof -
    from that have "set s \<subseteq> set one" by (auto simp: segmentsOf_def dest: split_on_chars)
    with bracePatterns_chars [OF one(1)] no_dot have "CHR ''.'' \<notin> set s" by blast
    then show ?thesis by (auto simp: explicitDot_def char_at_def in_set_conv_nth split: if_splits)
  qed
  then have "list_all (\<lambda>p. case p of Globstar \<Rightarrow> True | NamePat r \<Rightarrow> rx_guard r) (map (segmentOf False) (segmentsOf one))"
    by (auto simp: list_all_iff segmentOf_def segmentRx_def)
  with one(2) show ?thesis unfolding patternMatches_def by (rule segmentsMatch_not_hidden)
qed

theorem hidden_names_need_a_dot_witness: "\<not> list_ex hidden (segmentsOf ''src/a'')"
proof (rule hidden_names_need_a_dot)
  show "compileGlob ''**/?'' False = Inr (projr (compileGlob ''**/?'' False))"
    by (rule sum.collapse(2) [symmetric]) code_simp
  show "CHR ''.'' \<notin> set ''**/?''" by simp
  show "g_matches (projr (compileGlob ''**/?'' False)) ''src/a''" by code_simp
qed

section \<open>Literal names\<close>

text \<open>A name with a backslash before each character.\<close>

definition escapeName :: "string \<Rightarrow> string" where
  "escapeName name = concat (map (\<lambda>c. [backslash, c]) name)"

lemma length_escapeName [simp]: "length (escapeName name) = 2 * length name"
  by (induction name) (simp_all add: escapeName_def)

lemma escapeName_nth:
  "k < length name \<Longrightarrow> escapeName name ! (2 * k) = backslash \<and> escapeName name ! (2 * k + 1) = name ! k"
proof (induction name arbitrary: k)
  case (Cons c name)
  then show ?case by (cases k) (auto simp: escapeName_def)
qed simp

lemma escapeName_flags: "escapedFlags (escapeName name) = concat (map (\<lambda>_. [False, True]) name)"
proof -
  have "foldl (\<lambda>(flags, pending) c. (flags @ [pending], \<not> pending \<and> c = backslash)) (flags, False) (escapeName name)
      = (flags @ concat (map (\<lambda>_. [False, True]) name), False)" for flags
    by (induction name arbitrary: flags) (simp_all add: escapeName_def)
  then show ?thesis by (simp add: escapedFlags_def)
qed

lemma escapeName_no_brace: "firstBrace (escapeName name) = None"
proof -
  have "list_all2 (\<lambda>c escaped. c = backslash \<or> escaped) (escapeName name) (escapedFlags (escapeName name))"
    unfolding escapeName_flags by (induction name) (simp_all add: escapeName_def)
  then have "\<not> special (escapeName name) i (CHR ''{'')" for i
    by (auto simp: special_def dest: list_all2_nthD)
  then have "openBraceFrom (escapeName name) 0 = None" by (simp add: openBraceFrom_def find_None_iff)
  then show ?thesis by (simp add: firstBrace_def scanFrom.simps)
qed

lemma escapeName_terms: "segmentTerms (escapeName name) = map RxChar name"
proof -
  have "foldl (segmentStep (escapeName name)) ([], 0) [0..<2 * k] = (map RxChar (take k name), 2 * k)" if "k \<le> length name" for k
    using that
  proof (induction k)
    case (Suc k)
    have two: "[0..<2 * Suc k] = [0..<2 * k] @ [2 * k, 2 * k + 1]"
      using upt_Suc_append [of 0 "2 * k + 1"] upt_Suc_append [of 0 "2 * k"] by simp
    have nth: "escapeName name ! (2 * k) = backslash" "escapeName name ! Suc (2 * k) = name ! k"
      using escapeName_nth [of k name] Suc.prems by simp_all
    have IH: "foldl (segmentStep (escapeName name)) ([], 0) [0..<2 * k] = (map RxChar (take k name), 2 * k)"
      using Suc by simp
    have snoc: "map RxChar (take (Suc k) name) = map RxChar (take k name) @ [RxChar (name ! k)]"
      using Suc.prems by (simp add: take_Suc_conv_app_nth)
    show ?case unfolding two foldl_append IH snoc using Suc.prems
      by (simp add: segmentStep_def char_at_def nth)
  qed simp
  from this [of "length name"] show ?thesis by (simp add: segmentTerms_def)
qed

lemma termsMatch_chars: "termsMatch (map RxChar name) s \<longleftrightarrow> s = name"
proof (induction name arbitrary: s)
  case (Cons c name)
  then show ?case by (cases s) auto
qed simp

lemma escapeName_rx: "name \<noteq> [] \<Longrightarrow> rxTest (segmentRx (escapeName name) dot) s \<longleftrightarrow> s = name"
proof -
  assume "name \<noteq> []"
  then obtain c rest where name: "name = c # rest" by (cases name) auto
  have "explicitDot (escapeName name) \<longleftrightarrow> c = CHR ''.''"
    by (simp add: name explicitDot_def char_at_def escapeName_def)
  then have "\<not> (rx_guard (segmentRx (escapeName name) dot) \<and> hidden name)"
    by (auto simp: segmentRx_def hidden_def name)
  moreover have "termsMatch (rx_terms (segmentRx (escapeName name) dot)) s \<longleftrightarrow> s = name"
    by (simp add: segmentRx_def escapeName_terms termsMatch_chars)
  ultimately show ?thesis by (auto simp: rxTest_def)
qed

text \<open>
  Escaping is complete: the glob that puts a backslash before each character of a name compiles
  and matches that name, at the root, and nothing else, whatever the characters mean in a pattern.
\<close>
theorem escaped_name_matches_only_itself:
  assumes "name \<noteq> []" and "CHR ''/'' \<notin> set name"
  shows "\<exists>g. compileGlob (escapeName name) dot = Inr g \<and> (\<forall>path. g_matches g path \<longleftrightarrow> segmentsOf path = [name])"
proof -
  obtain c rest where name: "name = c # rest" using assms(1) by (cases name) auto
  have "CHR ''/'' \<notin> set (escapeName name)" using assms(2) by (auto simp: escapeName_def)
  then have segs: "segmentsOf (escapeName name) = [escapeName name]"
    by (simp add: segmentsOf_def split_on_id name) (simp add: escapeName_def)
  have "segmentOf dot (escapeName name) = NamePat (segmentRx (escapeName name) dot)"
    by (simp add: segmentOf_def name escapeName_def)
  then have "patternMatches dot (escapeName name) path \<longleftrightarrow> segmentsOf path = [name]" for path
    using assms(1) by (cases "segmentsOf path") (auto simp: patternMatches_def segs escapeName_rx)
  then show ?thesis
    by (simp add: compileGlob_eq bracePatterns.simps [of "escapeName name"] escapeName_no_brace maxAlternatives_def)
qed

theorem escaped_name_matches_only_itself_witness:
  "\<exists>g. compileGlob (escapeName ''[a]*{b,c}'') False = Inr g \<and> (\<forall>path. g_matches g path \<longleftrightarrow> segmentsOf path = [''[a]*{b,c}''])"
  by (rule escaped_name_matches_only_itself) simp_all

end
