(* ===== verification/FileTree.thy ===== *)
theory FileTree
  imports Glob "HOL-Library.Word" "HOL-Library.AList" "HOL-Library.List_Lexorder"
begin

text \<open>
  The in-memory file system (\<open>core/src/workspace/file-system.memory.adapter.ts\<close>, with the data of
  \<open>core/src/domain/file-system.entity.ts\<close>): a tree of nodes by absolute path, where a path leads once
  its links are followed, and each operation as one change of the tree. A text is its code points, one
  \<open>char\<close> each, written as UTF-8. The clock's reading is an argument, the same for every change one call
  makes. The tree is a \<open>Map\<close>: a list of paths and nodes in the order they were added.
\<close>

section \<open>Data\<close>

datatype fs_reason = FsNotFound | FsExists | FsIsDirectory | FsNotDirectory | FsNotEmpty | FsPermission | FsInvalid | FsIo

record fs_error =
  fs_path :: string
  fs_reason :: fs_reason
  fs_message :: string

datatype file_kind = KFile | KDirectory | KSymlink | KOther

type_synonym bytes = "8 word list"

record file_info =
  fi_path :: string
  fi_kind :: file_kind
  fi_size :: nat
  fi_mtime :: int
  fi_mode :: "nat option"

record dir_entry =
  de_name :: string
  de_kind :: file_kind

datatype node = NFile bytes int | NDirectory int | NSymlink string int

type_synonym tree = "(string \<times> node) list"

datatype content = CText string | CBytes bytes

datatype seed = SeedContent content | SeedLink string

fun nodeKind :: "node \<Rightarrow> file_kind" where
  "nodeKind (NFile _ _) = KFile"
| "nodeKind (NDirectory _) = KDirectory"
| "nodeKind (NSymlink _ _) = KSymlink"

fun mtimeOf :: "node \<Rightarrow> int" where
  "mtimeOf (NFile _ time) = time"
| "mtimeOf (NDirectory time) = time"
| "mtimeOf (NSymlink _ time) = time"

fun touched :: "int \<Rightarrow> node \<Rightarrow> node" where
  "touched now (NFile b _) = NFile b now"
| "touched now (NDirectory _) = NDirectory now"
| "touched now (NSymlink target _) = NSymlink target now"

abbreviation isDirectory :: "node \<Rightarrow> bool" where
  "isDirectory n \<equiv> nodeKind n = KDirectory"

text \<open>\<open>TextEncoder\<close>, for code points below 256.\<close>

definition utf8Char :: "char \<Rightarrow> bytes" where
  "utf8Char c = (let n = of_char c :: nat in if n < 128 then [of_nat n] else [of_nat (192 + n div 64), of_nat (128 + n mod 64)])"

definition utf8 :: "string \<Rightarrow> bytes" where
  "utf8 text = concat (map utf8Char text)"

fun bytesOf :: "content \<Rightarrow> bytes" where
  "bytesOf (CText text) = utf8 text"
| "bytesOf (CBytes b) = b"

fun sizeOf :: "node \<Rightarrow> nat" where
  "sizeOf (NFile b _) = length b"
| "sizeOf (NSymlink target _) = length (utf8 target)"
| "sizeOf (NDirectory _) = 0"

section \<open>Paths\<close>

definition maxHops :: nat where
  "maxHops = 40"

definition fsFail :: "string \<Rightarrow> fs_reason \<Rightarrow> string \<Rightarrow> fs_error" where
  "fsFail path reason message = \<lparr>fs_path = path, fs_reason = reason, fs_message = message\<rparr>"

text \<open>\<open>lastIndexOf\<close>; none for -1.\<close>

definition last_index_of :: "'a \<Rightarrow> 'a list \<Rightarrow> nat option" where
  "last_index_of c xs = find (\<lambda>i. xs ! i = c) (rev [0..<length xs])"

definition parentOf :: "string \<Rightarrow> string" where
  "parentOf path = (case last_index_of (CHR ''/'') path of
     None \<Rightarrow> ''/''
   | Some at \<Rightarrow> if at = 0 then ''/'' else JsText.slice 0 at path)"

definition joinPath :: "string \<Rightarrow> string \<Rightarrow> string" where
  "joinPath dir name = (if dir = ''/'' then ''/'' @ name else dir @ ''/'' @ name)"

definition endsInDots :: "string \<Rightarrow> bool" where
  "endsInDots path = (case filter (\<lambda>s. 0 < length s) (split_on (CHR ''/'') path) of
     [] \<Rightarrow> False
   | names \<Rightarrow> last names = ''.'' \<or> last names = ''..'')"

definition writtenParent :: "string \<Rightarrow> string" where
  "writtenParent path = parentOf (''/'' @ join ''/'' (segmentsOf path))"

definition withNode :: "tree \<Rightarrow> string \<Rightarrow> node \<Rightarrow> tree" where
  "withNode t path n = AList.update path n t"

definition belowPrefix :: "string \<Rightarrow> string" where
  "belowPrefix dir = (if dir = ''/'' then ''/'' else dir @ ''/'')"

definition inside :: "tree \<Rightarrow> string \<Rightarrow> string list" where
  "inside t dir = filter (\<lambda>key. starts_with (belowPrefix dir) key \<and> key \<noteq> dir) (map fst t)"

text \<open>Where \<open>asked\<close> leads.\<close>

function resolveStep :: "tree \<Rightarrow> string \<Rightarrow> bool \<Rightarrow> string \<Rightarrow> string list \<Rightarrow> nat \<Rightarrow> fs_error + string" where
  "resolveStep t asked followLast current [] hops = Inr current"
| "resolveStep t asked followLast current (name # rest) hops =
     (if name = ''..'' then resolveStep t asked followLast (parentOf current) rest hops
      else
        (let place = joinPath current name in
         case map_of t place of
           None \<Rightarrow>
             if rest = [] then Inr place
             else Inl (fsFail asked FsNotFound (''no such file or directory: '' @ place))
         | Some (NSymlink target time) \<Rightarrow>
             if rest \<noteq> [] \<or> followLast then
               (if maxHops \<le> hops then Inl (fsFail asked FsInvalid ''too many levels of symbolic links'')
                else resolveStep t asked followLast ''/''
                  (segmentsOf (if starts_with ''/'' target then target else joinPath current target) @ rest) (hops + 1))
             else resolveStep t asked followLast place rest hops
         | Some (NFile b time) \<Rightarrow>
             if rest \<noteq> [] then Inl (fsFail asked FsNotDirectory (''not a directory: '' @ place))
             else resolveStep t asked followLast place rest hops
         | Some (NDirectory time) \<Rightarrow> resolveStep t asked followLast place rest hops))"
  by pat_completeness auto
termination
  by (relation "measures [\<lambda>(t, asked, follow, current, rest, hops). maxHops - hops,
    \<lambda>(t, asked, follow, current, rest, hops). length rest]") auto

definition resolveIn :: "tree \<Rightarrow> string \<Rightarrow> bool \<Rightarrow> fs_error + string" where
  "resolveIn t asked followLast =
     (if \<not> starts_with ''/'' asked then Inl (fsFail asked FsInvalid ''paths must be absolute'')
      else resolveStep t asked followLast ''/'' (segmentsOf asked) 0)"

section \<open>Reading\<close>

definition nodeAt :: "tree \<Rightarrow> string \<Rightarrow> bool \<Rightarrow> fs_error + (string \<times> node)" where
  "nodeAt t asked followLast = and_then (resolveIn t asked followLast) (\<lambda>real.
     case map_of t real of
       None \<Rightarrow> Inl (fsFail asked FsNotFound (''no such file or directory: '' @ asked))
     | Some n \<Rightarrow> Inr (real, n))"

definition fileAt :: "tree \<Rightarrow> string \<Rightarrow> fs_error + bytes" where
  "fileAt t asked = and_then (nodeAt t asked True) (\<lambda>(real, n).
     case n of NFile b _ \<Rightarrow> Inr b | _ \<Rightarrow> Inl (fsFail asked FsIsDirectory (''is a directory: '' @ asked)))"

definition listDir :: "tree \<Rightarrow> string \<Rightarrow> fs_error + dir_entry list" where
  "listDir t asked = and_then (nodeAt t asked True) (\<lambda>(real, n).
     if \<not> isDirectory n then Inl (fsFail asked FsNotDirectory (''not a directory: '' @ asked))
     else Inr (sort_key de_name (map (\<lambda>key.
       \<lparr>de_name = (case last_index_of (CHR ''/'') key of None \<Rightarrow> key | Some at \<Rightarrow> drop (at + 1) key),
        de_kind = (case map_of t key of None \<Rightarrow> KFile | Some m \<Rightarrow> nodeKind m)\<rparr>)
       (filter (\<lambda>key. parentOf key = real) (inside t real)))))"

record read_range =
  rr_offset :: "int option"
  rr_length :: "int option"

definition rangeText :: "read_range \<Rightarrow> string" where
  "rangeText interval = ''{'' @ join '','' (
     (case rr_offset interval of None \<Rightarrow> [] | Some n \<Rightarrow> [''\"offset\":'' @ dec n]) @
     (case rr_length interval of None \<Rightarrow> [] | Some n \<Rightarrow> [''\"length\":'' @ dec n])) @ ''}''"

definition readBytes :: "tree \<Rightarrow> string \<Rightarrow> read_range \<Rightarrow> fs_error + bytes" where
  "readBytes t asked interval =
     (let offset = (case rr_offset interval of None \<Rightarrow> 0 | Some n \<Rightarrow> n) in
      if 0 \<le> offset \<and> (case rr_length interval of None \<Rightarrow> True | Some n \<Rightarrow> 0 \<le> n)
      then map_r (\<lambda>b. case rr_length interval of
             None \<Rightarrow> drop (nat offset) b
           | Some n \<Rightarrow> JsText.slice (nat offset) (nat (offset + n)) b) (fileAt t asked)
      else Inl (fsFail asked FsInvalid (''offset and length must be whole numbers of at least 0, not '' @ rangeText interval)))"

definition statAt :: "tree \<Rightarrow> string \<Rightarrow> bool \<Rightarrow> fs_error + file_info" where
  "statAt t asked followSymlinks = map_r (\<lambda>(real, n).
     \<lparr>fi_path = asked, fi_kind = nodeKind n, fi_size = sizeOf n, fi_mtime = mtimeOf n, fi_mode = None\<rparr>)
     (nodeAt t asked followSymlinks)"

definition existsAt :: "tree \<Rightarrow> string \<Rightarrow> fs_error + bool" where
  "existsAt t asked = (case nodeAt t asked True of
     Inl e \<Rightarrow> if fs_reason e = FsNotFound \<or> fs_reason e = FsNotDirectory then Inr False else Inl e
   | Inr _ \<Rightarrow> Inr True)"

definition realPath :: "tree \<Rightarrow> string \<Rightarrow> fs_error + string" where
  "realPath t asked = map_r fst (nodeAt t asked True)"

section \<open>Changes\<close>

text \<open>A change: what it answers, and the tree after it.\<close>

type_synonym 'a change = "(fs_error + 'a) \<times> tree"

definition refused :: "tree \<Rightarrow> fs_error \<Rightarrow> 'a change" where
  "refused t e = (Inl e, t)"

text \<open>One step of \<open>mkdir -p\<close>: whether the directory stands, or its parents are missing.\<close>

definition makeStep :: "int \<Rightarrow> tree \<Rightarrow> string \<Rightarrow> bool \<Rightarrow> bool change" where
  "makeStep now t asked retried =
     (case resolveIn t asked False of
        Inl e \<Rightarrow> if fs_reason e = FsNotFound \<and> \<not> retried then (Inr False, t) else refused t e
      | Inr place \<Rightarrow>
          (case map_of t place of
             None \<Rightarrow> (Inr True, withNode t place (NDirectory now))
           | Some (NDirectory _) \<Rightarrow> (Inr True, t)
           | Some (NFile _ _) \<Rightarrow> refused t (fsFail asked FsExists (''exists and is not a directory: '' @ asked))
           | Some (NSymlink _ _) \<Rightarrow>
               (case nodeAt t place True of
                  Inl e \<Rightarrow> refused t (fsFail asked (fs_reason e)
                    (if fs_reason e = FsNotFound then ''a symbolic link to a missing directory: '' @ asked else fs_message e))
                | Inr (_, target) \<Rightarrow>
                    if isDirectory target then (Inr True, t)
                    else refused t (fsFail asked FsExists (''exists and is not a directory: '' @ asked)))))"

lemma filter_segments_id: "list_all (\<lambda>s. 0 < length s \<and> s \<noteq> ''.'') ns \<Longrightarrow> filter (\<lambda>s. 0 < length s \<and> s \<noteq> ''.'') ns = ns"
  by (induction ns) auto

lemma segmentsOf_good: "list_all (\<lambda>s. 0 < length s \<and> s \<noteq> ''.'' \<and> CHR ''/'' \<notin> set s) (segmentsOf path)"
  by (auto simp: segmentsOf_def list_all_iff dest: split_on_no_sep)

lemma segmentsOf_join:
  "list_all (\<lambda>s. 0 < length s \<and> s \<noteq> ''.'' \<and> CHR ''/'' \<notin> set s) ns \<Longrightarrow> segmentsOf (''/'' @ join ''/'' ns) = ns"
proof (cases "ns = []")
  case True
  then show ?thesis by (simp add: segmentsOf_def)
next
  case False
  assume good: "list_all (\<lambda>s. 0 < length s \<and> s \<noteq> ''.'' \<and> CHR ''/'' \<notin> set s) ns"
  with False have "split_on (CHR ''/'') (join ''/'' ns) = ns"
    by (intro split_on_join) (auto simp: list_all_iff)
  moreover have "filter (\<lambda>s. 0 < length s \<and> s \<noteq> ''.'') ns = ns"
    using good by (intro filter_segments_id) (auto simp: list_all_iff)
  ultimately show ?thesis by (simp add: segmentsOf_def)
qed

lemma last_index_of_append: "c \<notin> set ys \<Longrightarrow> last_index_of c (xs @ c # ys) = Some (length xs)"
proof -
  assume no: "c \<notin> set ys"
  define zs where "zs = xs @ c # ys"
  have "rev [0..<length zs] = rev [Suc (length xs)..<length zs] @ length xs # rev [0..<length xs]"
    using upt_add_eq_append [of 0 "Suc (length xs)" "length ys"] by (simp add: zs_def del: upt_Suc) simp
  moreover have "find (\<lambda>i. zs ! i = c) (rev [Suc (length xs)..<length zs]) = None"
    using no by (auto simp: zs_def find_None_iff nth_append nth_Cons split: nat.splits)
  moreover have "zs ! length xs = c" by (simp add: zs_def)
  ultimately show ?thesis unfolding last_index_of_def zs_def [symmetric] by (simp add: find_append)
qed

lemma parentOf_append: "CHR ''/'' \<notin> set name \<Longrightarrow> parentOf (dir @ ''/'' @ name) = (if dir = [] then ''/'' else dir)"
  using last_index_of_append [of "CHR ''/''" name dir] by (simp add: parentOf_def JsText.slice_def)

lemma join_snoc: "join sep (ns @ [n]) = (if ns = [] then n else join sep ns @ sep @ n)"
  by (induction ns rule: induct_list012) auto

lemma segmentsOf_writtenParent: "segmentsOf (writtenParent path) = butlast (segmentsOf path)"
proof (cases "segmentsOf path" rule: rev_cases)
  case Nil
  then show ?thesis by (simp add: writtenParent_def parentOf_def last_index_of_def segmentsOf_def)
next
  case (snoc ns n)
  have good: "list_all (\<lambda>s. 0 < length s \<and> s \<noteq> ''.'' \<and> CHR ''/'' \<notin> set s) (ns @ [n])"
    using segmentsOf_good [of path] by (simp add: snoc)
  then have n: "CHR ''/'' \<notin> set n" by simp
  show ?thesis
  proof (cases "ns = []")
    case True
    then have "writtenParent path = ''/''"
      using parentOf_append [OF n, of "[]"] by (simp add: writtenParent_def snoc)
    with True snoc show ?thesis by (simp add: segmentsOf_def)
  next
    case False
    then have "writtenParent path = ''/'' @ join ''/'' ns"
      using parentOf_append [OF n, of "''/'' @ join ''/'' ns"] by (simp add: writtenParent_def snoc join_snoc)
    with good segmentsOf_join [of ns] snoc show ?thesis by simp
  qed
qed

lemma resolveIn_missing: "resolveIn t asked follow = Inl e \<Longrightarrow> fs_reason e = FsNotFound \<Longrightarrow> segmentsOf asked \<noteq> []"
  by (auto simp: resolveIn_def fsFail_def split: if_splits)

lemma makeStep_missing:
  assumes "makeStep now t asked retried = (Inr False, t')"
  shows "\<not> retried \<and> segmentsOf asked \<noteq> []"
  using assms resolveIn_missing [of t asked False]
  by (auto simp: makeStep_def refused_def Let_def split: sum.splits if_splits option.splits node.splits)

function makeDirectories :: "int \<Rightarrow> tree \<Rightarrow> string \<Rightarrow> bool \<Rightarrow> unit change" where
  "makeDirectories now t asked retried =
     (case makeStep now t asked retried of
        (Inl e, t1) \<Rightarrow> (Inl e, t1)
      | (Inr True, t1) \<Rightarrow> (Inr (), t1)
      | (Inr False, t1) \<Rightarrow>
          (case makeDirectories now t1 (writtenParent asked) False of
             (Inl e, t2) \<Rightarrow> (Inl e, t2)
           | (Inr _, t2) \<Rightarrow> makeDirectories now t2 asked True))"
  by pat_completeness auto
termination
  by (relation "measures [\<lambda>(now, t, asked, retried). length (segmentsOf asked), \<lambda>(now, t, asked, retried). if retried then 0 else 1]")
     (auto simp: segmentsOf_writtenParent dest!: makeStep_missing [OF sym] makeStep_missing)

declare makeDirectories.simps [simp del]

definition putContent :: "int \<Rightarrow> tree \<Rightarrow> string \<Rightarrow> content \<Rightarrow> bool \<Rightarrow> unit change" where
  "putContent now t asked content appending =
     (case resolveIn t asked True of
        Inl e \<Rightarrow> refused t e
      | Inr real \<Rightarrow>
          (let existing = map_of t real in
           if opt_exists isDirectory existing then refused t (fsFail asked FsIsDirectory (''is a directory: '' @ asked))
           else
             (let before = (case existing of Some (NFile b _) \<Rightarrow> if appending then b else [] | _ \<Rightarrow> []) in
              (Inr (), withNode t real (NFile (before @ bytesOf content) now)))))"

definition putAt :: "int \<Rightarrow> tree \<Rightarrow> string \<Rightarrow> content \<Rightarrow> bool \<Rightarrow> bool \<Rightarrow> unit change" where
  "putAt now t asked content createParents appending =
     (case (if createParents then makeDirectories now t (writtenParent asked) False else (Inr (), t)) of
        (Inl e, t1) \<Rightarrow> (Inl e, t1)
      | (Inr _, t1) \<Rightarrow> putContent now t1 asked content appending)"

definition renameAt :: "int \<Rightarrow> tree \<Rightarrow> string \<Rightarrow> string \<Rightarrow> unit change" where
  "renameAt now t from to =
     (case nodeAt t from False of
        Inl e \<Rightarrow> refused t e
      | Inr (real, n) \<Rightarrow>
     (case resolveIn t to False of
        Inl e \<Rightarrow> refused t e
      | Inr destination \<Rightarrow>
     (let existing = map_of t destination in
      if real = ''/'' \<or> destination = ''/'' then
        refused t (fsFail (if real = ''/'' then from else to) FsInvalid ''the root cannot be moved or replaced'')
      else if destination = real then (Inr (), t)
      else if starts_with (real @ ''/'') destination then
        refused t (fsFail to FsInvalid (''cannot move '' @ from @ '' into itself''))
      else if existing \<noteq> None \<and> \<not> isDirectory n \<and> opt_exists isDirectory existing then
        refused t (fsFail to FsIsDirectory (''is a directory: '' @ to))
      else if existing \<noteq> None \<and> isDirectory n \<and> \<not> opt_exists isDirectory existing then
        refused t (fsFail to FsNotDirectory (''not a directory: '' @ to))
      else if opt_exists isDirectory existing \<and> 0 < length (inside t destination) then
        refused t (fsFail to FsNotEmpty (''directory not empty: '' @ to))
      else
        (let moved = real # (if isDirectory n then inside t real else []);
             kept = filter (\<lambda>(key, _). key \<notin> set moved \<and> key \<noteq> destination) t;
             placed = map (\<lambda>key. (destination @ drop (length real) key,
               if key = real then touched now n else (case map_of t key of Some m \<Rightarrow> m | None \<Rightarrow> n))) moved
         in (Inr (), AList.updates (map fst (kept @ placed)) (map snd (kept @ placed)) [])))))"

definition removeAt :: "tree \<Rightarrow> string \<Rightarrow> bool \<Rightarrow> unit change" where
  "removeAt t asked recursive =
     (if endsInDots asked then
        refused t (fsFail asked FsInvalid (''a path whose last segment is . or .. is never removed: '' @ asked))
      else case resolveIn t asked False of
        Inl e \<Rightarrow> if fs_reason e = FsNotFound then (Inr (), t) else refused t e
      | Inr real \<Rightarrow>
          (case map_of t real of
             None \<Rightarrow> (Inr (), t)
           | Some n \<Rightarrow>
               if real = ''/'' then refused t (fsFail asked FsInvalid ''the root cannot be removed'')
               else
                 (let below = (if isDirectory n then inside t real else []) in
                  if 0 < length below \<and> \<not> recursive then refused t (fsFail asked FsNotEmpty (''directory not empty: '' @ asked))
                  else (Inr (), filter (\<lambda>(key, _). key \<notin> set (real # below)) t))))"

definition addNode :: "tree \<Rightarrow> string \<Rightarrow> node \<Rightarrow> unit change" where
  "addNode t asked n =
     (case resolveIn t asked False of
        Inl e \<Rightarrow> refused t e
      | Inr real \<Rightarrow>
          if map_of t real \<noteq> None then refused t (fsFail asked FsExists (''already exists: '' @ asked))
          else (Inr (), withNode t real n))"

definition mkdirAt :: "int \<Rightarrow> tree \<Rightarrow> string \<Rightarrow> bool \<Rightarrow> unit change" where
  "mkdirAt now t asked recursive =
     (if recursive then makeDirectories now t asked False else addNode t asked (NDirectory now))"

definition symlinkAt :: "int \<Rightarrow> tree \<Rightarrow> string \<Rightarrow> string \<Rightarrow> unit change" where
  "symlinkAt now t target asked = addNode t asked (NSymlink target now)"

text \<open>The calls that change the tree.\<close>

datatype fs_call =
    CallWrite string content bool
  | CallAppend string content bool
  | CallRename string string
  | CallMkdir string bool
  | CallRemove string bool
  | CallSymlink string string

fun applyCall :: "int \<Rightarrow> tree \<Rightarrow> fs_call \<Rightarrow> unit change" where
  "applyCall now t (CallWrite asked content createParents) = putAt now t asked content createParents False"
| "applyCall now t (CallAppend asked content createParents) = putAt now t asked content createParents True"
| "applyCall now t (CallRename from to) = renameAt now t from to"
| "applyCall now t (CallMkdir asked recursive) = mkdirAt now t asked recursive"
| "applyCall now t (CallRemove asked recursive) = removeAt t asked recursive"
| "applyCall now t (CallSymlink target asked) = symlinkAt now t target asked"

definition emptyTree :: "int \<Rightarrow> tree" where
  "emptyTree now = [(''/'', NDirectory now)]"

text \<open>\<open>makeMemoryFileSystem\<close>: the seeds by path, each written with its parents.\<close>

definition seedOne :: "int \<Rightarrow> tree \<Rightarrow> string \<times> seed \<Rightarrow> unit change" where
  "seedOne now t s = (case s of
     (path, SeedContent content) \<Rightarrow> putAt now t path content True False
   | (path, SeedLink target) \<Rightarrow>
       (case makeDirectories now t (writtenParent path) False of
          (Inl e, t1) \<Rightarrow> (Inl e, t1)
        | (Inr _, t1) \<Rightarrow> symlinkAt now t1 target path))"

fun seedAll :: "int \<Rightarrow> tree \<Rightarrow> (string \<times> seed) list \<Rightarrow> fs_error + tree" where
  "seedAll now t [] = Inr t"
| "seedAll now t (s # rest) =
     (case seedOne now t s of
        (Inl e, _) \<Rightarrow> Inl e
      | (Inr _, t1) \<Rightarrow> seedAll now t1 rest)"

definition makeMemoryFileSystem :: "int \<Rightarrow> (string \<times> seed) list \<Rightarrow> fs_error + tree" where
  "makeMemoryFileSystem now initial = seedAll now (emptyTree now) (sort_key fst initial)"

end
