(* ===== verification/FileTreeInv.thy ===== *)
theory FileTreeInv
  imports FileTree "HOL-Library.Sublist"
begin

text \<open>
  The tree stays a tree: every node's path is absolute and normal, and its parent is a directory,
  whatever calls are made. Where a path leads is such a place; leading there again leads there; a
  write is read back by the same path and changes nothing else.
\<close>

section \<open>Normal paths\<close>

definition canonical :: "string \<Rightarrow> bool" where
  "canonical p \<longleftrightarrow> p = ''/'' @ join ''/'' (segmentsOf p) \<and> ''..'' \<notin> set (segmentsOf p)"

definition goodName :: "string \<Rightarrow> bool" where
  "goodName n \<longleftrightarrow> 0 < length n \<and> n \<noteq> ''.'' \<and> n \<noteq> ''..'' \<and> CHR ''/'' \<notin> set n"

lemma canonical_root [simp]: "canonical ''/''" "segmentsOf ''/'' = []" "parentOf ''/'' = ''/''"
  by (simp_all add: canonical_def segmentsOf_def parentOf_def last_index_of_def)

lemma segmentsOf_names: "list_all (\<lambda>n. n = ''..'' \<or> goodName n) (segmentsOf p)"
  using segmentsOf_good [of p] by (auto simp: list_all_iff goodName_def)

lemma canonical_names: "canonical p \<Longrightarrow> list_all goodName (segmentsOf p)"
  using segmentsOf_names [of p] by (auto simp: canonical_def list_all_iff)

lemma canonicalI: "list_all goodName ns \<Longrightarrow> canonical (''/'' @ join ''/'' ns) \<and> segmentsOf (''/'' @ join ''/'' ns) = ns"
  using segmentsOf_join [of ns] by (auto simp: canonical_def list_all_iff goodName_def)

lemma canonical_eq: "canonical p \<Longrightarrow> canonical q \<Longrightarrow> segmentsOf p = segmentsOf q \<longleftrightarrow> p = q"
  by (metis canonical_def)

lemma canonical_root_iff: "canonical p \<Longrightarrow> segmentsOf p = [] \<longleftrightarrow> p = ''/''"
  using canonical_eq [of p "''/''"] by simp

lemma canonical_cases:
  assumes "canonical p"
  obtains (root) "p = ''/''" | (below) d n where "canonical d" "goodName n" "p = joinPath d n" "parentOf p = d" "segmentsOf p = segmentsOf d @ [n]"
proof (cases "segmentsOf p" rule: rev_cases)
  case Nil
  with assms canonical_root_iff root show ?thesis by blast
next
  case (snoc ns n)
  with canonical_names [OF assms] have ns: "list_all goodName ns" "goodName n" by simp_all
  define d where "d = ''/'' @ join ''/'' ns"
  have d: "canonical d" "segmentsOf d = ns" using canonicalI [OF ns(1)] by (simp_all add: d_def)
  have noslash: "CHR ''/'' \<notin> set n" using ns(2) by (simp add: goodName_def)
  have "p = ''/'' @ join ''/'' (ns @ [n])" using assms by (simp add: canonical_def snoc)
  then have p: "p = (if ns = [] then ''/'' @ n else d @ ''/'' @ n)" by (simp add: join_snoc d_def)
  have root: "d = ''/'' \<longleftrightarrow> ns = []" using canonical_root_iff [OF d(1)] d(2) by simp
  have "p = joinPath d n" by (simp add: p joinPath_def root)
  moreover have "parentOf p = d"
    using parentOf_append [OF noslash, of "[]"] parentOf_append [OF noslash, of d] root by (auto simp: p) (simp add: d_def)+
  ultimately show ?thesis using below d ns snoc by blast
qed

lemma canonical_joinPath:
  assumes "canonical d" and "goodName n"
  shows "canonical (joinPath d n)" "segmentsOf (joinPath d n) = segmentsOf d @ [n]" "parentOf (joinPath d n) = d"
proof -
  have "list_all goodName (segmentsOf d @ [n])" using canonical_names [OF assms(1)] assms(2) by simp
  from canonicalI [OF this] have p: "canonical (''/'' @ join ''/'' (segmentsOf d @ [n]))"
    "segmentsOf (''/'' @ join ''/'' (segmentsOf d @ [n])) = segmentsOf d @ [n]" by blast+
  have eq: "joinPath d n = ''/'' @ join ''/'' (segmentsOf d @ [n])"
    using assms(1) canonical_root_iff [OF assms(1)] by (auto simp: joinPath_def join_snoc canonical_def)
  show "canonical (joinPath d n)" and segs: "segmentsOf (joinPath d n) = segmentsOf d @ [n]" using p by (simp_all only: eq)
  from \<open>canonical (joinPath d n)\<close> show "parentOf (joinPath d n) = d"
  proof (cases rule: canonical_cases)
    case root
    then show ?thesis using segs by simp
  next
    case (below e m)
    with segs have "segmentsOf e = segmentsOf d" by simp
    with below assms(1) show ?thesis using canonical_eq by blast
  qed
qed

lemma canonical_parentOf:
  assumes "canonical p"
  shows "canonical (parentOf p)" "segmentsOf (parentOf p) = butlast (segmentsOf p)"
  using assms by (cases rule: canonical_cases; simp)+

text \<open>What lies below a directory, by its names.\<close>

lemma join_append: "xs \<noteq> [] \<Longrightarrow> join sep (xs @ y # ys) = join sep xs @ sep @ join sep (y # ys)"
  by (induction xs rule: induct_list012) (auto simp: join_Cons)

lemma below_text:
  assumes "canonical d" and "d \<noteq> ''/''" and "canonical k" and "segmentsOf k = segmentsOf d @ n # ns"
  shows "k = d @ ''/'' @ join ''/'' (n # ns)"
proof -
  have ne: "segmentsOf d \<noteq> []" using canonical_root_iff [OF assms(1)] assms(2) by simp
  have "k = ''/'' @ join ''/'' (segmentsOf d @ n # ns)" using assms(3,4) by (simp add: canonical_def)
  also have "\<dots> = (''/'' @ join ''/'' (segmentsOf d)) @ ''/'' @ join ''/'' (n # ns)"
    using join_append [OF ne, of "''/''" n ns] by simp
  also have "''/'' @ join ''/'' (segmentsOf d) = d" using assms(1) by (simp add: canonical_def)
  finally show ?thesis .
qed

lemma below_iff:
  assumes "canonical d" and "canonical k"
  shows "starts_with (belowPrefix d) k \<and> k \<noteq> d \<longleftrightarrow> strict_prefix (segmentsOf d) (segmentsOf k)" (is "?l \<longleftrightarrow> ?r")
proof
  assume l: ?l
  then obtain rest where k: "k = belowPrefix d @ rest" by (auto simp: starts_with_iff)
  have "segmentsOf k = segmentsOf d @ segmentsOf rest"
  proof (cases "d = ''/''")
    case True
    then have "k = [] @ CHR ''/'' # rest" by (simp add: k belowPrefix_def)
    then show ?thesis using segmentsOf_below [of "[]" rest] True by (simp add: segmentsOf_def)
  next
    case False
    then show ?thesis using segmentsOf_below [of d rest] by (simp add: k belowPrefix_def)
  qed
  moreover have "segmentsOf k \<noteq> segmentsOf d" using l assms canonical_eq by metis
  ultimately show ?r by (auto simp: strict_prefix_def)
next
  assume ?r
  then obtain n ns where seg: "segmentsOf k = segmentsOf d @ n # ns" by (auto elim: strict_prefixE')
  have "starts_with (belowPrefix d) k"
  proof (cases "d = ''/''")
    case True
    have "k = ''/'' @ join ''/'' (segmentsOf k)" using assms(2) by (simp add: canonical_def)
    with True show ?thesis by (metis belowPrefix_def starts_with_iff)
  next
    case False
    with below_text [OF assms(1) False assms(2) seg] show ?thesis by (simp add: belowPrefix_def starts_with_iff)
  qed
  moreover have "k \<noteq> d" using seg by auto
  ultimately show ?l by blast
qed

section \<open>A well-formed tree\<close>

definition dirAt :: "tree \<Rightarrow> string \<Rightarrow> bool" where
  "dirAt t p = opt_exists isDirectory (map_of t p)"

text \<open>A place a node may stand at: a normal path whose parent is a directory.\<close>

definition placeIn :: "tree \<Rightarrow> string \<Rightarrow> bool" where
  "placeIn t p \<longleftrightarrow> canonical p \<and> dirAt t (parentOf p)"

definition well_formed :: "tree \<Rightarrow> bool" where
  "well_formed t \<longleftrightarrow> distinct (map fst t) \<and> dirAt t ''/'' \<and> list_all (placeIn t) (map fst t)"

lemma well_formed_place: "well_formed t \<Longrightarrow> map_of t p = Some n \<Longrightarrow> placeIn t p"
  by (auto simp: well_formed_def list_all_iff dest!: map_of_SomeD)

lemma dirAt_place: "well_formed t \<Longrightarrow> dirAt t p \<Longrightarrow> placeIn t p"
  by (auto simp: dirAt_def opt_exists_iff intro: well_formed_place)

lemma dirAt_map_of: "map_of t p = Some n \<Longrightarrow> dirAt t p = isDirectory n"
  by (simp add: dirAt_def)

definition isLink :: "node \<Rightarrow> bool" where
  "isLink n \<longleftrightarrow> nodeKind n = KSymlink"

definition linkAt :: "tree \<Rightarrow> string \<Rightarrow> bool" where
  "linkAt t p = opt_exists isLink (map_of t p)"

text \<open>A path leads to a place of the tree, and not to a link when links are followed.\<close>

lemma resolveStep_place:
  "resolveStep t asked follow current rest hops = Inr p \<Longrightarrow> well_formed t \<Longrightarrow>
     list_all (\<lambda>n. n = ''..'' \<or> goodName n) rest \<Longrightarrow>
     (if rest = [] then placeIn t current else dirAt t current) \<Longrightarrow>
     \<not> (follow \<and> linkAt t current) \<Longrightarrow>
     placeIn t p \<and> \<not> (follow \<and> linkAt t p)"
proof (induction t asked follow current rest hops rule: resolveStep.induct)
  case (1 t asked follow current hops)
  then show ?case by simp
next
  case (2 t asked follow current name rest hops)
  note IH = "2.IH" and prems = "2.prems"
  from prems(4) have dir: "dirAt t current" by simp
  have cur: "placeIn t current" using dirAt_place [OF prems(2) dir] .
  have dir_next: "if rest = [] then placeIn t d else dirAt t d" if "dirAt t d" for d
    using that dirAt_place [OF prems(2)] by simp
  have no_link: "\<not> linkAt t d" if "dirAt t d" for d
    using that by (auto simp: linkAt_def dirAt_def opt_exists_iff isLink_def)
  show ?case
  proof (cases "name = ''..''")
    case True
    then have "resolveStep t asked follow (parentOf current) rest hops = Inr p" using prems(1) by simp
    moreover have "dirAt t (parentOf current)" using cur by (simp add: placeIn_def)
    ultimately show ?thesis
      using IH(1) [OF True] prems(2,3) dir_next no_link by simp
  next
    case False
    with prems(3) have name: "goodName name" by simp
    define place where "place = joinPath current name"
    have place: "placeIn t place"
      using canonical_joinPath [OF _ name, of current] cur dir by (simp add: placeIn_def place_def)
    show ?thesis
    proof (cases "map_of t place")
      case None
      with prems(1) False have "rest = [] \<and> p = place" by (auto simp: Let_def place_def [symmetric] split: if_splits)
      with place None show ?thesis by (simp add: linkAt_def)
    next
      case (Some n)
      show ?thesis
      proof (cases n)
        case (NFile b time)
        with prems(1) False Some have "rest = []" "p = place"
          by (auto simp: Let_def place_def [symmetric] split: if_splits)
        with place Some NFile show ?thesis by (simp add: linkAt_def isLink_def)
      next
        case (NDirectory time)
        have "dirAt t place" using Some NDirectory by (simp add: dirAt_def)
        moreover have "resolveStep t asked follow place rest hops = Inr p"
          using prems(1) False Some NDirectory by (simp add: place_def)
        ultimately show ?thesis
          using IH(3) [OF False place_def Some NDirectory] prems(2,3) dir_next no_link by simp
      next
        case (NSymlink target time)
        show ?thesis
        proof (cases "rest \<noteq> [] \<or> follow")
          case True
          define more where "more = segmentsOf (if starts_with ''/'' target then target else joinPath current target)"
          have "\<not> maxHops \<le> hops \<and> resolveStep t asked follow ''/'' (more @ rest) (hops + 1) = Inr p"
            using prems(1) False Some NSymlink True by (auto simp: place_def more_def Let_def split: if_splits)
          moreover have "list_all (\<lambda>n. n = ''..'' \<or> goodName n) (more @ rest)"
            using prems(3) segmentsOf_names by (simp add: more_def)
          moreover have "dirAt t ''/''" using prems(2) by (simp add: well_formed_def)
          ultimately show ?thesis
            using IH(4) [OF False place_def Some NSymlink True] prems(2) no_link dirAt_place [OF prems(2)]
            by (simp add: more_def)
        next
          case notFollowed: False
          then have "resolveStep t asked follow place rest hops = Inr p"
            using prems(1) False Some NSymlink by (simp add: place_def)
          with notFollowed have "p = place" by simp
          with place notFollowed show ?thesis by simp
        qed
      qed
    qed
  qed
qed

lemma resolveIn_place:
  assumes "well_formed t" and "resolveIn t asked follow = Inr p"
  shows "placeIn t p" "\<not> (follow \<and> linkAt t p)"
proof -
  have root: "dirAt t ''/''" using assms(1) by (simp add: well_formed_def)
  have more: "placeIn t ''/''" "\<not> linkAt t ''/''"
    using root dirAt_place [OF assms(1) root] by (auto simp: linkAt_def dirAt_def opt_exists_iff isLink_def)
  have "resolveStep t asked follow ''/'' (segmentsOf asked) 0 = Inr p"
    using assms(2) by (simp add: resolveIn_def split: if_splits)
  from resolveStep_place [OF this assms(1) segmentsOf_names] root more
  show "placeIn t p" "\<not> (follow \<and> linkAt t p)" by (auto split: if_splits)
qed

text \<open>A place leads to itself.\<close>

lemma dirAt_prefix: "well_formed t \<Longrightarrow> placeIn t p \<Longrightarrow> canonical d \<Longrightarrow> strict_prefix (segmentsOf d) (segmentsOf p) \<Longrightarrow> dirAt t d"
proof (induction "segmentsOf p" arbitrary: p rule: length_induct)
  case 1
  from "1.prems"(2) have can: "canonical p" by (simp add: placeIn_def)
  from can show ?case
  proof (cases rule: canonical_cases)
    case root
    with "1.prems"(4) show ?thesis by simp
  next
    case (below e n)
    from "1.prems"(2) below have dir: "dirAt t e" by (simp add: placeIn_def)
    show ?thesis
    proof (cases "d = e")
      case True
      with dir show ?thesis by simp
    next
      case False
      have "prefix (segmentsOf d) (segmentsOf e)" using "1.prems"(4) unfolding below(5) by (auto simp: strict_prefix_def)
      moreover have "segmentsOf d \<noteq> segmentsOf e" using False "1.prems"(3) below(1) canonical_eq by blast
      ultimately have "strict_prefix (segmentsOf d) (segmentsOf e)" by (simp add: strict_prefix_def)
      moreover have "length (segmentsOf e) < length (segmentsOf p)" by (simp add: below(5))
      ultimately show ?thesis
        using "1.hyps" [rule_format, of "segmentsOf e" e] dirAt_place [OF "1.prems"(1) dir] "1.prems"(1,3) by simp
    qed
  qed
qed

lemma resolveStep_self:
  "canonical current \<Longrightarrow> canonical p \<Longrightarrow> segmentsOf p = segmentsOf current @ rest \<Longrightarrow>
     (\<And>d. canonical d \<Longrightarrow> strict_prefix (segmentsOf d) (segmentsOf p) \<Longrightarrow> dirAt t d) \<Longrightarrow>
     \<not> (follow \<and> linkAt t p) \<Longrightarrow> resolveStep t asked follow current rest hops = Inr p"
proof (induction rest arbitrary: current)
  case Nil
  then have "current = p" using canonical_eq [of current p] by simp
  then show ?case by simp
next
  case (Cons name rest)
  have names: "list_all goodName (segmentsOf p)" using Cons.prems(2) by (rule canonical_names)
  then have name: "goodName name" by (simp add: Cons.prems(3))
  then have dots: "name \<noteq> ''..''" by (simp add: goodName_def)
  note place = canonical_joinPath [OF Cons.prems(1) name]
  show ?case
  proof (cases rest)
    case Nil
    then have p: "joinPath current name = p" using canonical_eq [OF place(1) Cons.prems(2)] place(2) Cons.prems(3) by simp
    then show ?thesis using Cons.prems(5) dots Nil
      by (auto simp: linkAt_def isLink_def split: option.splits node.splits)
  next
    case (Cons m rest')
    have "strict_prefix (segmentsOf (joinPath current name)) (segmentsOf p)"
      by (simp add: place(2) Cons.prems(3) Cons strict_prefix_def)
    then have "dirAt t (joinPath current name)" using Cons.prems(4) place(1) by blast
    then obtain time where dir: "map_of t (joinPath current name) = Some (NDirectory time)"
      by (auto simp: dirAt_def opt_exists_iff elim: nodeKind.elims)
    have "resolveStep t asked follow (joinPath current name) rest hops = Inr p"
      by (rule Cons.IH [OF place(1) Cons.prems(2)]) (use place(2) Cons.prems(3,4,5) in auto)
    then show ?thesis using dots dir by simp
  qed
qed

lemma resolveIn_self:
  assumes "well_formed t" and "placeIn t p" and "\<not> (follow \<and> linkAt t p)"
  shows "resolveIn t p follow = Inr p"
proof -
  have can: "canonical p" using assms(2) by (simp add: placeIn_def)
  then have abs: "starts_with ''/'' p" unfolding canonical_def by (metis starts_with_iff)
  have "resolveStep t p follow ''/'' (segmentsOf p) 0 = Inr p"
    by (rule resolveStep_self [OF canonical_root(1) can]) (use assms dirAt_prefix can in auto)
  with abs show ?thesis by (simp add: resolveIn_def)
qed

section \<open>The calls keep the tree\<close>

lemma map_of_withNode: "map_of (withNode t p n) = (map_of t)(p \<mapsto> n)"
  by (simp add: withNode_def update_conv')

lemma keys_withNode: "set (map fst (withNode t p n)) = insert p (set (map fst t))"
  using dom_update [of p n t] by (simp add: withNode_def dom_map_of_conv_image_fst [symmetric])

lemma dirAt_withNode: "dirAt (withNode t p n) q = (if q = p then isDirectory n else dirAt t q)"
  by (simp add: dirAt_def map_of_withNode)

lemma well_formed_withNode:
  assumes wf: "well_formed t" and place: "placeIn t p" and fits: "isDirectory n \<or> \<not> dirAt t p"
  shows "well_formed (withNode t p n)"
proof -
  have dirs: "dirAt (withNode t p n) q" if "dirAt t q" for q
    using that fits by (auto simp: dirAt_withNode)
  have "placeIn (withNode t p n) q" if "placeIn t q" for q
    using that dirs by (simp add: placeIn_def)
  moreover have "distinct (map fst (withNode t p n))"
    using wf by (simp add: withNode_def well_formed_def distinct_update)
  ultimately show ?thesis
    using wf place dirs unfolding well_formed_def list_all_iff keys_withNode by blast
qed

lemma makeStep_well_formed: "well_formed t \<Longrightarrow> makeStep now t asked retried = (r, t') \<Longrightarrow> well_formed t'"
  using resolveIn_place(1) [of t asked False]
  by (auto simp: makeStep_def refused_def dirAt_def intro!: well_formed_withNode split: sum.splits if_splits option.splits node.splits)

lemma makeDirectories_well_formed: "well_formed t \<Longrightarrow> well_formed (snd (makeDirectories now t asked retried))"
proof (induction now t asked retried rule: makeDirectories.induct)
  case (1 now t asked retried)
  obtain r t1 where step: "makeStep now t asked retried = (r, t1)" by fastforce
  then have t1: "well_formed t1" using makeStep_well_formed "1.prems" by blast
  show ?case
  proof (cases "r = Inr False")
    case True
    obtain r2 t2 where first: "makeDirectories now t1 (writtenParent asked) False = (r2, t2)" by fastforce
    have t2: "well_formed t2"
      using "1.IH"(1) [OF step [symmetric] True _ t1] first True by simp
    show ?thesis
    proof (cases r2)
      case (Inl e)
      with step True first t2 show ?thesis by (subst makeDirectories.simps) simp
    next
      case (Inr u)
      with "1.IH"(2) [OF step [symmetric] True _ first [symmetric] Inr t2] step True first
      show ?thesis by (subst makeDirectories.simps) simp
    qed
  next
    case False
    with step t1 show ?thesis by (subst makeDirectories.simps) (auto split: sum.splits bool.splits)
  qed
qed

lemma putContent_well_formed: "well_formed t \<Longrightarrow> well_formed (snd (putContent now t asked content appending))"
  using resolveIn_place(1) [of t asked True]
  by (auto simp: putContent_def refused_def dirAt_def Let_def intro!: well_formed_withNode split: sum.splits)

lemma putAt_well_formed: "well_formed t \<Longrightarrow> well_formed (snd (putAt now t asked content createParents appending))"
  using makeDirectories_well_formed [of t now "writtenParent asked" False]
  by (auto simp: putAt_def putContent_well_formed split: prod.splits sum.splits)

lemma addNode_well_formed: "well_formed t \<Longrightarrow> well_formed (snd (addNode t asked n))"
  using resolveIn_place(1) [of t asked False]
  by (auto simp: addNode_def refused_def dirAt_def intro!: well_formed_withNode split: sum.splits)

lemma map_of_filter_keys: "map_of (filter (\<lambda>(key, _). P key) t) k = (if P k then map_of t k else None)"
  by (induction t) auto

lemma keys_filter: "map fst (filter (\<lambda>(key, _). P key) t) = filter P (map fst t)"
  by (induction t) auto

lemma key_canonical: "well_formed t \<Longrightarrow> k \<in> set (map fst t) \<Longrightarrow> canonical k"
  by (auto simp: well_formed_def placeIn_def list_all_iff)

lemma inside_iff:
  "well_formed t \<Longrightarrow> canonical d \<Longrightarrow>
     k \<in> set (inside t d) \<longleftrightarrow> k \<in> set (map fst t) \<and> strict_prefix (segmentsOf d) (segmentsOf k)"
  using below_iff [of d k] key_canonical [of t k] by (auto simp: inside_def)

lemma parent_strict: "canonical k \<Longrightarrow> k \<noteq> ''/'' \<Longrightarrow> strict_prefix (segmentsOf (parentOf k)) (segmentsOf k)"
  by (erule canonical_cases) (simp_all add: strict_prefix_def)

lemma inside_up:
  assumes "well_formed t" and "canonical d" and "k \<in> set (map fst t)" and "k \<noteq> ''/''"
    and "parentOf k = d \<or> parentOf k \<in> set (inside t d)"
  shows "k \<in> set (inside t d)"
proof -
  have can: "canonical k" using assms(1,3) by (rule key_canonical)
  then have "strict_prefix (segmentsOf (parentOf k)) (segmentsOf k)" using assms(4) by (rule parent_strict)
  moreover have "prefix (segmentsOf d) (segmentsOf (parentOf k))"
    using assms(5) inside_iff [OF assms(1,2)] by (auto simp: strict_prefix_def)
  ultimately have "strict_prefix (segmentsOf d) (segmentsOf k)"
    using prefix_order.le_less_trans by blast
  with assms(1-3) inside_iff show ?thesis by blast
qed

lemma dirAt_key: "dirAt t p \<Longrightarrow> p \<in> set (map fst t)"
  by (auto simp: dirAt_def opt_exists_iff dest!: map_of_SomeD) force

lemma well_formed_keep:
  assumes wf: "well_formed t" and root: "P ''/''"
    and up: "\<And>k. k \<in> set (map fst t) \<Longrightarrow> P k \<Longrightarrow> P (parentOf k)"
  shows "well_formed (filter (\<lambda>(key, _). P key) t)"
proof -
  let ?t = "filter (\<lambda>(key, _). P key) t"
  have dirs: "dirAt ?t q \<longleftrightarrow> P q \<and> dirAt t q" for q by (simp add: dirAt_def map_of_filter_keys)
  have "placeIn ?t k" if "k \<in> set (map fst ?t)" for k
  proof -
    from that have k: "k \<in> set (map fst t)" "P k" unfolding keys_filter by auto
    then have "placeIn t k" using wf by (auto simp: well_formed_def list_all_iff)
    with dirs up [OF k] show ?thesis by (simp add: placeIn_def)
  qed
  moreover have "distinct (map fst ?t)" using wf unfolding keys_filter by (simp add: well_formed_def)
  ultimately show ?thesis using wf root dirs unfolding well_formed_def list_all_iff by blast
qed

lemma removeAt_well_formed: "well_formed t \<Longrightarrow> well_formed (snd (removeAt t asked recursive))"
proof -
  assume wf: "well_formed t"
  show ?thesis
  proof (cases "removeAt t asked recursive = (Inr (), t) \<or> (\<exists>e. removeAt t asked recursive = (Inl e, t))")
    case True
    with wf show ?thesis by auto
  next
    case False
    then obtain real n where real: "resolveIn t asked False = Inr real" "map_of t real = Some n" "real \<noteq> ''/''"
      and eq: "snd (removeAt t asked recursive)
        = filter (\<lambda>(key, _). key \<notin> set (real # (if isDirectory n then inside t real else []))) t"
      by (auto simp: removeAt_def refused_def Let_def split: if_splits sum.splits option.splits)
    have can: "canonical real" using resolveIn_place(1) [OF wf real(1)] by (simp add: placeIn_def)
    have "well_formed (filter (\<lambda>(key, _). key \<notin> set (real # (if isDirectory n then inside t real else []))) t)"
    proof (rule well_formed_keep [OF wf])
      show "''/'' \<notin> set (real # (if isDirectory n then inside t real else []))"
        using real(3) inside_iff [OF wf can, of "''/''"] by auto
      fix k assume k: "k \<in> set (map fst t)" "k \<notin> set (real # (if isDirectory n then inside t real else []))"
      show "parentOf k \<notin> set (real # (if isDirectory n then inside t real else []))"
      proof
        assume p: "parentOf k \<in> set (real # (if isDirectory n then inside t real else []))"
        have "dirAt t (parentOf k)" using wf k(1) by (auto simp: well_formed_def list_all_iff placeIn_def)
        with p real(2) have dir: "isDirectory n" by (auto simp: dirAt_def split: if_splits)
        show False
        proof (cases "k = ''/''")
          case True
          with p k(2) dir show False by simp
        next
          case False
          with inside_up [OF wf can k(1) False] p dir k(2) show False by auto
        qed
      qed
    qed
    with eq show ?thesis by simp
  qed
qed

section \<open>Renaming\<close>

definition moveTo :: "string \<Rightarrow> string \<Rightarrow> string \<Rightarrow> string" where
  "moveTo real destination key = destination @ drop (length real) key"

lemma moveTo_segments:
  assumes real: "canonical real" "real \<noteq> ''/''" and dest: "canonical dest" "dest \<noteq> ''/''"
    and key: "canonical key" "segmentsOf key = segmentsOf real @ rs"
  shows "canonical (moveTo real dest key)" "segmentsOf (moveTo real dest key) = segmentsOf dest @ rs"
proof -
  have "canonical (moveTo real dest key) \<and> segmentsOf (moveTo real dest key) = segmentsOf dest @ rs"
  proof (cases rs)
    case Nil
    then have "key = real" using key real(1) canonical_eq by simp
    with Nil dest show ?thesis by (simp add: moveTo_def)
  next
    case (Cons n ns)
    have "list_all goodName (segmentsOf dest @ rs)"
      using canonical_names [OF key(1)] canonical_names [OF dest(1)] by (simp add: key(2))
    note new = canonicalI [OF this]
    have "moveTo real dest key = dest @ ''/'' @ join ''/'' rs"
      using below_text [OF real key(1), of n ns] key(2) Cons by (simp add: moveTo_def)
    also have "\<dots> = ''/'' @ join ''/'' (segmentsOf dest @ rs)"
    proof -
      have "segmentsOf dest \<noteq> []" using canonical_root_iff [OF dest(1)] dest(2) by simp
      from join_append [OF this, of "''/''" n ns] have "''/'' @ join ''/'' (segmentsOf dest @ rs)
          = (''/'' @ join ''/'' (segmentsOf dest)) @ ''/'' @ join ''/'' rs" by (simp add: Cons)
      also have "''/'' @ join ''/'' (segmentsOf dest) = dest" using dest(1) by (simp add: canonical_def)
      finally show ?thesis by simp
    qed
    finally show ?thesis using new by (simp only:) 
  qed
  then show "canonical (moveTo real dest key)" "segmentsOf (moveTo real dest key) = segmentsOf dest @ rs" by blast+
qed

lemma map_of_updates:
  "distinct (map fst xs) \<Longrightarrow>
     map_of (AList.updates (map fst xs) (map snd xs) al) k = (case map_of xs k of Some v \<Rightarrow> Some v | None \<Rightarrow> map_of al k)"
proof (induction xs arbitrary: al)
  case (Cons x xs)
  then have "map_of xs (fst x) = None" by (auto simp: map_of_eq_None_iff)
  with Cons show ?case by (cases x) (auto simp: update_conv' split: option.splits)
qed simp

lemma keys_updates:
  "set (map fst (AList.updates (map fst xs) (map snd xs) [])) = set (map fst xs)"
proof -
  have "set (map fst (AList.updates (map fst xs) (map snd xs) al)) = set (map fst xs) \<union> set (map fst al)" for al :: "('a \<times> 'b) list"
  proof (induction xs arbitrary: al)
    case (Cons x xs)
    have "set (map fst (AList.update (fst x) (snd x) al)) = insert (fst x) (set (map fst al))"
      using dom_update [of "fst x" "snd x" al] by (simp add: dom_map_of_conv_image_fst [symmetric])
    with Cons show ?case by simp
  qed simp
  then show ?thesis by simp
qed

text \<open>A rename that goes through: what moves, what stays, and the tree after it.\<close>

definition movedKeys :: "tree \<Rightarrow> string \<Rightarrow> node \<Rightarrow> string list" where
  "movedKeys t real n = real # (if isDirectory n then inside t real else [])"

definition renamedNodes :: "int \<Rightarrow> tree \<Rightarrow> string \<Rightarrow> node \<Rightarrow> string \<Rightarrow> tree" where
  "renamedNodes now t real n destination =
     filter (\<lambda>(key, _). key \<notin> set (movedKeys t real n) \<and> key \<noteq> destination) t
     @ map (\<lambda>key. (moveTo real destination key,
         if key = real then touched now n else (case map_of t key of Some m \<Rightarrow> m | None \<Rightarrow> n))) (movedKeys t real n)"

lemma isDirectory_touched [simp]: "isDirectory (touched now n) = isDirectory n"
  by (cases n) simp_all

lemma renameAt_cases:
  "renameAt now t from to = (Inr (), t) \<or> (\<exists>e. renameAt now t from to = (Inl e, t)) \<or>
     (\<exists>real n destination. nodeAt t from False = Inr (real, n) \<and> resolveIn t to False = Inr destination
        \<and> real \<noteq> ''/'' \<and> destination \<noteq> ''/'' \<and> destination \<noteq> real \<and> \<not> starts_with (real @ ''/'') destination
        \<and> (dirAt t destination \<longrightarrow> inside t destination = [])
        \<and> renameAt now t from to = (Inr (), AList.updates (map fst (renamedNodes now t real n destination))
             (map snd (renamedNodes now t real n destination)) []))"
proof (cases "nodeAt t from False")
  case (Inl e)
  then show ?thesis by (simp add: renameAt_def refused_def)
next
  case (Inr pair)
  obtain real n where pair: "pair = (real, n)" by fastforce
  show ?thesis
  proof (cases "resolveIn t to False")
    case (Inl e)
    with Inr pair show ?thesis by (simp add: renameAt_def refused_def)
  next
    case dest: (Inr destination)
    show ?thesis
      unfolding renameAt_def Inr pair dest sum.case prod.case Let_def refused_def dirAt_def renamedNodes_def movedKeys_def moveTo_def
      by (cases "real = ''/'' \<or> destination = ''/''"; cases "destination = real"; cases "starts_with (real @ ''/'') destination";
          cases "map_of t destination \<noteq> None \<and> \<not> isDirectory n \<and> opt_exists isDirectory (map_of t destination)";
          cases "map_of t destination \<noteq> None \<and> isDirectory n \<and> \<not> opt_exists isDirectory (map_of t destination)";
          cases "opt_exists isDirectory (map_of t destination) \<and> 0 < length (inside t destination)") simp_all
  qed
qed

definition movable :: "tree \<Rightarrow> string \<Rightarrow> node \<Rightarrow> string \<Rightarrow> bool" where
  "movable t real n destination \<longleftrightarrow> well_formed t \<and> map_of t real = Some n \<and> placeIn t destination \<and> real \<noteq> ''/''
     \<and> destination \<noteq> ''/'' \<and> destination \<noteq> real \<and> \<not> starts_with (real @ ''/'') destination
     \<and> (dirAt t destination \<longrightarrow> inside t destination = [])"

lemma movableD:
  assumes "movable t real n destination"
  shows "well_formed t" "map_of t real = Some n" "placeIn t destination" "real \<noteq> ''/''" "destination \<noteq> ''/''"
    "destination \<noteq> real" "canonical real" "canonical destination" "real \<in> set (map fst t)"
    "\<not> prefix (segmentsOf real) (segmentsOf destination)"
proof -
  show wf: "well_formed t" and node: "map_of t real = Some n" and place: "placeIn t destination" and "real \<noteq> ''/''"
    "destination \<noteq> ''/''" "destination \<noteq> real"
    using assms by (auto simp: movable_def)
  show can: "canonical real" "canonical destination"
    using well_formed_place [OF wf node] place by (simp_all add: placeIn_def)
  show "real \<in> set (map fst t)" using map_of_SomeD [OF node] by force
  show "\<not> prefix (segmentsOf real) (segmentsOf destination)"
    using below_iff [OF can] canonical_eq [OF can] assms
    by (auto simp: movable_def belowPrefix_def strict_prefix_def)
qed

lemma movedKeys_iff:
  assumes "movable t real n destination"
  shows "k \<in> set (movedKeys t real n) \<longleftrightarrow> k \<in> set (map fst t) \<and> prefix (segmentsOf real) (segmentsOf k)"
proof -
  note m = movableD [OF assms]
  show ?thesis
  proof (cases "isDirectory n")
    case True
    have "k \<in> set (movedKeys t real n) \<longleftrightarrow> k = real \<or> k \<in> set (inside t real)" by (simp add: movedKeys_def True)
    moreover have "k = real \<longleftrightarrow> segmentsOf real = segmentsOf k" if "k \<in> set (map fst t)"
      using canonical_eq [OF m(7) key_canonical [OF m(1) that]] by metis
    ultimately show ?thesis using inside_iff [OF m(1,7), of k] m(9) unfolding strict_prefix_def by blast
  next
    case False
    have "k = real" if "k \<in> set (map fst t)" "prefix (segmentsOf real) (segmentsOf k)"
    proof (rule ccontr)
      assume "k \<noteq> real"
      with that(2) have "strict_prefix (segmentsOf real) (segmentsOf k)"
        using canonical_eq [OF m(7) key_canonical [OF m(1) that(1)]] by (auto simp: strict_prefix_def)
      moreover have "placeIn t k" using m(1) that(1) by (auto simp: well_formed_def list_all_iff)
      ultimately have "dirAt t real" using dirAt_prefix [OF m(1) _ m(7)] by blast
      with m(2) False show False by (simp add: dirAt_def)
    qed
    with m(9) False show ?thesis by (auto simp: movedKeys_def)
  qed
qed

lemma moveTo_moved:
  assumes mv: "movable t real n destination" and k: "k \<in> set (movedKeys t real n)"
  shows "canonical (moveTo real destination k)"
    "segmentsOf (moveTo real destination k) = segmentsOf destination @ drop (length (segmentsOf real)) (segmentsOf k)"
proof -
  note m = movableD [OF mv]
  from k have "k \<in> set (map fst t)" "prefix (segmentsOf real) (segmentsOf k)" using movedKeys_iff [OF mv] by blast+
  then have "canonical k" "segmentsOf k = segmentsOf real @ drop (length (segmentsOf real)) (segmentsOf k)"
    using key_canonical [OF m(1)] by (auto simp: prefix_def)
  from moveTo_segments [OF m(7,4,8,5) this]
  show "canonical (moveTo real destination k)"
    "segmentsOf (moveTo real destination k) = segmentsOf destination @ drop (length (segmentsOf real)) (segmentsOf k)" by blast+
qed

lemma inside_destination:
  assumes mv: "movable t real n destination" and k: "k \<in> set (map fst t)"
  shows "\<not> strict_prefix (segmentsOf destination) (segmentsOf k)"
proof
  note m = movableD [OF mv]
  assume sp: "strict_prefix (segmentsOf destination) (segmentsOf k)"
  have "placeIn t k" using m(1) k by (auto simp: well_formed_def list_all_iff)
  from dirAt_prefix [OF m(1) this m(8) sp] mv have "inside t destination = []" by (simp add: movable_def)
  with inside_iff [OF m(1,8), of k] k sp show False by simp
qed

lemma renamed_distinct:
  assumes mv: "movable t real n destination"
  shows "distinct (map fst (renamedNodes now t real n destination))"
proof -
  note m = movableD [OF mv]
  have keys: "distinct (map fst t)" using m(1) by (simp add: well_formed_def)
  let ?kept = "filter (\<lambda>k. k \<notin> set (movedKeys t real n) \<and> k \<noteq> destination) (map fst t)"
  have fst: "map fst (renamedNodes now t real n destination) = ?kept @ map (moveTo real destination) (movedKeys t real n)"
    unfolding renamedNodes_def map_append keys_filter by simp
  have moved: "distinct (movedKeys t real n)" using keys by (auto simp: movedKeys_def inside_def)
  have inj: "inj_on (moveTo real destination) (set (movedKeys t real n))"
  proof (rule inj_onI)
    fix a b assume a: "a \<in> set (movedKeys t real n)" and b: "b \<in> set (movedKeys t real n)"
      and eq: "moveTo real destination a = moveTo real destination b"
    have "drop (length (segmentsOf real)) (segmentsOf a) = drop (length (segmentsOf real)) (segmentsOf b)"
      using moveTo_moved(2) [OF mv a] moveTo_moved(2) [OF mv b] eq by simp
    with a b have "segmentsOf a = segmentsOf b" using movedKeys_iff [OF mv] by (auto simp: prefix_def)
    moreover have "canonical a" "canonical b" using a b movedKeys_iff [OF mv] key_canonical [OF m(1)] by blast+
    ultimately show "a = b" using canonical_eq by blast
  qed
  have "moveTo real destination a \<notin> set ?kept" if a: "a \<in> set (movedKeys t real n)" for a
  proof
    assume "moveTo real destination a \<in> set ?kept"
    then have kept: "moveTo real destination a \<in> set (map fst t)" "moveTo real destination a \<noteq> destination" by auto
    have "prefix (segmentsOf destination) (segmentsOf (moveTo real destination a))"
      using moveTo_moved(2) [OF mv a] by simp
    with inside_destination [OF mv kept(1)] have "segmentsOf destination = segmentsOf (moveTo real destination a)"
      by (auto simp: strict_prefix_def)
    with kept(2) show False using canonical_eq [OF m(8) moveTo_moved(1) [OF mv a]] by simp
  qed
  then have "set ?kept \<inter> moveTo real destination ` set (movedKeys t real n) = {}" by blast
  moreover have "distinct ?kept" using keys by (rule distinct_filter)
  ultimately show ?thesis unfolding fst distinct_append distinct_map [of "moveTo real destination"] set_map using moved inj by blast
qed

lemma renamed_map_of:
  assumes "movable t real n destination"
  shows "map_of (AList.updates (map fst (renamedNodes now t real n destination)) (map snd (renamedNodes now t real n destination)) [])
    = map_of (renamedNodes now t real n destination)"
  using map_of_updates [OF renamed_distinct [OF assms], of now "[]"] by (auto split: option.splits)

lemma dirAt_member: "distinct (map fst t) \<Longrightarrow> (p, n) \<in> set t \<Longrightarrow> isDirectory n \<Longrightarrow> dirAt t p"
  by (simp add: dirAt_def map_of_is_SomeI)

lemma renamed_dir_kept:
  assumes mv: "movable t real n destination" and dir: "dirAt t q" and stays: "q \<notin> set (movedKeys t real n)" "q \<noteq> destination"
  shows "dirAt (renamedNodes now t real n destination) q"
proof -
  from dir obtain m where m: "map_of t q = Some m" "isDirectory m" by (auto simp: dirAt_def opt_exists_iff)
  have "(q, m) \<in> set (renamedNodes now t real n destination)"
    using map_of_SomeD [OF m(1)] stays by (simp add: renamedNodes_def)
  from dirAt_member [OF renamed_distinct [OF mv] this m(2)] show ?thesis .
qed

lemma renamed_dir_moved:
  assumes mv: "movable t real n destination" and dir: "dirAt t q" and moves: "q \<in> set (movedKeys t real n)"
  shows "dirAt (renamedNodes now t real n destination) (moveTo real destination q)"
proof -
  from dir obtain m where m: "map_of t q = Some m" "isDirectory m" by (auto simp: dirAt_def opt_exists_iff)
  have "(moveTo real destination q, if q = real then touched now n else m) \<in> set (renamedNodes now t real n destination)"
    using moves m(1) by (force simp: renamedNodes_def)
  moreover have "isDirectory (if q = real then touched now n else m)" using m movableD(2) [OF mv] by auto
  ultimately show ?thesis by (rule dirAt_member [OF renamed_distinct [OF mv]])
qed

lemma moved_up:
  assumes mv: "movable t real n destination" and k: "k \<in> set (map fst t)" and up: "parentOf k \<in> set (movedKeys t real n)"
  shows "k \<in> set (movedKeys t real n)"
proof -
  note m = movableD [OF mv]
  have "segmentsOf (parentOf k) = butlast (segmentsOf k)" by (rule canonical_parentOf(2) [OF key_canonical [OF m(1) k]])
  then have "prefix (segmentsOf (parentOf k)) (segmentsOf k)" by (simp add: prefixeq_butlast)
  moreover have "prefix (segmentsOf real) (segmentsOf (parentOf k))" using up movedKeys_iff [OF mv] by blast
  ultimately show ?thesis using movedKeys_iff [OF mv] k prefix_order.trans by blast
qed

lemma renamed_place_kept:
  assumes mv: "movable t real n destination" and k: "k \<in> set (map fst t)"
    and stays: "k \<notin> set (movedKeys t real n)" "k \<noteq> destination"
  shows "placeIn (renamedNodes now t real n destination) k"
proof -
  note m = movableD [OF mv]
  have place: "placeIn t k" using m(1) k by (auto simp: well_formed_def list_all_iff)
  have "parentOf k \<noteq> destination \<or> k = ''/''"
  proof (cases "k = ''/''")
    case False
    then have "strict_prefix (segmentsOf (parentOf k)) (segmentsOf k)"
      using parent_strict [OF key_canonical [OF m(1) k]] by blast
    with inside_destination [OF mv k] show ?thesis by auto
  qed simp
  then have "parentOf k \<noteq> destination" using m(5) by auto
  moreover have "parentOf k \<notin> set (movedKeys t real n)" using moved_up [OF mv k] stays(1) by blast
  ultimately show ?thesis using place renamed_dir_kept [OF mv] by (simp add: placeIn_def)
qed

lemma renamed_place_moved:
  assumes mv: "movable t real n destination" and k: "k \<in> set (movedKeys t real n)"
  shows "placeIn (renamedNodes now t real n destination) (moveTo real destination k)"
proof -
  note m = movableD [OF mv]
  note new = moveTo_moved [OF mv k]
  have key: "k \<in> set (map fst t)" "prefix (segmentsOf real) (segmentsOf k)" using k movedKeys_iff [OF mv] by blast+
  have can: "canonical k" using key(1) by (rule key_canonical [OF m(1)])
  show ?thesis
  proof (cases "k = real")
    case True
    have "parentOf destination \<notin> set (movedKeys t real n)"
    proof
      assume "parentOf destination \<in> set (movedKeys t real n)"
      then have "prefix (segmentsOf real) (butlast (segmentsOf destination))"
        using movedKeys_iff [OF mv] canonical_parentOf(2) [OF m(8)] by simp
      then have "prefix (segmentsOf real) (segmentsOf destination)"
        using prefixeq_butlast prefix_order.trans by blast
      with m(10) show False by blast
    qed
    moreover have "parentOf destination \<noteq> destination"
      using parent_strict [OF m(8,5)] by auto
    ultimately have "dirAt (renamedNodes now t real n destination) (parentOf destination)"
      using renamed_dir_kept [OF mv] m(3) by (simp add: placeIn_def)
    with True m(8) show ?thesis by (simp add: placeIn_def moveTo_def)
  next
    case False
    then have seg: "segmentsOf k \<noteq> segmentsOf real" using canonical_eq [OF can m(7)] by simp
    with key(2) have longer: "length (segmentsOf real) < length (segmentsOf k)"
      by (auto simp: prefix_def)
    have "prefix (segmentsOf real) (butlast (segmentsOf k))" using key(2) seg by (auto simp: prefix_def butlast_append)
    then have up: "parentOf k \<in> set (movedKeys t real n)"
      using movedKeys_iff [OF mv] canonical_parentOf(2) [OF can] m(1) key(1) dirAt_key
      by (fastforce simp: well_formed_def list_all_iff placeIn_def)
    have "segmentsOf (parentOf (moveTo real destination k)) = segmentsOf (moveTo real destination (parentOf k))"
      using longer by (simp add: canonical_parentOf(2) [OF new(1)] new(2) moveTo_moved(2) [OF mv up]
        canonical_parentOf(2) [OF can] butlast_append drop_butlast)
    then have "parentOf (moveTo real destination k) = moveTo real destination (parentOf k)"
      using canonical_eq [OF canonical_parentOf(1) [OF new(1)] moveTo_moved(1) [OF mv up]] by blast
    moreover have "dirAt t (parentOf k)" using m(1) key(1) by (auto simp: well_formed_def list_all_iff placeIn_def)
    ultimately show ?thesis using renamed_dir_moved [OF mv _ up] new(1) by (simp add: placeIn_def)
  qed
qed

lemma renameAt_well_formed: "well_formed t \<Longrightarrow> well_formed (snd (renameAt now t from to))"
proof -
  assume wf: "well_formed t"
  consider "snd (renameAt now t from to) = t"
    | real n destination where "nodeAt t from False = Inr (real, n)" "resolveIn t to False = Inr destination"
        "real \<noteq> ''/''" "destination \<noteq> ''/''" "destination \<noteq> real" "\<not> starts_with (real @ ''/'') destination"
        "dirAt t destination \<longrightarrow> inside t destination = []"
        "snd (renameAt now t from to) = AList.updates (map fst (renamedNodes now t real n destination))
           (map snd (renamedNodes now t real n destination)) []"
    using renameAt_cases [of now t "from" to] by fastforce
  then show ?thesis
  proof cases
    case 1
    with wf show ?thesis by simp
  next
    case 2
    let ?r = "renamedNodes now t real n destination"
    have "map_of t real = Some n" using 2(1) by (auto simp: nodeAt_def result_simps split: option.splits)
    then have mv: "movable t real n destination"
      using wf 2 resolveIn_place(1) [OF wf 2(2)] by (simp add: movable_def)
    have dirs: "dirAt (AList.updates (map fst ?r) (map snd ?r) []) q = dirAt ?r q" for q
      by (simp add: dirAt_def renamed_map_of [OF mv])
    have place: "placeIn ?r k" if "k \<in> set (map fst ?r)" for k
      using that renamed_place_kept [OF mv] renamed_place_moved [OF mv] by (auto simp: renamedNodes_def keys_filter)
    have "dirAt ?r ''/''"
    proof (rule renamed_dir_kept [OF mv])
      show "dirAt t ''/''" using wf by (simp add: well_formed_def)
      show "''/'' \<notin> set (movedKeys t real n)"
        using movedKeys_iff [OF mv, of "''/''"] movableD(4,7) [OF mv] canonical_root_iff by auto
      show "''/'' \<noteq> destination" using 2(4) by simp
    qed
    with place dirs keys_updates [of ?r] have "well_formed (AList.updates (map fst ?r) (map snd ?r) [])"
      unfolding well_formed_def list_all_iff placeIn_def by (simp add: distinct_updates)
    with 2(8) show ?thesis by simp
  qed
qed

section \<open>Histories\<close>

lemma mkdirAt_well_formed: "well_formed t \<Longrightarrow> well_formed (snd (mkdirAt now t asked recursive))"
  by (simp add: mkdirAt_def makeDirectories_well_formed addNode_well_formed)

lemma applyCall_well_formed: "well_formed t \<Longrightarrow> well_formed (snd (applyCall now t call))"
  by (cases call) (simp_all add: putAt_well_formed renameAt_well_formed mkdirAt_well_formed removeAt_well_formed
    symlinkAt_def addNode_well_formed)

lemma emptyTree_well_formed: "well_formed (emptyTree now)"
  by (simp add: emptyTree_def well_formed_def placeIn_def dirAt_def)

lemma seedOne_well_formed: "well_formed t \<Longrightarrow> well_formed (snd (seedOne now t s))"
  using makeDirectories_well_formed [of t now "writtenParent (fst s)" False]
  by (auto simp: seedOne_def putAt_well_formed symlinkAt_def addNode_well_formed split: prod.splits seed.splits sum.splits)

lemma seedAll_well_formed: "well_formed t \<Longrightarrow> seedAll now t seeds = Inr t' \<Longrightarrow> well_formed t'"
proof (induction now t seeds rule: seedAll.induct)
  case (2 now t s rest)
  obtain r t1 where one: "seedOne now t s = (r, t1)" by fastforce
  with "2.prems" obtain u where "r = Inr u" "seedAll now t1 rest = Inr t'" by (cases r) auto
  with "2.IH" [OF one [symmetric]] one seedOne_well_formed [OF "2.prems"(1), of now s] show ?case by simp
qed simp

definition treeAfter :: "tree \<Rightarrow> (int \<times> fs_call) list \<Rightarrow> tree" where
  "treeAfter t calls = foldl (\<lambda>t (now, call). snd (applyCall now t call)) t calls"

lemma treeAfter_well_formed: "well_formed t \<Longrightarrow> well_formed (treeAfter t calls)"
  unfolding treeAfter_def by (rule foldl_invariant) (auto simp: applyCall_well_formed)

text \<open>
  C34. The file system stays a tree: seeded and then changed by any calls, failing ones included, each
  path holds one node, \<open>/\<close> is a directory, and every node stands at an absolute path without
  empty, \<open>.\<close> or \<open>..\<close> names, directly below a directory.
\<close>
theorem every_call_keeps_the_tree:
  "case makeMemoryFileSystem now initial of Inl _ \<Rightarrow> True | Inr t \<Rightarrow> well_formed (treeAfter t calls)"
  using seedAll_well_formed [OF emptyTree_well_formed, of now now "sort_key fst initial"]
  by (auto simp: makeMemoryFileSystem_def treeAfter_well_formed split: sum.splits)

section \<open>Where paths lead\<close>

text \<open>
  A real path is final: what \<open>realPath\<close> answers is a normal absolute path, of a node that is no
  link, below directories only; asked again it answers itself.
\<close>
theorem real_path_is_final:
  assumes "well_formed t" and "realPath t asked = Inr p"
  shows "canonical p" and "realPath t p = Inr p" and "\<not> linkAt t p" and "dirAt t (parentOf p)"
proof -
  from assms(2) obtain n where leads: "resolveIn t asked True = Inr p" and node: "map_of t p = Some n"
    by (auto simp: realPath_def nodeAt_def result_simps split: option.splits)
  note place = resolveIn_place [OF assms(1) leads]
  show "canonical p" using place(1) by (simp add: placeIn_def)
  show "\<not> linkAt t p" using place(2) by simp
  show "realPath t p = Inr p"
    using resolveIn_self [OF assms(1) place(1)] place(2) node by (simp add: realPath_def nodeAt_def)
  show "dirAt t (parentOf p)" using place(1) by (simp add: placeIn_def)
qed

definition exampleTree :: tree where
  "exampleTree = projr (makeMemoryFileSystem 1
     [(''/a/b.txt'', SeedContent (CText ''hi'')), (''/w/l'', SeedLink ''../a''), (''/w/m'', SeedLink ''l/b.txt'')])"

theorem real_path_is_final_witness:
  "canonical ''/a/b.txt'' \<and> realPath exampleTree ''/a/b.txt'' = Inr ''/a/b.txt''
     \<and> \<not> linkAt exampleTree ''/a/b.txt'' \<and> dirAt exampleTree (parentOf ''/a/b.txt'')"
proof -
  have "well_formed exampleTree" by code_simp
  moreover have "realPath exampleTree ''/w/m'' = Inr ''/a/b.txt''" by code_simp
  ultimately show ?thesis using real_path_is_final by blast
qed

section \<open>Writing\<close>

text \<open>A new or changed file disturbs no path that led somewhere.\<close>

definition fileOrNothing :: "tree \<Rightarrow> string \<Rightarrow> bool" where
  "fileOrNothing t p = (case map_of t p of None \<Rightarrow> True | Some n \<Rightarrow> nodeKind n = KFile)"

lemma resolveStep_withFile:
  "resolveStep t asked follow current rest hops = Inr q \<Longrightarrow> fileOrNothing t p \<Longrightarrow>
     resolveStep (withNode t p (NFile b now)) asked follow current rest hops = Inr q"
proof (induction t asked follow current rest hops rule: resolveStep.induct)
  case (1 t asked follow current hops)
  then show ?case by simp
next
  case (2 t asked follow current name rest hops)
  show ?case
  proof (cases "name = ''..''")
    case True
    with "2.IH"(1) [OF True] "2.prems" show ?thesis by simp
  next
    case False
    define place where "place = joinPath current name"
    show ?thesis
    proof (cases "place = p")
      case True
      with "2.prems" False have "rest = []" "q = place"
        by (auto simp: fileOrNothing_def Let_def place_def [symmetric] split: option.splits node.splits if_splits)
      with True False show ?thesis by (simp add: map_of_withNode place_def [symmetric])
    next
      case other: False
      then have same: "map_of (withNode t p (NFile b now)) place = map_of t place" by (simp add: map_of_withNode)
      show ?thesis
      proof (cases "map_of t place")
        case None
        with "2.prems" False same show ?thesis by (auto simp: Let_def place_def [symmetric] split: if_splits)
      next
        case (Some n)
        show ?thesis
        proof (cases n)
          case (NFile c time)
          with "2.prems" False same Some show ?thesis by (auto simp: Let_def place_def [symmetric] split: if_splits)
        next
          case (NDirectory time)
          with "2.prems" False same Some "2.IH"(3) [OF False place_def Some NDirectory] show ?thesis
            by (simp add: Let_def place_def [symmetric])
        next
          case (NSymlink target time)
          show ?thesis
          proof (cases "rest \<noteq> [] \<or> follow")
            case True
            with "2.prems" False same Some NSymlink have hops: "\<not> maxHops \<le> hops"
              by (auto simp: Let_def place_def [symmetric] split: if_splits)
            with "2.prems" False same Some NSymlink True "2.IH"(4) [OF False place_def Some NSymlink True hops]
            show ?thesis by (simp only: resolveStep.simps Let_def place_def [symmetric] option.case node.case if_True if_False)
          next
            case notFollowed: False
            with "2.prems" False same Some NSymlink "2.IH"(5) [OF False place_def Some NSymlink notFollowed]
            show ?thesis by (simp add: Let_def place_def [symmetric])
          qed
        qed
      qed
    qed
  qed
qed

lemma resolveIn_withFile:
  "resolveIn t asked follow = Inr q \<Longrightarrow> fileOrNothing t p \<Longrightarrow> resolveIn (withNode t p (NFile b now)) asked follow = Inr q"
  by (auto simp: resolveIn_def resolveStep_withFile split: if_splits)

lemma makeStep_frame:
  "makeStep now t asked retried = (r, t') \<Longrightarrow> map_of t' q = map_of t q \<or> (map_of t q = None \<and> map_of t' q = Some (NDirectory now))"
  by (auto simp: makeStep_def refused_def map_of_withNode split: sum.splits if_splits option.splits node.splits)

definition onlyNewDirs :: "tree \<Rightarrow> tree \<Rightarrow> bool" where
  "onlyNewDirs t t' \<longleftrightarrow> (\<forall>q. map_of t' q = map_of t q \<or> (map_of t q = None \<and> dirAt t' q))"

lemma onlyNewDirs_trans: "onlyNewDirs t u \<Longrightarrow> onlyNewDirs u v \<Longrightarrow> onlyNewDirs t v"
  unfolding onlyNewDirs_def dirAt_def opt_exists_iff by (metis option.distinct(1))

lemma makeStep_dirs: "makeStep now t asked retried = (r, t') \<Longrightarrow> onlyNewDirs t t'"
  using makeStep_frame [of now t asked retried r t'] unfolding onlyNewDirs_def dirAt_def opt_exists_iff
  by (metis nodeKind.simps(2))

lemma makeDirectories_dirs: "onlyNewDirs t (snd (makeDirectories now t asked retried))"
proof (induction now t asked retried rule: makeDirectories.induct)
  case (1 now t asked retried)
  obtain r t1 where step: "makeStep now t asked retried = (r, t1)" by fastforce
  then have t1: "onlyNewDirs t t1" by (rule makeStep_dirs)
  show ?case
  proof (cases "r = Inr False")
    case True
    obtain r2 t2 where first: "makeDirectories now t1 (writtenParent asked) False = (r2, t2)" by fastforce
    have t2: "onlyNewDirs t t2"
      using "1.IH"(1) [OF step [symmetric] True] first True t1 onlyNewDirs_trans by fastforce
    show ?thesis
    proof (cases r2)
      case (Inl e)
      with step True first t2 show ?thesis by (subst makeDirectories.simps) simp
    next
      case (Inr u)
      with "1.IH"(2) [OF step [symmetric] True _ first [symmetric] Inr] t2 step True first onlyNewDirs_trans
      show ?thesis by (subst makeDirectories.simps) fastforce
    qed
  next
    case False
    with step t1 show ?thesis by (subst makeDirectories.simps) (auto split: sum.splits bool.splits)
  qed
qed

text \<open>
  A write that succeeds is read back by the same path, byte for byte, and nothing else changed:
  every other node is as it was, but for directories that did not exist and were made for it.
\<close>
theorem written_file_is_read_back:
  assumes wf: "well_formed t" and ok: "putAt now t asked content createParents False = (Inr (), t')"
  shows "\<exists>p. realPath t' asked = Inr p \<and> fileAt t' asked = Inr (bytesOf content)
    \<and> (\<forall>q. q = p \<or> map_of t' q = map_of t q \<or> (map_of t q = None \<and> dirAt t' q))"
proof -
  obtain t1 where t1: "onlyNewDirs t t1" and wf1: "well_formed t1" and put: "putContent now t1 asked content False = (Inr (), t')"
    using ok makeDirectories_dirs [of t now "writtenParent asked" False] makeDirectories_well_formed [OF wf, of now "writtenParent asked" False] wf
    by (auto simp: putAt_def onlyNewDirs_def split: if_splits prod.splits sum.splits)
  from put obtain real where leads: "resolveIn t1 asked True = Inr real" and no_dir: "\<not> dirAt t1 real"
    and t': "t' = withNode t1 real (NFile (bytesOf content) now)"
    by (auto simp: putContent_def refused_def dirAt_def Let_def split: sum.splits if_splits option.splits node.splits)
  have "fileOrNothing t1 real"
    using resolveIn_place(2) [OF wf1 leads] no_dir
    by (auto simp: fileOrNothing_def linkAt_def dirAt_def isLink_def split: option.splits) (metis nodeKind.simps node.exhaust)
  from resolveIn_withFile [OF leads this] have again: "resolveIn t' asked True = Inr real" by (simp add: t')
  then have "realPath t' asked = Inr real" "fileAt t' asked = Inr (bytesOf content)"
    by (simp_all add: realPath_def fileAt_def nodeAt_def t' map_of_withNode)
  moreover have "q = real \<or> map_of t' q = map_of t q \<or> (map_of t q = None \<and> dirAt t' q)" for q
    using t1 by (auto simp: onlyNewDirs_def t' map_of_withNode dirAt_def)
  ultimately show ?thesis by blast
qed

theorem written_file_is_read_back_witness:
  "\<exists>p. realPath (snd (putAt 2 exampleTree ''/w/l/new/c'' (CText ''yo'') True False)) ''/w/l/new/c'' = Inr p
     \<and> fileAt (snd (putAt 2 exampleTree ''/w/l/new/c'' (CText ''yo'') True False)) ''/w/l/new/c'' = Inr (bytesOf (CText ''yo''))
     \<and> (\<forall>q. q = p \<or> map_of (snd (putAt 2 exampleTree ''/w/l/new/c'' (CText ''yo'') True False)) q = map_of exampleTree q
          \<or> (map_of exampleTree q = None \<and> dirAt (snd (putAt 2 exampleTree ''/w/l/new/c'' (CText ''yo'') True False)) q))"
proof (rule written_file_is_read_back)
  show "well_formed exampleTree" by code_simp
  have "fst (putAt 2 exampleTree ''/w/l/new/c'' (CText ''yo'') True False) = Inr ()" by code_simp
  then show "putAt 2 exampleTree ''/w/l/new/c'' (CText ''yo'') True False
      = (Inr (), snd (putAt 2 exampleTree ''/w/l/new/c'' (CText ''yo'') True False))"
    by (metis prod.collapse)
qed

end
