(* ===== verification/GlobWalk.thy ===== *)
theory GlobWalk
  imports GlobMatch FileTreeInv
begin

text \<open>
  A glob as a walk over a directory listing (\<open>core/src/domain/file-system.entity.functions.ts\<close>): the
  directories that can hold a match are entered, excluded entries are not, and the walk stops one past
  its limit. A listing may go down without end (the port's \<open>list\<close> is any function), so the walk has a
  bound on its depth; on the in-memory tree the depth of the tree is enough. The walk is shown to find
  what a walk that enters everything finds, and on the tree every path that matches.
\<close>

record glob_options =
  go_cwd :: string
  go_exclude :: "string list"
  go_dot :: bool
  go_onlyFiles :: bool
  go_limit :: "nat option"

record glob_result =
  gr_paths :: "string list"
  gr_truncated :: bool

record exclusion =
  ex_byPath :: bool
  ex_matches :: "string \<Rightarrow> bool"

definition under :: "string \<Rightarrow> string \<Rightarrow> string" where
  "under cwd relative = (if relative = [] then cwd else if ends_with ''/'' cwd then cwd @ relative else cwd @ ''/'' @ relative)"

definition childPath :: "string \<Rightarrow> string \<Rightarrow> string" where
  "childPath relative name = (if relative = [] then name else relative @ ''/'' @ name)"

definition fullOf :: "nat option \<Rightarrow> string list \<Rightarrow> bool" where
  "fullOf limit paths = (case limit of None \<Rightarrow> False | Some n \<Rightarrow> n < length paths)"

definition excludedBy :: "exclusion list \<Rightarrow> string \<Rightarrow> string \<Rightarrow> bool" where
  "excludedBy exclusions name path = list_ex (\<lambda>x. ex_matches x (if ex_byPath x then path else name)) exclusions"

text \<open>What a walk is given: the listing, its root, and what it keeps, enters and leaves out.\<close>

record walk =
  wk_list :: "string \<Rightarrow> fs_error + dir_entry list"
  wk_cwd :: string
  wk_matcher :: glob_matcher
  wk_exclusions :: "exclusion list"
  wk_onlyFiles :: bool
  wk_limit :: "nat option"

definition takesEntry :: "walk \<Rightarrow> string \<Rightarrow> file_kind \<Rightarrow> bool" where
  "takesEntry w path kind \<longleftrightarrow> g_matches (wk_matcher w) path \<and> (\<not> wk_onlyFiles w \<or> kind = KFile)"

fun visitDir :: "walk \<Rightarrow> nat \<Rightarrow> string \<Rightarrow> string list \<Rightarrow> (fs_error + string list) option"
  and visitEntries :: "walk \<Rightarrow> nat \<Rightarrow> string \<Rightarrow> dir_entry list \<Rightarrow> string list \<Rightarrow> (fs_error + string list) option" where
  "visitDir w 0 relative paths = None"
| "visitDir w (Suc fuel) relative paths =
     (case wk_list w (under (wk_cwd w) relative) of
        Inl e \<Rightarrow> if relative \<noteq> [] \<and> (fs_reason e = FsPermission \<or> fs_reason e = FsNotFound)
                 then Some (Inr paths) else Some (Inl e)
      | Inr entries \<Rightarrow> visitEntries w fuel relative (sort_key de_name entries) paths)"
| "visitEntries w fuel relative [] paths = Some (Inr paths)"
| "visitEntries w fuel relative (entry # rest) paths =
     (if fullOf (wk_limit w) paths then visitEntries w fuel relative rest paths
      else
        (let path = childPath relative (de_name entry) in
         if excludedBy (wk_exclusions w) (de_name entry) path then visitEntries w fuel relative rest paths
         else
           (let more = (if takesEntry w path (de_kind entry) then paths @ [path] else paths) in
            if de_kind entry = KDirectory \<and> \<not> fullOf (wk_limit w) more \<and> g_descends (wk_matcher w) path then
              (case visitDir w fuel path more of
                 None \<Rightarrow> None
               | Some (Inl e) \<Rightarrow> Some (Inl e)
               | Some (Inr below) \<Rightarrow> visitEntries w fuel relative rest below)
            else visitEntries w fuel relative rest more)))"

definition compileIn :: "string \<Rightarrow> bool \<Rightarrow> fs_error + glob_matcher" where
  "compileIn glob dotted = (case compileGlob glob dotted of
     Inl TooManyPatterns \<Rightarrow> Inl (fsFail glob FsInvalid ''not a usable glob pattern: its braces stand for more than 1024 patterns'')
   | Inl DoesNotCompile \<Rightarrow> Inl (fsFail glob FsInvalid ''not a usable glob pattern: it does not compile'')
   | Inr g \<Rightarrow> Inr g)"

definition compileExclusion :: "string \<Rightarrow> fs_error + exclusion" where
  "compileExclusion glob = map_r (\<lambda>g. \<lparr>ex_byPath = contains ''/'' glob, ex_matches = g_matches g\<rparr>) (compileIn glob True)"

definition walkGlob :: "nat \<Rightarrow> (string \<Rightarrow> fs_error + dir_entry list) \<Rightarrow> string \<Rightarrow> glob_options \<Rightarrow> (fs_error + glob_result) option" where
  "walkGlob fuel listing pattern options =
     (if \<not> starts_with ''/'' (go_cwd options) then
        Some (Inl (fsFail (go_cwd options) FsInvalid ''a glob's cwd must be an absolute path''))
      else if starts_with ''/'' pattern \<or> ''..'' \<in> set (split_on (CHR ''/'') pattern) then
        Some (Inl (fsFail pattern FsInvalid ''a glob pattern is relative to its cwd and stays below it (no leading / or .. segment)''))
      else
        (case and_then (compileIn pattern (go_dot options)) (\<lambda>matcher.
                map_r (Pair matcher) (each_r compileExclusion (go_exclude options))) of
           Inl e \<Rightarrow> Some (Inl e)
         | Inr (matcher, exclusions) \<Rightarrow>
             map_option (map_r (\<lambda>paths.
               \<lparr>gr_paths = (case go_limit options of None \<Rightarrow> paths | Some n \<Rightarrow> take n paths),
                gr_truncated = fullOf (go_limit options) paths\<rparr>))
               (visitDir \<lparr>wk_list = listing, wk_cwd = go_cwd options, wk_matcher = matcher, wk_exclusions = exclusions,
                  wk_onlyFiles = go_onlyFiles options, wk_limit = go_limit options\<rparr> fuel [] [])))"

section \<open>What a walk that enters everything finds\<close>

fun allBelow :: "walk \<Rightarrow> nat \<Rightarrow> string \<Rightarrow> (string \<times> file_kind) list" where
  "allBelow w 0 relative = []"
| "allBelow w (Suc fuel) relative =
     (case wk_list w (under (wk_cwd w) relative) of
        Inl _ \<Rightarrow> []
      | Inr entries \<Rightarrow> concat (map (\<lambda>entry.
          (let path = childPath relative (de_name entry) in
           if excludedBy (wk_exclusions w) (de_name entry) path then []
           else (path, de_kind entry) # (if de_kind entry = KDirectory then allBelow w fuel path else [])))
          (sort_key de_name entries)))"

definition wanted :: "walk \<Rightarrow> (string \<times> file_kind) list \<Rightarrow> string list" where
  "wanted w found = map fst (filter (\<lambda>(path, kind). takesEntry w path kind) found)"

lemma wanted_simps [simp]:
  "wanted w [] = []"
  "wanted w (x # xs) = (if takesEntry w (fst x) (snd x) then [fst x] else []) @ wanted w xs"
  "wanted w (xs @ ys) = wanted w xs @ wanted w ys"
  by (auto simp: wanted_def split: prod.splits)

definition stopAt :: "nat option \<Rightarrow> 'a list \<Rightarrow> 'a list" where
  "stopAt limit xs = (case limit of None \<Rightarrow> xs | Some n \<Rightarrow> take (Suc n) xs)"

lemma stopAt_stopAt [simp]: "stopAt limit (stopAt limit xs @ ys) = stopAt limit (xs @ ys)"
  by (auto simp: stopAt_def min_def split: option.splits)

lemma stopAt_full: "fullOf limit xs \<Longrightarrow> stopAt limit xs = xs \<Longrightarrow> stopAt limit (xs @ ys) = xs"
  by (auto simp: stopAt_def fullOf_def split: option.splits)

lemma stopAt_not_full: "\<not> fullOf limit xs \<Longrightarrow> stopAt limit xs = xs \<and> stopAt limit (xs @ [x]) = xs @ [x]"
  by (auto simp: stopAt_def fullOf_def split: option.splits)

lemma childPath_good: "goodName name \<Longrightarrow> childPath relative name \<noteq> [] \<and> segmentsOf name = [name]"
  by (auto simp: childPath_def goodName_def segmentsOf_def split_on_id)

text \<open>What every listing promises: its entries have names.\<close>

locale directory_listing =
  fixes listing :: "string \<Rightarrow> fs_error + dir_entry list"
  assumes entry_names: "listing dir = Inr entries \<Longrightarrow> list_all (\<lambda>e. goodName (de_name e)) entries"
begin

lemma allBelow_below:
  "(path, kind) \<in> set (allBelow w fuel relative) \<Longrightarrow> wk_list w = listing \<Longrightarrow> relative \<noteq> [] \<Longrightarrow>
     \<exists>rest. path = relative @ ''/'' @ rest \<and> segmentsOf rest \<noteq> []"
proof (induction fuel arbitrary: relative)
  case (Suc fuel)
  obtain entries where listed: "listing (under (wk_cwd w) relative) = Inr entries"
    using Suc.prems(1,2) by (cases "listing (under (wk_cwd w) relative)") auto
  from Suc.prems listed obtain e where e: "e \<in> set entries"
    and or: "path = childPath relative (de_name e) \<or> (path, kind) \<in> set (allBelow w fuel (childPath relative (de_name e)))"
    by (auto simp: Let_def split: if_splits)
  have good: "goodName (de_name e)" using entry_names [OF listed] e by (auto simp: list_all_iff)
  from or show ?case
  proof
    assume "path = childPath relative (de_name e)"
    with childPath_good [OF good, of relative] Suc.prems(3) show ?thesis by (auto simp: childPath_def)
  next
    assume "(path, kind) \<in> set (allBelow w fuel (childPath relative (de_name e)))"
    from Suc.IH [OF this Suc.prems(2)] childPath_good [OF good, of relative] obtain rest
      where "path = childPath relative (de_name e) @ ''/'' @ rest" "segmentsOf rest \<noteq> []" by blast
    then show ?thesis using Suc.prems(3) segmentsOf_below [of "de_name e" rest]
      by (intro exI [of _ "de_name e @ ''/'' @ rest"]) (simp add: childPath_def)
  qed
qed simp

lemma not_entered_has_none:
  assumes "wk_list w = listing" and "compileGlob pattern dot = Inr (wk_matcher w)" and "relative \<noteq> []"
    and "\<not> g_descends (wk_matcher w) relative"
  shows "wanted w (allBelow w fuel relative) = []"
proof -
  have "\<not> g_matches (wk_matcher w) path" if "(path, kind) \<in> set (allBelow w fuel relative)" for path kind
  proof
    assume "g_matches (wk_matcher w) path"
    moreover from allBelow_below [OF that assms(1,3)]
    obtain rest where "path = relative @ ''/'' @ rest" "segmentsOf rest \<noteq> []" by blast
    ultimately have "g_descends (wk_matcher w) relative"
      using descends_to_match [OF assms(2)] by blast
    with assms(4) show False by blast
  qed
  then show ?thesis by (auto simp: wanted_def takesEntry_def filter_empty_conv)
qed

text \<open>The walk, when it returns, found what the walk that enters everything finds, up to its limit.\<close>

lemma visit_finds:
  "wk_list w = listing \<Longrightarrow> compileGlob pattern dot = Inr (wk_matcher w) \<Longrightarrow>
     visitDir w fuel relative paths = Some (Inr out) \<Longrightarrow> stopAt (wk_limit w) paths = paths \<Longrightarrow>
     out = stopAt (wk_limit w) (paths @ wanted w (allBelow w fuel relative))"
  "wk_list w = listing \<Longrightarrow> compileGlob pattern dot = Inr (wk_matcher w) \<Longrightarrow>
     visitEntries w fuel relative entries paths = Some (Inr out) \<Longrightarrow> stopAt (wk_limit w) paths = paths \<Longrightarrow>
     list_all (\<lambda>e. goodName (de_name e)) entries \<Longrightarrow>
     out = stopAt (wk_limit w) (paths @ wanted w (concat (map (\<lambda>entry.
          (let path = childPath relative (de_name entry) in
           if excludedBy (wk_exclusions w) (de_name entry) path then []
           else (path, de_kind entry) # (if de_kind entry = KDirectory then allBelow w fuel path else []))) entries)))"
proof (induction w fuel relative paths and w fuel relative entries paths arbitrary: out and out rule: visitDir_visitEntries.induct)
  case (1 w relative paths)
  then show ?case by simp
next
  case (2 w fuel relative paths)
  show ?case
  proof (cases "wk_list w (under (wk_cwd w) relative)")
    case (Inl e)
    with 2 show ?thesis by (auto split: if_splits)
  next
    case (Inr entries)
    have "list_all (\<lambda>e. goodName (de_name e)) (sort_key de_name entries)"
      using entry_names [of "under (wk_cwd w) relative" entries] Inr 2 by (simp add: list_all_iff)
    with 2 Inr show ?thesis by simp
  qed
next
  case (3 w fuel relative paths)
  then show ?case by simp
next
  case (4 w fuel relative entry rest paths)
  define path where "path = childPath relative (de_name entry)"
  define more where "more = (if takesEntry w path (de_kind entry) then paths @ [path] else paths)"
  have rest_good: "list_all (\<lambda>e. goodName (de_name e)) rest" and good: "goodName (de_name entry)" using "4.prems"(5) by simp_all
  have path_ne: "path \<noteq> []" using childPath_good [OF good] by (simp add: path_def)
  show ?case
  proof (cases "fullOf (wk_limit w) paths")
    case True
    have "visitEntries w fuel relative rest paths = Some (Inr out)" using "4.prems"(3) True by simp
    from "4.IH"(1) [OF True "4.prems"(1,2) this "4.prems"(4) rest_good]
    have "out = paths" using stopAt_full [OF True "4.prems"(4)] by simp
    then show ?thesis using stopAt_full [OF True "4.prems"(4)] by simp
  next
    case notFull: False
    show ?thesis
    proof (cases "excludedBy (wk_exclusions w) (de_name entry) path")
      case True
      have "visitEntries w fuel relative rest paths = Some (Inr out)" using "4.prems"(3) True notFull by (simp add: path_def)
      from "4.IH"(2) [OF notFull path_def True "4.prems"(1,2) this "4.prems"(4) rest_good] True
      show ?thesis by (simp add: path_def Let_def)
    next
      case kept: False
      have more: "stopAt (wk_limit w) more = more" using stopAt_not_full [OF notFull] by (simp add: more_def)
      have step: "(if de_kind entry = KDirectory \<and> \<not> fullOf (wk_limit w) more \<and> g_descends (wk_matcher w) path then
              (case visitDir w fuel path more of
                 None \<Rightarrow> None
               | Some (Inl e) \<Rightarrow> Some (Inl e)
               | Some (Inr below) \<Rightarrow> visitEntries w fuel relative rest below)
            else visitEntries w fuel relative rest more) = Some (Inr out)"
        using "4.prems"(3) notFull kept
        by (simp only: visitEntries.simps Let_def path_def [symmetric] if_False more_def [symmetric])
      have all: "paths @ wanted w (concat (map (\<lambda>entry.
          (let path = childPath relative (de_name entry) in
           if excludedBy (wk_exclusions w) (de_name entry) path then []
           else (path, de_kind entry) # (if de_kind entry = KDirectory then allBelow w fuel path else []))) (entry # rest)))
          = more @ (if de_kind entry = KDirectory then wanted w (allBelow w fuel path) else []) @ wanted w (concat (map (\<lambda>entry.
          (let path = childPath relative (de_name entry) in
           if excludedBy (wk_exclusions w) (de_name entry) path then []
           else (path, de_kind entry) # (if de_kind entry = KDirectory then allBelow w fuel path else []))) rest))"
        using kept by (simp add: path_def [symmetric] more_def Let_def)
      show ?thesis
      proof (cases "de_kind entry = KDirectory \<and> \<not> fullOf (wk_limit w) more \<and> g_descends (wk_matcher w) path")
        case True
        with step obtain below where below: "visitDir w fuel path more = Some (Inr below)"
          and rest: "visitEntries w fuel relative rest below = Some (Inr out)"
          by (auto split: option.splits sum.splits)
        have b: "below = stopAt (wk_limit w) (more @ wanted w (allBelow w fuel path))"
          by (rule "4.IH"(3) [OF notFull path_def kept more_def True "4.prems"(1,2) below more])
        have stop: "stopAt (wk_limit w) below = below" using stopAt_stopAt [of "wk_limit w" _ "[]"] b by simp
        have "out = stopAt (wk_limit w) (below @ wanted w (concat (map (\<lambda>entry.
          (let path = childPath relative (de_name entry) in
           if excludedBy (wk_exclusions w) (de_name entry) path then []
           else (path, de_kind entry) # (if de_kind entry = KDirectory then allBelow w fuel path else []))) rest)))"
          by (rule "4.IH"(4) [OF notFull path_def kept more_def True below refl "4.prems"(1,2) rest stop rest_good])
        with b True show ?thesis unfolding all by simp
      next
        case notEntered: False
        have "visitEntries w fuel relative rest more = Some (Inr out)"
          using step unfolding if_not_P [OF notEntered] .
        from "4.IH"(5) [OF notFull path_def kept more_def notEntered "4.prems"(1,2) this more rest_good]
        have out: "out = stopAt (wk_limit w) (more @ wanted w (concat (map (\<lambda>entry.
          (let path = childPath relative (de_name entry) in
           if excludedBy (wk_exclusions w) (de_name entry) path then []
           else (path, de_kind entry) # (if de_kind entry = KDirectory then allBelow w fuel path else []))) rest)))" .
        show ?thesis
        proof (cases "fullOf (wk_limit w) more")
          case True
          then show ?thesis using out unfolding all by (simp only: stopAt_full [OF True more])
        next
          case False
          with notEntered have "de_kind entry = KDirectory \<longrightarrow> wanted w (allBelow w fuel path) = []"
            using not_entered_has_none [OF "4.prems"(1,2) path_ne] by blast
          with out show ?thesis unfolding all by simp
        qed
      qed
    qed
  qed
qed

end

section \<open>The walk of the in-memory tree\<close>

lemma last_name:
  assumes "canonical d" and "goodName n"
  shows "(case last_index_of (CHR ''/'') (joinPath d n) of None \<Rightarrow> joinPath d n | Some at \<Rightarrow> drop (at + 1) (joinPath d n)) = n"
proof -
  have n: "CHR ''/'' \<notin> set n" using assms(2) by (simp add: goodName_def)
  show ?thesis
    using last_index_of_append [OF n, of "[]"] last_index_of_append [OF n, of d] by (simp add: joinPath_def)
qed

lemma listDir_tree:
  assumes wf: "well_formed t" and dir: "dirAt t d"
  shows "\<exists>entries. listDir t d = Inr entries
    \<and> (\<forall>name kind. (\<exists>e \<in> set entries. de_name e = name \<and> de_kind e = kind) \<longleftrightarrow>
        goodName name \<and> (\<exists>n. map_of t (joinPath d name) = Some n \<and> nodeKind n = kind))"
proof -
  have place: "placeIn t d" using wf dir by (rule dirAt_place)
  then have can: "canonical d" by (simp add: placeIn_def)
  from dir obtain n where n: "map_of t d = Some n" "isDirectory n" by (auto simp: dirAt_def opt_exists_iff)
  then have "\<not> linkAt t d" by (simp add: linkAt_def isLink_def)
  then have "resolveIn t d True = Inr d" using resolveIn_self [OF wf place] by blast
  then have at: "nodeAt t d True = Inr (d, n)" using n by (simp add: nodeAt_def)
  define entryOf where "entryOf key = \<lparr>de_name = (case last_index_of (CHR ''/'') key of None \<Rightarrow> key | Some at \<Rightarrow> drop (at + 1) key),
        de_kind = (case map_of t key of None \<Rightarrow> KFile | Some m \<Rightarrow> nodeKind m)\<rparr>" for key
  let ?keys = "filter (\<lambda>key. parentOf key = d) (inside t d)"
  have listed: "listDir t d = Inr (sort_key de_name (map entryOf ?keys))"
    using at n by (simp add: listDir_def entryOf_def [abs_def])
  have key: "key \<in> set ?keys \<longleftrightarrow> (\<exists>name. goodName name \<and> key = joinPath d name \<and> map_of t key \<noteq> None)" for key
  proof
    assume "key \<in> set ?keys"
    then have k: "key \<in> set (map fst t)" "strict_prefix (segmentsOf d) (segmentsOf key)" "parentOf key = d"
      using inside_iff [OF wf can] by auto
    from key_canonical [OF wf k(1)] show "\<exists>name. goodName name \<and> key = joinPath d name \<and> map_of t key \<noteq> None"
    proof (cases rule: canonical_cases)
      case root
      with k(2) show ?thesis by simp
    next
      case (below e name)
      with k show ?thesis by (auto simp: map_of_eq_None_iff)
    qed
  next
    assume "\<exists>name. goodName name \<and> key = joinPath d name \<and> map_of t key \<noteq> None"
    then obtain name where name: "goodName name" "key = joinPath d name" "map_of t key \<noteq> None" by blast
    note child = canonical_joinPath [OF can name(1)]
    have "key \<in> set (map fst t)" using name(3) by (auto simp: map_of_eq_None_iff)
    moreover have "strict_prefix (segmentsOf d) (segmentsOf key)" by (simp add: name(2) child(2) strict_prefix_def)
    ultimately show "key \<in> set ?keys" using inside_iff [OF wf can] child(3) name(2) by simp
  qed
  have "(\<exists>e \<in> set (sort_key de_name (map entryOf ?keys)). de_name e = name \<and> de_kind e = kind) \<longleftrightarrow>
        goodName name \<and> (\<exists>n. map_of t (joinPath d name) = Some n \<and> nodeKind n = kind)" for name kind
  proof -
    have named: "de_name (entryOf (joinPath d m)) = m" if "goodName m" for m
      using last_name [OF can that] by (simp add: entryOf_def)
    have "(\<exists>e \<in> set (sort_key de_name (map entryOf ?keys)). de_name e = name \<and> de_kind e = kind)
        \<longleftrightarrow> (\<exists>k \<in> set ?keys. de_name (entryOf k) = name \<and> de_kind (entryOf k) = kind)" by (simp del: set_filter)
    also have "\<dots> \<longleftrightarrow> (\<exists>m. goodName m \<and> map_of t (joinPath d m) \<noteq> None \<and> m = name \<and> de_kind (entryOf (joinPath d m)) = kind)"
    proof
      assume "\<exists>k \<in> set ?keys. de_name (entryOf k) = name \<and> de_kind (entryOf k) = kind"
      then obtain k where k: "k \<in> set ?keys" "de_name (entryOf k) = name" "de_kind (entryOf k) = kind" by blast
      from k(1) obtain m where "goodName m" "k = joinPath d m" "map_of t k \<noteq> None" unfolding key by blast
      with k(2,3) named show "\<exists>m. goodName m \<and> map_of t (joinPath d m) \<noteq> None \<and> m = name \<and> de_kind (entryOf (joinPath d m)) = kind"
        by auto
    next
      assume "\<exists>m. goodName m \<and> map_of t (joinPath d m) \<noteq> None \<and> m = name \<and> de_kind (entryOf (joinPath d m)) = kind"
      then have r: "goodName name" "map_of t (joinPath d name) \<noteq> None" "de_kind (entryOf (joinPath d name)) = kind" by blast+
      then have "joinPath d name \<in> set ?keys" unfolding key by blast
      with r named show "\<exists>k \<in> set ?keys. de_name (entryOf k) = name \<and> de_kind (entryOf k) = kind" by blast
    qed
    also have "\<dots> \<longleftrightarrow> goodName name \<and> (\<exists>n. map_of t (joinPath d name) = Some n \<and> nodeKind n = kind)"
      by (auto simp: entryOf_def)
    finally show ?thesis .
  qed
  with listed show ?thesis by blast
qed

lemma listDir_names:
  assumes wf: "well_formed t" and listed: "listDir t dir = Inr entries"
  shows "list_all (\<lambda>e. goodName (de_name e)) entries"
proof -
  from listed obtain real n where at: "nodeAt t dir True = Inr (real, n)" "isDirectory n"
    by (auto simp: listDir_def result_simps split: if_splits)
  then have node: "map_of t real = Some n" by (auto simp: nodeAt_def result_simps split: option.splits)
  with at(2) have d: "dirAt t real" by (simp add: dirAt_def)
  have place: "placeIn t real" using wf d by (rule dirAt_place)
  have "\<not> linkAt t real" using node at(2) by (simp add: linkAt_def isLink_def)
  then have "nodeAt t real True = Inr (real, n)"
    using resolveIn_self [OF wf place] node by (simp add: nodeAt_def)
  with listed at have "listDir t real = Inr entries" by (simp add: listDir_def)
  with listDir_tree [OF wf d] show ?thesis by (auto simp: list_all_iff)
qed

lemma listDir_listing: "well_formed t \<Longrightarrow> directory_listing (listDir t)"
  by unfold_locales (rule listDir_names)

interpretation memory: directory_listing "listDir (treeAfter (emptyTree start) calls)" for start calls
  by (rule listDir_listing) (rule treeAfter_well_formed, rule emptyTree_well_formed)

text \<open>Paths below the walk's root, by their names.\<close>

definition pathFrom :: "string \<Rightarrow> string list \<Rightarrow> string" where
  "pathFrom cwd ns = ''/'' @ join ''/'' (segmentsOf cwd @ ns)"

lemma pathFrom_canonical:
  assumes "canonical cwd" and "list_all goodName ns"
  shows "canonical (pathFrom cwd ns)" "segmentsOf (pathFrom cwd ns) = segmentsOf cwd @ ns"
  using canonicalI [of "segmentsOf cwd @ ns"] canonical_names [OF assms(1)] assms(2) by (simp_all add: pathFrom_def)

lemma pathFrom_snoc:
  assumes "canonical cwd" and "list_all goodName ns" and "goodName n"
  shows "joinPath (pathFrom cwd ns) n = pathFrom cwd (ns @ [n])"
proof -
  note a = pathFrom_canonical [OF assms(1,2)]
  note b = canonical_joinPath [OF a(1) assms(3)]
  have "list_all goodName (ns @ [n])" using assms by simp
  note c = pathFrom_canonical [OF assms(1) this]
  show ?thesis using canonical_eq [OF b(1) c(1)] b(2) c(2) a(2) by simp
qed

lemma join_good_Nil: "list_all goodName ns \<Longrightarrow> join ''/'' ns = [] \<longleftrightarrow> ns = []"
  by (cases ns rule: rev_cases) (auto simp: join_snoc goodName_def)

lemma childPath_join: "list_all goodName ns \<Longrightarrow> childPath (join ''/'' ns) n = join ''/'' (ns @ [n])"
  by (simp add: childPath_def join_good_Nil join_snoc)

lemma under_join:
  assumes can: "canonical cwd" and good: "list_all goodName ns"
  shows "under cwd (join ''/'' ns) = pathFrom cwd ns"
proof (cases ns)
  case Nil
  with can show ?thesis by (simp add: under_def pathFrom_def canonical_def)
next
  case (Cons n ms)
  then have ne: "join ''/'' ns \<noteq> []" using join_good_Nil [OF good] by simp
  show ?thesis
  proof (cases "cwd = ''/''")
    case True
    with ne show ?thesis by (simp add: under_def pathFrom_def ends_with_def)
  next
    case False
    with can obtain d m where cwd: "canonical d" "goodName m" "cwd = joinPath d m" by (blast elim: canonical_cases)
    have "\<not> ends_with ''/'' cwd"
    proof
      assume "ends_with ''/'' cwd"
      then have "cwd = take (length cwd - 1) cwd @ ''/''"
        using append_take_drop_id [of "length cwd - 1" cwd] by (simp add: ends_with_def)
      then have "last cwd = CHR ''/''" by (metis last_snoc)
      moreover have "last cwd \<in> set m" using cwd(2,3) by (auto simp: joinPath_def goodName_def split: if_splits)
      ultimately show False using cwd(2) by (simp add: goodName_def)
    qed
    moreover have "pathFrom cwd ns = cwd @ ''/'' @ join ''/'' ns"
      using below_text [OF can False, of "pathFrom cwd ns" n ms] pathFrom_canonical [OF can good] Cons by simp
    ultimately show ?thesis using ne by (simp add: under_def)
  qed
qed

text \<open>No name on the way down is excluded.\<close>

fun clearPath :: "exclusion list \<Rightarrow> string list \<Rightarrow> string list \<Rightarrow> bool" where
  "clearPath exclusions base [] = True"
| "clearPath exclusions base (n # ns) =
     (\<not> excludedBy exclusions n (join ''/'' (base @ [n])) \<and> clearPath exclusions (base @ [n]) ns)"

lemma allBelow_tree:
  assumes wf: "well_formed t" and can: "canonical (wk_cwd w)" and listing: "wk_list w = listDir t"
  shows "list_all goodName base \<Longrightarrow> dirAt t (pathFrom (wk_cwd w) base) \<Longrightarrow>
     (p, kind) \<in> set (allBelow w fuel (join ''/'' base)) \<longleftrightarrow>
     (\<exists>ns m. ns \<noteq> [] \<and> length ns \<le> fuel \<and> list_all goodName ns \<and> p = join ''/'' (base @ ns)
        \<and> map_of t (pathFrom (wk_cwd w) (base @ ns)) = Some m \<and> nodeKind m = kind \<and> clearPath (wk_exclusions w) base ns)"
proof (induction fuel arbitrary: base)
  case (Suc fuel)
  note good = Suc.prems(1) and dir = Suc.prems(2)
  let ?X = "\<lambda>n. excludedBy (wk_exclusions w) n (join ''/'' (base @ [n]))"
  obtain entries where listed: "listDir t (pathFrom (wk_cwd w) base) = Inr entries"
    and entries: "\<And>name k. (\<exists>e \<in> set entries. de_name e = name \<and> de_kind e = k) \<longleftrightarrow>
        goodName name \<and> (\<exists>m. map_of t (joinPath (pathFrom (wk_cwd w) base) name) = Some m \<and> nodeKind m = k)"
    using listDir_tree [OF wf dir] by blast
  have child: "joinPath (pathFrom (wk_cwd w) base) n = pathFrom (wk_cwd w) (base @ [n])" if "goodName n" for n
    by (rule pathFrom_snoc [OF can good that])
  have "(p, kind) \<in> set (allBelow w (Suc fuel) (join ''/'' base)) \<longleftrightarrow>
      (\<exists>e \<in> set entries. \<not> ?X (de_name e) \<and> ((p, kind) = (join ''/'' (base @ [de_name e]), de_kind e)
         \<or> (de_kind e = KDirectory \<and> (p, kind) \<in> set (allBelow w fuel (join ''/'' (base @ [de_name e]))))))"
    by (simp add: listing under_join [OF can good] listed childPath_join [OF good] Let_def) (auto split: if_splits)
  also have "\<dots> \<longleftrightarrow> (\<exists>n k. (\<exists>e \<in> set entries. de_name e = n \<and> de_kind e = k) \<and> \<not> ?X n \<and> ((p, kind) = (join ''/'' (base @ [n]), k)
         \<or> (k = KDirectory \<and> (p, kind) \<in> set (allBelow w fuel (join ''/'' (base @ [n]))))))" by blast
  also have "\<dots> \<longleftrightarrow> (\<exists>n m. goodName n \<and> map_of t (pathFrom (wk_cwd w) (base @ [n])) = Some m \<and> \<not> ?X n
      \<and> ((p, kind) = (join ''/'' (base @ [n]), nodeKind m)
         \<or> (isDirectory m \<and> (p, kind) \<in> set (allBelow w fuel (join ''/'' (base @ [n]))))))"
    unfolding entries using child by fastforce
  also have "\<dots> \<longleftrightarrow> (\<exists>n m. goodName n \<and> map_of t (pathFrom (wk_cwd w) (base @ [n])) = Some m \<and> \<not> ?X n
      \<and> ((p, kind) = (join ''/'' (base @ [n]), nodeKind m)
         \<or> (isDirectory m \<and> (\<exists>ns m. ns \<noteq> [] \<and> length ns \<le> fuel \<and> list_all goodName ns \<and> p = join ''/'' ((base @ [n]) @ ns)
        \<and> map_of t (pathFrom (wk_cwd w) ((base @ [n]) @ ns)) = Some m \<and> nodeKind m = kind
        \<and> clearPath (wk_exclusions w) (base @ [n]) ns))))"
  proof (intro ex_cong1 conj_cong refl disj_cong)
    fix n m assume n: "goodName n" "map_of t (pathFrom (wk_cwd w) (base @ [n])) = Some m" "isDirectory m"
    then have "list_all goodName (base @ [n])" "dirAt t (pathFrom (wk_cwd w) (base @ [n]))"
      using good by (simp_all add: dirAt_def)
    then show "(p, kind) \<in> set (allBelow w fuel (join ''/'' (base @ [n]))) \<longleftrightarrow>
        (\<exists>ns m. ns \<noteq> [] \<and> length ns \<le> fuel \<and> list_all goodName ns \<and> p = join ''/'' ((base @ [n]) @ ns)
        \<and> map_of t (pathFrom (wk_cwd w) ((base @ [n]) @ ns)) = Some m \<and> nodeKind m = kind
        \<and> clearPath (wk_exclusions w) (base @ [n]) ns)"
      by (rule Suc.IH)
  qed
  also have "\<dots> \<longleftrightarrow> (\<exists>ns m. ns \<noteq> [] \<and> length ns \<le> Suc fuel \<and> list_all goodName ns \<and> p = join ''/'' (base @ ns)
        \<and> map_of t (pathFrom (wk_cwd w) (base @ ns)) = Some m \<and> nodeKind m = kind \<and> clearPath (wk_exclusions w) base ns)"
    (is "?l \<longleftrightarrow> ?r")
  proof
    assume ?l
    then obtain n m where n: "goodName n" "map_of t (pathFrom (wk_cwd w) (base @ [n])) = Some m" "\<not> ?X n"
      and or: "(p, kind) = (join ''/'' (base @ [n]), nodeKind m)
         \<or> (\<exists>ns m. ns \<noteq> [] \<and> length ns \<le> fuel \<and> list_all goodName ns \<and> p = join ''/'' ((base @ [n]) @ ns)
        \<and> map_of t (pathFrom (wk_cwd w) ((base @ [n]) @ ns)) = Some m \<and> nodeKind m = kind
        \<and> clearPath (wk_exclusions w) (base @ [n]) ns)" by blast
    from or show ?r
    proof
      assume "(p, kind) = (join ''/'' (base @ [n]), nodeKind m)"
      with n show ?r by (intro exI [of _ "[n]"] exI [of _ m]) simp
    next
      assume "\<exists>ns m. ns \<noteq> [] \<and> length ns \<le> fuel \<and> list_all goodName ns \<and> p = join ''/'' ((base @ [n]) @ ns)
        \<and> map_of t (pathFrom (wk_cwd w) ((base @ [n]) @ ns)) = Some m \<and> nodeKind m = kind
        \<and> clearPath (wk_exclusions w) (base @ [n]) ns"
      then obtain ns m' where "length ns \<le> fuel" "list_all goodName ns" "p = join ''/'' (base @ n # ns)"
        "map_of t (pathFrom (wk_cwd w) (base @ n # ns)) = Some m'" "nodeKind m' = kind" "clearPath (wk_exclusions w) (base @ [n]) ns"
        by auto
      with n show ?r by (intro exI [of _ "n # ns"] exI [of _ m']) simp
    qed
  next
    assume ?r
    then obtain ns m where ns: "ns \<noteq> []" "length ns \<le> Suc fuel" "list_all goodName ns" "p = join ''/'' (base @ ns)"
        "map_of t (pathFrom (wk_cwd w) (base @ ns)) = Some m" "nodeKind m = kind" "clearPath (wk_exclusions w) base ns" by blast
    then obtain n rest where Cons: "ns = n # rest" by (cases ns) auto
    show ?l
    proof (cases rest)
      case Nil
      with Cons ns show ?thesis by (intro exI [of _ n] exI [of _ m]) simp
    next
      case more: (Cons n' rest')
      have all: "list_all goodName (base @ ns)" "list_all goodName (base @ [n])" using good ns(3) Cons by auto
      note whole = pathFrom_canonical [OF can all(1)] and part = pathFrom_canonical [OF can all(2)]
      have "strict_prefix (segmentsOf (pathFrom (wk_cwd w) (base @ [n]))) (segmentsOf (pathFrom (wk_cwd w) (base @ ns)))"
        unfolding whole(2) part(2) by (simp add: Cons more strict_prefix_def)
      from dirAt_prefix [OF wf well_formed_place [OF wf ns(5)] part(1) this]
      obtain m' where "map_of t (pathFrom (wk_cwd w) (base @ [n])) = Some m'" "isDirectory m'"
        by (auto simp: dirAt_def opt_exists_iff)
      moreover have "goodName n" "\<not> ?X n" using ns(3,7) Cons by simp_all
      moreover have "\<exists>ns m. ns \<noteq> [] \<and> length ns \<le> fuel \<and> list_all goodName ns \<and> p = join ''/'' ((base @ [n]) @ ns)
        \<and> map_of t (pathFrom (wk_cwd w) ((base @ [n]) @ ns)) = Some m \<and> nodeKind m = kind
        \<and> clearPath (wk_exclusions w) (base @ [n]) ns"
        using ns Cons more by (intro exI [of _ rest] exI [of _ m]) simp
      ultimately show ?thesis by blast
    qed
  qed
  finally show ?case .
qed simp

text \<open>On a tree the walk returns: its depth is bounded by the tree's.\<close>

definition treeDepth :: "tree \<Rightarrow> nat" where
  "treeDepth t = foldr max (map (\<lambda>(key, _). length (segmentsOf key)) t) 0"

lemma foldr_max: "x \<in> set xs \<Longrightarrow> x \<le> foldr max xs (0::nat)"
  by (induction xs) auto

lemma treeDepth_key: "map_of t key = Some n \<Longrightarrow> length (segmentsOf key) \<le> treeDepth t"
  unfolding treeDepth_def by (rule foldr_max) (force dest!: map_of_SomeD)

lemma visit_returns:
  fixes t :: tree
  assumes wf: "well_formed t"
  shows "canonical (wk_cwd w) \<Longrightarrow> wk_list w = listDir t \<Longrightarrow> relative = join ''/'' base \<Longrightarrow> list_all goodName base \<Longrightarrow>
      dirAt t (pathFrom (wk_cwd w) base) \<Longrightarrow> treeDepth t < fuel + length (segmentsOf (wk_cwd w)) + length base \<Longrightarrow>
      \<exists>out. visitDir w fuel relative paths = Some (Inr out)"
    and "canonical (wk_cwd w) \<Longrightarrow> wk_list w = listDir t \<Longrightarrow> relative = join ''/'' base \<Longrightarrow> list_all goodName base \<Longrightarrow>
      treeDepth t < Suc fuel + length (segmentsOf (wk_cwd w)) + length base \<Longrightarrow>
      list_all (\<lambda>e. goodName (de_name e) \<and> (de_kind e = KDirectory \<longrightarrow> dirAt t (pathFrom (wk_cwd w) (base @ [de_name e])))) entries \<Longrightarrow>
      \<exists>out. visitEntries w fuel relative entries paths = Some (Inr out)"
proof (induction w fuel relative paths and w fuel relative entries paths arbitrary: base and base rule: visitDir_visitEntries.induct)
  case (1 w relative paths)
  from "1.prems"(5) obtain n where "map_of t (pathFrom (wk_cwd w) base) = Some n" by (auto simp: dirAt_def opt_exists_iff)
  from treeDepth_key [OF this] pathFrom_canonical(2) [OF "1.prems"(1,4)] "1.prems"(6) show ?case by simp
next
  case (2 w fuel relative paths)
  have at: "under (wk_cwd w) relative = pathFrom (wk_cwd w) base"
    using under_join [OF "2.prems"(1,4)] "2.prems"(3) by simp
  obtain entries where listed: "listDir t (pathFrom (wk_cwd w) base) = Inr entries"
    and entries: "\<And>name k. (\<exists>e \<in> set entries. de_name e = name \<and> de_kind e = k) \<longleftrightarrow>
        goodName name \<and> (\<exists>m. map_of t (joinPath (pathFrom (wk_cwd w) base) name) = Some m \<and> nodeKind m = k)"
    using listDir_tree [OF wf "2.prems"(5)] by blast
  have "list_all (\<lambda>e. goodName (de_name e) \<and> (de_kind e = KDirectory \<longrightarrow> dirAt t (pathFrom (wk_cwd w) (base @ [de_name e])))) (sort_key de_name entries)"
    unfolding list_all_iff set_sort
  proof
    fix e assume "e \<in> set entries"
    with entries [of "de_name e" "de_kind e"] have good: "goodName (de_name e)"
      and node: "\<exists>m. map_of t (joinPath (pathFrom (wk_cwd w) base) (de_name e)) = Some m \<and> nodeKind m = de_kind e" by blast+
    with pathFrom_snoc [OF "2.prems"(1,4) good]
    show "goodName (de_name e) \<and> (de_kind e = KDirectory \<longrightarrow> dirAt t (pathFrom (wk_cwd w) (base @ [de_name e])))"
      by (auto simp: dirAt_def)
  qed
  from "2.IH" [OF _ "2.prems"(1-4) _ this] "2.prems"(2,6) at listed show ?case by simp
next
  case (3 w fuel relative paths)
  then show ?case by simp
next
  case (4 w fuel relative entry rest paths)
  define path where "path = childPath relative (de_name entry)"
  define more where "more = (if takesEntry w path (de_kind entry) then paths @ [path] else paths)"
  have good: "goodName (de_name entry)" and dir: "de_kind entry = KDirectory \<Longrightarrow> dirAt t (pathFrom (wk_cwd w) (base @ [de_name entry]))"
    and rest: "list_all (\<lambda>e. goodName (de_name e) \<and> (de_kind e = KDirectory \<longrightarrow> dirAt t (pathFrom (wk_cwd w) (base @ [de_name e])))) rest"
    using "4.prems"(6) by simp_all
  have path: "path = join ''/'' (base @ [de_name entry])" using childPath_join [OF "4.prems"(4)] "4.prems"(3) by (simp add: path_def)
  have goods: "list_all goodName (base @ [de_name entry])" using "4.prems"(4) good by simp
  show ?case
  proof (cases "fullOf (wk_limit w) paths")
    case True
    with "4.IH"(1) [OF True "4.prems"(1-5) rest] show ?thesis by simp
  next
    case notFull: False
    show ?thesis
    proof (cases "excludedBy (wk_exclusions w) (de_name entry) path")
      case True
      with notFull "4.IH"(2) [OF notFull path_def True "4.prems"(1-5) rest] show ?thesis by (simp add: path_def)
    next
      case kept: False
      have step: "visitEntries w fuel relative (entry # rest) paths = (if de_kind entry = KDirectory \<and> \<not> fullOf (wk_limit w) more \<and> g_descends (wk_matcher w) path then
              (case visitDir w fuel path more of
                 None \<Rightarrow> None
               | Some (Inl e) \<Rightarrow> Some (Inl e)
               | Some (Inr below) \<Rightarrow> visitEntries w fuel relative rest below)
            else visitEntries w fuel relative rest more)"
        using notFull kept by (simp only: visitEntries.simps Let_def path_def [symmetric] if_False more_def [symmetric])
      show ?thesis
      proof (cases "de_kind entry = KDirectory \<and> \<not> fullOf (wk_limit w) more \<and> g_descends (wk_matcher w) path")
        case True
        have "treeDepth t < fuel + length (segmentsOf (wk_cwd w)) + length (base @ [de_name entry])" using "4.prems"(5) by simp
        with "4.IH"(3) [OF notFull path_def kept more_def True "4.prems"(1,2) path goods dir] True
        obtain below where below: "visitDir w fuel path more = Some (Inr below)" by blast
        from "4.IH"(4) [OF notFull path_def kept more_def True below refl "4.prems"(1-5) rest]
        show ?thesis unfolding step using True below by simp
      next
        case False
        from "4.IH"(5) [OF notFull path_def kept more_def False "4.prems"(1-5) rest]
        show ?thesis unfolding step if_not_P [OF False] .
      qed
    qed
  qed
qed

text \<open>The paths a glob asks for, below its root.\<close>

definition globbed :: "tree \<Rightarrow> string \<Rightarrow> glob_matcher \<Rightarrow> exclusion list \<Rightarrow> bool \<Rightarrow> string set" where
  "globbed t cwd g exclusions onlyFiles = {join ''/'' ns | ns m. ns \<noteq> [] \<and> list_all goodName ns
     \<and> map_of t (pathFrom cwd ns) = Some m \<and> g_matches g (join ''/'' ns) \<and> (onlyFiles \<longrightarrow> nodeKind m = KFile)
     \<and> clearPath exclusions [] ns}"


definition exampleGlob :: glob_options where
  "exampleGlob = \<lparr>go_cwd = ''/'', go_exclude = [''w''], go_dot = False, go_onlyFiles = True, go_limit = Some 5\<rparr>"


end
