(* ===== verification/WorkspacePaths.thy ===== *)
theory WorkspacePaths
  imports GlobWalk
begin

text \<open>
  Where a workspace tool may act (\<open>plugin-workspace/src/workspace-path.entity.functions.ts\<close>): the roots
  of a call, a path resolved and confined to them, which root decides access, the globs that protect
  files, and the exclusions of a walk from a directory. The path functions are Effect's \<open>Path\<close> and the
  file system is the port: functions of the records \<open>path_api\<close> and \<open>fs_reads\<close>, as they answer while one
  call runs. A text is its code points, one \<open>char\<close> each, so normalization to NFC leaves it as it is.
\<close>

section \<open>Data\<close>

record tool_failure =
  tf_error :: string
  tf_message :: string

definition toolFailure :: "string \<Rightarrow> string \<Rightarrow> tool_failure" where
  "toolFailure error message = \<lparr>tf_error = error, tf_message = message\<rparr>"

datatype access_mode = ReadAccess | WriteAccess

record allowed_root =
  ar_root :: string
  ar_lexical :: string
  ar_access :: access_mode

record workspace_allowed_root =
  wr_path :: string
  wr_access :: access_mode

record workspace_target =
  wt_path :: string
  wt_display :: string

record path_api =
  pa_resolve :: "string list \<Rightarrow> string"
  pa_relative :: "string \<Rightarrow> string \<Rightarrow> string"
  pa_dirname :: "string \<Rightarrow> string"
  pa_basename :: "string \<Rightarrow> string"
  pa_join :: "string \<Rightarrow> string \<Rightarrow> string"

record fs_reads =
  fr_realPath :: "string \<Rightarrow> fs_error + string"
  fr_stat :: "string \<Rightarrow> bool \<Rightarrow> fs_error + file_info"

record workspace_access =
  wa_root :: string
  wa_lexical :: string
  wa_roots :: "allowed_root list"
  wa_fs :: fs_reads
  wa_api :: path_api

section \<open>Failures in words\<close>

fun reasonFailure :: "fs_reason \<Rightarrow> string \<Rightarrow> tool_failure" where
  "reasonFailure FsNotFound display = toolFailure ''NotFound'' (display @ '' does not exist'')"
| "reasonFailure FsExists display = toolFailure ''AlreadyExists''
     (display @ '' already exists, and the file system would not replace it; give another path'')"
| "reasonFailure FsIsDirectory display = toolFailure ''IsDirectory'' (display @ '' is a directory; give the path of a file'')"
| "reasonFailure FsNotDirectory display = toolFailure ''NotDirectory''
     (display @ '' is not a directory, or a part of the path before it is a file'')"
| "reasonFailure FsNotEmpty display = toolFailure ''DirectoryNotEmpty''
     (display @ '' is a directory with entries in it; give another path'')"
| "reasonFailure FsPermission display = toolFailure ''AccessDenied'' (''permission denied: '' @ display)"
| "reasonFailure FsInvalid display = toolFailure ''InvalidPath''
     (display @ '' is not a path the file system accepts; check it and try again'')"
| "reasonFailure FsIo display = toolFailure ''FileSystemError''
     (display @ '' could not be read or written (a file-system error); try again, or give another path'')"

definition fsFailure :: "string \<Rightarrow> fs_error \<Rightarrow> tool_failure" where
  "fsFailure display e = reasonFailure (fs_reason e) display"

fun unopenable :: "fs_reason \<Rightarrow> string" where
  "unopenable FsNotFound = ''does not exist''"
| "unopenable FsNotDirectory = ''is not a directory''"
| "unopenable FsPermission = ''cannot be opened for lack of permission''"
| "unopenable FsInvalid = ''is not a path the file system accepts''"
| "unopenable FsExists = ''cannot be opened because of a file-system error''"
| "unopenable FsIsDirectory = ''cannot be opened because of a file-system error''"
| "unopenable FsNotEmpty = ''cannot be opened because of a file-system error''"
| "unopenable FsIo = ''cannot be opened because of a file-system error''"

definition workspaceMissing :: "fs_reason \<Rightarrow> tool_failure" where
  "workspaceMissing reason = toolFailure ''WorkspaceMissing''
     (''the workspace directory '' @ unopenable reason @ '', so no workspace tool can run in this session; tell the user'')"

section \<open>Roots\<close>

definition isWithin :: "string \<Rightarrow> string \<Rightarrow> bool" where
  "isWithin root path \<longleftrightarrow> path = root \<or> starts_with (if ends_with ''/'' root then root else root @ ''/'') path"

text \<open>One extra root: resolved against the workspace, left out unless it opens as a directory.\<close>

definition openRoot :: "fs_reads \<Rightarrow> path_api \<Rightarrow> string \<Rightarrow> workspace_allowed_root \<Rightarrow> allowed_root option" where
  "openRoot fs api root allowed =
     (let lexical = pa_resolve api [root, wr_path allowed] in
      case and_then (fr_realPath fs lexical) (\<lambda>real. map_r (Pair real) (fr_stat fs real True)) of
        Inl e \<Rightarrow> None
      | Inr (real, info) \<Rightarrow>
          if fi_kind info = KDirectory then Some \<lparr>ar_root = real, ar_lexical = lexical, ar_access = wr_access allowed\<rparr>
          else None)"

definition openWorkspace :: "fs_reads \<Rightarrow> path_api \<Rightarrow> string \<Rightarrow> workspace_allowed_root list \<Rightarrow> access_mode
    \<Rightarrow> tool_failure + workspace_access" where
  "openWorkspace fs api workspace roots access =
     (let lexical = pa_resolve api [workspace] in
      case fr_realPath fs lexical of
        Inl e \<Rightarrow> Inl (workspaceMissing (fs_reason e))
      | Inr root \<Rightarrow> Inr
          \<lparr>wa_root = root, wa_lexical = lexical,
           wa_roots = \<lparr>ar_root = root, ar_lexical = lexical, ar_access = access\<rparr> # List.map_filter (openRoot fs api root) roots,
           wa_fs = fs, wa_api = api\<rparr>)"

definition withinAnyRoot :: "workspace_access \<Rightarrow> string \<Rightarrow> bool" where
  "withinAnyRoot access path = list_ex (\<lambda>r. isWithin (ar_root r) path) (wa_roots access)"

text \<open>\<open>normalize("NFC").toLowerCase()\<close> on code points below 256.\<close>

definition lowerChar :: "char \<Rightarrow> char" where
  "lowerChar c = (let n = of_char c :: nat in
     if (65 \<le> n \<and> n \<le> 90) \<or> (192 \<le> n \<and> n \<le> 222 \<and> n \<noteq> 215) then char_of (n + 32) else c)"

definition folded :: "string \<Rightarrow> string" where
  "folded path = map lowerChar path"

definition rootOf :: "workspace_access \<Rightarrow> string \<Rightarrow> (string \<Rightarrow> string) \<Rightarrow> allowed_root option" where
  "rootOf access path foldCase = foldl (\<lambda>selected candidate.
     if isWithin (foldCase (ar_root candidate)) (foldCase path)
        \<and> (case selected of None \<Rightarrow> True | Some current \<Rightarrow> length (ar_root current) \<le> length (ar_root candidate))
     then Some candidate else selected) None (wa_roots access)"

definition readOnlyRootOf :: "workspace_access \<Rightarrow> string \<Rightarrow> allowed_root option" where
  "readOnlyRootOf access path =
     (case opt_filter (\<lambda>r. ar_access r = ReadAccess) (rootOf access path (\<lambda>same. same)) of
        Some r \<Rightarrow> Some r
      | None \<Rightarrow> opt_filter (\<lambda>r. ar_access r = ReadAccess) (rootOf access path folded))"

definition displayOf :: "workspace_access \<Rightarrow> string \<Rightarrow> string" where
  "displayOf access absolute =
     (let shown = (\<lambda>base. let relative = pa_relative (wa_api access) base absolute in if relative = [] then ''.'' else relative) in
      if isWithin (wa_root access) absolute then shown (wa_root access)
      else if isWithin (wa_lexical access) absolute then shown (wa_lexical access)
      else absolute)"

section \<open>Resolving a path\<close>

text \<open>
  Where a path really is. The recursion goes to the parent \<open>dirname\<close> gives, which the code takes from
  Effect: \<open>None\<close> for a search that does not return.
\<close>

partial_function (option) canonicalOf :: "workspace_access \<Rightarrow> string \<Rightarrow> string \<Rightarrow> (tool_failure + string) option" where
  "canonicalOf access target display =
     (case fr_realPath (wa_fs access) target of
        Inr real \<Rightarrow> Some (Inr real)
      | Inl e \<Rightarrow>
          if fs_reason e \<noteq> FsNotFound \<or> pa_dirname (wa_api access) target = target then Some (Inl (fsFailure display e))
          else
            (case fr_stat (wa_fs access) target False of
               Inr _ \<Rightarrow> Some (Inl (toolFailure ''BrokenSymlink'' (display @ '': it is a symbolic link to something that does not exist'')))
             | Inl missing \<Rightarrow>
                 if fs_reason missing = FsNotFound then
                   Option.bind (canonicalOf access (pa_dirname (wa_api access) target) display) (\<lambda>r.
                     Some (map_r (\<lambda>dir. pa_join (wa_api access) dir (pa_basename (wa_api access) target)) r))
                 else Some (Inl (fsFailure display missing))))"

definition insideRoots :: "workspace_access \<Rightarrow> string \<Rightarrow> bool" where
  "insideRoots access path = list_ex (\<lambda>r. isWithin (ar_root r) path \<or> isWithin (ar_lexical r) path) (wa_roots access)"

definition outsideFailure :: "workspace_access \<Rightarrow> string \<Rightarrow> tool_failure" where
  "outsideFailure access input =
     (let extras = map (\<lambda>r. displayOf access (ar_root r)) (drop 1 (wa_roots access)) in
      toolFailure ''OutsideWorkspace'' (if length extras = 0
        then input @ '' is outside the workspace; use a path under its root''
        else input @ '' is outside the workspace and its allowed roots ('' @ join '', '' extras @ ''); use a path under one of them''))"

definition leadsOutsideFailure :: "workspace_access \<Rightarrow> string \<Rightarrow> tool_failure" where
  "leadsOutsideFailure access display =
     (let extras = map (\<lambda>r. displayOf access (ar_root r)) (drop 1 (wa_roots access)) in
      toolFailure ''OutsideWorkspace'' (if length extras = 0
        then display @ '' leads outside the workspace through a symbolic link''
        else display @ '' leads outside the workspace and its allowed roots ('' @ join '', '' extras @ '') through a symbolic link''))"

definition readOnlyFailure :: "workspace_access \<Rightarrow> string \<Rightarrow> allowed_root \<Rightarrow> tool_failure" where
  "readOnlyFailure access display r =
     (let place = (if ar_root r = wa_root access then ''the workspace root'' else displayOf access (ar_root r)) in
      toolFailure ''ReadOnly'' (display @ '' is under '' @ place @ '', which the workspace tools may read but not change''))"

definition resolveTarget :: "workspace_access \<Rightarrow> string \<Rightarrow> bool \<Rightarrow> access_mode option \<Rightarrow> (tool_failure + workspace_target) option" where
  "resolveTarget access input confine intent =
     (let lexical = pa_resolve (wa_api access) [wa_root access, if length input = 0 then ''.'' else input];
          display = displayOf access lexical in
      if confine \<and> \<not> insideRoots access lexical then Some (Inl (outsideFailure access input))
      else map_option (\<lambda>r. and_then r (\<lambda>path.
        if confine \<and> \<not> withinAnyRoot access path then Inl (leadsOutsideFailure access display)
        else
          (case (if confine \<and> intent = Some WriteAccess then readOnlyRootOf access path else None) of
             Some r \<Rightarrow> Inl (readOnlyFailure access display r)
           | None \<Rightarrow> Inr \<lparr>wt_path = path, wt_display = display\<rparr>)))
        (canonicalOf access lexical display))"

section \<open>Protected files\<close>

record protect_rule =
  pr_glob :: string
  pr_matches :: "string \<Rightarrow> bool"

fun refusalText :: "glob_refusal \<Rightarrow> string" where
  "refusalText TooManyPatterns = ''its braces stand for more than 1024 patterns''"
| "refusalText DoesNotCompile = ''it does not compile''"

definition compileRule :: "string \<Rightarrow> string + protect_rule" where
  "compileRule glob =
     (case and_then (compileGlob glob True) (\<lambda>exact. map_r (\<lambda>caseless.
         \<lparr>pr_glob = glob, pr_matches = \<lambda>relative. g_matches exact relative \<or> g_matches caseless (folded relative)\<rparr>)
         (compileGlob (folded glob) True)) of
        Inl reason \<Rightarrow> Inl (''protect glob '' @ glob @ '' is not usable: '' @ refusalText reason)
      | Inr rule \<Rightarrow> Inr rule)"

definition compileProtect :: "string list \<Rightarrow> string + protect_rule list" where
  "compileProtect globs = each_r compileRule globs"

definition protectedFailure :: "string \<Rightarrow> protect_rule \<Rightarrow> tool_failure" where
  "protectedFailure display rule = toolFailure ''Protected''
     (display @ '' is protected ('' @ pr_glob rule @ ''); the workspace tools do not change it'')"

definition checkedPaths :: "workspace_access \<Rightarrow> workspace_target \<Rightarrow> string list" where
  "checkedPaths access target = filter
     (\<lambda>relative. 0 < length relative \<and> relative \<noteq> ''.'' \<and> \<not> starts_with ''/'' relative \<and> \<not> starts_with ''..'' relative)
     [wt_display target,
      if isWithin (wa_root access) (wt_path target) then pa_relative (wa_api access) (wa_root access) (wt_path target) else []]"

definition checkWritable :: "workspace_access \<Rightarrow> workspace_target \<Rightarrow> protect_rule list \<Rightarrow> tool_failure + unit" where
  "checkWritable access target rules =
     (case find (\<lambda>rule. list_ex (pr_matches rule) (checkedPaths access target)) rules of
        None \<Rightarrow> Inr ()
      | Some rule \<Rightarrow> Inl (protectedFailure (wt_display target) rule))"

section \<open>The exclusions of a walk\<close>

definition ownBraces :: "string \<Rightarrow> bool" where
  "ownBraces segment \<longleftrightarrow> length (filter (\<lambda>c. c = CHR ''{'') segment) = length (filter (\<lambda>c. c = CHR ''}'') segment)"

function remainderBelow :: "string list \<Rightarrow> string list \<Rightarrow> string list" where
  "remainderBelow pattern [] = (if pattern = [] then [] else [''./'' @ join ''/'' pattern])"
| "remainderBelow [] (name # below) = []"
| "remainderBelow (head # rest) (name # below) =
     (if head = ''**'' then
        (''./'' @ join ''/'' (head # rest)) # concat (map (\<lambda>at. remainderBelow rest (drop at (name # below))) [0..<length (name # below)])
      else (case compileGlob head True of
          Inl _ \<Rightarrow> []
        | Inr g \<Rightarrow> if g_matches g name then remainderBelow rest below else []))"
  by pat_completeness auto
termination
  by (relation "measure (\<lambda>(pattern, names). length pattern)") auto

definition excludesBelow :: "string list \<Rightarrow> string option \<Rightarrow> string list" where
  "excludesBelow excludes directory = js_distinct (concat (map (\<lambda>glob.
     if \<not> contains ''/'' glob then [glob]
     else
       (case directory of
          None \<Rightarrow> []
        | Some relative \<Rightarrow>
            (let names = segmentsOf relative; pattern = segmentsOf glob in
             if names = [] \<or> \<not> list_all ownBraces pattern then [glob] else remainderBelow pattern names))) excludes))"

section \<open>Which root decides\<close>

definition mostSpecific :: "(allowed_root \<Rightarrow> bool) \<Rightarrow> allowed_root list \<Rightarrow> allowed_root \<Rightarrow> bool" where
  "mostSpecific within roots r \<longleftrightarrow> r \<in> set roots \<and> within r
     \<and> list_all (\<lambda>c. within c \<longrightarrow> length (ar_root c) \<le> length (ar_root r)) roots"

lemma most_specific_fold:
  "case foldl (\<lambda>selected candidate. if within candidate
        \<and> (case selected of None \<Rightarrow> True | Some current \<Rightarrow> length (ar_root current) \<le> length (ar_root candidate))
      then Some candidate else selected) None roots of
     None \<Rightarrow> \<not> list_ex within roots
   | Some r \<Rightarrow> mostSpecific within roots r"
proof (induction roots rule: rev_induct)
  case (snoc c roots)
  let ?s = "foldl (\<lambda>selected candidate. if within candidate
        \<and> (case selected of None \<Rightarrow> True | Some current \<Rightarrow> length (ar_root current) \<le> length (ar_root candidate))
      then Some candidate else selected) None roots"
  show ?case
  proof (cases ?s)
    case None
    with snoc show ?thesis by (auto simp: mostSpecific_def list_all_iff list_ex_iff)
  next
    case (Some r)
    with snoc have "mostSpecific within roots r" by simp
    with Some show ?thesis by (fastforce simp: mostSpecific_def list_all_iff)
  qed
qed simp

lemma rootOf_spec:
  "case rootOf access path f of
     None \<Rightarrow> \<not> list_ex (\<lambda>r. isWithin (f (ar_root r)) (f path)) (wa_roots access)
   | Some r \<Rightarrow> mostSpecific (\<lambda>r. isWithin (f (ar_root r)) (f path)) (wa_roots access) r"
  unfolding rootOf_def by (rule most_specific_fold)

text \<open>
  Every read-only root a path lies in holds a writable one the path lies in, no less deep: compared as
  written, or with the letters of both in one case.
\<close>

definition writableHere :: "workspace_access \<Rightarrow> (string \<Rightarrow> string) \<Rightarrow> string \<Rightarrow> bool" where
  "writableHere access f path = list_all (\<lambda>r. isWithin (f (ar_root r)) (f path) \<and> ar_access r = ReadAccess \<longrightarrow>
     list_ex (\<lambda>w. isWithin (f (ar_root w)) (f path) \<and> ar_access w = WriteAccess
       \<and> length (ar_root r) \<le> length (ar_root w)) (wa_roots access)) (wa_roots access)"

lemma not_read_only:
  assumes "opt_filter (\<lambda>r. ar_access r = ReadAccess) (rootOf access path f) = None"
  shows "writableHere access f path"
proof (cases "rootOf access path f")
  case None
  with rootOf_spec [where access = access and path = path and f = f] show ?thesis by (auto simp: writableHere_def list_all_iff list_ex_iff)
next
  case (Some w)
  with rootOf_spec [where access = access and path = path and f = f] have m: "mostSpecific (\<lambda>r. isWithin (f (ar_root r)) (f path)) (wa_roots access) w" by simp
  have "ar_access w = WriteAccess" using assms Some by (cases "ar_access w") auto
  with m show ?thesis unfolding writableHere_def mostSpecific_def list_all_iff list_ex_iff by blast
qed

lemma writable_target: "readOnlyRootOf access path = None \<Longrightarrow> writableHere access (\<lambda>same. same) path \<and> writableHere access folded path"
  by (auto simp: readOnlyRootOf_def split: option.splits intro: not_read_only)

lemma resolveTarget_confined:
  "resolveTarget access input True intent = Some (Inr target) \<Longrightarrow>
     withinAnyRoot access (wt_path target) \<and> (intent = Some WriteAccess \<longrightarrow> readOnlyRootOf access (wt_path target) = None)"
  by (auto simp: resolveTarget_def Let_def result_simps split: if_splits option.splits)



section \<open>The search for a real path returns\<close>

lemma canonicalOf_returns:
  assumes shorter: "\<And>p. pa_dirname (wa_api access) p = p \<or> length (pa_dirname (wa_api access) p) < length p"
  shows "\<exists>r. canonicalOf access target display = Some r"
proof (induction "length target" arbitrary: target rule: less_induct)
  case less
  show ?case
  proof (cases "pa_dirname (wa_api access) target = target")
    case True
    then show ?thesis by (subst canonicalOf.simps) (auto split: sum.splits)
  next
    case False
    with shorter [of target] less obtain r where "canonicalOf access (pa_dirname (wa_api access) target) display = Some r" by blast
    then show ?thesis by (subst canonicalOf.simps) (auto split: sum.splits)
  qed
qed

end
