(* ===== verification/WorkspaceTree.thy ===== *)
theory WorkspaceTree
  imports WorkspacePaths
begin

text \<open>
  The search for a real path on the in-memory file system: it returns, and where it leads is a settled
  place, at which a write lands and nowhere else. What it needs of the path functions is the locale
  \<open>posix_paths\<close>.
\<close>

section \<open>Path functions\<close>

locale posix_paths =
  fixes api :: path_api
  assumes dirname: "canonical p \<Longrightarrow> pa_dirname api p = parentOf p"
    and basename: "canonical d \<Longrightarrow> goodName n \<Longrightarrow> pa_basename api (joinPath d n) = n"
    and join_name: "canonical d \<Longrightarrow> goodName n \<Longrightarrow> pa_join api d n = joinPath d n"
    and resolve: "canonical root \<Longrightarrow> canonical (pa_resolve api [root, input])"

text \<open>A POSIX instance: names folded over \<open>..\<close>.\<close>

fun dropDots :: "string list \<Rightarrow> string list \<Rightarrow> string list" where
  "dropDots kept [] = kept"
| "dropDots kept (n # ns) = dropDots (if n = ''..'' then butlast kept else kept @ [n]) ns"

definition posixPath :: "string list \<Rightarrow> string" where
  "posixPath paths = ''/'' @ join ''/'' (dropDots [] (segmentsOf (foldl (\<lambda>base p. if starts_with ''/'' p then p else base @ ''/'' @ p) [] paths)))"

definition posixApi :: path_api where
  "posixApi = \<lparr>pa_resolve = posixPath,
     pa_relative = \<lambda>base p. join ''/'' (drop (length (segmentsOf base)) (segmentsOf p)),
     pa_dirname = parentOf,
     pa_basename = \<lambda>p. (case last_index_of (CHR ''/'') p of None \<Rightarrow> p | Some at \<Rightarrow> drop (at + 1) p),
     pa_join = \<lambda>d p. posixPath [d, p]\<rparr>"

lemma dropDots_good:
  "list_all goodName kept \<Longrightarrow> list_all (\<lambda>n. n = ''..'' \<or> goodName n) ns \<Longrightarrow> list_all goodName (dropDots kept ns)"
proof (induction kept ns rule: dropDots.induct)
  case (2 kept n ns)
  have "list_all goodName (butlast kept)" using "2.prems"(1) by (auto simp: list_all_iff dest: in_set_butlastD)
  with 2 show ?case by auto
qed simp

lemma dropDots_id: "list_all goodName ns \<Longrightarrow> dropDots kept ns = kept @ ns"
  by (induction ns arbitrary: kept) (auto simp: goodName_def)

lemma posixPath_canonical: "canonical (posixPath paths)"
  using canonicalI [OF dropDots_good [OF _ segmentsOf_names]] by (simp add: posixPath_def)

interpretation posix: posix_paths posixApi
proof
  fix p d n root input
  show "pa_dirname posixApi p = parentOf p" by (simp add: posixApi_def)
  show "canonical (pa_resolve posixApi [root, input])" by (simp add: posixApi_def posixPath_canonical)
  assume d: "canonical d" and n: "goodName n"
  show "pa_basename posixApi (joinPath d n) = n" using last_name [OF d n] by (simp add: posixApi_def)
  have abs: "starts_with ''/'' d" using d unfolding canonical_def by (metis starts_with_iff)
  have rel: "\<not> starts_with ''/'' n" using n by (cases n) (auto simp: goodName_def)
  have "segmentsOf (d @ ''/'' @ n) = segmentsOf d @ [n]"
    using segmentsOf_below [of d n] n by (simp add: goodName_def segmentsOf_def split_on_id)
  then have "posixPath [d, n] = ''/'' @ join ''/'' (segmentsOf d @ [n])"
    using abs rel dropDots_id [of "segmentsOf d @ [n]" "[]"] canonical_names [OF d] n by (simp add: posixPath_def)
  also have "\<dots> = joinPath d n"
    using canonical_joinPath(1,2) [OF d n] by (simp add: canonical_def)
  finally show "pa_join posixApi d n = joinPath d n" by (simp add: posixApi_def)
qed

section \<open>Settled places\<close>

text \<open>A place no link is on the way to: each name before the last is a directory or absent yet.\<close>

definition settled :: "tree \<Rightarrow> string \<Rightarrow> bool" where
  "settled t p \<longleftrightarrow> canonical p \<and> \<not> linkAt t p
     \<and> (\<forall>d. canonical d \<longrightarrow> strict_prefix (segmentsOf d) (segmentsOf p) \<longrightarrow> map_of t d = None \<or> dirAt t d)"

lemma real_settled:
  assumes wf: "well_formed t" and real: "realPath t asked = Inr p"
  shows "settled t p"
proof -
  from real obtain n where leads: "resolveIn t asked True = Inr p"
    by (auto simp: realPath_def nodeAt_def result_simps split: option.splits)
  note place = resolveIn_place [OF wf leads]
  with dirAt_prefix [OF wf place(1)] show ?thesis by (simp add: settled_def placeIn_def)
qed

lemma resolveStep_settled:
  "canonical current \<Longrightarrow> canonical p \<Longrightarrow> segmentsOf p = segmentsOf current @ rest \<Longrightarrow>
     (\<And>d. canonical d \<Longrightarrow> strict_prefix (segmentsOf d) (segmentsOf p) \<Longrightarrow> map_of t d = None \<or> dirAt t d) \<Longrightarrow>
     \<not> linkAt t p \<Longrightarrow> resolveStep t asked follow current rest hops = Inr q \<Longrightarrow> q = p"
proof (induction rest arbitrary: current)
  case Nil
  then show ?case using canonical_eq [of current p] by simp
next
  case (Cons name rest)
  have names: "list_all goodName (segmentsOf p)" using Cons.prems(2) by (rule canonical_names)
  then have name: "goodName name" by (simp add: Cons.prems(3))
  then have dots: "name \<noteq> ''..''" by (simp add: goodName_def)
  note place = canonical_joinPath [OF Cons.prems(1) name]
  show ?case
  proof (cases "map_of t (joinPath current name)")
    case None
    with Cons.prems(6) dots have "rest = []" "q = joinPath current name" by (auto simp: Let_def split: if_splits)
    then show ?thesis using canonical_eq [OF place(1) Cons.prems(2)] place(2) Cons.prems(3) by simp
  next
    case (Some m)
    have "\<not> isLink m"
    proof (cases rest)
      case Nil
      then have "joinPath current name = p" using canonical_eq [OF place(1) Cons.prems(2)] place(2) Cons.prems(3) by simp
      with Cons.prems(5) Some show ?thesis by (simp add: linkAt_def)
    next
      case (Cons n' rest')
      have "strict_prefix (segmentsOf (joinPath current name)) (segmentsOf p)"
        unfolding place(2) Cons.prems(3) Cons by (simp add: strict_prefix_def)
      with Cons.prems(4) [OF place(1)] Some show ?thesis by (auto simp: dirAt_def isLink_def)
    qed
    with Some Cons.prems(6) dots have "resolveStep t asked follow (joinPath current name) rest hops = Inr q"
      by (cases m) (auto simp: isLink_def Let_def split: if_splits)
    moreover have "segmentsOf p = segmentsOf (joinPath current name) @ rest" using place(2) Cons.prems(3) by simp
    ultimately show ?thesis using Cons.IH [OF place(1) Cons.prems(2) _ Cons.prems(4,5)] by blast
  qed
qed

lemma resolveIn_settled: "settled t p \<Longrightarrow> resolveIn t p follow = Inr q \<Longrightarrow> q = p"
  using resolveStep_settled [OF canonical_root(1), of p "segmentsOf p" t p follow 0 q]
  by (auto simp: settled_def resolveIn_def split: if_splits)

text \<open>What follows the place a path leads to.\<close>

lemma resolveStep_snoc:
  "resolveStep t asked True current xs hops = Inr d \<Longrightarrow> map_of t d = Some m \<Longrightarrow> well_formed t \<Longrightarrow>
     list_all (\<lambda>n. n = ''..'' \<or> goodName n) xs \<Longrightarrow> dirAt t current \<Longrightarrow>
     (dirAt t d \<and> (\<exists>hops'. resolveStep t asked' follow current (xs @ [n]) hops = resolveStep t asked' follow d [n] hops'))
     \<or> (\<exists>e. resolveStep t asked' follow current (xs @ [n]) hops = Inl e \<and> fs_reason e = FsNotDirectory)"
proof (induction t asked "True" current xs hops rule: resolveStep.induct)
  case (1 t asked current hops)
  then show ?case by auto
next
  case (2 t asked current name rest hops)
  show ?case
  proof (cases "name = ''..''")
    case True
    have "dirAt t (parentOf current)" using dirAt_place [OF "2.prems"(3,5)] by (simp add: placeIn_def)
    with "2.hyps"(1) [OF True] "2.prems" True show ?thesis by simp
  next
    case False
    define place where "place = joinPath current name"
    have root: "dirAt t ''/''" using "2.prems"(3) by (simp add: well_formed_def)
    show ?thesis
    proof (cases "map_of t place")
      case None
      with "2.prems"(1,2) False show ?thesis by (auto simp: Let_def place_def [symmetric] split: if_splits)
    next
      case (Some m')
      show ?thesis
      proof (cases m')
        case (NFile b time)
        with Some False show ?thesis by (simp add: Let_def place_def [symmetric] fsFail_def)
      next
        case (NDirectory time)
        have "dirAt t place" using Some NDirectory by (simp add: dirAt_def)
        with "2.hyps"(3) [OF False place_def Some NDirectory] "2.prems" False Some NDirectory
        show ?thesis by (simp add: Let_def place_def [symmetric])
      next
        case (NSymlink target time)
        define more where "more = segmentsOf (if starts_with ''/'' target then target else joinPath current target)"
        have hops: "\<not> maxHops \<le> hops" and run: "resolveStep t asked True ''/'' (more @ rest) (hops + 1) = Inr d"
          using "2.prems"(1) False Some NSymlink
          by (auto simp: Let_def place_def [symmetric] more_def split: if_splits)
        have names: "list_all (\<lambda>n. n = ''..'' \<or> goodName n) (more @ rest)"
          using "2.prems"(4) segmentsOf_names by (simp add: more_def)
        have "resolveStep t asked' follow current ((name # rest) @ [n]) hops = resolveStep t asked' follow ''/'' ((more @ rest) @ [n]) (hops + 1)"
          using False Some NSymlink hops by (simp add: Let_def place_def [symmetric] more_def)
        with "2.hyps"(4) [OF False place_def Some NSymlink _ hops] run names root "2.prems"(2,3)
        show ?thesis by (simp add: more_def)
      qed
    qed
  qed
qed

lemma canonical_abs: "canonical p \<Longrightarrow> starts_with ''/'' p"
  unfolding canonical_def by (metis starts_with_iff)

lemma resolveIn_child:
  assumes wf: "well_formed t" and can: "canonical parent" "goodName n" and real: "realPath t parent = Inr dir"
  shows "(dirAt t dir \<and> (\<exists>hops. resolveIn t (joinPath parent n) follow = resolveStep t (joinPath parent n) follow dir [n] hops))
     \<or> (\<exists>e. resolveIn t (joinPath parent n) follow = Inl e \<and> fs_reason e = FsNotDirectory)"
proof -
  note child = canonical_joinPath [OF can]
  from real obtain m where leads: "resolveIn t parent True = Inr dir" "map_of t dir = Some m"
    by (auto simp: realPath_def nodeAt_def result_simps split: option.splits)
  have run: "resolveStep t parent True ''/'' (segmentsOf parent) 0 = Inr dir"
    using leads(1) canonical_abs [OF can(1)] by (simp add: resolveIn_def)
  have root: "dirAt t ''/''" using wf by (simp add: well_formed_def)
  have "resolveIn t (joinPath parent n) follow = resolveStep t (joinPath parent n) follow ''/'' (segmentsOf parent @ [n]) 0"
    using canonical_abs [OF child(1)] child(2) by (simp add: resolveIn_def)
  with resolveStep_snoc [OF run leads(2) wf segmentsOf_names root, of "joinPath parent n" follow n] show ?thesis by auto
qed

definition treeReads :: "tree \<Rightarrow> fs_reads" where
  "treeReads t = \<lparr>fr_realPath = realPath t, fr_stat = statAt t\<rparr>"

lemma missing_child:
  assumes wf: "well_formed t" and can: "canonical parent" "goodName n" and real: "realPath t parent = Inr dir"
    and missing: "realPath t (joinPath parent n) = Inl e" "fs_reason e = FsNotFound"
    and absent: "statAt t (joinPath parent n) False = Inl e'" "fs_reason e' = FsNotFound"
  shows "dirAt t dir" and "map_of t (joinPath dir n) = None"
proof -
  have dots: "n \<noteq> ''..''" using can(2) by (simp add: goodName_def)
  show dir: "dirAt t dir"
    using resolveIn_child [OF wf can real, of True] missing
    by (auto simp: realPath_def nodeAt_def map_r_def and_then_eq_Inl)
  show "map_of t (joinPath dir n) = None"
  proof (rule ccontr)
    assume "map_of t (joinPath dir n) \<noteq> None"
    then obtain m where m: "map_of t (joinPath dir n) = Some m" by blast
    have "\<not> (\<exists>e. resolveIn t (joinPath parent n) False = Inl e \<and> fs_reason e = FsNotDirectory)"
    proof
      assume "\<exists>e. resolveIn t (joinPath parent n) False = Inl e \<and> fs_reason e = FsNotDirectory"
      then obtain e where e: "resolveIn t (joinPath parent n) False = Inl e" "fs_reason e = FsNotDirectory" by blast
      then have "statAt t (joinPath parent n) False = Inl e" by (simp add: statAt_def nodeAt_def)
      with absent e(2) show False by simp
    qed
    with resolveIn_child [OF wf can real, of False]
    obtain hops where "resolveIn t (joinPath parent n) False = resolveStep t (joinPath parent n) False dir [n] hops"
      by blast
    moreover have "resolveStep t (joinPath parent n) False dir [n] hops = Inr (joinPath dir n)"
      using dots m by (cases m) (simp_all add: Let_def)
    ultimately have "statAt t (joinPath parent n) False \<noteq> Inl e'" using m by (simp add: statAt_def nodeAt_def)
    with absent(1) show False by blast
  qed
qed

context posix_paths
begin

lemma canonicalOf_tree:
  assumes wf: "well_formed t" and reads: "wa_fs access = treeReads t" and api: "wa_api access = api"
  shows "canonical target \<Longrightarrow> \<exists>r. canonicalOf access target display = Some r
    \<and> (\<forall>p. r = Inr p \<longrightarrow> settled t p \<and> (realPath t target = Inr p \<or> map_of t p = None))"
proof (induction "length (segmentsOf target)" arbitrary: target rule: less_induct)
  case less
  have real: "fr_realPath (wa_fs access) = realPath t" "fr_stat (wa_fs access) = statAt t"
    by (simp_all add: reads treeReads_def)
  show ?case
  proof (cases "realPath t target")
    case (Inr p)
    with real_settled [OF wf] show ?thesis by (subst canonicalOf.simps) (simp add: real)
  next
    case (Inl e)
    show ?thesis
    proof (cases "fs_reason e \<noteq> FsNotFound \<or> parentOf target = target")
      case True
      with Inl show ?thesis by (subst canonicalOf.simps) (simp add: real api dirname [OF less.prems])
    next
      case False
      from less.prems False obtain d n where d: "canonical d" "goodName n" "target = joinPath d n" "parentOf target = d"
        "segmentsOf target = segmentsOf d @ [n]" by (cases rule: canonical_cases) auto
      show ?thesis
      proof (cases "statAt t target False")
        case (Inr info)
        with Inl False show ?thesis by (subst canonicalOf.simps) (simp add: real api dirname [OF less.prems])
      next
        case none: (Inl e')
        show ?thesis
        proof (cases "fs_reason e' = FsNotFound")
          case notNone: False
          with Inl False none show ?thesis by (subst canonicalOf.simps) (simp add: real api dirname [OF less.prems])
        next
          case absent: True
          from less.hyps [OF _ d(1)] d(5) obtain r where r: "canonicalOf access d display = Some r"
            and settles: "\<And>p. r = Inr p \<Longrightarrow> settled t p \<and> (realPath t d = Inr p \<or> map_of t p = None)" by auto
          have run: "canonicalOf access target display = Some (map_r (\<lambda>dir. pa_join api dir (pa_basename api target)) r)"
            using Inl False none r absent by (subst canonicalOf.simps) (simp add: real api dirname [OF less.prems] d(4))
          show ?thesis
          proof (cases r)
            case (Inl f)
            with run show ?thesis by simp
          next
            case dir: (Inr dir)
            from settles [OF dir] have s: "settled t dir" and or: "realPath t d = Inr dir \<or> map_of t dir = None" by (simp_all only: )
            have can: "canonical dir" using s by (simp add: settled_def)
            note child = canonical_joinPath [OF can d(2)]
            have p: "pa_join api dir (pa_basename api target) = joinPath dir n"
              using d(3) basename [OF d(1,2)] join_name [OF can d(2)] by simp
            have dirs: "map_of t dir = None \<or> dirAt t dir" and none_at: "map_of t (joinPath dir n) = None"
            proof -
              have "(map_of t dir = None \<or> dirAt t dir) \<and> map_of t (joinPath dir n) = None"
                using or
              proof
                assume "realPath t d = Inr dir"
                from missing_child [OF wf d(1,2) this] Inl False none absent d(3) show ?thesis by auto
              next
                assume missing: "map_of t dir = None"
                have "map_of t (joinPath dir n) = None"
                proof (rule ccontr)
                  assume "map_of t (joinPath dir n) \<noteq> None"
                  then obtain m where "map_of t (joinPath dir n) = Some m" by blast
                  from well_formed_place [OF wf this] child(3) missing show False
                    by (simp add: placeIn_def dirAt_def)
                qed
                with missing show ?thesis by blast
              qed
              then show "map_of t dir = None \<or> dirAt t dir" "map_of t (joinPath dir n) = None" by blast+
            qed
            have "settled t (joinPath dir n)"
              unfolding settled_def
            proof (intro conjI allI impI)
              show "canonical (joinPath dir n)" by (rule child(1))
              show "\<not> linkAt t (joinPath dir n)" using none_at by (simp add: linkAt_def)
              fix e assume e: "canonical e" "strict_prefix (segmentsOf e) (segmentsOf (joinPath dir n))"
              show "map_of t e = None \<or> dirAt t e"
              proof (cases "e = dir")
                case True
                with dirs show ?thesis by simp
              next
                case False
                then have "segmentsOf e \<noteq> segmentsOf dir" using canonical_eq [OF e(1) can] by simp
                with e(2) child(2) have "strict_prefix (segmentsOf e) (segmentsOf dir)"
                  by (auto simp: strict_prefix_def)
                with s e(1) show ?thesis by (simp add: settled_def)
              qed
            qed
            with run p none_at dir show ?thesis by simp
          qed
        qed
      qed
    qed
  qed
qed

end

end
