(* ===== verification/Utf8.thy ===== *)
theory Utf8
  imports FileTree
begin

text \<open>
  Texts as JavaScript holds them, lists of UTF-16 code units, and as bytes: \<open>TextEncoder\<close> and
  \<open>TextDecoder\<close> (the Encoding Standard's UTF-8 encoder and decoder, which the workspace tools read and
  write files with). A lone surrogate is encoded as U+FFFD; the decoder answers U+FFFD for each invalid
  sequence, or refuses the text when it is strict. Decoding inverts encoding on texts without lone
  surrogates.
\<close>

type_synonym utf16 = "nat list"

definition highSurrogate :: "nat \<Rightarrow> bool" where
  "highSurrogate u \<longleftrightarrow> 0xD800 \<le> u \<and> u \<le> 0xDBFF"

definition lowSurrogate :: "nat \<Rightarrow> bool" where
  "lowSurrogate u \<longleftrightarrow> 0xDC00 \<le> u \<and> u \<le> 0xDFFF"

definition surrogate :: "nat \<Rightarrow> bool" where
  "surrogate u \<longleftrightarrow> 0xD800 \<le> u \<and> u \<le> 0xDFFF"

definition pairPoint :: "nat \<Rightarrow> nat \<Rightarrow> nat" where
  "pairPoint h l = 0x10000 + (h - 0xD800) * 0x400 + (l - 0xDC00)"

fun codePoints :: "utf16 \<Rightarrow> nat list" where
  "codePoints [] = []"
| "codePoints [u] = [if surrogate u then 0xFFFD else u]"
| "codePoints (u # v # us) =
     (if highSurrogate u \<and> lowSurrogate v then pairPoint u v # codePoints us
      else (if surrogate u then 0xFFFD else u) # codePoints (v # us))"

definition pointUnits :: "nat \<Rightarrow> utf16" where
  "pointUnits p = (if p < 0x10000 then [p] else [0xD800 + (p - 0x10000) div 0x400, 0xDC00 + (p - 0x10000) mod 0x400])"

definition pointBytes :: "nat \<Rightarrow> nat list" where
  "pointBytes p =
     (if p < 0x80 then [p]
      else if p < 0x800 then [0xC0 + p div 64, 0x80 + p mod 64]
      else if p < 0x10000 then [0xE0 + p div 4096, 0x80 + p div 64 mod 64, 0x80 + p mod 64]
      else [0xF0 + p div 262144, 0x80 + p div 4096 mod 64, 0x80 + p div 64 mod 64, 0x80 + p mod 64])"

definition encodeBytes :: "utf16 \<Rightarrow> nat list" where
  "encodeBytes text = concat (map pointBytes (codePoints text))"

text \<open>The decoder: what it has of a code point, how many bytes it still needs, and their bounds.\<close>

record utf8_state =
  u8_point :: nat
  u8_needed :: nat
  u8_lower :: nat
  u8_upper :: nat

definition u8Start :: utf8_state where
  "u8Start = \<lparr>u8_point = 0, u8_needed = 0, u8_lower = 0x80, u8_upper = 0xBF\<rparr>"

definition u8Lead :: "nat \<Rightarrow> nat option list \<times> utf8_state" where
  "u8Lead b =
     (if b < 0x80 then ([Some b], u8Start)
      else if 0xC2 \<le> b \<and> b \<le> 0xDF then ([], u8Start\<lparr>u8_needed := 1, u8_point := b mod 32\<rparr>)
      else if 0xE0 \<le> b \<and> b \<le> 0xEF then
        ([], \<lparr>u8_point = b mod 16, u8_needed = 2, u8_lower = (if b = 0xE0 then 0xA0 else 0x80), u8_upper = (if b = 0xED then 0x9F else 0xBF)\<rparr>)
      else if 0xF0 \<le> b \<and> b \<le> 0xF4 then
        ([], \<lparr>u8_point = b mod 8, u8_needed = 3, u8_lower = (if b = 0xF0 then 0x90 else 0x80), u8_upper = (if b = 0xF4 then 0x8F else 0xBF)\<rparr>)
      else ([None], u8Start))"

definition u8Step :: "utf8_state \<Rightarrow> nat \<Rightarrow> nat option list \<times> utf8_state" where
  "u8Step st b =
     (if u8_needed st = 0 then u8Lead b
      else if b < u8_lower st \<or> u8_upper st < b then
        (let (out, st') = u8Lead b in (None # out, st'))
      else
        (let point = u8_point st * 64 + b mod 64 in
         if u8_needed st = 1 then ([Some point], u8Start)
         else ([], \<lparr>u8_point = point, u8_needed = u8_needed st - 1, u8_lower = 0x80, u8_upper = 0xBF\<rparr>)))"

fun u8Run :: "utf8_state \<Rightarrow> nat list \<Rightarrow> nat option list" where
  "u8Run st [] = (if u8_needed st = 0 then [] else [None])"
| "u8Run st (b # bs) = (let (out, st') = u8Step st b in out @ u8Run st' bs)"

definition decodeLossy :: "nat list \<Rightarrow> utf16" where
  "decodeLossy bytes = concat (map (\<lambda>p. pointUnits (case p of None \<Rightarrow> 0xFFFD | Some q \<Rightarrow> q)) (u8Run u8Start bytes))"

definition decodeStrict :: "nat list \<Rightarrow> utf16 option" where
  "decodeStrict bytes =
     (let points = u8Run u8Start bytes in
      if None \<in> set points then None else Some (concat (map (\<lambda>p. pointUnits (the p)) points)))"

section \<open>Round trip\<close>

definition scalar :: "nat \<Rightarrow> bool" where
  "scalar p \<longleftrightarrow> p < 0x110000 \<and> \<not> surrogate p"

lemma run_one: "p < 0x80 \<Longrightarrow> u8Run u8Start (pointBytes p @ bs) = Some p # u8Run u8Start bs"
  by (simp add: pointBytes_def u8Start_def u8Step_def u8Lead_def)

lemma mod_shift: "a < m \<Longrightarrow> (k * m + a) mod m = (a::nat)"
  by simp

lemma div_twice: "p div 4096 = p div 64 div 64" "p div 262144 = p div 4096 div 64" for p :: nat
  by (simp_all add: div_mult2_eq [symmetric])

lemma run_two:
  assumes "2 \<le> a" "a < 32" "c < 64"
  shows "u8Run u8Start ((0xC0 + a) # (0x80 + c) # bs) = Some (a * 64 + c) # u8Run u8Start bs"
proof -
  have "(192 + a) mod 32 = a" "(128 + c) mod 64 = c"
    using mod_shift [of a 32 6] mod_shift [of c 64 2] assms by simp_all
  then show ?thesis using assms by (simp add: u8Start_def u8Step_def u8Lead_def Let_def)
qed

lemma run_three:
  assumes "a < 16" "b < 64" "c < 64" and "a = 0 \<longrightarrow> 32 \<le> b" and "a = 13 \<longrightarrow> b < 32"
  shows "u8Run u8Start ((0xE0 + a) # (0x80 + b) # (0x80 + c) # bs) = Some ((a * 64 + b) * 64 + c) # u8Run u8Start bs"
proof -
  have "(224 + a) mod 16 = a" "(128 + b) mod 64 = b" "(128 + c) mod 64 = c"
    using mod_shift [of a 16 14] mod_shift [of b 64 2] mod_shift [of c 64 2] assms by simp_all
  then show ?thesis using assms by (auto simp: u8Start_def u8Step_def u8Lead_def Let_def)
qed

lemma run_four:
  assumes "a < 5" "b < 64" "c < 64" "d < 64" and "a = 0 \<longrightarrow> 16 \<le> b" and "a = 4 \<longrightarrow> b < 16"
  shows "u8Run u8Start ((0xF0 + a) # (0x80 + b) # (0x80 + c) # (0x80 + d) # bs) = Some (((a * 64 + b) * 64 + c) * 64 + d) # u8Run u8Start bs"
proof -
  have "(240 + a) mod 8 = a" "(128 + b) mod 64 = b" "(128 + c) mod 64 = c" "(128 + d) mod 64 = d"
    using mod_shift [of a 8 30] mod_shift [of b 64 2] mod_shift [of c 64 2] mod_shift [of d 64 2] assms by simp_all
  then show ?thesis using assms by (auto simp: u8Start_def u8Step_def u8Lead_def Let_def)
qed

lemma run_point:
  assumes "scalar p"
  shows "u8Run u8Start (pointBytes p @ bs) = Some p # u8Run u8Start bs"
proof -
  consider "p < 0x80" | "0x80 \<le> p" "p < 0x800" | "0x800 \<le> p" "p < 0x10000" | "0x10000 \<le> p" by linarith
  then show ?thesis
  proof cases
    case 1
    then show ?thesis by (rule run_one)
  next
    case 2
    have "p = p div 64 * 64 + p mod 64" by simp
    then show ?thesis using run_two [of "p div 64" "p mod 64" bs] 2 by (simp add: pointBytes_def)
  next
    case 3
    define a b c where "a = p div 4096" and "b = p div 64 mod 64" and "c = p mod 64"
    have p: "p = (a * 64 + b) * 64 + c"
      unfolding a_def b_def c_def div_twice(1) by simp
    have "b < 64" "c < 64" by (simp_all add: b_def c_def)
    moreover have "a < 16" "a = 0 \<longrightarrow> 32 \<le> b" "a = 13 \<longrightarrow> b < 32"
      using 3 assms p calculation by (auto simp: scalar_def surrogate_def)
    ultimately have "u8Run u8Start ((0xE0 + a) # (0x80 + b) # (0x80 + c) # bs) = Some p # u8Run u8Start bs"
      using run_three [of a b c bs] p by blast
    moreover have "pointBytes p = [0xE0 + a, 0x80 + b, 0x80 + c]" using 3 by (simp add: pointBytes_def a_def b_def c_def)
    ultimately show ?thesis by simp
  next
    case 4
    define a b c d where "a = p div 262144" and "b = p div 4096 mod 64" and "c = p div 64 mod 64" and "d = p mod 64"
    have p: "p = ((a * 64 + b) * 64 + c) * 64 + d"
      unfolding a_def b_def c_def d_def div_twice by simp
    have "b < 64" "c < 64" "d < 64" by (simp_all add: b_def c_def d_def)
    moreover have "a < 5" "a = 0 \<longrightarrow> 16 \<le> b" "a = 4 \<longrightarrow> b < 16"
      using 4 assms p calculation by (auto simp: scalar_def)
    ultimately have "u8Run u8Start ((0xF0 + a) # (0x80 + b) # (0x80 + c) # (0x80 + d) # bs) = Some p # u8Run u8Start bs"
      using run_four [of a b c d bs] p by blast
    moreover have "pointBytes p = [0xF0 + a, 0x80 + b, 0x80 + c, 0x80 + d]" using 4 by (simp add: pointBytes_def a_def b_def c_def d_def)
    ultimately show ?thesis by simp
  qed
qed

lemma run_points: "list_all scalar ps \<Longrightarrow> u8Run u8Start (concat (map pointBytes ps) @ bs) = map Some ps @ u8Run u8Start bs"
  by (induction ps) (simp_all add: run_point)

text \<open>A string of JavaScript: units below 65536; well formed when its surrogates stand in pairs.\<close>

definition unitsOnly :: "utf16 \<Rightarrow> bool" where
  "unitsOnly text = list_all (\<lambda>u. u < 0x10000) text"

fun wellPaired :: "utf16 \<Rightarrow> bool" where
  "wellPaired [] = True"
| "wellPaired [u] = (\<not> surrogate u)"
| "wellPaired (u # v # us) =
     (if highSurrogate u \<and> lowSurrogate v then wellPaired us else \<not> surrogate u \<and> wellPaired (v # us))"

lemma scalar_replacement: "scalar 0xFFFD"
  by (simp add: scalar_def surrogate_def)

lemma pairPoint_scalar:
  assumes "highSurrogate h" and "lowSurrogate l"
  shows "scalar (pairPoint h l)" "pointUnits (pairPoint h l) = [h, l]"
proof -
  define a b where "a = h - 0xD800" and "b = l - 0xDC00"
  have ab: "h = 0xD800 + a" "l = 0xDC00 + b" "a < 0x400" "b < 0x400"
    using assms by (auto simp: a_def b_def highSurrogate_def lowSurrogate_def)
  have "pairPoint h l = 0x10000 + (a * 0x400 + b)" by (simp add: pairPoint_def a_def b_def)
  moreover have "(a * 0x400 + b) div 0x400 = a" "(a * 0x400 + b) mod 0x400 = b" using ab(4) by simp_all
  ultimately show "scalar (pairPoint h l)" "pointUnits (pairPoint h l) = [h, l]"
    using ab by (simp_all add: scalar_def surrogate_def pointUnits_def)
qed

lemma codePoints_scalar: "unitsOnly u16 \<Longrightarrow> list_all scalar (codePoints u16)"
  by (induction u16 rule: codePoints.induct)
     (auto simp: unitsOnly_def scalar_def surrogate_def pairPoint_scalar(1) [unfolded scalar_def surrogate_def])

lemma pointUnits_small: "u < 0x10000 \<Longrightarrow> pointUnits u = [u]"
  by (simp add: pointUnits_def)

lemma codePoints_units: "unitsOnly u16 \<Longrightarrow> wellPaired u16 \<Longrightarrow> concat (map pointUnits (codePoints u16)) = u16"
  by (induction u16 rule: codePoints.induct)
     (auto simp: unitsOnly_def pairPoint_scalar(2) pointUnits_small split: if_splits)

lemma run_encoded: "unitsOnly text \<Longrightarrow> u8Run u8Start (encodeBytes text) = map Some (codePoints text)"
  using run_points [OF codePoints_scalar, of "text" "[]"] by (simp add: encodeBytes_def u8Start_def)

text \<open>
  Text survives the disk: the bytes a well-formed text is written as decode, strictly, to that text.
\<close>
theorem utf8_round_trip:
  assumes "unitsOnly text" and "wellPaired text"
  shows "decodeStrict (encodeBytes text) = Some text"
  using run_encoded [OF assms(1)] codePoints_units [OF assms] by (auto simp: decodeStrict_def Let_def comp_def)

theorem utf8_round_trip_witness:
  "decodeStrict (encodeBytes [0x48, 0xE9, 0x20AC, 0xD83D, 0xDE00]) = Some [0x48, 0xE9, 0x20AC, 0xD83D, 0xDE00]"
  by (rule utf8_round_trip) (simp_all add: unitsOnly_def surrogate_def highSurrogate_def lowSurrogate_def)

end
