(* ===== verification/TextWindow.thy ===== *)
theory TextWindow
  imports Utf8 WorkspacePaths
begin

text \<open>
  Windows on a text (\<open>plugin-workspace/src/text-window.entity.functions.ts\<close>): clips that never cut a
  character in two, the lines of a text, the lines that fit a number of bytes, the window \<open>read\<close> shows
  and the end of a command's output; a file's bytes as text and back. A text is its UTF-16 code units
  (theory \<open>Utf8\<close>), a byte a number below 256.
\<close>

section \<open>Clips\<close>

definition utf8Length :: "utf16 \<Rightarrow> nat" where
  "utf8Length text = length (encodeBytes text)"

text \<open>\<open>(byte & 0xc0) === 0x80\<close>, a byte past the end being 0.\<close>

definition isContinuation :: "nat list \<Rightarrow> nat \<Rightarrow> bool" where
  "isContinuation bytes at \<longleftrightarrow> at < length bytes \<and> bytes ! at div 64 = 2"

fun startAtOrBefore :: "nat list \<Rightarrow> nat \<Rightarrow> nat" where
  "startAtOrBefore bytes 0 = 0"
| "startAtOrBefore bytes (Suc at) =
     (if length bytes \<le> Suc at then length bytes
      else if isContinuation bytes (Suc at) then startAtOrBefore bytes at else Suc at)"

function startAtOrAfter :: "nat list \<Rightarrow> nat \<Rightarrow> nat" where
  "startAtOrAfter bytes at =
     (if length bytes \<le> at then length bytes
      else if 0 < at \<and> isContinuation bytes at then startAtOrAfter bytes (at + 1) else at)"
  by pat_completeness auto
termination by (relation "measure (\<lambda>(bytes, at). length bytes - at)") auto

declare startAtOrAfter.simps [simp del]

definition clipHead :: "utf16 \<Rightarrow> nat \<Rightarrow> utf16" where
  "clipHead text maxBytes =
     (let bytes = encodeBytes text in
      if length bytes \<le> maxBytes then text else decodeLossy (take (startAtOrBefore bytes maxBytes) bytes))"

definition clipTail :: "utf16 \<Rightarrow> nat \<Rightarrow> utf16" where
  "clipTail text maxBytes =
     (let bytes = encodeBytes text in
      if length bytes \<le> maxBytes then text else decodeLossy (drop (startAtOrAfter bytes (length bytes - maxBytes)) bytes))"

definition clipChars :: "utf16 \<Rightarrow> nat \<Rightarrow> utf16 \<times> bool" where
  "clipChars line maxChars =
     (if length line \<le> maxChars then (line, False)
      else (take (if 0 < maxChars \<and> highSurrogate (line ! (maxChars - 1)) then maxChars - 1 else maxChars) line, True))"

section \<open>Lines\<close>

abbreviation lineFeed :: nat where "lineFeed \<equiv> 10"
abbreviation carriageReturn :: nat where "carriageReturn \<equiv> 13"

definition withoutCr :: "utf16 \<Rightarrow> utf16" where
  "withoutCr line = (if ends_with [carriageReturn] line then butlast line else line)"

definition splitLines :: "utf16 \<Rightarrow> utf16 list" where
  "splitLines text =
     (if length text = 0 then []
      else
        (let parts = split_on lineFeed text in
         map withoutCr (if last parts = [] then butlast parts else parts)))"

fun lineTotals :: "nat option \<Rightarrow> utf16 list \<Rightarrow> nat list" where
  "lineTotals previous [] = []"
| "lineTotals previous (line # lines) =
     (let total = (case previous of None \<Rightarrow> utf8Length line | Some p \<Rightarrow> p + 1 + utf8Length line) in
      total # lineTotals (Some total) lines)"

definition fitting :: "utf16 list \<Rightarrow> nat \<Rightarrow> nat" where
  "fitting lines maxBytes =
     (let totals = lineTotals None lines in
      case find (\<lambda>i. maxBytes < totals ! i) [0..<length totals] of None \<Rightarrow> length lines | Some over \<Rightarrow> over)"

record line_window =
  lw_lines :: "utf16 list"
  lw_first :: nat
  lw_last :: nat
  lw_total :: nat
  lw_next :: "nat option"
  lw_clipped :: bool

definition lineWindow :: "utf16 \<Rightarrow> nat \<Rightarrow> nat \<Rightarrow> nat \<Rightarrow> nat + line_window" where
  "lineWindow text offset limit maxBytes =
     (let lines = splitLines text; start = offset - 1 in
      if length lines = 0 \<and> start = 0 then
        Inr \<lparr>lw_lines = [], lw_first = 0, lw_last = 0, lw_total = 0, lw_next = None, lw_clipped = False\<rparr>
      else if length lines \<le> start then Inl (length lines)
      else
        (let candidate = JsText.slice start (start + limit) lines;
             count = fitting candidate maxBytes;
             clipped = (count = 0);
             shown = (if clipped then [clipHead (case candidate of [] \<Rightarrow> [] | line # _ \<Rightarrow> line) maxBytes] else take count candidate);
             lastLine = start + length shown
         in Inr \<lparr>lw_lines = shown, lw_first = offset, lw_last = lastLine, lw_total = length lines,
              lw_next = (if lastLine < length lines then Some (lastLine + 1) else None), lw_clipped = clipped\<rparr>))"

record head_lines =
  hl_lines :: "utf16 list"
  hl_omitted :: nat

definition headLines :: "utf16 list \<Rightarrow> nat \<Rightarrow> nat \<Rightarrow> head_lines" where
  "headLines lines maxLines maxBytes =
     (let capped = take maxLines lines;
          count = fitting capped maxBytes;
          kept = (if count = 0 \<and> 0 < length capped then [clipHead (hd capped) maxBytes] else take count capped)
      in \<lparr>hl_lines = kept, hl_omitted = length lines - length kept\<rparr>)"

record output_tail =
  ot_text :: utf16
  ot_shown :: nat
  ot_total :: nat
  ot_truncated :: bool

definition tailText :: "utf16 \<Rightarrow> nat \<Rightarrow> nat \<Rightarrow> output_tail" where
  "tailText text maxLines maxBytes =
     (let lines = splitLines text;
          capped = drop (length lines - maxLines) lines;
          count = fitting (rev capped) maxBytes;
          kept = (if count = 0 \<and> 0 < length capped then [clipTail (last capped) maxBytes] else drop (length capped - count) capped)
      in \<lparr>ot_text = join [lineFeed] kept, ot_shown = length kept, ot_total = length lines,
          ot_truncated = (length kept < length lines \<or> (count = 0 \<and> 0 < length capped))\<rparr>)"

section \<open>Files as text\<close>

definition looksBinary :: "nat list \<Rightarrow> bool" where
  "looksBinary bytes \<longleftrightarrow> 0 \<in> set (take 8192 bytes)"

record decoded_text =
  dt_text :: utf16
  dt_bom :: bool
  dt_lossy :: bool

definition decodeText :: "nat list \<Rightarrow> decoded_text" where
  "decodeText bytes =
     (let bom = (take 3 bytes = [0xEF, 0xBB, 0xBF]);
          body = (if bom then drop 3 bytes else bytes)
      in case decodeStrict body of
           Some text \<Rightarrow> \<lparr>dt_text = text, dt_bom = bom, dt_lossy = False\<rparr>
         | None \<Rightarrow> \<lparr>dt_text = decodeLossy body, dt_bom = bom, dt_lossy = True\<rparr>)"

definition encodeText :: "utf16 \<Rightarrow> bool \<Rightarrow> utf16" where
  "encodeText text bom = (if bom then 0xFEFF # text else text)"

text \<open>\<open>(bytes / unit).toFixed(1)\<close>, the tie rounded up, and the whole number when there is no rest.\<close>

definition inUnits :: "nat \<Rightarrow> nat \<Rightarrow> string" where
  "inUnits bytes unit =
     (if bytes mod unit = 0 then dec_nat (bytes div unit)
      else (let tenths = (20 * bytes + unit) div (2 * unit) in dec_nat (tenths div 10) @ ''.'' @ dec_nat (tenths mod 10)))"

definition formatBytes :: "nat \<Rightarrow> string" where
  "formatBytes bytes =
     (if bytes < 1024 then dec_nat bytes @ '' B''
      else if bytes < 1048576 then inUnits bytes 1024 @ '' KB''
      else inUnits bytes 1048576 @ '' MB'')"

text \<open>\<open>mediaTypes\<close>, and \<open>mediaTypeOf\<close> on names in Latin letters.\<close>

definition mediaTypes :: "string \<Rightarrow> string option" where
  "mediaTypes = map_of
     [(''png'', ''image/png''), (''jpg'', ''image/jpeg''), (''jpeg'', ''image/jpeg''), (''gif'', ''image/gif''), (''webp'', ''image/webp''),
      (''bmp'', ''image/bmp''), (''ico'', ''image/x-icon''), (''tif'', ''image/tiff''), (''tiff'', ''image/tiff''), (''avif'', ''image/avif''),
      (''heic'', ''image/heic''), (''pdf'', ''application/pdf''), (''zip'', ''application/zip''), (''gz'', ''application/gzip''),
      (''tar'', ''application/x-tar''), (''wasm'', ''application/wasm''), (''mp3'', ''audio/mpeg''), (''wav'', ''audio/wav''),
      (''mp4'', ''video/mp4''), (''webm'', ''video/webm''), (''woff'', ''font/woff''), (''woff2'', ''font/woff2''), (''ttf'', ''font/ttf''), (''otf'', ''font/otf'')]"

definition mediaTypeOf :: "string \<Rightarrow> string option" where
  "mediaTypeOf name =
     (let base = (case last_index_of (CHR ''/'') name of None \<Rightarrow> name | Some at \<Rightarrow> drop (at + 1) name) in
      case last_index_of (CHR ''.'') base of
        None \<Rightarrow> None
      | Some dot \<Rightarrow> if dot = 0 then None else mediaTypes (folded (drop (dot + 1) base)))"

section \<open>Clips keep whole characters\<close>

definition leadByte :: "nat \<Rightarrow> bool" where
  "leadByte b \<longleftrightarrow> b div 64 \<noteq> 2"

lemma pointBytes_shape:
  assumes "scalar p"
  shows "\<exists>b bs. pointBytes p = b # bs \<and> leadByte b \<and> list_all (\<lambda>c. \<not> leadByte c) bs \<and> length bs < 4"
proof -
  have cont: "\<not> leadByte (128 + c mod 64)" for c by (simp add: leadByte_def)
  have "leadByte b" if "b < 0x80 \<or> 0xC0 \<le> b" for b using that by (auto simp: leadByte_def)
  then show ?thesis using cont by (auto simp: pointBytes_def)
qed

lemma pointBytes_ne: "pointBytes p \<noteq> []"
  by (simp add: pointBytes_def)

abbreviation bytesFrom :: "nat list \<Rightarrow> nat list" where
  "bytesFrom ps \<equiv> concat (map pointBytes ps)"

lemma bytesFrom_start: "list_all scalar ps \<Longrightarrow> \<not> isContinuation (bytesFrom ps) 0"
proof (cases ps)
  case (Cons p rest)
  assume "list_all scalar ps"
  with Cons pointBytes_shape [of p] show ?thesis by (auto simp: isContinuation_def leadByte_def)
qed (simp add: isContinuation_def)

lemma startAtOrBefore_bound: "startAtOrBefore bytes at \<le> at"
  by (induction bytes at rule: startAtOrBefore.induct) auto

text \<open>The search back from a place within the first character ends at its start.\<close>

lemma startAtOrBefore_inside:
  assumes "bytes = (b # bs) @ rest" and "list_all (\<lambda>c. \<not> leadByte c) bs" and "at \<le> length bs"
  shows "at < length bytes \<Longrightarrow> startAtOrBefore bytes at = 0"
  using assms(3)
proof (induction at)
  case (Suc at)
  then have "isContinuation bytes (Suc at)"
    using assms(1,2) by (auto simp: isContinuation_def nth_append list_all_length leadByte_def)
  with Suc show ?case by simp
qed simp

lemma startAtOrBefore_shift:
  assumes "\<not> isContinuation rest 0"
  shows "startAtOrBefore (xs @ rest) (length xs + at) = length xs + startAtOrBefore rest at"
proof (induction at)
  case 0
  show ?case
  proof (cases xs)
    case (Cons x ys)
    then show ?thesis using assms by (auto simp: isContinuation_def nth_append)
  qed simp
next
  case (Suc at)
  have "isContinuation (xs @ rest) (Suc (length xs + at)) = isContinuation rest (Suc at)"
    by (simp add: isContinuation_def nth_append)
  with Suc show ?case by simp
qed

lemma startAtOrBefore_points:
  "list_all scalar ps \<Longrightarrow> \<exists>k. startAtOrBefore (bytesFrom ps) at = length (bytesFrom (take k ps))"
proof (induction ps arbitrary: at)
  case Nil
  show ?case by (cases at) simp_all
next
  case (Cons p ps)
  obtain b bs where shape: "pointBytes p = b # bs" "list_all (\<lambda>c. \<not> leadByte c) bs"
    using pointBytes_shape [of p] Cons.prems by auto
  show ?case
  proof (cases "at < length (pointBytes p)")
    case True
    have "startAtOrBefore ((b # bs) @ bytesFrom ps) at = 0"
      by (rule startAtOrBefore_inside [OF refl shape(2)]) (use True shape(1) in auto)
    then show ?thesis using shape(1) by (intro exI [of _ 0]) simp
  next
    case False
    then obtain m where m: "at = length (pointBytes p) + m" using le_Suc_ex by (metis not_less)
    from Cons obtain k where "startAtOrBefore (bytesFrom ps) m = length (bytesFrom (take k ps))" by auto
    with startAtOrBefore_shift [OF bytesFrom_start, of ps "pointBytes p" m] Cons.prems m
    show ?thesis by (intro exI [of _ "Suc k"]) simp
  qed
qed

lemma codePoints_Cons: "\<not> surrogate u \<Longrightarrow> codePoints (u # us) = u # codePoints us"
  by (cases us) (auto simp: surrogate_def highSurrogate_def)

lemma pointUnits_pair:
  assumes "scalar p" and "0x10000 \<le> p"
  shows "\<exists>h l. pointUnits p = [h, l] \<and> highSurrogate h \<and> lowSurrogate l \<and> pairPoint h l = p"
proof -
  define q where "q = p - 0x10000"
  have p: "p = 0x10000 + q" "q < 0x100000" using assms by (auto simp: q_def scalar_def)
  have "q div 0x400 < 0x400" "q mod 0x400 < 0x400" using p(2) by auto
  then show ?thesis
    by (auto simp: p(1) pointUnits_def highSurrogate_def lowSurrogate_def pairPoint_def)
qed

lemma codePoints_pointUnits: "list_all scalar ps \<Longrightarrow> codePoints (concat (map pointUnits ps)) = ps"
proof (induction ps)
  case (Cons p ps)
  show ?case
  proof (cases "p < 0x10000")
    case True
    with Cons show ?thesis by (simp add: pointUnits_small codePoints_Cons scalar_def)
  next
    case False
    then obtain h l where "pointUnits p = [h, l]" "highSurrogate h" "lowSurrogate l" "pairPoint h l = p"
      using pointUnits_pair [of p] Cons.prems by auto
    with Cons show ?thesis by simp
  qed
qed simp

lemma decodeLossy_points: "list_all scalar ps \<Longrightarrow> decodeLossy (bytesFrom ps) = concat (map pointUnits ps)"
  using run_points [of ps "[]"] by (simp add: decodeLossy_def u8Start_def comp_def)

lemma list_all_take: "list_all P xs \<Longrightarrow> list_all P (take k xs)"
  by (auto simp: list_all_iff dest: in_set_takeD)

lemma list_all_drop: "list_all P xs \<Longrightarrow> list_all P (drop k xs)"
  by (auto simp: list_all_iff dest: in_set_dropD)

lemma take_bytes: "take (length (bytesFrom (take k ps))) (bytesFrom ps) = bytesFrom (take k ps)"
  by (metis append_eq_conv_conj append_take_drop_id concat_append map_append)

text \<open>The code points of a text a clip keeps: all of them, or the first of them.\<close>

lemma clipHead_points:
  assumes units: "unitsOnly text"
  shows "\<exists>k. codePoints (clipHead text n) = take k (codePoints text) \<and> utf8Length (clipHead text n) \<le> n"
proof (cases "utf8Length text \<le> n")
  case True
  then show ?thesis
    by (intro exI [of _ "length (codePoints text)"]) (simp add: clipHead_def utf8Length_def Let_def)
next
  case False
  let ?ps = "codePoints text"
  have ps: "list_all scalar ?ps" using units by (rule codePoints_scalar)
  obtain k where k: "startAtOrBefore (bytesFrom ?ps) n = length (bytesFrom (take k ?ps))"
    using startAtOrBefore_points [OF ps] by blast
  have "clipHead text n = decodeLossy (bytesFrom (take k ?ps))"
    using False k by (simp add: clipHead_def utf8Length_def encodeBytes_def Let_def take_bytes)
  then have cut: "clipHead text n = concat (map pointUnits (take k ?ps))"
    by (simp add: decodeLossy_points [OF list_all_take [OF ps]])
  then have points: "codePoints (clipHead text n) = take k ?ps"
    by (simp add: codePoints_pointUnits [OF list_all_take [OF ps]])
  moreover have "utf8Length (clipHead text n) \<le> n"
    using startAtOrBefore_bound [of "bytesFrom ?ps" n] by (simp add: utf8Length_def encodeBytes_def points k)
  ultimately show ?thesis by blast
qed


lemma startAtOrAfter_inside:
  assumes "bytes = xs @ rest" and "list_all (\<lambda>c. \<not> leadByte c) (List.tl xs)" and "\<not> isContinuation rest 0"
  shows "0 < at \<Longrightarrow> at \<le> length xs \<Longrightarrow> startAtOrAfter bytes at = length xs"
proof (induction "length xs - at" arbitrary: at)
  case 0
  then have at: "at = length xs" by simp
  have "isContinuation bytes (length xs) = isContinuation rest 0"
    by (simp add: assms(1) isContinuation_def nth_append)
  with assms(1,3) at show ?case by (subst startAtOrAfter.simps) simp
next
  case (Suc n)
  then have lt: "at < length xs" and ne: "xs \<noteq> []" by auto
  have "xs ! at = List.tl xs ! (at - 1)" using Suc.prems lt by (simp add: nth_tl)
  moreover have "\<not> leadByte (List.tl xs ! (at - 1))" using assms(2) Suc.prems lt by (simp add: list_all_length)
  ultimately have "isContinuation bytes at"
    using lt by (simp add: assms(1) isContinuation_def nth_append leadByte_def)
  with Suc.prems lt assms(1) have "startAtOrAfter bytes at = startAtOrAfter bytes (at + 1)"
    by (subst startAtOrAfter.simps) simp
  with Suc lt show ?case by simp
qed

lemma startAtOrAfter_shift:
  assumes "\<not> isContinuation rest 0"
  shows "startAtOrAfter (xs @ rest) (length xs + at) = length xs + startAtOrAfter rest at"
proof (induction "length rest - at" arbitrary: at)
  case 0
  then show ?case by (simp add: startAtOrAfter.simps [of "xs @ rest"] startAtOrAfter.simps [of rest])
next
  case (Suc n)
  have cont: "isContinuation (xs @ rest) (length xs + at) = isContinuation rest at"
    by (simp add: isContinuation_def nth_append)
  show ?case
  proof (cases "isContinuation rest at")
    case True
    with assms have "0 < at" by (cases at) auto
    have lt: "at < length rest" using Suc.hyps(2) by simp
    have "startAtOrAfter (xs @ rest) (length xs + at) = startAtOrAfter (xs @ rest) (length xs + (at + 1))"
      using lt True cont \<open>0 < at\<close> by (subst startAtOrAfter.simps) simp
    also have "\<dots> = length xs + startAtOrAfter rest (at + 1)"
      by (rule Suc.hyps(1)) (use Suc.hyps(2) in simp)
    also have "startAtOrAfter rest (at + 1) = startAtOrAfter rest at"
      using lt True \<open>0 < at\<close> by (subst (2) startAtOrAfter.simps) simp
    finally show ?thesis .
  next
    case False
    with Suc.hyps(2) cont show ?thesis
      by (simp add: startAtOrAfter.simps [of "xs @ rest"] startAtOrAfter.simps [of rest])
  qed
qed

lemma startAtOrAfter_bound: "at \<le> length bytes \<Longrightarrow> at \<le> startAtOrAfter bytes at"
proof (induction bytes at rule: startAtOrAfter.induct)
  case (1 bytes at)
  then show ?case by (subst startAtOrAfter.simps) auto
qed

lemma startAtOrAfter_points:
  "list_all scalar ps \<Longrightarrow> \<exists>k. startAtOrAfter (bytesFrom ps) at = length (bytesFrom (take k ps))"
proof (induction ps arbitrary: at)
  case Nil
  show ?case by (simp add: startAtOrAfter.simps)
next
  case (Cons p ps)
  have rest: "list_all scalar ps" using Cons.prems by simp
  obtain b bs where shape: "pointBytes p = b # bs" "list_all (\<lambda>c. \<not> leadByte c) bs"
    using pointBytes_shape [of p] Cons.prems by auto
  consider "at = 0" | "0 < at" "at < length (pointBytes p)" | "length (pointBytes p) \<le> at" by linarith
  then show ?case
  proof cases
    case 1
    then show ?thesis by (intro exI [of _ 0]) (simp add: startAtOrAfter.simps pointBytes_ne)
  next
    case 2
    have "startAtOrAfter (pointBytes p @ bytesFrom ps) at = length (pointBytes p)"
      by (rule startAtOrAfter_inside [OF refl _ bytesFrom_start [OF rest]]) (use 2 shape in auto)
    then show ?thesis by (intro exI [of _ 1]) simp
  next
    case 3
    then obtain m where m: "at = length (pointBytes p) + m" using le_Suc_ex by blast
    from Cons.IH [OF rest] obtain k where "startAtOrAfter (bytesFrom ps) m = length (bytesFrom (take k ps))" by blast
    with startAtOrAfter_shift [OF bytesFrom_start [OF rest], of "pointBytes p" m] m
    show ?thesis by (intro exI [of _ "Suc k"]) simp
  qed
qed

lemma drop_bytes: "drop (length (bytesFrom (take k ps))) (bytesFrom ps) = bytesFrom (drop k ps)"
  by (metis append_eq_conv_conj append_take_drop_id concat_append map_append)

lemma clipTail_points:
  assumes units: "unitsOnly text"
  shows "\<exists>k. codePoints (clipTail text n) = drop k (codePoints text) \<and> utf8Length (clipTail text n) \<le> n"
proof (cases "utf8Length text \<le> n")
  case True
  then show ?thesis by (intro exI [of _ 0]) (simp add: clipTail_def utf8Length_def Let_def)
next
  case False
  let ?ps = "codePoints text"
  have ps: "list_all scalar ?ps" using units by (rule codePoints_scalar)
  have enc: "encodeBytes text = bytesFrom ?ps" by (simp add: encodeBytes_def)
  obtain k where k: "startAtOrAfter (bytesFrom ?ps) (length (bytesFrom ?ps) - n) = length (bytesFrom (take k ?ps))"
    using startAtOrAfter_points [OF ps] by blast
  have "clipTail text n = decodeLossy (bytesFrom (drop k ?ps))"
    using False k by (simp add: clipTail_def utf8Length_def enc Let_def drop_bytes)
  then have cut: "clipTail text n = concat (map pointUnits (drop k ?ps))"
    by (simp add: decodeLossy_points [OF list_all_drop [OF ps]])
  then have points: "codePoints (clipTail text n) = drop k ?ps"
    by (simp add: codePoints_pointUnits [OF list_all_drop [OF ps]])
  moreover have "utf8Length (clipTail text n) \<le> n"
  proof -
    have "length (bytesFrom ?ps) - n \<le> length (bytesFrom (take k ?ps))"
      using startAtOrAfter_bound [of "length (bytesFrom ?ps) - n" "bytesFrom ?ps"] k by simp
    moreover have "length (bytesFrom ?ps) = length (bytesFrom (take k ?ps)) + length (bytesFrom (drop k ?ps))"
      by (metis append_take_drop_id concat_append length_append map_append)
    ultimately have "length (bytesFrom (drop k ?ps)) \<le> n" by linarith
    then show ?thesis by (simp add: utf8Length_def encodeBytes_def points)
  qed
  ultimately show ?thesis by blast
qed

section \<open>Lines fit\<close>

lemma codePoints_line: "codePoints (xs @ lineFeed # ys) = codePoints xs @ lineFeed # codePoints ys"
proof (induction xs rule: codePoints.induct)
  case 1
  show ?case by (simp add: codePoints_Cons surrogate_def)
next
  case (2 u)
  show ?case by (simp add: lowSurrogate_def codePoints_Cons surrogate_def)
next
  case (3 u v us)
  then show ?case by simp
qed

lemma utf8Length_line: "utf8Length (xs @ lineFeed # ys) = utf8Length xs + 1 + utf8Length ys"
  by (simp add: utf8Length_def encodeBytes_def codePoints_line pointBytes_def)

fun joinedLength :: "utf16 list \<Rightarrow> nat" where
  "joinedLength [] = 0"
| "joinedLength [l] = utf8Length l"
| "joinedLength (l # m # ls) = utf8Length l + 1 + joinedLength (m # ls)"

lemma joinedLength_join: "utf8Length (join [lineFeed] lines) = joinedLength lines"
  by (induction lines rule: joinedLength.induct)
     (simp_all add: utf8Length_line, simp add: utf8Length_def encodeBytes_def)

lemma joinedLength_snoc: "joinedLength (ls @ [l]) = (if ls = [] then utf8Length l else joinedLength ls + 1 + utf8Length l)"
  by (induction ls rule: joinedLength.induct) auto

lemma lineTotals_length [simp]: "length (lineTotals p lines) = length lines"
  by (induction lines arbitrary: p) (simp_all add: Let_def)

lemma lineTotals_snoc: "lineTotals p (ls @ [l]) = lineTotals p ls @ lineTotals (if ls = [] then p else Some (last (lineTotals p ls))) [l]"
proof (induction ls arbitrary: p)
  case (Cons a ls)
  have "lineTotals q ls \<noteq> []" if "ls \<noteq> []" for q using lineTotals_length [of q ls] that by (metis length_0_conv)
  with Cons show ?case by (simp add: Let_def)
qed simp

lemma lineTotals_nth: "i < length lines \<Longrightarrow> lineTotals None lines ! i = joinedLength (take (Suc i) lines)"
proof (induction lines arbitrary: i rule: rev_induct)
  case (snoc l ls)
  show ?case
  proof (cases "i < length ls")
    case True
    with snoc show ?thesis by (simp add: lineTotals_snoc nth_append)
  next
    case False
    with snoc.prems have i: "i = length ls" by simp
    show ?thesis
    proof (cases "ls = []")
      case True
      with i show ?thesis by (simp add: Let_def)
    next
      case ne: False
      have some: "lineTotals None ls \<noteq> []" using lineTotals_length [of None ls] ne by force
      have "last (lineTotals None ls) = joinedLength ls"
        using snoc.IH [of "length ls - 1"] last_conv_nth [OF some] ne by simp
      with i ne show ?thesis by (simp add: lineTotals_snoc nth_append Let_def joinedLength_snoc)
    qed
  qed
qed simp

lemma find_upt_Some:
  "find P [0..<n] = Some i \<Longrightarrow> i < n \<and> P i \<and> (\<forall>j<i. \<not> P j)"
  by (auto simp: find_Some_iff)

lemma fitting_le: "fitting lines n \<le> length lines"
  by (auto simp: fitting_def Let_def find_Some_iff split: option.splits)

lemma fitting_fits: "joinedLength (take (fitting lines n) lines) \<le> n"
proof (cases "fitting lines n")
  case (Suc i)
  have "lineTotals None lines ! i \<le> n"
  proof (cases "find (\<lambda>i. n < lineTotals None lines ! i) [0..<length lines]")
    case None
    with Suc show ?thesis by (auto simp: fitting_def Let_def find_None_iff not_less)
  next
    case (Some k)
    with Suc find_upt_Some [OF Some] show ?thesis by (simp add: fitting_def Let_def not_less)
  qed
  with Suc lineTotals_nth [of i lines] fitting_le [of lines n] show ?thesis by simp
qed simp

lemma fitting_most:
  assumes "fitting lines n < length lines"
  shows "n < joinedLength (take (Suc (fitting lines n)) lines)"
proof -
  from assms obtain i where "find (\<lambda>i. n < lineTotals None lines ! i) [0..<length lines] = Some i" "fitting lines n = i"
    by (auto simp: fitting_def Let_def split: option.splits)
  with find_upt_Some [of _ _ i] lineTotals_nth [of i lines] show ?thesis by fastforce
qed

lemma joinedLength_first: "utf8Length l \<le> joinedLength (l # lines)"
  by (cases lines) simp_all

lemma joinedLength_line: "l \<in> set lines \<Longrightarrow> utf8Length l \<le> joinedLength lines"
  by (induction lines rule: joinedLength.induct) auto

lemma fitting_none: "fitting (l # lines) n = 0 \<longleftrightarrow> n < utf8Length l"
proof (cases "fitting (l # lines) n")
  case 0
  with fitting_most [of "l # lines" n] show ?thesis by simp
next
  case (Suc k)
  with fitting_fits [of "l # lines" n] joinedLength_first [of l "take k lines"] show ?thesis by simp
qed

lemma joinedLength_rev: "joinedLength (rev lines) = joinedLength lines"
proof (induction lines)
  case (Cons l lines)
  then show ?case by (cases lines) (simp_all only: rev.simps joinedLength_snoc, simp_all)
qed simp

lemma split_on_within: "part \<in> set (split_on c xs) \<Longrightarrow> set part \<subseteq> set xs"
proof (induction xs arbitrary: part)
  case (Cons x xs)
  obtain w ws where ws: "split_on c xs = w # ws" by (cases "split_on c xs") auto
  with Cons.IH [of w] Cons.IH [of part] Cons.prems show ?case by (auto split: if_splits)
qed simp

lemma unitsOnly_line:
  assumes units: "unitsOnly xs" and line: "line \<in> set (splitLines xs)"
  shows "unitsOnly line"
proof -
  from line obtain part where part: "part \<in> set (split_on lineFeed xs)" "line = withoutCr part"
    by (auto simp: splitLines_def Let_def split: if_splits dest: in_set_butlastD)
  then have "set line \<subseteq> set xs"
    using split_on_within [OF part(1)] by (auto simp: withoutCr_def split: if_splits dest: in_set_butlastD)
  with units show ?thesis by (auto simp: unitsOnly_def list_all_iff)
qed

section \<open>Windows are bounded\<close>

definition shownOf :: "utf16 list \<Rightarrow> nat \<Rightarrow> utf16 list" where
  "shownOf candidate maxBytes =
     (if fitting candidate maxBytes = 0 then [clipHead (case candidate of [] \<Rightarrow> [] | line # _ \<Rightarrow> line) maxBytes]
      else take (fitting candidate maxBytes) candidate)"

lemma lineWindow_eq:
  assumes "splitLines str \<noteq> []"
  shows "lineWindow str offset limit maxBytes =
     (let candidate = take limit (drop (offset - 1) (splitLines str));
          lastLine = offset - 1 + length (shownOf candidate maxBytes)
      in if length (splitLines str) \<le> offset - 1 then Inl (length (splitLines str))
         else Inr \<lparr>lw_lines = shownOf candidate maxBytes, lw_first = offset, lw_last = lastLine, lw_total = length (splitLines str),
           lw_next = (if lastLine < length (splitLines str) then Some (lastLine + 1) else None),
           lw_clipped = (fitting candidate maxBytes = 0)\<rparr>)"
proof -
  have start: "JsText.slice n (n + limit) xs = take limit (drop n xs)" for n and xs :: "utf16 list" by (simp add: JsText.slice_def)
  have no: "\<not> (length (splitLines str) = 0 \<and> offset - 1 = 0)" using assms by simp
  show ?thesis unfolding lineWindow_def Let_def start shownOf_def [symmetric] if_not_P [OF no] by (rule refl)
qed

lemma lineWindow_shown:
  assumes window: "lineWindow str offset limit maxBytes = Inr window" and some: "splitLines str \<noteq> []"
  defines "candidate \<equiv> take limit (drop (offset - 1) (splitLines str))"
  shows "lw_lines window = shownOf candidate maxBytes" "offset - 1 < length (splitLines str)"
    "lw_last window = offset - 1 + length (lw_lines window)"
    "lw_next window = (if lw_last window < length (splitLines str) then Some (lw_last window + 1) else None)"
proof -
  show start: "offset - 1 < length (splitLines str)"
    using window unfolding lineWindow_eq [OF some] Let_def by (metis Inl_Inr_False not_less)
  have "\<not> length (splitLines str) \<le> offset - 1" using start by simp
  from window [unfolded lineWindow_eq [OF some] Let_def if_not_P [OF this], folded candidate_def]
  show "lw_lines window = shownOf candidate maxBytes" "lw_last window = offset - 1 + length (lw_lines window)"
    "lw_next window = (if lw_last window < length (splitLines str) then Some (lw_last window + 1) else None)"
    by (auto simp only: sum.inject line_window.simps)
qed

lemma lineWindow_no_lines:
  "lineWindow str offset limit maxBytes = Inr window \<Longrightarrow> splitLines str = [] \<Longrightarrow> lw_lines window = [] \<and> lw_next window = None"
  by (auto simp: lineWindow_def Let_def split: if_splits)

lemma utf8Length_empty: "utf8Length [] = 0"
  by (simp add: utf8Length_def encodeBytes_def)

lemma shownOf_bounded:
  assumes "list_all unitsOnly candidate"
  shows "joinedLength (shownOf candidate maxBytes) \<le> maxBytes" and "length (shownOf candidate maxBytes) \<le> max 1 (length candidate)"
proof -
  have "unitsOnly (case candidate of [] \<Rightarrow> [] | line # _ \<Rightarrow> line)"
    using assms by (cases candidate) (simp_all add: unitsOnly_def)
  then show "joinedLength (shownOf candidate maxBytes) \<le> maxBytes"
    using fitting_fits [of candidate maxBytes] clipHead_points [of "case candidate of [] \<Rightarrow> [] | line # _ \<Rightarrow> line" maxBytes]
    by (simp add: shownOf_def)
  show "length (shownOf candidate maxBytes) \<le> max 1 (length candidate)" by (auto simp: shownOf_def)
qed

lemma tailText_bounded:
  assumes units: "unitsOnly str"
  shows "utf8Length (ot_text (tailText str limit maxBytes)) \<le> maxBytes" and "ot_shown (tailText str limit maxBytes) \<le> limit"
proof -
  define capped where "capped = drop (length (splitLines str) - limit) (splitLines str)"
  define count where "count = fitting (rev capped) maxBytes"
  have len: "length capped \<le> limit" by (simp add: capped_def)
  have count: "count \<le> length capped" using fitting_le [of "rev capped" maxBytes] by (simp add: count_def)
  have tail: "tailText str limit maxBytes = \<lparr>ot_text = join [lineFeed] kept, ot_shown = length kept, ot_total = length (splitLines str),
      ot_truncated = (length kept < length (splitLines str) \<or> (count = 0 \<and> 0 < length capped))\<rparr>"
    if "kept = (if count = 0 \<and> 0 < length capped then [clipTail (last capped) maxBytes] else drop (length capped - count) capped)" for kept
    using that by (simp add: tailText_def Let_def capped_def count_def)
  have drop: "drop (length capped - count) capped = rev (take count (rev capped))" by (simp add: take_rev)
  show "ot_shown (tailText str limit maxBytes) \<le> limit"
    using tail [OF refl] len count by (cases capped) auto
  show "utf8Length (ot_text (tailText str limit maxBytes)) \<le> maxBytes"
  proof (cases "count = 0 \<and> 0 < length capped")
    case True
    then have "last capped \<in> set capped" by simp
    then have "last capped \<in> set (splitLines str)" unfolding capped_def by (rule in_set_dropD)
    with clipTail_points [OF unitsOnly_line [OF units this], of maxBytes] True tail [OF refl] show ?thesis by auto
  next
    case False
    then have "ot_text (tailText str limit maxBytes) = join [lineFeed] (rev (take count (rev capped)))"
      using tail [OF refl] drop by (simp only: if_False output_tail.simps)
    then show ?thesis
      using fitting_fits [of "rev capped" maxBytes] by (simp only: joinedLength_join joinedLength_rev count_def)
  qed
qed

lemma lineWindow_bounded:
  assumes "unitsOnly str" and "0 < limit" and window: "lineWindow str offset limit maxBytes = Inr window"
  shows "utf8Length (join [lineFeed] (lw_lines window)) \<le> maxBytes \<and> length (lw_lines window) \<le> limit"
proof -
  let ?candidate = "take limit (drop (offset - 1) (splitLines str))"
  have "list_all unitsOnly ?candidate"
    using unitsOnly_line [OF assms(1)] by (auto simp: list_all_iff dest: in_set_takeD in_set_dropD)
  from shownOf_bounded [OF this, of maxBytes] lineWindow_shown(1) [OF window] lineWindow_no_lines [OF window] assms(2)
  show ?thesis
    by (cases "splitLines str = []") (auto simp: joinedLength_join max_def utf8Length_empty split: if_splits)
qed

text \<open>
  C30. What the workspace tools show never exceeds the byte limit they were given: the lines of a window
  of a text, joined by newlines, and the end of a command's output both take at most maxBytes of UTF-8,
  whatever the text, a first (last) line longer than that included; and neither shows more lines than
  asked for.
\<close>
theorem windows_are_bounded:
  assumes "unitsOnly str" and "0 < limit"
  shows "(\<forall>window. lineWindow str offset limit maxBytes = Inr window \<longrightarrow>
        utf8Length (join [lineFeed] (lw_lines window)) \<le> maxBytes \<and> length (lw_lines window) \<le> limit)
    \<and> utf8Length (ot_text (tailText str limit maxBytes)) \<le> maxBytes \<and> ot_shown (tailText str limit maxBytes) \<le> limit"
  using lineWindow_bounded [OF assms] tailText_bounded [OF assms(1)] by blast

lemmas asciiLines = splitLines_def withoutCr_def ends_with_def utf8Length_def encodeBytes_def pointBytes_def
  highSurrogate_def lowSurrogate_def surrogate_def

lemma windows_are_bounded_witness:
  "utf8Length (join [lineFeed] (lw_lines \<lparr>lw_lines = [[97], [98]], lw_first = 2, lw_last = 3, lw_total = 4, lw_next = Some 4, lw_clipped = False\<rparr>)) \<le> 3
     \<and> utf8Length (ot_text (tailText [120, 10, 97, 10, 98, 10, 233] 5 2)) \<le> 2"
proof -
  let ?text = "[120, 10, 97, 10, 98, 10, 233] :: utf16"
  have "unitsOnly ?text" by (simp add: unitsOnly_def)
  moreover have "lineWindow ?text 2 5 3 = Inr \<lparr>lw_lines = [[97], [98]], lw_first = 2, lw_last = 3, lw_total = 4, lw_next = Some 4, lw_clipped = False\<rparr>"
    by (simp add: asciiLines lineWindow_def JsText.slice_def fitting_def upt_rec)
  ultimately show ?thesis
    using windows_are_bounded [of ?text 5 2 3] windows_are_bounded [of ?text 5 2 2] by simp
qed

section \<open>Paging\<close>

lemma shownOf_ne: "shownOf candidate maxBytes \<noteq> []"
  using fitting_le [of candidate maxBytes] by (auto simp: shownOf_def)

lemma lineWindow_next:
  assumes "lineWindow str offset limit maxBytes = Inr window" and "lw_next window = Some at"
  shows "offset < at \<and> at \<le> length (splitLines str)"
proof (cases "splitLines str = []")
  case True
  with lineWindow_no_lines [OF assms(1)] assms(2) show ?thesis by simp
next
  case False
  note win = lineWindow_shown [OF assms(1) False]
  have "0 < length (lw_lines window)" using shownOf_ne by (simp add: win(1))
  moreover have "at = lw_last window + 1" "lw_last window < length (splitLines str)"
    using win(4) assms(2) by (simp_all split: if_splits)
  ultimately show ?thesis using win(3) by linarith
qed

text \<open>A reader that asks for the next window, at the line the last one named, until none is named.\<close>

function pagesFrom :: "utf16 \<Rightarrow> nat \<Rightarrow> nat \<Rightarrow> nat \<Rightarrow> utf16 list" where
  "pagesFrom str offset limit maxBytes =
     (case lineWindow str offset limit maxBytes of
        Inl _ \<Rightarrow> []
      | Inr window \<Rightarrow> lw_lines window
          @ (case lw_next window of None \<Rightarrow> [] | Some more_at \<Rightarrow> pagesFrom str more_at limit maxBytes))"
  by pat_completeness auto

termination
proof (relation "measure (\<lambda>(str, offset, _). length (splitLines str) - offset)")
  fix str offset limit maxBytes window at
  assume "lineWindow str offset limit maxBytes = Inr window" "lw_next window = Some at"
  from lineWindow_next [OF this]
  show "((str, at, limit, maxBytes), (str, offset, limit, maxBytes)) \<in> measure (\<lambda>(str, offset, _). length (splitLines str) - offset)"
    by auto
qed simp

declare pagesFrom.simps [simp del]

lemma clipHead_fits: "utf8Length line \<le> n \<Longrightarrow> clipHead line n = line"
  by (simp add: clipHead_def utf8Length_def Let_def)

lemma shownOf_clips:
  assumes "candidate \<noteq> []"
  shows "shownOf candidate n = map (\<lambda>line. clipHead line n) (take (length (shownOf candidate n)) candidate)"
proof (cases "fitting candidate n = 0")
  case True
  with assms show ?thesis by (cases candidate) (simp_all add: shownOf_def)
next
  case False
  have "clipHead line n = line" if "line \<in> set (take (fitting candidate n) candidate)" for line
    using joinedLength_line [OF that] fitting_fits [of candidate n] clipHead_fits by fastforce
  with False fitting_le [of candidate n] show ?thesis by (simp add: shownOf_def map_idI)
qed

lemma pagesFrom_rest:
  "0 < limit \<Longrightarrow> 0 < offset \<Longrightarrow>
     pagesFrom str offset limit maxBytes = map (\<lambda>line. clipHead line maxBytes) (drop (offset - 1) (splitLines str))"
proof (induction str offset limit maxBytes rule: pagesFrom.induct)
  case (1 str offset limit maxBytes)
  let ?all = "splitLines str" and ?clip = "\<lambda>line. clipHead line maxBytes"
  show ?case
  proof (cases "lineWindow str offset limit maxBytes")
    case (Inl n)
    then have "length ?all \<le> offset - 1" by (auto simp: lineWindow_def Let_def split: if_splits)
    with Inl show ?thesis by (simp add: pagesFrom.simps)
  next
    case (Inr window)
    show ?thesis
    proof (cases "?all = []")
      case True
      with lineWindow_no_lines [OF Inr] Inr show ?thesis by (simp add: pagesFrom.simps)
    next
      case False
      let ?candidate = "take limit (drop (offset - 1) ?all)"
      note win = lineWindow_shown [OF Inr False]
      have ne: "?candidate \<noteq> []" using win(2) "1.prems" by simp
      define k where "k = length (lw_lines window)"
      have k: "k \<le> length ?candidate"
        using shownOf_bounded(2) [of "[]"] fitting_le [of ?candidate maxBytes] ne
        by (auto simp: k_def win(1) shownOf_def Suc_le_eq)
      have lines: "lw_lines window = map ?clip (take k (drop (offset - 1) ?all))"
      proof -
        have "take k ?candidate = take k (drop (offset - 1) ?all)" using k by (simp add: min_absorb1)
        with shownOf_clips [OF ne, of maxBytes] show ?thesis unfolding win(1) [symmetric] k_def by simp
      qed
      have rest: "(case lw_next window of None \<Rightarrow> [] | Some at \<Rightarrow> pagesFrom str at limit maxBytes) = map ?clip (drop (offset - 1 + k) ?all)"
      proof (cases "lw_next window")
        case None
        with win(3,4) show ?thesis by (simp add: k_def split: if_splits)
      next
        case (Some at)
        with win(3,4) have "at = offset - 1 + k + 1" by (simp add: k_def split: if_splits)
        with "1.IH" [OF Inr Some "1.prems"(1)] Some show ?thesis by simp
      qed
      have "drop (offset - 1) ?all = take k (drop (offset - 1) ?all) @ drop (offset - 1 + k) ?all"
        by (metis add.commute append_take_drop_id drop_drop)
      with Inr lines rest show ?thesis by (simp add: pagesFrom.simps [of str offset]) (metis map_append)
    qed
  qed
qed

text \<open>
  C31. A reader that pages through a file, asking each time for the window at the line the last one named
  as next, reaches the end and has then seen every line exactly once, in order, each whole or, when it
  alone is longer than a window, as its start.
\<close>
theorem paging_shows_every_line_once:
  assumes "0 < limit"
  shows "pagesFrom str 1 limit maxBytes = map (\<lambda>line. clipHead line maxBytes) (splitLines str)"
  using pagesFrom_rest [OF assms, of 1 str maxBytes] by simp

lemma paging_shows_every_line_once_witness:
  "pagesFrom [120, 10, 97, 13, 10, 98, 10, 233] 1 2 3 = [[120], [97], [98], [233]]"
proof -
  have "map (\<lambda>line. clipHead line 3) (splitLines [120, 10, 97, 13, 10, 98, 10, 233]) = [[120], [97], [98], [233]]"
    by (simp add: asciiLines clipHead_def)
  then show ?thesis using paging_shows_every_line_once [of 2 "[120, 10, 97, 13, 10, 98, 10, 233]" 3] by simp
qed

section \<open>Files read without loss are written back as they were\<close>

lemma continuation_byte: "0x80 \<le> b \<Longrightarrow> b \<le> (0xBF::nat) \<Longrightarrow> \<exists>c<64. b = 0x80 + c"
  by (rule exI [of _ "b - 0x80"]) simp

lemma two_bytes: "2 \<le> a \<Longrightarrow> a < 32 \<Longrightarrow> c < 64 \<Longrightarrow> pointBytes (a * 64 + c) = [0xC0 + a, 0x80 + c] \<and> scalar (a * 64 + c)"
  using mod_shift [of c 64 a] by (simp add: pointBytes_def scalar_def surrogate_def)

lemma three_bytes:
  assumes "a < 16" "b < 64" "c < 64" and "a = 0 \<longrightarrow> 32 \<le> b" and "a = 13 \<longrightarrow> b < 32"
  shows "pointBytes ((a * 64 + b) * 64 + c) = [0xE0 + a, 0x80 + b, 0x80 + c] \<and> scalar ((a * 64 + b) * 64 + c)"
proof -
  let ?p = "(a * 64 + b) * 64 + c"
  have "?p mod 64 = c" "?p div 64 = a * 64 + b" using assms(3) mod_shift [OF assms(3), of "a * 64 + b"] by simp_all
  moreover have "(a * 64 + b) mod 64 = b" "(a * 64 + b) div 64 = a" using assms(2) by simp_all
  moreover have "0x800 \<le> ?p" "?p < 0x10000" using assms by (cases "a = 0"; simp)+
  moreover have "\<not> surrogate ?p"
  proof -
    consider "a \<le> 12" | "a = 13" "b < 32" | "14 \<le> a" using assms(5) by linarith
    then have "?p < 0xD800 \<or> 0xDFFF < ?p" 
    proof cases
      case 1
      then have "?p < 0xD800" using assms(2,3) by simp
      then show ?thesis ..
    next
      case 2
      then have "?p < 0xD800" using assms(2,3) by simp
      then show ?thesis ..
    next
      case 3
      then have "0xDFFF < ?p" by simp
      then show ?thesis ..
    qed
    then show ?thesis by (auto simp: surrogate_def)
  qed
  ultimately show ?thesis by (simp add: pointBytes_def scalar_def div_twice(1))
qed

lemma four_bytes:
  assumes "a < 5" "b < 64" "c < 64" "d < 64" and "a = 0 \<longrightarrow> 16 \<le> b" and "a = 4 \<longrightarrow> b < 16"
  shows "pointBytes (((a * 64 + b) * 64 + c) * 64 + d) = [0xF0 + a, 0x80 + b, 0x80 + c, 0x80 + d] \<and> scalar (((a * 64 + b) * 64 + c) * 64 + d)"
proof -
  let ?q = "(a * 64 + b) * 64 + c" and ?p = "((a * 64 + b) * 64 + c) * 64 + d"
  have "?p mod 64 = d" "?p div 64 = ?q" using assms(4) mod_shift [OF assms(4), of ?q] by simp_all
  moreover have "?q mod 64 = c" "?q div 64 = a * 64 + b" using assms(3) mod_shift [OF assms(3), of "a * 64 + b"] by simp_all
  moreover have "(a * 64 + b) mod 64 = b" "(a * 64 + b) div 64 = a" using assms(2) by simp_all
  moreover have "0x10000 \<le> ?p \<and> ?p < 0x110000"
  proof -
    consider "a = 0" "16 \<le> b" | "1 \<le> a" "a \<le> 3" | "a = 4" "b < 16" using assms(1,5,6) by linarith
    then show ?thesis using assms(2-4) by cases simp_all
  qed
  ultimately show ?thesis by (simp add: pointBytes_def scalar_def surrogate_def div_twice)
qed

lemma u8Run_within:
  assumes "None \<notin> set (u8Run st bytes)" and "0 < u8_needed st"
  shows "\<exists>b rest. bytes = b # rest \<and> u8_lower st \<le> b \<and> b \<le> u8_upper st
     \<and> (1 < u8_needed st \<longrightarrow> None \<notin> set (u8Run \<lparr>u8_point = u8_point st * 64 + b mod 64, u8_needed = u8_needed st - 1, u8_lower = 0x80, u8_upper = 0xBF\<rparr> rest))"
  using assms by (cases bytes) (auto simp: u8Step_def Let_def split: if_splits prod.splits)

lemma valid_two:
  assumes "None \<notin> set (u8Run \<lparr>u8_point = p, u8_needed = 2, u8_lower = lo, u8_upper = hi\<rparr> bytes)"
  shows "\<exists>b c rest. bytes = b # (0x80 + c) # rest \<and> lo \<le> b \<and> b \<le> hi \<and> c < 64"
proof -
  from u8Run_within [OF assms] obtain b rest where b: "bytes = b # rest" "lo \<le> b" "b \<le> hi"
    and more_ok: "None \<notin> set (u8Run \<lparr>u8_point = p * 64 + b mod 64, u8_needed = 1, u8_lower = 0x80, u8_upper = 0xBF\<rparr> rest)" by auto
  from u8Run_within [OF more_ok] obtain e rest' where "rest = e # rest'" "0x80 \<le> e" "e \<le> 0xBF" by auto
  with continuation_byte [of e] b show ?thesis by blast
qed

lemma valid_three:
  assumes "None \<notin> set (u8Run \<lparr>u8_point = p, u8_needed = 3, u8_lower = lo, u8_upper = hi\<rparr> bytes)"
  shows "\<exists>b c d rest. bytes = b # (0x80 + c) # (0x80 + d) # rest \<and> lo \<le> b \<and> b \<le> hi \<and> c < 64 \<and> d < 64"
proof -
  from u8Run_within [OF assms] obtain b rest where b: "bytes = b # rest" "lo \<le> b" "b \<le> hi"
    and more_ok: "None \<notin> set (u8Run \<lparr>u8_point = p * 64 + b mod 64, u8_needed = 2, u8_lower = 0x80, u8_upper = 0xBF\<rparr> rest)" by auto
  from valid_two [OF more_ok] obtain e d rest' where "rest = e # (0x80 + d) # rest'" "0x80 \<le> e" "e \<le> 0xBF" "d < 64" by auto
  with continuation_byte [of e] b show ?thesis by blast
qed

text \<open>Valid bytes begin with the bytes of a character.\<close>

lemma valid_next:
  assumes valid: "None \<notin> set (u8Run u8Start (b # bytes))"
  shows "\<exists>p rest. scalar p \<and> b # bytes = pointBytes p @ rest"
proof -
  have step: "u8Step u8Start b = u8Lead b" by (simp add: u8Step_def u8Start_def)
  consider "b < 0x80" | "0xC2 \<le> b" "b \<le> 0xDF" | "0xE0 \<le> b" "b \<le> 0xEF" | "0xF0 \<le> b" "b \<le> 0xF4" | "u8Lead b = ([None], u8Start)"
    by (fastforce simp: u8Lead_def)
  then show ?thesis
  proof cases
    case 1
    then show ?thesis by (intro exI [of _ b] exI [of _ bytes]) (simp add: pointBytes_def scalar_def surrogate_def)
  next
    case 2
    then have "None \<notin> set (u8Run (u8Start\<lparr>u8_needed := 1, u8_point := b mod 32\<rparr>) bytes)"
      using valid step by (simp add: u8Lead_def)
    from u8Run_within [OF this] obtain e rest where e: "bytes = e # rest" "0x80 \<le> e" "e \<le> 0xBF" by (auto simp: u8Start_def)
    obtain c where "c < 64" "e = 0x80 + c" using continuation_byte [OF e(2,3)] by blast
    moreover obtain a where "b = 0xC0 + a" "2 \<le> a" "a < 32" using 2 that [of "b - 0xC0"] by simp
    ultimately show ?thesis using two_bytes [of a c] e(1) by (intro exI [of _ "a * 64 + c"] exI [of _ rest]) simp
  next
    case 3
    define lo hi where "lo = (if b = 0xE0 then 0xA0 else 0x80::nat)" and "hi = (if b = 0xED then 0x9F else 0xBF::nat)"
    have "None \<notin> set (u8Run \<lparr>u8_point = b mod 16, u8_needed = 2, u8_lower = lo, u8_upper = hi\<rparr> bytes)"
      using valid step 3 by (simp add: u8Lead_def lo_def hi_def)
    from valid_two [OF this] obtain e d rest where e: "bytes = e # (0x80 + d) # rest" "lo \<le> e" "e \<le> hi" "d < 64" by blast
    then have "0x80 \<le> e" "e \<le> 0xBF" by (auto simp: lo_def hi_def split: if_splits)
    then obtain c where c: "c < 64" "e = 0x80 + c" using continuation_byte by blast
    obtain a where a: "b = 0xE0 + a" "a < 16" using 3 that [of "b - 0xE0"] by simp
    have "a = 0 \<longrightarrow> 32 \<le> c" "a = 13 \<longrightarrow> c < 32" using e(2,3) c a by (auto simp: lo_def hi_def)
    from three_bytes [OF a(2) c(1) e(4) this] e(1) c(2) a(1) show ?thesis
      by (intro exI [of _ "(a * 64 + c) * 64 + d"] exI [of _ rest]) simp
  next
    case 4
    define lo hi where "lo = (if b = 0xF0 then 0x90 else 0x80::nat)" and "hi = (if b = 0xF4 then 0x8F else 0xBF::nat)"
    have "None \<notin> set (u8Run \<lparr>u8_point = b mod 8, u8_needed = 3, u8_lower = lo, u8_upper = hi\<rparr> bytes)"
      using valid step 4 by (simp add: u8Lead_def lo_def hi_def)
    from valid_three [OF this] obtain e d f rest where e: "bytes = e # (0x80 + d) # (0x80 + f) # rest" "lo \<le> e" "e \<le> hi" "d < 64" "f < 64" by blast
    then have "0x80 \<le> e" "e \<le> 0xBF" by (auto simp: lo_def hi_def split: if_splits)
    then obtain c where c: "c < 64" "e = 0x80 + c" using continuation_byte by blast
    obtain a where a: "b = 0xF0 + a" "a < 5" using 4 that [of "b - 0xF0"] by simp
    have "a = 0 \<longrightarrow> 16 \<le> c" "a = 4 \<longrightarrow> c < 16" using e(2,3) c a by (auto simp: lo_def hi_def)
    from four_bytes [OF a(2) c(1) e(4,5) this] e(1) c(2) a(1) show ?thesis
      by (intro exI [of _ "((a * 64 + c) * 64 + d) * 64 + f"] exI [of _ rest]) simp
  next
    case 5
    with valid step show ?thesis by simp
  qed
qed

lemma valid_bytes:
  "None \<notin> set (u8Run u8Start bytes) \<Longrightarrow> \<exists>ps. list_all scalar ps \<and> bytes = bytesFrom ps"
proof (induction "length bytes" arbitrary: bytes rule: less_induct)
  case less
  show ?case
  proof (cases bytes)
    case Nil
    then show ?thesis by (intro exI [of _ "[]"]) simp
  next
    case (Cons b bs)
    from valid_next [of b bs] less.prems Cons obtain p rest where p: "scalar p" "bytes = pointBytes p @ rest" by auto
    with run_point [OF p(1), of rest] less.prems have "None \<notin> set (u8Run u8Start rest)" by simp
    moreover have "length rest < length bytes" using p(2) pointBytes_ne [of p] by simp
    ultimately obtain ps where "list_all scalar ps" "rest = bytesFrom ps" using less.hyps by blast
    with p show ?thesis by (intro exI [of _ "p # ps"]) simp
  qed
qed

lemma decodeStrict_encode:
  assumes "decodeStrict bytes = Some text"
  shows "encodeBytes text = bytes"
proof -
  have "None \<notin> set (u8Run u8Start bytes)" using assms by (simp add: decodeStrict_def Let_def split: if_splits)
  then obtain ps where ps: "list_all scalar ps" "bytes = bytesFrom ps" using valid_bytes by blast
  have "u8Run u8Start bytes = map Some ps" using run_points [OF ps(1), of "[]"] ps(2) by (simp add: u8Start_def)
  then have "text = concat (map pointUnits ps)" using assms by (auto simp: decodeStrict_def Let_def comp_def)
  then show ?thesis using codePoints_pointUnits [OF ps(1)] ps(2) by (simp add: encodeBytes_def)
qed

text \<open>
  C32. A file that decodes without loss is written back byte for byte as it was read: its bytes are those of
  the decoded text, with the byte order mark it had.
\<close>
theorem lossless_file_is_written_back:
  assumes "\<not> dt_lossy (decodeText bytes)"
  shows "encodeBytes (encodeText (dt_text (decodeText bytes)) (dt_bom (decodeText bytes))) = bytes"
proof (cases "take 3 bytes = [0xEF, 0xBB, 0xBF]")
  case True
  then have "bytes = [0xEF, 0xBB, 0xBF] @ drop 3 bytes" by (metis append_take_drop_id)
  moreover obtain str where str: "decodeStrict (drop 3 bytes) = Some str" "decodeText bytes = \<lparr>dt_text = str, dt_bom = True, dt_lossy = False\<rparr>"
    using assms True by (auto simp: decodeText_def Let_def split: option.splits)
  moreover have "encodeBytes (0xFEFF # str) = [0xEF, 0xBB, 0xBF] @ encodeBytes str"
    by (simp add: encodeBytes_def codePoints_Cons surrogate_def pointBytes_def)
  ultimately show ?thesis using decodeStrict_encode [OF str(1)] by (simp add: encodeText_def)
next
  case False
  obtain str where "decodeStrict bytes = Some str" "decodeText bytes = \<lparr>dt_text = str, dt_bom = False, dt_lossy = False\<rparr>"
    using assms False by (auto simp: decodeText_def Let_def split: option.splits)
  with decodeStrict_encode show ?thesis by (simp add: encodeText_def)
qed

theorem lossless_file_is_written_back_witness:
  "encodeBytes (encodeText (dt_text (decodeText [0xEF, 0xBB, 0xBF, 0x68, 0xC3, 0xA9])) (dt_bom (decodeText [0xEF, 0xBB, 0xBF, 0x68, 0xC3, 0xA9])))
     = [0xEF, 0xBB, 0xBF, 0x68, 0xC3, 0xA9]"
  by (rule lossless_file_is_written_back)
     (simp add: decodeText_def decodeStrict_def u8Start_def u8Step_def u8Lead_def Let_def)

end
