(* ===== verification/TextEdit.thy ===== *)
theory TextEdit
  imports TextWindow "HOL-Library.Multiset"
begin

text \<open>
  Exact replacements in a text (\<open>plugin-workspace/src/text-edit.entity.functions.ts\<close>): every edit is found
  in the text as it was, exactly or over normalised lines, the spans must not overlap, and line endings
  are kept. \<open>String.prototype.normalize("NFKC")\<close> is the parameter \<open>nfkc\<close>; the diff, a library's, is not
  modelled.
\<close>

section \<open>Line endings\<close>

datatype line_ending = Lf | Crlf | Mixed

record text_edit =
  te_old :: utf16
  te_new :: utf16

record edit_span =
  es_index :: nat
  es_start :: nat
  es_end :: nat
  es_new :: utf16
  es_normalized :: bool

record edit_plan =
  ep_text :: utf16
  ep_before :: utf16
  ep_after :: utf16
  ep_replaced :: nat
  ep_normalized :: bool
  ep_first :: nat

text \<open>\<open>/(^|[^\r])\n/\<close>: a line feed at the start, or after anything but a carriage return.\<close>

definition bareLineFeed :: "utf16 \<Rightarrow> bool" where
  "bareLineFeed str = list_ex (\<lambda>i. str ! i = lineFeed \<and> (i = 0 \<or> str ! (i - 1) \<noteq> carriageReturn)) [0..<length str]"

definition lineEndingOf :: "utf16 \<Rightarrow> line_ending" where
  "lineEndingOf str =
     (if \<not> contains [carriageReturn] str then Lf
      else if contains [carriageReturn, lineFeed] str \<and> \<not> bareLineFeed str then Crlf else Mixed)"

text \<open>\<open>replaceAll("\r\n", "\n")\<close> and \<open>replaceAll("\n", "\r\n")\<close>.\<close>

fun plainBreaks :: "utf16 \<Rightarrow> utf16" where
  "plainBreaks [] = []"
| "plainBreaks [a] = [a]"
| "plainBreaks (a # b # str) =
     (if a = carriageReturn \<and> b = lineFeed then lineFeed # plainBreaks str else a # plainBreaks (b # str))"

definition windowsBreaks :: "utf16 \<Rightarrow> utf16" where
  "windowsBreaks str = concat (map (\<lambda>c. if c = lineFeed then [carriageReturn, lineFeed] else [c]) str)"

definition plainIn :: "line_ending \<Rightarrow> utf16 \<Rightarrow> utf16" where
  "plainIn ending str = (if ending = Mixed then str else plainBreaks str)"

section \<open>Lines as the fallback compares them\<close>

definition isSpace :: "nat \<Rightarrow> bool" where
  "isSpace c \<longleftrightarrow> (9 \<le> c \<and> c \<le> 13) \<or> c = 32 \<or> c = 0xA0 \<or> c = 0x1680 \<or> (0x2000 \<le> c \<and> c \<le> 0x200A)
     \<or> c = 0x2028 \<or> c = 0x2029 \<or> c = 0x202F \<or> c = 0x205F \<or> c = 0x3000 \<or> c = 0xFEFF"

definition straight :: "nat \<Rightarrow> nat" where
  "straight c =
     (if c \<in> {0x2018, 0x2019, 0x201A, 0x201B, 0x2032, 0x2035} then 39
      else if c \<in> {0x201C, 0x201D, 0x201E, 0x201F, 0x2033, 0x2036} then 34
      else if (0x2010 \<le> c \<and> c \<le> 0x2015) \<or> c = 0x2212 then 45 else c)"

function oneSpace :: "utf16 \<Rightarrow> utf16" where
  "oneSpace [] = []"
| "oneSpace (c # str) =
     (if isSpace c then 32 # oneSpace (dropWhile isSpace str) else c # oneSpace str)"
  by pat_completeness auto
termination
  by (relation "measure length") (auto simp: less_Suc_eq_le length_dropWhile_le)

definition trimmed :: "utf16 \<Rightarrow> utf16" where
  "trimmed str = rev (dropWhile isSpace (rev (dropWhile isSpace str)))"

definition normalizeLine :: "(utf16 \<Rightarrow> utf16) \<Rightarrow> utf16 \<Rightarrow> utf16" where
  "normalizeLine nfkc line = trimmed (oneSpace (map straight (nfkc line)))"

section \<open>Where an edit applies\<close>

definition labelOf :: "nat \<Rightarrow> nat \<Rightarrow> string" where
  "labelOf i given = (if given = 1 then ''oldText'' else ''edit '' @ dec_nat (i + 1) @ '''s oldText'')"

text \<open>\<open>base.split(text).length - 1\<close>, for a text that is not empty: its places that do not overlap.\<close>

function placesOf :: "utf16 \<Rightarrow> utf16 \<Rightarrow> nat" where
  "placesOf sought base =
     (if sought = [] then length base - 1
      else case index_of sought base of None \<Rightarrow> 0 | Some at \<Rightarrow> Suc (placesOf sought (drop (at + length sought) base)))"
  by pat_completeness auto
termination
  by (relation "measure (\<lambda>(sought, base). length base)") (auto dest!: index_of_Some simp flip: length_greater_0_conv)

declare placesOf.simps [simp del]

definition exactSpan :: "utf16 \<Rightarrow> text_edit \<Rightarrow> nat \<Rightarrow> nat \<Rightarrow> tool_failure + edit_span option" where
  "exactSpan base edit i given =
     (case index_of (te_old edit) base of
        None \<Rightarrow> Inr None
      | Some first \<Rightarrow>
          if index_of_after (first + 1) (te_old edit) base \<noteq> None then
            Inl (toolFailure ''AmbiguousMatch'' (labelOf i given @ '' appears '' @ dec_nat (max 2 (placesOf (te_old edit) base))
              @ '' times; add surrounding lines so it appears exactly once''))
          else Inr (Some \<lparr>es_index = i, es_start = first, es_end = first + length (te_old edit), es_new = te_new edit, es_normalized = False\<rparr>))"

definition lineStart :: "utf16 list \<Rightarrow> nat \<Rightarrow> nat" where
  "lineStart lines n = foldl (\<lambda>sum line. sum + length line + 1) 0 (take n lines)"

definition normalizedSpan :: "(utf16 \<Rightarrow> utf16) \<Rightarrow> utf16 \<Rightarrow> text_edit \<Rightarrow> nat \<Rightarrow> nat \<Rightarrow> tool_failure + edit_span option" where
  "normalizedSpan nfkc base edit i given =
     (let withBreak = ends_with [lineFeed] (te_old edit);
          wantedLines = split_on lineFeed (te_old edit);
          sought = map (normalizeLine nfkc) (if withBreak then butlast wantedLines else wantedLines) in
      if list_all (\<lambda>line. length line = 0) sought then Inr None
      else
        (let lines = split_on lineFeed base;
             normal = map (normalizeLine nfkc) lines;
             starts = filter (\<lambda>at. list_all (\<lambda>(line, offset). normal ! (at + offset) = line) (zip sought [0..<length sought]))
               [0..<length lines + 1 - length sought] in
         case starts of
           [] \<Rightarrow> Inr None
         | [start] \<Rightarrow>
             (let after = start + length sought;
                  lastLine = lines ! (after - 1);
                  ending = (if withBreak then min (length base) (lineStart lines after)
                    else lineStart lines after - 1 - (if ends_with [carriageReturn] lastLine then 1 else 0))
              in Inr (Some \<lparr>es_index = i, es_start = lineStart lines start, es_end = ending, es_new = te_new edit, es_normalized = True\<rparr>))
         | _ \<Rightarrow> Inl (toolFailure ''AmbiguousMatch'' (labelOf i given @ '' matches '' @ dec_nat (length starts)
             @ '' places once whitespace and quotes are normalised; add surrounding lines so it matches exactly once''))))"

definition spanOf :: "(utf16 \<Rightarrow> utf16) \<Rightarrow> utf16 \<Rightarrow> text_edit \<Rightarrow> nat \<Rightarrow> nat \<Rightarrow> bool \<Rightarrow> tool_failure + edit_span" where
  "spanOf nfkc base edit i given fuzzy =
     (if length (te_old edit) = 0 then
        Inl (toolFailure ''EmptyOldText'' (labelOf i given @ '' is empty; to create a file or replace all of it, use write''))
      else and_then (exactSpan base edit i given) (\<lambda>exact.
        case exact of
          Some s \<Rightarrow> Inr s
        | None \<Rightarrow> and_then (if fuzzy then normalizedSpan nfkc base edit i given else Inr None) (\<lambda>loose.
            case loose of
              Some s \<Rightarrow> Inr s
            | None \<Rightarrow> Inl (toolFailure ''NoMatch''
                (labelOf i given @ '' was not found in the file; read it again and copy the text exactly, whitespace included'')))))"

section \<open>Applying edits\<close>

definition clashOf :: "edit_span list \<Rightarrow> nat option" where
  "clashOf ordered = find (\<lambda>at. 0 < at \<and> es_start (ordered ! at) < es_end (ordered ! (at - 1))) [0..<length ordered]"

definition buildText :: "utf16 \<Rightarrow> edit_span list \<Rightarrow> utf16 \<times> nat" where
  "buildText base ordered =
     foldl (\<lambda>(str, at) s. (str @ JsText.slice at (es_start s) base @ es_new s, es_end s)) ([], 0) ordered"

definition applyTextEdits :: "(utf16 \<Rightarrow> utf16) \<Rightarrow> utf16 \<Rightarrow> text_edit list \<Rightarrow> bool \<Rightarrow> tool_failure + edit_plan" where
  "applyTextEdits nfkc original edits fuzzy =
     (let ending = lineEndingOf original;
          base = plainIn ending original in
      and_then (each_r (\<lambda>(i, edit). spanOf nfkc base \<lparr>te_old = plainIn ending (te_old edit), te_new = plainIn ending (te_new edit)\<rparr> i (length edits) fuzzy)
          (enumerate 0 edits)) (\<lambda>spans.
        (let ordered = sort_key es_start spans in
         case clashOf ordered of
           Some clash \<Rightarrow>
             (let a = es_index (ordered ! (clash - 1)); b = es_index (ordered ! clash) in
              Inl (toolFailure ''OverlappingEdits'' (''edits '' @ dec_nat (min a b + 1) @ '' and '' @ dec_nat (max a b + 1)
                @ '' change overlapping text; merge them into one edit'')))
         | None \<Rightarrow>
             (let (str, at) = buildText base ordered;
                  after = str @ drop at base in
              if after = base then Inl (toolFailure ''NoChange'' ''the edits leave the file as it is'')
              else
                (let firstStart = (case ordered of [] \<Rightarrow> 0 | s # _ \<Rightarrow> es_start s) in
                 Inr \<lparr>ep_text = (if ending = Crlf then windowsBreaks after else after), ep_before = base, ep_after = after,
                   ep_replaced = length ordered, ep_normalized = list_ex es_normalized ordered,
                   ep_first = length (split_on lineFeed (take firstStart base))\<rparr>)))))"


section \<open>Line endings are kept\<close>

lemma windowsBreaks_append [simp]: "windowsBreaks (xs @ ys) = windowsBreaks xs @ windowsBreaks ys"
  by (simp add: windowsBreaks_def)

lemma windowsBreaks_Cons: "windowsBreaks (c # xs) = (if c = lineFeed then [carriageReturn, lineFeed] else [c]) @ windowsBreaks xs"
  by (simp add: windowsBreaks_def)

lemma bareLineFeed_iff: "bareLineFeed str \<longleftrightarrow> (\<exists>i < length str. str ! i = lineFeed \<and> (i = 0 \<or> str ! (i - 1) \<noteq> carriageReturn))"
  by (simp add: bareLineFeed_def list_ex_iff Bex_def)

fun breaksPaired :: "utf16 \<Rightarrow> bool" where
  "breaksPaired [] = True"
| "breaksPaired [a] = (a \<noteq> lineFeed)"
| "breaksPaired (a # b # str) = (if a = carriageReturn \<and> b = lineFeed then breaksPaired str else a \<noteq> lineFeed \<and> breaksPaired (b # str))"

lemma bareLineFeed_Cons: "\<not> bareLineFeed (a # str) \<Longrightarrow> a \<noteq> lineFeed"
  by (auto simp: bareLineFeed_iff dest: spec [of _ 0])

lemma bareLineFeed_tail:
  assumes "\<not> bareLineFeed (a # str)" and "a = carriageReturn \<longrightarrow> str = [] \<or> hd str \<noteq> lineFeed"
  shows "\<not> bareLineFeed str"
proof
  assume "bareLineFeed str"
  then obtain i where i: "i < length str" "str ! i = lineFeed" "i = 0 \<or> str ! (i - 1) \<noteq> carriageReturn"
    by (auto simp: bareLineFeed_iff)
  have "(a # str) ! i \<noteq> carriageReturn"
  proof (cases i)
    case 0
    with i(1,2) assms(2) show ?thesis by (cases str) auto
  qed (use i(3) in simp)
  with assms(1) i(1,2) show False by (auto simp: bareLineFeed_iff dest!: spec [of _ "Suc i"])
qed

lemma not_bare_paired: "\<not> bareLineFeed str \<Longrightarrow> breaksPaired str"
proof (induction str rule: breaksPaired.induct)
  case (2 a)
  then show ?case using bareLineFeed_Cons by auto
next
  case (3 a b str)
  show ?case
  proof (cases "a = carriageReturn \<and> b = lineFeed")
    case True
    have "\<not> bareLineFeed str"
    proof
      assume "bareLineFeed str"
      then obtain i where i: "i < length str" "str ! i = lineFeed" "i = 0 \<or> str ! (i - 1) \<noteq> carriageReturn"
        by (auto simp: bareLineFeed_iff)
      then have "(a # b # str) ! (i + 1) \<noteq> carriageReturn" using True by (cases i) auto
      with "3.prems" i(1,2) show False by (auto simp: bareLineFeed_iff dest!: spec [of _ "Suc (Suc i)"])
    qed
    with 3 True show ?thesis by simp
  next
    case False
    have "\<not> bareLineFeed (b # str)" by (rule bareLineFeed_tail [OF "3.prems"]) (use False in simp)
    with "3.IH"(2) [OF False] False bareLineFeed_Cons [OF "3.prems"] show ?thesis by auto
  qed
qed simp

lemma paired_round_trip: "breaksPaired str \<Longrightarrow> windowsBreaks (plainBreaks str) = str"
  by (induction str rule: breaksPaired.induct) (auto simp: windowsBreaks_Cons windowsBreaks_def split: if_splits)

lemma plain_without: "carriageReturn \<notin> set str \<Longrightarrow> plainBreaks str = str"
  by (induction str rule: plainBreaks.induct) auto

lemma contains_one: "contains [c] str \<longleftrightarrow> c \<in> set str"
proof -
  have "contains [c] str \<longleftrightarrow> (\<exists>k \<le> length str. starts_with [c] (drop k str))"
    by (simp add: contains_def index_of_def index_of_from_None)
  also have "\<dots> \<longleftrightarrow> (\<exists>k < length str. str ! k = c)"
  proof
    assume "\<exists>k \<le> length str. starts_with [c] (drop k str)"
    then obtain k r where "drop k str = c # r" by (auto simp: starts_with_iff)
    moreover from this have "k < length str" by (metis drop_all list.distinct(1) not_less)
    ultimately show "\<exists>k < length str. str ! k = c" by (metis Cons_nth_drop_Suc list.inject)
  next
    assume "\<exists>k < length str. str ! k = c"
    then obtain k where "k < length str" "str ! k = c" by blast
    then have "starts_with [c] (drop k str)" by (metis Cons_nth_drop_Suc append_Cons append_Nil starts_with_iff)
    with \<open>k < length str\<close> show "\<exists>k \<le> length str. starts_with [c] (drop k str)" using less_imp_le by blast
  qed
  also have "\<dots> \<longleftrightarrow> c \<in> set str" by (auto simp: in_set_conv_nth)
  finally show ?thesis .
qed

text \<open>A text in an ending: as it is written back.\<close>

definition writtenIn :: "line_ending \<Rightarrow> utf16 \<Rightarrow> utf16" where
  "writtenIn ending str = (if ending = Crlf then windowsBreaks str else str)"

lemma ending_round_trip: "writtenIn (lineEndingOf str) (plainIn (lineEndingOf str) str) = str"
  using not_bare_paired [of str] paired_round_trip [of str] plain_without [of str]
  by (auto simp: lineEndingOf_def writtenIn_def plainIn_def contains_one)

lemma writtenIn_append: "writtenIn ending (xs @ ys) = writtenIn ending xs @ writtenIn ending ys"
  by (simp add: writtenIn_def)

section \<open>Spans\<close>

definition uniqueIn :: "utf16 \<Rightarrow> utf16 \<Rightarrow> bool" where
  "uniqueIn sought base \<longleftrightarrow> length (filter (\<lambda>k. starts_with sought (drop k base)) [0..<length base + 1]) = 1"

lemma filter_upt_eq: "filter (\<lambda>k. k = at) [0..<n] = (if at < n then [at] else [])"
  by (induction n) auto

lemma unique_place:
  assumes at: "starts_with sought (drop at base)" "at \<le> length base"
    and only: "\<And>k. k \<le> length base \<Longrightarrow> starts_with sought (drop k base) \<Longrightarrow> k = at"
  shows "uniqueIn sought base"
proof -
  have "filter (\<lambda>k. starts_with sought (drop k base)) [0..<length base + 1] = filter (\<lambda>k. k = at) [0..<length base + 1]"
  proof (rule filter_cong [OF refl])
    fix k assume "k \<in> set [0..<length base + 1]"
    then have "k \<le> length base" by auto
    with at only show "starts_with sought (drop k base) \<longleftrightarrow> k = at" by blast
  qed
  then show ?thesis using at(2) by (simp only: uniqueIn_def filter_upt_eq) simp
qed

lemma exactSpan_spec:
  assumes "exactSpan base edit i given = Inr (Some s)"
  shows "es_start s \<le> es_end s" "es_end s \<le> length base" "JsText.slice (es_start s) (es_end s) base = te_old edit"
    "es_new s = te_new edit" "uniqueIn (te_old edit) base"
proof -
  from assms obtain first where first: "index_of (te_old edit) base = Some first"
    and none: "index_of_after (first + 1) (te_old edit) base = None"
    and s: "s = \<lparr>es_index = i, es_start = first, es_end = first + length (te_old edit), es_new = te_new edit, es_normalized = False\<rparr>"
    by (auto simp: exactSpan_def split: option.splits if_splits)
  note at = index_of_Some [OF first]
  show "es_start s \<le> es_end s" "es_end s \<le> length base" "es_new s = te_new edit" using at by (simp_all add: s)
  show "JsText.slice (es_start s) (es_end s) base = te_old edit"
    using at starts_with_take [of "te_old edit" "drop first base"] by (simp add: s JsText.slice_def)
  have later: "\<not> starts_with (te_old edit) (drop k base)" if "first < k" "k \<le> length base" for k
  proof -
    have "k - (first + 1) \<le> length (drop (first + 1) base)" using that by simp
    with none have "\<not> starts_with (te_old edit) (drop (k - (first + 1)) (drop (first + 1) base))"
      by (simp only: index_of_after_def index_of_from_None) blast
    then show ?thesis using that by simp
  qed
  show "uniqueIn (te_old edit) base"
    by (rule unique_place [of _ first]) (use at later in \<open>auto simp: not_less_iff_gr_or_eq dest: linorder_neqE_nat\<close>)
qed

lemma lineStart_eq: "lineStart lines n = sum_list (map (\<lambda>line. length line + 1) (take n lines))"
proof -
  have "foldl (\<lambda>sum line. sum + length line + 1) m ls = m + sum_list (map (\<lambda>line. length line + 1) ls)" for m and ls :: "utf16 list"
    by (induction ls arbitrary: m) simp_all
  then show ?thesis by (simp add: lineStart_def)
qed

lemma lineStart_add: "lineStart lines (n + m) = lineStart lines n + lineStart (drop n lines) m"
  by (simp add: lineStart_eq take_add)

lemma lineStart_all: "lineStart (split_on lineFeed base) (length (split_on lineFeed base)) = length base + 1"
proof -
  have "length base = sum_list (map length (split_on lineFeed base)) + (length (split_on lineFeed base) - 1)"
    using length_join [of "split_on lineFeed base" "[lineFeed]"] by (simp add: join_split_on)
  moreover have "sum_list (map (\<lambda>line. length line + 1) ls) = sum_list (map length ls) + length ls" for ls :: "utf16 list"
    by (induction ls) simp_all
  ultimately show ?thesis by (simp add: lineStart_eq Suc_le_eq)
qed

lemma lineStart_bound:
  "n \<le> length (split_on lineFeed base) \<Longrightarrow> lineStart (split_on lineFeed base) n \<le> length base + 1"
  using lineStart_add [of "split_on lineFeed base" n "length (split_on lineFeed base) - n"] lineStart_all [of base] by simp

lemma normalizedSpan_spec:
  assumes "normalizedSpan nfkc base edit i given = Inr (Some s)"
  shows "es_start s \<le> es_end s" "es_end s \<le> length base" "es_new s = te_new edit"
proof -
  define withBreak where "withBreak = ends_with [lineFeed] (te_old edit)"
  define sought where "sought = map (normalizeLine nfkc) (if withBreak then butlast (split_on lineFeed (te_old edit)) else split_on lineFeed (te_old edit))"
  define lines where "lines = split_on lineFeed base"
  define starts where "starts = filter (\<lambda>at. list_all (\<lambda>(line, offset). map (normalizeLine nfkc) lines ! (at + offset) = line)
      (zip sought [0..<length sought])) [0..<length lines + 1 - length sought]"
  from assms obtain start where starts: "starts = [start]" and some: "\<not> list_all (\<lambda>line. length line = 0) sought"
    and s: "s = \<lparr>es_index = i, es_start = lineStart lines start,
        es_end = (if withBreak then min (length base) (lineStart lines (start + length sought))
          else lineStart lines (start + length sought) - 1 - (if ends_with [carriageReturn] (lines ! (start + length sought - 1)) then 1 else 0)),
        es_new = te_new edit, es_normalized = True\<rparr>"
    unfolding normalizedSpan_def Let_def withBreak_def [symmetric] sought_def [symmetric] lines_def [symmetric] starts_def [symmetric]
    by (auto split: if_splits list.splits)
  have "start \<in> set starts" using starts by simp
  then have within: "start + length sought \<le> length lines" by (auto simp: starts_def)
  have ne: "0 < length sought" using some by auto
  obtain m where m: "length sought = Suc m" using ne by (cases "length sought") auto
  have "lineStart lines (start + length sought) = lineStart lines (start + m) + length (lines ! (start + m)) + 1"
    using lineStart_add [of lines "start + m" 1] within m by (simp add: lineStart_eq take_Suc hd_drop_conv_nth)
  moreover have "lineStart lines start \<le> lineStart lines (start + m)" by (simp add: lineStart_add)
  moreover have "ends_with [carriageReturn] (lines ! (start + m)) \<Longrightarrow> 1 \<le> length (lines ! (start + m))" by (simp add: ends_with_def)
  moreover have "lineStart lines (start + length sought) \<le> length base + 1"
    using lineStart_bound [of "start + length sought" base] within by (simp add: lines_def)
  ultimately show "es_start s \<le> es_end s" "es_end s \<le> length base" by (auto simp: s m)
  show "es_new s = te_new edit" by (simp add: s)
qed

lemma spanOf_spec:
  assumes "spanOf nfkc base edit i given fuzzy = Inr s"
  shows "es_start s \<le> es_end s" "es_end s \<le> length base" "es_new s = te_new edit"
    "\<not> fuzzy \<Longrightarrow> JsText.slice (es_start s) (es_end s) base = te_old edit \<and> uniqueIn (te_old edit) base"
  using assms exactSpan_spec [of base edit i given s] normalizedSpan_spec [of nfkc base edit i given s]
  by (auto simp: spanOf_def and_then_eq_Inr split: if_splits option.splits)

section \<open>The text is what the spans leave and put\<close>

text \<open>A span's part of a text: what is kept before it, what it takes away, what it puts there.\<close>

fun partsOf :: "utf16 \<Rightarrow> nat \<Rightarrow> edit_span list \<Rightarrow> (utf16 \<times> utf16 \<times> utf16) list" where
  "partsOf base at [] = []"
| "partsOf base at (s # ss) =
     (JsText.slice at (es_start s) base, JsText.slice (es_start s) (es_end s) base, es_new s) # partsOf base (es_end s) ss"

fun lastEnd :: "nat \<Rightarrow> edit_span list \<Rightarrow> nat" where
  "lastEnd at [] = at"
| "lastEnd at (s # ss) = lastEnd (es_end s) ss"

fun inOrder :: "nat \<Rightarrow> edit_span list \<Rightarrow> bool" where
  "inOrder at [] = True"
| "inOrder at (s # ss) = (at \<le> es_start s \<and> es_start s \<le> es_end s \<and> inOrder (es_end s) ss)"

definition partsBefore :: "(utf16 \<times> utf16 \<times> utf16) list \<Rightarrow> utf16" where
  "partsBefore parts = concat (map (\<lambda>(kept, old, new). kept @ old) parts)"

definition partsAfter :: "(utf16 \<times> utf16 \<times> utf16) list \<Rightarrow> utf16" where
  "partsAfter parts = concat (map (\<lambda>(kept, old, new). kept @ new) parts)"

lemma buildText_from:
  "foldl (\<lambda>(str, at) s. (str @ JsText.slice at (es_start s) base @ es_new s, es_end s)) (str, at) ss
     = (str @ partsAfter (partsOf base at ss), lastEnd at ss)"
  by (induction ss arbitrary: str at) (simp_all add: partsAfter_def)

lemma buildText_parts: "buildText base ss = (partsAfter (partsOf base 0 ss), lastEnd 0 ss)"
  by (simp add: buildText_def buildText_from)

lemma partsBefore_parts: "inOrder at ss \<Longrightarrow> partsBefore (partsOf base at ss) @ drop (lastEnd at ss) base = drop at base"
proof (induction ss arbitrary: at)
  case (Cons s ss)
  then have "partsBefore (partsOf base (es_end s) ss) @ drop (lastEnd (es_end s) ss) base = drop (es_end s) base" by simp
  then show ?case using Cons.prems by (simp add: partsBefore_def slice_append_rest)
qed (simp add: partsBefore_def)

lemma inOrder_clear:
  assumes "\<And>i. Suc i < length ss \<Longrightarrow> es_end (ss ! i) \<le> es_start (ss ! Suc i)"
    and "list_all (\<lambda>s. es_start s \<le> es_end s) ss" and "ss \<noteq> [] \<Longrightarrow> at \<le> es_start (hd ss)"
  shows "inOrder at ss"
  using assms
proof (induction ss arbitrary: at)
  case (Cons s ss)
  have "inOrder (es_end s) ss"
  proof (rule Cons.IH)
    fix i assume "Suc i < length ss"
    then show "es_end (ss ! i) \<le> es_start (ss ! Suc i)" using Cons.prems(1) [of "Suc i"] by simp
  next
    assume "ss \<noteq> []"
    then show "es_end s \<le> es_start (hd ss)" using Cons.prems(1) [of 0] by (cases ss) auto
  qed (use Cons.prems(2) in simp)
  with Cons.prems(2,3) show ?case by simp
qed simp

lemma clashOf_none:
  assumes "clashOf ss = None" and "Suc i < length ss"
  shows "es_end (ss ! i) \<le> es_start (ss ! Suc i)"
proof -
  have "Suc i \<in> set [0..<length ss]" using assms(2) by simp
  with assms(1) show ?thesis unfolding clashOf_def find_None_iff by fastforce
qed

lemma partsOf_pairs: "map (\<lambda>(kept, old, new). (old, new)) (partsOf base at ss) = map (\<lambda>s. (JsText.slice (es_start s) (es_end s) base, es_new s)) ss"
  by (induction ss arbitrary: at) simp_all

text \<open>Texts in pieces are written piece by piece.\<close>

definition writtenPart :: "line_ending \<Rightarrow> utf16 \<times> utf16 \<times> utf16 \<Rightarrow> utf16 \<times> utf16 \<times> utf16" where
  "writtenPart ending part = (case part of (kept, old, new) \<Rightarrow> (writtenIn ending kept, writtenIn ending old, writtenIn ending new))"

lemma writtenIn_Nil [simp]: "writtenIn ending [] = []"
  by (simp add: writtenIn_def windowsBreaks_def)

lemma written_parts:
  "writtenIn ending (partsBefore parts) = partsBefore (map (writtenPart ending) parts)"
  "writtenIn ending (partsAfter parts) = partsAfter (map (writtenPart ending) parts)"
  by (induction parts) (auto simp: partsBefore_def partsAfter_def writtenPart_def writtenIn_append)

lemma applied_spans:
  assumes "applyTextEdits nfkc original edits fuzzy = Inr planned"
  defines "ending \<equiv> lineEndingOf original"
  shows "\<exists>spans. each_r (\<lambda>(i, edit). spanOf nfkc (plainIn ending original) \<lparr>te_old = plainIn ending (te_old edit), te_new = plainIn ending (te_new edit)\<rparr> i (length edits) fuzzy)
        (enumerate 0 edits) = Inr spans
     \<and> clashOf (sort_key es_start spans) = None
     \<and> ep_text planned = writtenIn ending (fst (buildText (plainIn ending original) (sort_key es_start spans))
          @ drop (snd (buildText (plainIn ending original) (sort_key es_start spans))) (plainIn ending original))"
  using assms(1) unfolding ending_def
  by (auto simp: applyTextEdits_def Let_def and_then_eq_Inr writtenIn_def split: option.splits prod.splits if_splits)

lemma spans_fit:
  assumes "each_r (\<lambda>(i, edit). spanOf nfkc base (f edit) i n fuzzy) (enumerate m edits) = Inr spans"
  shows "list_all (\<lambda>s. es_start s \<le> es_end s) spans \<and> map es_new spans = map (\<lambda>edit. te_new (f edit)) edits
    \<and> (\<not> fuzzy \<longrightarrow> map (\<lambda>s. (JsText.slice (es_start s) (es_end s) base, es_new s)) spans = map (\<lambda>edit. (te_old (f edit), te_new (f edit))) edits
         \<and> list_all (\<lambda>edit. uniqueIn (te_old (f edit)) base) edits)"
  using assms
proof (induction edits arbitrary: m spans)
  case (Cons edit edits)
  from Cons.prems obtain s ss where s: "spanOf nfkc base (f edit) m n fuzzy = Inr s" "spans = s # ss"
    "each_r (\<lambda>(i, edit). spanOf nfkc base (f edit) i n fuzzy) (enumerate (Suc m) edits) = Inr ss"
    by (auto simp: and_then_eq_Inr)
  from Cons.IH [OF s(3)] spanOf_spec [OF s(1)] s(2) show ?case by simp
qed simp

text \<open>
  C33. Edits touch only their own text: the file before is made of what is kept and the text each edit takes
  away, the file after of the same kept text and what each edit puts there, in the file's own line
  endings; every edit is applied once, and without the fallback what it takes away is its oldText, which
  appeared exactly once.
\<close>
theorem edits_touch_only_their_text:
  assumes "applyTextEdits nfkc original edits fuzzy = Inr planned"
  shows "\<exists>parts rest. original = partsBefore parts @ rest \<and> ep_text planned = partsAfter parts @ rest
    \<and> mset (map (\<lambda>(kept, old, new). new) parts)
        = mset (map (\<lambda>edit. writtenIn (lineEndingOf original) (plainIn (lineEndingOf original) (te_new edit))) edits)
    \<and> (\<not> fuzzy \<longrightarrow>
        mset (map (\<lambda>(kept, old, new). (old, new)) parts)
          = mset (map (\<lambda>edit. (writtenIn (lineEndingOf original) (plainIn (lineEndingOf original) (te_old edit)),
              writtenIn (lineEndingOf original) (plainIn (lineEndingOf original) (te_new edit)))) edits)
        \<and> list_all (\<lambda>edit. uniqueIn (plainIn (lineEndingOf original) (te_old edit)) (plainIn (lineEndingOf original) original)) edits)"
proof -
  define ending where "ending = lineEndingOf original"
  define base where "base = plainIn ending original"
  let ?f = "\<lambda>edit. \<lparr>te_old = plainIn ending (te_old edit), te_new = plainIn ending (te_new edit)\<rparr>"
  from applied_spans [OF assms] obtain spans
    where each: "each_r (\<lambda>(i, edit). spanOf nfkc base (?f edit) i (length edits) fuzzy) (enumerate 0 edits) = Inr spans"
    and clear: "clashOf (sort_key es_start spans) = None"
    and str: "ep_text planned = writtenIn ending (fst (buildText base (sort_key es_start spans)) @ drop (snd (buildText base (sort_key es_start spans))) base)"
    unfolding ending_def [symmetric] base_def [symmetric] by blast
  define ordered where "ordered = sort_key es_start spans"
  note fit = spans_fit [OF each]
  have same: "mset ordered = mset spans" by (simp add: ordered_def)
  have "inOrder 0 ordered"
  proof (rule inOrder_clear)
    show "es_end (ordered ! i) \<le> es_start (ordered ! Suc i)" if "Suc i < length ordered" for i
      using clashOf_none [OF clear] that by (simp add: ordered_def)
    show "list_all (\<lambda>s. es_start s \<le> es_end s) ordered" using fit by (simp add: ordered_def list_all_iff)
  qed simp
  from partsBefore_parts [OF this, of base]
  have before: "base = partsBefore (partsOf base 0 ordered) @ drop (lastEnd 0 ordered) base" by simp
  define parts where "parts = map (writtenPart ending) (partsOf base 0 ordered)"
  define rest where "rest = writtenIn ending (drop (lastEnd 0 ordered) base)"
  have "original = writtenIn ending base" using ending_round_trip [of original] by (simp add: ending_def base_def)
  also have "\<dots> = partsBefore parts @ rest"
    by (subst before) (simp add: parts_def rest_def writtenIn_append written_parts)
  finally have original: "original = partsBefore parts @ rest" .
  have after: "ep_text planned = partsAfter parts @ rest"
    using str by (simp add: parts_def rest_def writtenIn_append written_parts buildText_parts flip: ordered_def)
  have pairs: "map (\<lambda>(kept, old, new). (old, new)) parts
      = map (\<lambda>(old, new). (writtenIn ending old, writtenIn ending new)) (map (\<lambda>s. (JsText.slice (es_start s) (es_end s) base, es_new s)) ordered)"
    unfolding parts_def partsOf_pairs [of base 0 ordered, symmetric] by (simp add: comp_def writtenPart_def split_def)
  from arg_cong [OF this, of "map snd"]
  have news: "map (\<lambda>(kept, old, new). new) parts = map (\<lambda>s. writtenIn ending (es_new s)) ordered"
    by (simp add: comp_def split_def)
  have "mset (map (\<lambda>(kept, old, new). new) parts) = mset (map (\<lambda>new. writtenIn ending new) (map es_new spans))"
    by (simp add: news same multiset.map_comp comp_def)
  also have "map es_new spans = map (\<lambda>edit. plainIn ending (te_new edit)) edits" using fit by simp
  finally have put: "mset (map (\<lambda>(kept, old, new). new) parts) = mset (map (\<lambda>edit. writtenIn ending (plainIn ending (te_new edit))) edits)"
    by (simp add: comp_def)
  have taken: "mset (map (\<lambda>(kept, old, new). (old, new)) parts)
      = mset (map (\<lambda>edit. (writtenIn ending (plainIn ending (te_old edit)), writtenIn ending (plainIn ending (te_new edit)))) edits)" if "\<not> fuzzy"
  proof -
    have "mset (map (\<lambda>(kept, old, new). (old, new)) parts)
        = mset (map (\<lambda>(old, new). (writtenIn ending old, writtenIn ending new)) (map (\<lambda>s. (JsText.slice (es_start s) (es_end s) base, es_new s)) spans))"
      unfolding pairs by (simp only: mset_map same)
    also have "map (\<lambda>s. (JsText.slice (es_start s) (es_end s) base, es_new s)) spans
        = map (\<lambda>edit. (plainIn ending (te_old edit), plainIn ending (te_new edit))) edits" using fit that by simp
    also have "map (\<lambda>(old, new). (writtenIn ending old, writtenIn ending new)) \<dots>
        = map (\<lambda>edit. (writtenIn ending (plainIn ending (te_old edit)), writtenIn ending (plainIn ending (te_new edit)))) edits" by simp
    finally show ?thesis .
  qed
  have "\<not> fuzzy \<longrightarrow> list_all (\<lambda>edit. uniqueIn (plainIn ending (te_old edit)) base) edits" using fit by simp
  with original after put taken show ?thesis
    unfolding ending_def [symmetric] base_def [symmetric] by blast
qed

theorem edits_touch_only_their_text_witness:
  "\<exists>parts rest. [97, 13, 10, 98, 13, 10] = partsBefore parts @ rest \<and> [97, 13, 10, 120, 13, 10, 121, 13, 10] = partsAfter parts @ rest
    \<and> mset (map (\<lambda>(kept, old, new). (old, new)) parts) = {#([98], [120, 13, 10, 121])#}"
proof -
  let ?original = "[97, 13, 10, 98, 13, 10] :: utf16" and ?edits = "[\<lparr>te_old = [98], te_new = [120, 10, 121]\<rparr>]"
  have ending: "lineEndingOf ?original = Crlf" by code_simp
  define planned where "planned = projr (applyTextEdits id ?original ?edits False)"
  have "applyTextEdits id ?original ?edits False = Inr planned" "ep_text planned = [97, 13, 10, 120, 13, 10, 121, 13, 10]"
    unfolding planned_def by code_simp+
  from edits_touch_only_their_text [OF this(1)] this(2) show ?thesis
    by (simp add: ending plainIn_def writtenIn_def windowsBreaks_def) blast
qed

end
