(* ===== verification/WorkspaceTools.thy ===== *)
theory WorkspaceTools
  imports WorkspaceTree TextEdit
begin

text \<open>
  The workspace tools that read and change files (\<open>plugin-workspace/src/write-tools.adapter.ts\<close>,
  \<open>read-tools.adapter.ts\<close>): each handler on a file system that is threaded through its calls. The file
  system is the port, a record of functions on a state; what the handler of a call holds (the lock of
  the file, the section between its read and its write) runs without another tool's call in between. A
  path is its code points, a file's text its UTF-16 code units. The random suffix (\<open>salt\<close>) of a temporary file is an
  argument; the diff an edit shows to a host and the views are not modelled.
\<close>

unbundle bit_operations_syntax

section \<open>What a tool is given\<close>

record tools_config =
  tc_confine :: bool
  tc_access :: access_mode
  tc_roots :: "workspace_allowed_root list"
  tc_exclude :: "string list"
  tc_maxLines :: nat
  tc_maxBytes :: nat
  tc_lsEntries :: nat
  tc_findResults :: nat
  tc_maxFileBytes :: nat
  tc_readImages :: bool
  tc_fuzzyEdit :: bool

record 's file_port =
  fp_realPath :: "'s \<Rightarrow> string \<Rightarrow> fs_error + string"
  fp_stat :: "'s \<Rightarrow> string \<Rightarrow> bool \<Rightarrow> fs_error + file_info"
  fp_readBytes :: "'s \<Rightarrow> string \<Rightarrow> fs_error + nat list"
  fp_list :: "'s \<Rightarrow> string \<Rightarrow> fs_error + dir_entry list"
  fp_glob :: "'s \<Rightarrow> string \<Rightarrow> glob_options \<Rightarrow> fs_error + glob_result"
  fp_write :: "'s \<Rightarrow> string \<Rightarrow> utf16 \<Rightarrow> bool \<Rightarrow> (fs_error + unit) \<times> 's"
  fp_rename :: "'s \<Rightarrow> string \<Rightarrow> string \<Rightarrow> (fs_error + unit) \<times> 's"
  fp_remove :: "'s \<Rightarrow> string \<Rightarrow> (fs_error + unit) \<times> 's"

record 's tool_context =
  tx_port :: "'s file_port"
  tx_api :: path_api
  tx_workspace :: string
  tx_config :: tools_config
  tx_protect :: "protect_rule list"

definition readsAt :: "'s file_port \<Rightarrow> 's \<Rightarrow> fs_reads" where
  "readsAt port s = \<lparr>fr_realPath = fp_realPath port s, fr_stat = fp_stat port s\<rparr>"

text \<open>The opening lines of every handler: the workspace of the call, and the place it was given.\<close>

definition accessAt :: "'s tool_context \<Rightarrow> 's \<Rightarrow> tool_failure + workspace_access" where
  "accessAt cx s = openWorkspace (readsAt (tx_port cx) s) (tx_api cx) (tx_workspace cx) (tc_roots (tx_config cx)) (tc_access (tx_config cx))"

definition targetAt :: "'s tool_context \<Rightarrow> 's \<Rightarrow> string \<Rightarrow> access_mode option \<Rightarrow> (tool_failure + workspace_access \<times> workspace_target) option" where
  "targetAt cx s input intent =
     (case accessAt cx s of
        Inl f \<Rightarrow> Some (Inl f)
      | Inr access \<Rightarrow> map_option (map_r (Pair access)) (resolveTarget access input (tc_confine (tx_config cx)) intent))"

definition notAFile :: "string \<Rightarrow> string \<Rightarrow> tool_failure" where
  "notAFile display tool = toolFailure ''NotAFile''
     (display @ '' is not a regular file (a pipe, socket or device); '' @ tool @ '' works on regular files only, use bash for it'')"

definition mapFailure :: "string \<Rightarrow> fs_error + 'a \<Rightarrow> tool_failure + 'a" where
  "mapFailure display r = (case r of Inl e \<Rightarrow> Inl (fsFailure display e) | Inr x \<Rightarrow> Inr x)"

section \<open>Writing\<close>

definition existing :: "'s file_port \<Rightarrow> 's \<Rightarrow> workspace_target \<Rightarrow> tool_failure + file_info option" where
  "existing port s target =
     (case fp_stat port s (wt_path target) True of
        Inr info \<Rightarrow> Inr (Some info)
      | Inl e \<Rightarrow> if fs_reason e = FsNotFound then Inr None else Inl (fsFailure (wt_display target) e))"

definition notForNewFiles :: int where
  "notForNewFiles = 3657"

definition temporaryOf :: "path_api \<Rightarrow> string \<Rightarrow> string \<Rightarrow> string" where
  "temporaryOf api path salt =
     pa_join api (pa_dirname api path) (''.'' @ pa_basename api path @ ''.'' @ salt @ ''.efferent-tmp'')"

definition replaceFile :: "'s file_port \<Rightarrow> path_api \<Rightarrow> 's \<Rightarrow> string \<Rightarrow> utf16 \<Rightarrow> nat option \<Rightarrow> string \<Rightarrow> (fs_error + unit) \<times> 's" where
  "replaceFile port api s path content mode salt =
     (let temporary = temporaryOf api path salt;
          discard = (\<lambda>s. snd (fp_remove port s temporary)) in
      case fp_write port s temporary content True of
        (Inl e, s1) \<Rightarrow> (Inl e, s1)
      | (Inr _, s1) \<Rightarrow>
          (case (case mode of None \<Rightarrow> Inr True
                 | Some kept \<Rightarrow> map_r (\<lambda>fresh. fi_mode fresh = Some kept) (fp_stat port s1 temporary True)) of
             Inl e \<Rightarrow> (Inl e, discard s1)
           | Inr same \<Rightarrow>
               if \<not> same then fp_write port (discard s1) path content False
               else
                 (case fp_rename port s1 temporary path of
                    (Inl e, s2) \<Rightarrow> (Inl e, discard s2)
                  | (Inr _, s2) \<Rightarrow> (Inr (), s2))))"

definition save :: "'s file_port \<Rightarrow> path_api \<Rightarrow> 's \<Rightarrow> workspace_target \<Rightarrow> utf16 \<Rightarrow> file_info option \<Rightarrow> string \<Rightarrow> (tool_failure + unit) \<times> 's" where
  "save port api s target content before salt =
     (let mode = Option.bind before fi_mode;
          (r, s') = (if opt_exists (\<lambda>bits. (int bits AND notForNewFiles) \<noteq> 0) mode then fp_write port s (wt_path target) content False
            else replaceFile port api s (wt_path target) content mode salt)
      in (mapFailure (wt_display target) r, s'))"

record write_result =
  wr_display :: string
  wr_bytes :: nat
  wr_created :: bool

definition writeHeld :: "'s tool_context \<Rightarrow> 's \<Rightarrow> workspace_target \<Rightarrow> utf16 \<Rightarrow> string \<Rightarrow> (tool_failure + write_result) \<times> 's" where
  "writeHeld cx s target content salt =
     (case existing (tx_port cx) s target of
        Inl f \<Rightarrow> (Inl f, s)
      | Inr before \<Rightarrow>
          if opt_exists (\<lambda>info. fi_kind info = KDirectory) before then
            (Inl (toolFailure ''IsDirectory'' (wt_display target @ '' is a directory; write takes the path of a file'')), s)
          else if opt_exists (\<lambda>info. fi_kind info \<noteq> KFile) before then (Inl (notAFile (wt_display target) ''write''), s)
          else if length content = 0 \<and> opt_exists (\<lambda>info. 0 < fi_size info) before then
            (Inl (toolFailure ''WouldEmpty'' (wt_display target
              @ '' has content; write refuses to empty it. Use edit to remove parts of it, or bash to delete it'')), s)
          else
            (case save (tx_port cx) (tx_api cx) s target content before salt of
               (Inl f, s') \<Rightarrow> (Inl f, s')
             | (Inr _, s') \<Rightarrow> (Inr \<lparr>wr_display = wt_display target, wr_bytes = utf8Length content, wr_created = (before = None)\<rparr>, s')))"

definition writeTool :: "'s tool_context \<Rightarrow> 's \<Rightarrow> string \<Rightarrow> utf16 \<Rightarrow> string \<Rightarrow> ((tool_failure + write_result) \<times> 's) option" where
  "writeTool cx s input content salt =
     map_option (\<lambda>found. case found of
         Inl f \<Rightarrow> (Inl f, s)
       | Inr (access, target) \<Rightarrow>
           (case checkWritable access target (tx_protect cx) of
              Inl f \<Rightarrow> (Inl f, s)
            | Inr _ \<Rightarrow> writeHeld cx s target content salt))
       (targetAt cx s input (Some WriteAccess))"

section \<open>Editing\<close>

record edit_result =
  er_display :: string
  er_replaced :: nat
  er_normalized :: bool
  er_first :: nat

text \<open>The file an edit works on: what it was, and its text.\<close>

definition editable :: "'s tool_context \<Rightarrow> 's \<Rightarrow> workspace_target \<Rightarrow> tool_failure + file_info \<times> decoded_text" where
  "editable cx s target = and_then (existing (tx_port cx) s target) (\<lambda>before.
     case before of
       None \<Rightarrow> Inl (toolFailure ''NotFound'' (wt_display target @ '' does not exist; use write to create it''))
     | Some info \<Rightarrow>
         if fi_kind info = KDirectory then Inl (toolFailure ''IsDirectory'' (wt_display target @ '' is a directory; edit takes the path of a file''))
         else if fi_kind info \<noteq> KFile then Inl (notAFile (wt_display target) ''edit'')
         else if tc_maxFileBytes (tx_config cx) < fi_size info then
           Inl (toolFailure ''FileTooLarge'' (wt_display target @ '' is '' @ formatBytes (fi_size info) @ '', more than the ''
             @ formatBytes (tc_maxFileBytes (tx_config cx)) @ '' edit loads; change it with bash (sed -i, or a script)''))
         else and_then (mapFailure (wt_display target) (fp_readBytes (tx_port cx) s (wt_path target))) (\<lambda>bytes.
           if looksBinary bytes then Inl (toolFailure ''BinaryFile'' (wt_display target @ '' is a binary file; edit changes text files only''))
           else
             (let decoded = decodeText bytes in
              if dt_lossy decoded then
                Inl (toolFailure ''NotUtf8'' (wt_display target
                  @ '' is not valid UTF-8 (Latin-1 or another encoding, say); edit changes UTF-8 text files only, since it would replace the bytes it cannot decode. Use bash (sed, iconv) to change it''))
              else Inr (info, decoded))))"

definition editHeld :: "(utf16 \<Rightarrow> utf16) \<Rightarrow> 's tool_context \<Rightarrow> 's \<Rightarrow> workspace_target \<Rightarrow> text_edit list \<Rightarrow> string \<Rightarrow> (tool_failure + edit_result) \<times> 's" where
  "editHeld nfkc cx s target edits salt =
     (case and_then (editable cx s target) (\<lambda>(info, decoded).
        map_r (\<lambda>planned. (info, decoded, planned)) (applyTextEdits nfkc (dt_text decoded) edits (tc_fuzzyEdit (tx_config cx)))) of
        Inl f \<Rightarrow> (Inl f, s)
      | Inr (info, decoded, planned) \<Rightarrow>
          (case save (tx_port cx) (tx_api cx) s target (encodeText (ep_text planned) (dt_bom decoded)) (Some info) salt of
             (Inl f, s') \<Rightarrow> (Inl f, s')
           | (Inr _, s') \<Rightarrow> (Inr \<lparr>er_display = wt_display target, er_replaced = ep_replaced planned, er_normalized = ep_normalized planned,
               er_first = ep_first planned\<rparr>, s')))"

definition editTool :: "(utf16 \<Rightarrow> utf16) \<Rightarrow> 's tool_context \<Rightarrow> 's \<Rightarrow> string \<Rightarrow> text_edit list \<Rightarrow> string \<Rightarrow> ((tool_failure + edit_result) \<times> 's) option" where
  "editTool nfkc cx s input edits salt =
     map_option (\<lambda>found. case found of
         Inl f \<Rightarrow> (Inl f, s)
       | Inr (access, target) \<Rightarrow>
           (case checkWritable access target (tx_protect cx) of
              Inl f \<Rightarrow> (Inl f, s)
            | Inr _ \<Rightarrow> editHeld nfkc cx s target edits salt))
       (targetAt cx s input (Some WriteAccess))"

section \<open>Reading\<close>

datatype read_result =
    ReadText string utf16 line_window bool
  | ReadOther string "nat list"

text \<open>What \<open>read\<close> answers for a binary file is decided by \<open>binaryRead\<close>: here its path and bytes.\<close>

definition fileTooLargeHint :: "(string \<Rightarrow> bool) \<Rightarrow> string \<Rightarrow> bool \<Rightarrow> string" where
  "fileTooLargeHint isImage path readImages =
     (if readImages \<and> opt_exists isImage (mediaTypeOf path) then
        ''to see it, make a smaller copy with bash (scaled down or recompressed) and read that''
      else ''use grep to find lines in it, or bash (head, tail, sed -n) for parts of it'')"

definition readHeld :: "(string \<Rightarrow> bool) \<Rightarrow> 's tool_context \<Rightarrow> 's \<Rightarrow> workspace_target \<Rightarrow> nat option \<Rightarrow> nat option \<Rightarrow> tool_failure + read_result" where
  "readHeld isImage cx s target offset limit = and_then (mapFailure (wt_display target) (fp_stat (tx_port cx) s (wt_path target) True)) (\<lambda>info.
     if fi_kind info = KDirectory then Inl (toolFailure ''IsDirectory'' (wt_display target @ '' is a directory; use ls to list it''))
     else if fi_kind info \<noteq> KFile then Inl (notAFile (wt_display target) ''read'')
     else if tc_maxFileBytes (tx_config cx) < fi_size info then
       Inl (toolFailure ''FileTooLarge'' (wt_display target @ '' is '' @ formatBytes (fi_size info) @ '', more than the ''
         @ formatBytes (tc_maxFileBytes (tx_config cx)) @ '' read loads; '' @ fileTooLargeHint isImage (wt_display target) (tc_readImages (tx_config cx))))
     else and_then (mapFailure (wt_display target) (fp_readBytes (tx_port cx) s (wt_path target))) (\<lambda>bytes.
       if looksBinary bytes then Inr (ReadOther (wt_display target) bytes)
       else
         (let decoded = decodeText bytes in
          case lineWindow (dt_text decoded) (case offset of None \<Rightarrow> 1 | Some n \<Rightarrow> n)
              (case limit of None \<Rightarrow> tc_maxLines (tx_config cx) | Some n \<Rightarrow> n) (tc_maxBytes (tx_config cx)) of
            Inl given \<Rightarrow> Inl (toolFailure ''OffsetPastEnd'' (wt_display target @ '' has '' @ dec_nat given @ '' line''
              @ (if given = 1 then '''' else ''s'') @ ''; offset must be at most '' @ dec_nat (max 1 given)))
          | Inr window \<Rightarrow> Inr (ReadText (wt_display target) (join [lineFeed] (lw_lines window)) window (dt_lossy decoded)))))"

definition readTool :: "(string \<Rightarrow> bool) \<Rightarrow> 's tool_context \<Rightarrow> 's \<Rightarrow> string \<Rightarrow> nat option \<Rightarrow> nat option \<Rightarrow> (tool_failure + read_result) option" where
  "readTool isImage cx s input offset limit =
     map_option (\<lambda>found. and_then found (\<lambda>(access, target). readHeld isImage cx s target offset limit)) (targetAt cx s input None)"

record ls_result =
  lr_path :: string
  lr_entries :: "dir_entry list"
  lr_total :: nat

definition lsTool :: "'s tool_context \<Rightarrow> 's \<Rightarrow> string option \<Rightarrow> nat option \<Rightarrow> (tool_failure + ls_result) option" where
  "lsTool cx s input limit =
     map_option (\<lambda>found. and_then found (\<lambda>(access, target).
       case fp_list (tx_port cx) s (wt_path target) of
         Inl e \<Rightarrow> Inl (if fs_reason e = FsNotDirectory
             then toolFailure ''NotDirectory'' (wt_display target @ '' is not a directory; use read to see a file'')
             else fsFailure (wt_display target) e)
       | Inr entries \<Rightarrow> Inr \<lparr>lr_path = wt_display target,
           lr_entries = take (case limit of None \<Rightarrow> tc_lsEntries (tx_config cx) | Some n \<Rightarrow> n) entries, lr_total = length entries\<rparr>))
       (targetAt cx s (case input of None \<Rightarrow> ''.'' | Some p \<Rightarrow> p) None)"

definition walkExcludes :: "workspace_access \<Rightarrow> workspace_target \<Rightarrow> string list \<Rightarrow> string list" where
  "walkExcludes access target excludes = excludesBelow excludes
     (if isWithin (wa_root access) (wt_path target) then Some (pa_relative (wa_api access) (wa_root access) (wt_path target)) else None)"

record find_result =
  fr_pattern :: string
  fr_path :: string
  fr_paths :: "string list"
  fr_truncated :: bool

definition findTool :: "'s tool_context \<Rightarrow> 's \<Rightarrow> string \<Rightarrow> string option \<Rightarrow> nat option \<Rightarrow> (tool_failure + find_result) option" where
  "findTool cx s pattern input limit =
     map_option (\<lambda>found. and_then found (\<lambda>(access, target).
       case fp_glob (tx_port cx) s pattern \<lparr>go_cwd = wt_path target, go_exclude = walkExcludes access target (tc_exclude (tx_config cx)),
           go_dot = True, go_onlyFiles = True, go_limit = Some (case limit of None \<Rightarrow> tc_findResults (tx_config cx) | Some n \<Rightarrow> n)\<rparr> of
         Inl e \<Rightarrow> Inl (if fs_reason e = FsInvalid then toolFailure ''InvalidPattern'' (pattern @ '': '' @ fs_message e)
             else fsFailure (wt_display target) e)
       | Inr found \<Rightarrow> Inr \<lparr>fr_pattern = pattern, fr_path = wt_display target,
           fr_paths = map (\<lambda>relative. displayOf access (pa_join (wa_api access) (wt_path target) relative)) (gr_paths found),
           fr_truncated = gr_truncated found\<rparr>))
       (targetAt cx s (case input of None \<Rightarrow> ''.'' | Some p \<Rightarrow> p) None)"

end
