(* ===== verification/ToolSafety.thy ===== *)
theory ToolSafety
  imports WorkspaceTools
begin

text \<open>
  What the tools that change files do to a file system: on the in-memory tree, whatever links a path
  goes through, a write or an edit changes the file it names and nothing else, inside the roots of the
  call.
\<close>

section \<open>The tree as a port\<close>

definition treePort :: "int \<Rightarrow> tree file_port" where
  "treePort now = \<lparr>fp_realPath = realPath, fp_stat = statAt,
     fp_readBytes = \<lambda>t path. map_r (map unat) (readBytes t path \<lparr>rr_offset = None, rr_length = None\<rparr>),
     fp_list = listDir,
     fp_glob = \<lambda>t pattern options. the (walkGlob (Suc (treeDepth t)) (listDir t) pattern options),
     fp_write = \<lambda>t path str createParents. putAt now t path (CBytes (map of_nat (encodeBytes str))) createParents False,
     fp_rename = renameAt now,
     fp_remove = \<lambda>t path. removeAt t path False\<rparr>"

lemma readsAt_tree: "readsAt (treePort now) t = treeReads t"
  by (simp add: readsAt_def treePort_def treeReads_def)

section \<open>Roots and places below them\<close>

lemma canonical_slash: "canonical p \<Longrightarrow> ends_with ''/'' p \<longleftrightarrow> p = ''/''"
proof -
  assume p: "canonical p"
  show ?thesis
  proof (cases rule: canonical_cases [OF p])
    case 1
    then show ?thesis by (simp add: ends_with_def)
  next
    case (2 d n)
    have "n \<noteq> []" "CHR ''/'' \<notin> set n" using 2(2) by (auto simp: goodName_def)
    then have "last n \<noteq> CHR ''/''" using last_in_set [of n] by metis
    then have "last p \<noteq> CHR ''/''" using \<open>n \<noteq> []\<close> by (simp add: 2(3) joinPath_def)
    moreover have "ends_with ''/'' p \<Longrightarrow> last p = CHR ''/''"
    proof -
      assume "ends_with ''/'' p"
      then have "p = take (length p - 1) p @ ''/''"
        using append_take_drop_id [of "length p - 1" p] by (simp add: ends_with_def)
      then show "last p = CHR ''/''" by (metis last_snoc)
    qed
    moreover have "p \<noteq> ''/''" using 2(5) canonical_root(2) by auto
    ultimately show ?thesis by blast
  qed
qed

lemma isWithin_iff:
  assumes "canonical root" and "canonical p"
  shows "isWithin root p \<longleftrightarrow> prefix (segmentsOf root) (segmentsOf p)"
proof -
  have "(if ends_with ''/'' root then root else root @ ''/'') = belowPrefix root"
    by (simp add: canonical_slash [OF assms(1)] belowPrefix_def)
  then have "isWithin root p \<longleftrightarrow> p = root \<or> (starts_with (belowPrefix root) p \<and> p \<noteq> root)" by (auto simp: isWithin_def)
  also have "\<dots> \<longleftrightarrow> prefix (segmentsOf root) (segmentsOf p)"
    unfolding below_iff [OF assms] using canonical_eq [OF assms] by (auto simp: strict_prefix_def)
  finally show ?thesis .
qed

text \<open>A place that does not exist yet, on the way to another, is in the existing directories the other is in.\<close>

lemma within_missing:
  assumes wf: "well_formed t" and root: "map_of t root \<noteq> None" and p: "canonical p" and q: "canonical q" "strict_prefix (segmentsOf q) (segmentsOf p)" "map_of t q = None"
  shows "isWithin root q \<longleftrightarrow> isWithin root p"
proof -
  from root obtain n where "map_of t root = Some n" by blast
  then have place: "placeIn t root" by (rule well_formed_place [OF wf])
  then have can: "canonical root" by (simp add: placeIn_def)
  have "\<not> strict_prefix (segmentsOf q) (segmentsOf root)"
    using dirAt_prefix [OF wf place q(1)] q(3) by (auto simp: dirAt_def)
  moreover have "prefix (segmentsOf q) (segmentsOf p)" using q(2) by (simp add: strict_prefix_def)
  ultimately show ?thesis
    unfolding isWithin_iff [OF can q(1)] isWithin_iff [OF can p]
    using prefix_same_cases [of "segmentsOf root" "segmentsOf p" "segmentsOf q"] by (auto simp: strict_prefix_def)
qed

section \<open>Writes at settled places\<close>

text \<open>\<open>onTheWay p t t'\<close>: the only change is directories made on the way to \<open>p\<close>.\<close>

definition onTheWay :: "string \<Rightarrow> tree \<Rightarrow> tree \<Rightarrow> bool" where
  "onTheWay p t t' \<longleftrightarrow> (\<forall>q. map_of t' q = map_of t q
     \<or> (map_of t q = None \<and> dirAt t' q \<and> canonical q \<and> prefix (segmentsOf q) (segmentsOf p)))"

lemma onTheWay_refl [simp]: "onTheWay p t t"
  by (simp add: onTheWay_def)

lemma onTheWay_trans: "onTheWay p t u \<Longrightarrow> onTheWay p u v \<Longrightarrow> onTheWay p t v"
  unfolding onTheWay_def dirAt_def opt_exists_iff by (metis option.distinct(1))

lemma onTheWay_further: "onTheWay d t u \<Longrightarrow> prefix (segmentsOf d) (segmentsOf p) \<Longrightarrow> onTheWay p t u"
  unfolding onTheWay_def by (meson prefix_order.trans)

lemma dir_no_link: "dirAt t p \<Longrightarrow> \<not> linkAt t p"
  by (auto simp: dirAt_def linkAt_def opt_exists_iff isLink_def)

lemma settled_later:
  assumes "settled t p" and way: "onTheWay d t t'"
  shows "settled t' p"
proof -
  have same: "map_of t' q = map_of t q \<or> dirAt t' q" for q using way by (auto simp: onTheWay_def)
  have dirs: "dirAt t q \<Longrightarrow> dirAt t' q" for q using same [of q] by (auto simp: dirAt_def)
  have "\<not> linkAt t' p" using assms(1) same [of p] dir_no_link by (auto simp: settled_def linkAt_def)
  moreover have "map_of t' q = None \<or> dirAt t' q" if "map_of t q = None \<or> dirAt t q" for q
    using that same [of q] dirs by auto
  ultimately show ?thesis using assms(1) by (simp add: settled_def)
qed

lemma settled_parent:
  assumes "settled t p"
  shows "settled t (parentOf p)" "writtenParent p = parentOf p" "prefix (segmentsOf (parentOf p)) (segmentsOf p)"
proof -
  have can: "canonical p" using assms by (simp add: settled_def)
  show "writtenParent p = parentOf p" using can by (simp add: writtenParent_def canonical_def)
  show pre: "prefix (segmentsOf (parentOf p)) (segmentsOf p)" using can by (cases rule: canonical_cases) simp_all
  show "settled t (parentOf p)"
  proof (cases rule: canonical_cases [OF can])
    case 1
    with assms show ?thesis by simp
  next
    case (2 d n)
    have below: "strict_prefix (segmentsOf d) (segmentsOf p)" by (simp add: 2(5) strict_prefix_def)
    with assms 2(1) have "map_of t d = None \<or> dirAt t d" by (simp add: settled_def)
    then have "\<not> linkAt t d" by (auto simp: linkAt_def dirAt_def isLink_def opt_exists_iff)
    with assms 2(1,4) below show ?thesis unfolding settled_def by (metis prefix_order.less_trans)
  qed
qed

lemma makeStep_on_way:
  assumes "settled t p" and "makeStep now t p retried = (r, t')"
  shows "onTheWay p t t'"
proof (cases "resolveIn t p False")
  case (Inl e)
  with assms(2) show ?thesis by (auto simp: makeStep_def refused_def split: if_splits)
next
  case (Inr q)
  then have "q = p" by (rule resolveIn_settled [OF assms(1)])
  have can: "canonical p" using assms(1) by (simp add: settled_def)
  show ?thesis
    using assms(2) Inr \<open>q = p\<close> can
    by (auto simp: makeStep_def refused_def onTheWay_def map_of_withNode dirAt_def split: option.splits node.splits sum.splits if_splits)
qed

lemma makeDirectories_on_way: "settled t p \<Longrightarrow> onTheWay p t (snd (makeDirectories now t p retried))"
proof (induction now t p retried rule: makeDirectories.induct)
  case (1 now t p retried)
  obtain r t1 where step: "makeStep now t p retried = (r, t1)" by fastforce
  then have t1: "onTheWay p t t1" by (rule makeStep_on_way [OF "1.prems"])
  show ?case
  proof (cases "r = Inr False")
    case True
    note up = settled_parent [OF settled_later [OF "1.prems" t1]]
    obtain r2 t2 where first: "makeDirectories now t1 (writtenParent p) False = (r2, t2)" by fastforce
    have "onTheWay (parentOf p) t1 t2"
      using "1.IH"(1) [OF step [symmetric] True] up(1,2) first by simp
    then have t2: "onTheWay p t t2" using onTheWay_further [OF _ up(3)] onTheWay_trans [OF t1] by blast
    show ?thesis
    proof (cases r2)
      case (Inl e)
      with step True first t2 show ?thesis by (subst makeDirectories.simps) simp
    next
      case (Inr u)
      with "1.IH"(2) [OF step [symmetric] True _ first [symmetric] Inr settled_later [OF "1.prems" t2]] t2 step True first onTheWay_trans
      show ?thesis by (subst makeDirectories.simps) fastforce
    qed
  next
    case False
    with step t1 show ?thesis by (subst makeDirectories.simps) (auto split: sum.splits bool.splits)
  qed
qed

lemma put_settled:
  assumes "settled t p" and "putAt now t p content createParents False = (r, t')"
  shows "\<exists>t1. onTheWay (parentOf p) t t1
     \<and> ((\<exists>e. r = Inl e \<and> t' = t1) \<or> (r = Inr () \<and> \<not> dirAt t1 p \<and> t' = withNode t1 p (NFile (bytesOf content) now)))"
proof -
  note up = settled_parent [OF assms(1)]
  obtain r1 t1 where first: "(if createParents then makeDirectories now t (writtenParent p) False else (Inr (), t)) = (r1, t1)" by fastforce
  have t1: "onTheWay (parentOf p) t t1"
    using first makeDirectories_on_way [OF up(1), of now False] by (auto simp: up(2) split: if_splits)
  show ?thesis
  proof (cases r1)
    case (Inl e)
    with assms(2) first t1 show ?thesis by (auto simp: putAt_def)
  next
    case (Inr u)
    with assms(2) first have put: "putContent now t1 p content False = (r, t')" by (simp add: putAt_def)
    have "resolveIn t1 p True = Inr q \<Longrightarrow> q = p" for q by (rule resolveIn_settled [OF settled_later [OF assms(1) t1]])
    with put have "(\<exists>e. r = Inl e \<and> t' = t1) \<or> (r = Inr () \<and> \<not> dirAt t1 p \<and> t' = withNode t1 p (NFile (bytesOf content) now))"
      by (auto simp: putContent_def refused_def dirAt_def Let_def split: sum.splits if_splits option.splits node.splits)
    with t1 show ?thesis by blast
  qed
qed

section \<open>Renaming a file to a place beside it\<close>

lemma movedTo_self: "moveTo real destination real = destination"
  by (simp add: moveTo_def)

lemma rename_beside:
  assumes wf: "well_formed t" and d: "canonical d" and names: "goodName n" "goodName m" "n \<noteq> m"
    and source: "map_of t (joinPath d m) = Some (NFile b time)"
    and target: "\<not> dirAt t (joinPath d n)"
  shows "\<exists>t'. renameAt now t (joinPath d m) (joinPath d n) = (Inr (), t')
    \<and> map_of t' = (map_of t)(joinPath d m := None, joinPath d n \<mapsto> NFile b now)"
proof -
  let ?from = "joinPath d m" and ?to = "joinPath d n"
  note from_place = canonical_joinPath [OF d names(2)] and to_place = canonical_joinPath [OF d names(1)]
  have place: "placeIn t ?from" by (rule well_formed_place [OF wf source])
  then have dir: "dirAt t d" by (simp add: placeIn_def from_place(3))
  then have place': "placeIn t ?to" by (simp add: placeIn_def to_place)
  have node: "nodeAt t ?from False = Inr (?from, NFile b time)"
    using resolveIn_self [OF wf place, of False] source by (simp add: nodeAt_def)
  have dest: "resolveIn t ?to False = Inr ?to" using resolveIn_self [OF wf place', of False] by simp
  have no_root: "?from \<noteq> ''/''" "?to \<noteq> ''/''" using from_place(2) to_place(2) canonical_root(2) by auto
  have other: "?to \<noteq> ?from" using names(3) from_place(2) to_place(2) by (metis last_snoc)
  have below: "\<not> starts_with (?from @ ''/'') ?to"
    using below_iff [OF from_place(1) to_place(1)] other no_root by (auto simp: belowPrefix_def from_place(2) to_place(2) strict_prefix_def)
  have no_dir: "\<not> opt_exists isDirectory (map_of t ?to)" using target by (simp add: dirAt_def)
  have "movable t ?from (NFile b time) ?to"
    using wf source place' no_root other below target by (simp add: movable_def)
  note nodes = renamed_map_of [OF this, of now]
  have run: "renameAt now t ?from ?to = (Inr (), AList.updates (map fst (renamedNodes now t ?from (NFile b time) ?to))
      (map snd (renamedNodes now t ?from (NFile b time) ?to)) [])"
    unfolding renameAt_def node dest sum.case prod.case Let_def refused_def renamedNodes_def movedKeys_def moveTo_def
    using no_root other below no_dir by simp
  have "map_of (renamedNodes now t ?from (NFile b time) ?to) = (map_of t)(?from := None, ?to \<mapsto> NFile b now)"
    using other by (auto simp: renamedNodes_def movedKeys_def movedTo_self map_of_filter_keys map_add_def fun_eq_iff split: option.splits)
  with run nodes show ?thesis by simp
qed

section \<open>Replacing a file\<close>

definition freshFor :: "tree \<Rightarrow> string \<Rightarrow> bool" where
  "freshFor t salt \<longleftrightarrow> CHR ''/'' \<notin> set salt \<and> list_all (\<lambda>(key, _). \<not> ends_with (''.'' @ salt @ ''.efferent-tmp'') key) t"

text \<open>What a change of one file does: the file, and directories made on the way to it.\<close>

definition onlyFile :: "tree \<Rightarrow> tree \<Rightarrow> string \<Rightarrow> node \<Rightarrow> bool" where
  "onlyFile t t' p n \<longleftrightarrow> (\<exists>t1. onTheWay (parentOf p) t t1 \<and> map_of t' = (map_of t1)(p \<mapsto> n))"

lemma temporary_name:
  assumes "CHR ''/'' \<notin> set salt" and "goodName n"
  defines "m \<equiv> ''.'' @ n @ ''.'' @ salt @ ''.efferent-tmp''"
  shows "goodName m" "n \<noteq> m" "ends_with (''.'' @ salt @ ''.efferent-tmp'') (joinPath d m)"
proof -
  show "goodName m" using assms(1,2) by (auto simp: goodName_def m_def)
  have "length n < length m" by (simp add: m_def)
  then show "n \<noteq> m" by auto
  have "joinPath d m = (joinPath d [] @ ''.'' @ n) @ (''.'' @ salt @ ''.efferent-tmp'')" by (simp add: joinPath_def m_def)
  then show "ends_with (''.'' @ salt @ ''.efferent-tmp'') (joinPath d m)" by (simp add: ends_with_def)
qed

lemma editable_found:
  "editable cx s target = Inr (info, decoded) \<Longrightarrow> existing (tx_port cx) s target = Inr (Some info) \<and> fi_kind info = KFile"
  by (auto simp only: editable_def and_then_eq_Inr Let_def sum.distinct sum.inject prod.inject simp_thms
      split: option.split_asm if_split_asm)

lemma strict_prefix_last: "strict_prefix xs (ys @ [y]) \<longleftrightarrow> prefix xs ys"
  by (auto simp: strict_prefix_def dest: prefix_length_le)

context posix_paths
begin

lemma replaceFile_tree:
  assumes wf: "well_formed t" and p: "settled t p" "\<not> dirAt t p" and fresh: "freshFor t salt"
    and run: "replaceFile (treePort now) api t p str None salt = (r, t')"
  shows "(r = Inr () \<and> onlyFile t t' p (NFile (map of_nat (encodeBytes str)) now)) \<or> ((\<exists>e. r = Inl e) \<and> onTheWay (parentOf p) t t')"
proof -
  have can: "canonical p" using p(1) by (simp add: settled_def)
  have "p \<noteq> ''/''" using p(2) wf by (auto simp: well_formed_def)
  with can obtain d n where d: "canonical d" "goodName n" "p = joinPath d n" "parentOf p = d" "segmentsOf p = segmentsOf d @ [n]"
    by (cases rule: canonical_cases) auto
  define m where "m = ''.'' @ n @ ''.'' @ salt @ ''.efferent-tmp''"
  have salt: "CHR ''/'' \<notin> set salt" using fresh by (simp add: freshFor_def)
  note name = temporary_name(1,2) [OF salt d(2), folded m_def] temporary_name(3) [OF salt d(2), of d, folded m_def]
  note temp = canonical_joinPath [OF d(1) name(1)]
  have temporary: "temporaryOf api p salt = joinPath d m"
    using d(3,4) dirname [OF can] basename [OF d(1,2)] join_name [OF d(1) name(1)] by (simp add: temporaryOf_def m_def)
  have none: "map_of t (joinPath d m) = None"
  proof (rule ccontr)
    assume "map_of t (joinPath d m) \<noteq> None"
    then obtain x where "(joinPath d m, x) \<in> set t" by (auto dest: map_of_SomeD)
    with fresh name(3) show False by (auto simp: freshFor_def list_all_iff)
  qed
  have "settled t (joinPath d m)"
    using p(1) none by (auto simp: settled_def temp(1,2) d(5) linkAt_def strict_prefix_last)
  let ?b = "map of_nat (encodeBytes str) :: bytes"
  obtain r1 t2 where put: "putAt now t (joinPath d m) (CBytes ?b) True False = (r1, t2)" by fastforce
  from put_settled [OF \<open>settled t (joinPath d m)\<close> put] temp(3) obtain t1 where t1: "onTheWay d t t1"
    and or: "(\<exists>e. r1 = Inl e \<and> t2 = t1) \<or> (r1 = Inr () \<and> \<not> dirAt t1 (joinPath d m) \<and> t2 = withNode t1 (joinPath d m) (NFile ?b now))"
    by auto
  from or show ?thesis
  proof
    assume "\<exists>e. r1 = Inl e \<and> t2 = t1"
    with run put temporary t1 d(4) show ?thesis by (auto simp: replaceFile_def treePort_def Let_def)
  next
    assume ok: "r1 = Inr () \<and> \<not> dirAt t1 (joinPath d m) \<and> t2 = withNode t1 (joinPath d m) (NFile ?b now)"
    have same: "map_of t1 x = map_of t x" if "segmentsOf x = segmentsOf d @ [y]" for x y
    proof -
      have "\<not> prefix (segmentsOf x) (segmentsOf d)" using that prefix_length_le [of "segmentsOf x" "segmentsOf d"] by auto
      with t1 show ?thesis by (auto simp: onTheWay_def)
    qed
    have wf2: "well_formed t2" using putAt_well_formed [OF wf, of now "joinPath d m" "CBytes ?b" True False] put by simp
    have names_differ: "joinPath d n \<noteq> joinPath d m"
      using name(2) temp(2) d(3,5) by (metis last_snoc)
    have "map_of t2 (joinPath d m) = Some (NFile ?b now)" using ok by (simp add: map_of_withNode)
    moreover have "\<not> dirAt t2 (joinPath d n)"
      using ok p(2) same [OF d(5)] names_differ by (simp add: dirAt_def d(3) map_of_withNode)
    ultimately obtain t3 where t3: "renameAt now t2 (joinPath d m) (joinPath d n) = (Inr (), t3)"
      "map_of t3 = (map_of t2)(joinPath d m := None, joinPath d n \<mapsto> NFile ?b now)"
      using rename_beside [OF wf2 d(1,2) name(1,2)] by blast
    have "r = Inr ()" "t' = t3" using run put temporary ok t3(1) d(3) by (auto simp: replaceFile_def treePort_def Let_def)
    moreover have "(map_of t2)(joinPath d m := None) = map_of t1"
      using ok same [OF temp(2)] none by (auto simp: map_of_withNode fun_eq_iff)
    ultimately show ?thesis using t1 t3(2) d(3,4) by (auto simp: onlyFile_def)
  qed
qed


lemma save_tree:
  assumes wf: "well_formed t" and p: "settled t (wt_path target)" "\<not> dirAt t (wt_path target)" and fresh: "freshFor t salt"
    and mode: "opt_exists (\<lambda>info. fi_mode info \<noteq> None) before = False"
    and run: "save (treePort now) api t target str before salt = (r, t')"
  shows "(r = Inr () \<and> onlyFile t t' (wt_path target) (NFile (map of_nat (encodeBytes str)) now))
    \<or> ((\<exists>f. r = Inl f) \<and> onTheWay (parentOf (wt_path target)) t t')"
proof -
  have none: "Option.bind before fi_mode = None" using mode by (cases before) simp_all
  obtain r1 where "replaceFile (treePort now) api t (wt_path target) str None salt = (r1, t')"
    and r: "r = mapFailure (wt_display target) r1"
    using run by (auto simp: save_def none split: prod.splits)
  from replaceFile_tree [OF wf p fresh this(1)] r show ?thesis by (auto simp: mapFailure_def)
qed

lemma existing_tree:
  assumes wf: "well_formed t" and p: "settled t (wt_path target)"
    and found: "existing (treePort now) t target = Inr before"
  shows "opt_exists (\<lambda>info. fi_mode info \<noteq> None) before = False"
    and "\<not> opt_exists (\<lambda>info. fi_kind info = KDirectory) before \<Longrightarrow> \<not> dirAt t (wt_path target)"
proof -
  show "opt_exists (\<lambda>info. fi_mode info \<noteq> None) before = False"
    using found by (auto simp: existing_def treePort_def statAt_def map_r_def and_then_eq_Inr split: sum.splits if_splits)
  assume kind: "\<not> opt_exists (\<lambda>info. fi_kind info = KDirectory) before"
  show "\<not> dirAt t (wt_path target)"
  proof
    assume dir: "dirAt t (wt_path target)"
    then obtain n where n: "map_of t (wt_path target) = Some n" "isDirectory n" by (auto simp: dirAt_def opt_exists_iff)
    have "resolveIn t (wt_path target) True = Inr (wt_path target)"
      by (rule resolveIn_self [OF wf dirAt_place [OF wf dir]]) (use dir_no_link [OF dir] in simp)
    with n found kind show False by (auto simp: existing_def treePort_def statAt_def nodeAt_def)
  qed
qed

lemma writeHeld_tree:
  assumes wf: "well_formed t" and p: "settled t (wt_path target)" and fresh: "freshFor t salt"
    and cx: "tx_port cx = treePort now" "tx_api cx = api"
    and run: "writeHeld cx t target str salt = (r, t')"
  shows "((\<exists>result. r = Inr result) \<and> onlyFile t t' (wt_path target) (NFile (map of_nat (encodeBytes str)) now))
    \<or> ((\<exists>f. r = Inl f) \<and> onTheWay (parentOf (wt_path target)) t t')"
proof (cases "existing (treePort now) t target")
  case (Inl f)
  with run cx show ?thesis by (auto simp: writeHeld_def)
next
  case (Inr before)
  note facts = existing_tree [OF wf p Inr]
  obtain r1 t1 where saved: "save (treePort now) api t target str before salt = (r1, t1)" by fastforce
  have "(\<exists>f. r = Inl f \<and> t' = t)
      \<or> (\<not> opt_exists (\<lambda>info. fi_kind info = KDirectory) before \<and> t' = t1 \<and> ((\<exists>f. r1 = Inl f \<and> r = Inl f) \<or> (r1 = Inr () \<and> (\<exists>result. r = Inr result))))"
    using run Inr saved cx by (auto simp: writeHeld_def split: if_splits sum.splits)
  then show ?thesis using save_tree [OF wf p facts(2) fresh facts(1) saved] by auto
qed

lemma editHeld_tree:
  assumes wf: "well_formed t" and p: "settled t (wt_path target)" and fresh: "freshFor t salt"
    and cx: "tx_port cx = treePort now" "tx_api cx = api"
    and run: "editHeld nfkc cx t target edits salt = (r, t')"
  shows "((\<exists>result. r = Inr result) \<and> (\<exists>info decoded planned. editable cx t target = Inr (info, decoded)
        \<and> applyTextEdits nfkc (dt_text decoded) edits (tc_fuzzyEdit (tx_config cx)) = Inr planned
        \<and> onlyFile t t' (wt_path target) (NFile (map of_nat (encodeBytes (encodeText (ep_text planned) (dt_bom decoded)))) now)))
    \<or> ((\<exists>f. r = Inl f) \<and> onTheWay (parentOf (wt_path target)) t t')"
proof (cases "editable cx t target")
  case (Inl f)
  with run show ?thesis by (auto simp: editHeld_def)
next
  case (Inr pair)
  obtain info decoded where pair: "pair = (info, decoded)" by fastforce
  show ?thesis
  proof (cases "applyTextEdits nfkc (dt_text decoded) edits (tc_fuzzyEdit (tx_config cx))")
    case (Inl f)
    with run Inr pair show ?thesis by (auto simp: editHeld_def)
  next
    case planned: (Inr planned)
    have found: "existing (treePort now) t target = Inr (Some info)" and kind: "fi_kind info \<noteq> KDirectory"
      using editable_found [of cx t target info decoded] Inr pair cx by auto
    note facts = existing_tree [OF wf p found]
    obtain r1 where saved: "save (treePort now) api t target (encodeText (ep_text planned) (dt_bom decoded)) (Some info) salt = (r1, t')"
      and r: "(\<exists>f. r1 = Inl f \<and> r = Inl f) \<or> (r1 = Inr () \<and> (\<exists>result. r = Inr result))"
      using run Inr pair planned cx by (auto simp: editHeld_def split: sum.splits prod.splits)
    have "\<not> dirAt t (wt_path target)" by (rule facts(2)) (use kind in simp)
    from save_tree [OF wf p this fresh facts(1) saved] r Inr pair planned show ?thesis by auto
  qed
qed

end

section \<open>The roots of a call\<close>

definition standingRoots :: "tree \<Rightarrow> workspace_access \<Rightarrow> bool" where
  "standingRoots t access \<longleftrightarrow> list_all (\<lambda>r. map_of t (ar_root r) \<noteq> None) (wa_roots access)"

lemma realPath_stands: "realPath t asked = Inr p \<Longrightarrow> map_of t p \<noteq> None"
  by (auto simp: realPath_def nodeAt_def result_simps split: option.splits)

lemma map_filter_all: "(\<And>x y. f x = Some y \<Longrightarrow> P y) \<Longrightarrow> list_all P (List.map_filter f xs)"
  by (induction xs) (auto simp: map_filter_simps split: option.splits)

lemma openRoot_stands: "openRoot (treeReads t) api root allowed = Some r \<Longrightarrow> map_of t (ar_root r) \<noteq> None"
  using realPath_stands by (auto simp: openRoot_def treeReads_def Let_def result_simps split: sum.splits if_splits)

lemma opened_roots:
  assumes wf: "well_formed t" and opened: "openWorkspace (treeReads t) api workspace roots mode = Inr access"
  shows "wa_fs access = treeReads t" "wa_api access = api" "canonical (wa_root access)" "standingRoots t access"
proof -
  from opened obtain root where real: "realPath t (pa_resolve api [workspace]) = Inr root"
    and access: "access = \<lparr>wa_root = root, wa_lexical = pa_resolve api [workspace],
      wa_roots = \<lparr>ar_root = root, ar_lexical = pa_resolve api [workspace], ar_access = mode\<rparr> # List.map_filter (openRoot (treeReads t) api root) roots,
      wa_fs = treeReads t, wa_api = api\<rparr>"
    by (auto simp: openWorkspace_def treeReads_def Let_def split: sum.splits)
  show "wa_fs access = treeReads t" "wa_api access = api" by (simp_all add: access)
  show "canonical (wa_root access)" using real_settled [OF wf real] by (simp add: access settled_def)
  have "list_all (\<lambda>r. map_of t (ar_root r) \<noteq> None) (List.map_filter (openRoot (treeReads t) api root) roots)"
    by (rule map_filter_all) (rule openRoot_stands)
  then show "standingRoots t access" using realPath_stands [OF real] by (simp add: access standingRoots_def)
qed

lemma resolveTarget_path:
  "resolveTarget access input confine intent = Some (Inr target) \<Longrightarrow>
     \<exists>display. canonicalOf access (pa_resolve (wa_api access) [wa_root access, if length input = 0 then ''.'' else input]) display = Some (Inr (wt_path target))"
  by (auto simp: resolveTarget_def Let_def result_simps split: if_splits option.splits)

lemma resolveTarget_returns:
  "(\<And>display. canonicalOf access (pa_resolve (wa_api access) [wa_root access, if length input = 0 then ''.'' else input]) display \<noteq> None) \<Longrightarrow>
     resolveTarget access input confine intent \<noteq> None"
  by (auto simp: resolveTarget_def Let_def split: if_splits)

text \<open>A change on the way to an allowed place is a change in an allowed place.\<close>

definition allowedIn :: "workspace_access \<Rightarrow> string \<Rightarrow> bool" where
  "allowedIn access q \<longleftrightarrow> withinAnyRoot access q \<and> writableHere access (\<lambda>same. same) q"

lemma missing_allowed:
  assumes wf: "well_formed t" and roots: "standingRoots t access" and p: "canonical p" "allowedIn access p"
    and q: "canonical q" "prefix (segmentsOf q) (segmentsOf (parentOf p))" "map_of t q = None"
  shows "allowedIn access q"
proof -
  have root: "map_of t ''/'' \<noteq> None" using wf by (auto simp: well_formed_def dirAt_def opt_exists_iff)
  have "strict_prefix (segmentsOf q) (segmentsOf p)"
  proof (cases rule: canonical_cases [OF p(1)])
    case 1
    with q(1,2) have "q = ''/''" using canonical_root_iff [OF q(1)] by simp
    with q(3) root show ?thesis by simp
  next
    case (2 d n)
    with q(2) show ?thesis by (simp add: strict_prefix_last)
  qed
  note same = within_missing [OF wf _ p(1) q(1) this q(3)]
  have "isWithin (ar_root r) q \<longleftrightarrow> isWithin (ar_root r) p" if "r \<in> set (wa_roots access)" for r
    using same [of "ar_root r"] roots that by (auto simp: standingRoots_def list_all_iff)
  with p(2) show ?thesis by (auto simp: allowedIn_def withinAnyRoot_def writableHere_def list_all_iff list_ex_iff)
qed

lemma way_allowed:
  assumes "well_formed t" and "standingRoots t access" and "canonical p" "allowedIn access p" and way: "onTheWay (parentOf p) t t'"
  shows "map_of t' q = map_of t q \<or> allowedIn access q"
  using way missing_allowed [OF assms(1-4), of q] by (auto simp: onTheWay_def)

definition newDirectory :: "tree \<Rightarrow> tree \<Rightarrow> string \<Rightarrow> bool" where
  "newDirectory t t' q \<longleftrightarrow> map_of t q = None \<and> dirAt t' q"

lemma way_directories: "onTheWay p t t' \<Longrightarrow> map_of t' q = map_of t q \<or> newDirectory t t' q"
  by (auto simp: onTheWay_def newDirectory_def)

lemma onlyFile_changes:
  assumes "onlyFile t t' p n"
  shows "map_of t' p = Some n" "q \<noteq> p \<Longrightarrow> map_of t' q = map_of t q \<or> newDirectory t t' q"
proof -
  from assms obtain t1 where t1: "onTheWay (parentOf p) t t1" "map_of t' = (map_of t1)(p \<mapsto> n)" by (auto simp: onlyFile_def)
  show "map_of t' p = Some n" by (simp add: t1(2))
  assume "q \<noteq> p"
  with way_directories [OF t1(1), of q] t1(2) show "map_of t' q = map_of t q \<or> newDirectory t t' q"
    by (auto simp: newDirectory_def dirAt_def)
qed

lemma onlyFile_allowed:
  assumes "well_formed t" and "standingRoots t access" and "canonical p" "allowedIn access p" and "onlyFile t t' p n"
  shows "map_of t' q = map_of t q \<or> allowedIn access q"
proof -
  from assms(5) obtain t1 where t1: "onTheWay (parentOf p) t t1" "map_of t' = (map_of t1)(p \<mapsto> n)" by (auto simp: onlyFile_def)
  from way_allowed [OF assms(1-4) t1(1), of q] t1(2) assms(4) show ?thesis by auto
qed

context posix_paths
begin

lemma targetAt_tree:
  assumes wf: "well_formed t" and cx: "tx_port cx = treePort now" "tx_api cx = api"
  shows "targetAt cx t input intent \<noteq> None"
    and "targetAt cx t input intent = Some (Inr (access, target)) \<Longrightarrow>
      accessAt cx t = Inr access \<and> standingRoots t access \<and> settled t (wt_path target)
      \<and> resolveTarget access input (tc_confine (tx_config cx)) intent = Some (Inr target)"
proof -
  have opens: "accessAt cx t = openWorkspace (treeReads t) api (tx_workspace cx) (tc_roots (tx_config cx)) (tc_access (tx_config cx))"
    by (simp add: accessAt_def cx readsAt_tree)
  have search: "\<exists>r. canonicalOf a (pa_resolve (wa_api a) [wa_root a, given]) display = Some r \<and> (\<forall>p. r = Inr p \<longrightarrow> settled t p)"
    if "accessAt cx t = Inr a" for a given display
  proof -
    note facts = opened_roots [OF wf that [unfolded opens]]
    from canonicalOf_tree [OF wf facts(1,2) resolve [OF facts(3)], of given display] facts(2) show ?thesis by auto
  qed
  show "targetAt cx t input intent \<noteq> None"
  proof (cases "accessAt cx t")
    case (Inr a)
    have "resolveTarget a input (tc_confine (tx_config cx)) intent \<noteq> None"
      by (rule resolveTarget_returns) (use search [OF Inr] in fastforce)
    with Inr show ?thesis by (auto simp: targetAt_def)
  qed (simp add: targetAt_def)
  assume found: "targetAt cx t input intent = Some (Inr (access, target))"
  then have access: "accessAt cx t = Inr access" and target: "resolveTarget access input (tc_confine (tx_config cx)) intent = Some (Inr target)"
    by (auto simp: targetAt_def result_simps split: sum.splits)
  obtain display where "canonicalOf access (pa_resolve (wa_api access) [wa_root access, if length input = 0 then ''.'' else input]) display = Some (Inr (wt_path target))"
    using resolveTarget_path [OF target] by blast
  with search [OF access, of "if length input = 0 then ''.'' else input" display] have "settled t (wt_path target)" by auto
  with access target opened_roots(4) [OF wf access [unfolded opens]]
  show "accessAt cx t = Inr access \<and> standingRoots t access \<and> settled t (wt_path target)
      \<and> resolveTarget access input (tc_confine (tx_config cx)) intent = Some (Inr target)" by blast
qed

lemma allowed_target:
  assumes "resolveTarget access input True (Some WriteAccess) = Some (Inr target)"
  shows "allowedIn access (wt_path target)"
  using resolveTarget_confined [OF assms] writable_target by (auto simp: allowedIn_def)

end


definition exampleContext :: "tree tool_context" where
  "exampleContext = \<lparr>tx_port = treePort 2, tx_api = posixApi, tx_workspace = ''/w'',
     tx_config = \<lparr>tc_confine = True, tc_access = ReadAccess, tc_roots = [\<lparr>wr_path = ''/a'', wr_access = WriteAccess\<rparr>], tc_exclude = [],
       tc_maxLines = 10, tc_maxBytes = 100, tc_lsEntries = 10, tc_findResults = 10, tc_maxFileBytes = 1000, tc_readImages = False, tc_fuzzyEdit = False\<rparr>,
     tx_protect = []\<rparr>"


section \<open>Edits\<close>

lemma mapFailure_eq_Inr: "mapFailure display r = Inr x \<longleftrightarrow> r = Inr x"
  by (cases r) (simp_all add: mapFailure_def)

lemma editable_bytes:
  assumes p: "settled t (wt_path target)" and port: "tx_port cx = treePort now" and found: "editable cx t target = Inr (info, decoded)"
  shows "\<exists>b time. map_of t (wt_path target) = Some (NFile b time) \<and> decoded = decodeText (map unat b) \<and> \<not> dt_lossy decoded"
proof -
  have "\<exists>bytes. fp_readBytes (tx_port cx) t (wt_path target) = Inr bytes \<and> decoded = decodeText bytes \<and> \<not> dt_lossy decoded"
    using found editable_found [OF found]
    by (auto simp: editable_def mapFailure_eq_Inr and_then_eq_Inr Let_def split: if_splits)
  then obtain b where b: "fileAt t (wt_path target) = Inr b" "decoded = decodeText (map unat b)" "\<not> dt_lossy decoded"
    by (auto simp: port treePort_def readBytes_def result_simps)
  from b(1) obtain q time where "resolveIn t (wt_path target) True = Inr q" "map_of t q = Some (NFile b time)"
    by (auto simp: fileAt_def nodeAt_def result_simps split: option.splits node.splits)
  with resolveIn_settled [OF p] b(2,3) show ?thesis by blast
qed



section \<open>An example\<close>

text \<open>The examples succeed: the link leads to a file below the writable root.\<close>

lemma example_target:
  "\<exists>access. targetAt exampleContext exampleTree ''m'' (Some WriteAccess) = Some (Inr (access, \<lparr>wt_path = ''/a/b.txt'', wt_display = ''m''\<rparr>))"
proof -
  have facts: "posixPath [''/w''] = ''/w''" "posixPath [''/w'', ''/a''] = ''/a''" "posixPath [''/w'', ''m''] = ''/w/m''"
    "realPath exampleTree ''/w'' = Inr ''/w''" "realPath exampleTree ''/a'' = Inr ''/a''" "realPath exampleTree ''/w/m'' = Inr ''/a/b.txt''"
    "segmentsOf ''/w'' = [''w'']" "segmentsOf ''/w/m'' = [''w'', ''m'']"
    by code_simp+
  have "map_r fi_kind (statAt exampleTree ''/a'' True) = Inr KDirectory" by code_simp
  then obtain info where "statAt exampleTree ''/a'' True = Inr info" "fi_kind info = KDirectory" by (auto simp: result_simps)
  then show ?thesis
    by (simp add: targetAt_def accessAt_def exampleContext_def readsAt_tree treeReads_def openWorkspace_def openRoot_def Let_def
        posixApi_def facts map_filter_simps map_r_def resolveTarget_def canonicalOf.simps insideRoots_def withinAnyRoot_def isWithin_def ends_with_def
        displayOf_def readOnlyRootOf_def rootOf_def folded_def lowerChar_def)
qed

text \<open>The steps of a replacement, at the example's place.\<close>

lemma example_replace:
  "\<exists>t'. replaceFile (treePort 2) posixApi exampleTree ''/a/b.txt'' [104, 111] None ''1z'' = (Inr (), t') \<and> fileAt t' ''/w/m'' = Inr [104, 111]"
proof -
  define t1 where "t1 = snd (putAt 2 exampleTree ''/a/.b.txt.1z.efferent-tmp'' (CBytes [104, 111]) True False)"
  define t2 where "t2 = snd (renameAt 2 t1 ''/a/.b.txt.1z.efferent-tmp'' ''/a/b.txt'')"
  have "fst (putAt 2 exampleTree ''/a/.b.txt.1z.efferent-tmp'' (CBytes [104, 111]) True False) = Inr ()" by code_simp
  then have put: "putAt 2 exampleTree ''/a/.b.txt.1z.efferent-tmp'' (CBytes [104, 111]) True False = (Inr (), t1)"
    unfolding t1_def by (metis prod.collapse)
  have "fst (renameAt 2 t1 ''/a/.b.txt.1z.efferent-tmp'' ''/a/b.txt'') = Inr ()" unfolding t1_def by code_simp
  then have moved: "renameAt 2 t1 ''/a/.b.txt.1z.efferent-tmp'' ''/a/b.txt'' = (Inr (), t2)"
    unfolding t2_def by (metis prod.collapse)
  have temporary: "temporaryOf posixApi ''/a/b.txt'' ''1z'' = ''/a/.b.txt.1z.efferent-tmp''" by code_simp
  have encoded: "map of_nat (encodeBytes [104, 111]) = ([104, 111] :: bytes)" by (simp add: asciiLines)
  have "fileAt t2 ''/w/m'' = Inr [104, 111]" unfolding t2_def t1_def by code_simp
  then show ?thesis
    by (simp add: replaceFile_def treePort_def Let_def temporary encoded put moved)
qed

lemma example_write:
  "map_option (\<lambda>(r, t'). (isl r, fileAt t' ''/w/m'')) (writeTool exampleContext exampleTree ''m'' [104, 111] ''1z'') = Some (False, Inr [104, 111])"
proof -
  obtain access where target: "targetAt exampleContext exampleTree ''m'' (Some WriteAccess) = Some (Inr (access, \<lparr>wt_path = ''/a/b.txt'', wt_display = ''m''\<rparr>))"
    using example_target by blast
  have "map_r (\<lambda>info. (fi_kind info, fi_mode info)) (statAt exampleTree ''/a/b.txt'' True) = Inr (KFile, None)" by code_simp
  then obtain info where info: "statAt exampleTree ''/a/b.txt'' True = Inr info" "fi_kind info = KFile" "fi_mode info = None"
    by (auto simp: result_simps)
  have cx: "tx_port exampleContext = treePort 2" "tx_api exampleContext = posixApi" "tx_protect exampleContext = []" "fp_stat (treePort 2) = statAt"
    by (simp_all add: exampleContext_def treePort_def)
  obtain t' where replaced: "replaceFile (treePort 2) posixApi exampleTree ''/a/b.txt'' [104, 111] None ''1z'' = (Inr (), t')"
    "fileAt t' ''/w/m'' = Inr [104, 111]"
    using example_replace by blast
  have held: "writeHeld exampleContext exampleTree \<lparr>wt_path = ''/a/b.txt'', wt_display = ''m''\<rparr> [104, 111] ''1z''
      = (Inr \<lparr>wr_display = ''m'', wr_bytes = utf8Length [104, 111], wr_created = False\<rparr>, t')"
    using info replaced by (simp add: writeHeld_def existing_def save_def mapFailure_def cx)
  have "checkWritable access \<lparr>wt_path = ''/a/b.txt'', wt_display = ''m''\<rparr> [] = Inr ()" by (simp add: checkWritable_def)
  then show ?thesis by (simp add: writeTool_def target cx held replaced(2))
qed

end
