(* ===== verification/Spec2Isabelle.thy ===== *)
theory Spec2Isabelle
  imports MemoryText InboxDrain SessionTurns Lineage AgentRun PluginGraph TurnPhase SessionInstance ToolSafety
begin

text \<open>
  A verification library of efferent, a framework for agents in TypeScript on Effect. An agent is a graph
  of plugins (\<open>packages/runtime\<close>) activated once; a session is a journal of events and a head with the
  plugins' states, kept by a session log (\<open>packages/core/src/session\<close>); the sessions service
  (\<open>packages/plugin-sessions\<close>) opens one turn at a time on a session and queues inputs for the next; a turn
  (\<open>packages/sdk\<close>) takes a message, runs the step loop (\<open>packages/plugin-agent-loop\<close>) of model requests and
  tool calls on the context rendered from the memory log (\<open>packages/core/src/memory\<close>), and hands what is to be
  remembered to the turn's writer, which stores it with the turn's end. The tools of
  \<open>packages/plugin-workspace\<close> act on files through a port of core. Paths below are under \<open>src/packages/\<close>.

  \<^bold>\<open>Conventions.\<close> A fallible operation is \<open>'e + 'a\<close>, its typed failure on the left. Effects are explicit:
  a component's cells are a record that each operation returns updated; what the code calls and does not
  contain (the model, a tool, a host's callback, a plugin's build, a schema's decoder, the clock, path
  functions) is an argument or a field of a record of functions, on a state of its own where it may answer
  differently from call to call. Calls the code makes of its host are kept in order as a trace. Concurrency
  is interleaving: an atomic update is one step, other instances run between the calls of a shared log.
  Theory Prelude has the results, the options and arrays, the named theorems \<open>result_simps\<close>, and the
  locales \<open>invariant_machine\<close>, \<open>absorbing_machine\<close> and \<open>monotone_machine\<close>: a property every step keeps holds after
  any run. JsText has the string operations of JavaScript, Vocabulary the words of turns, endings and
  JSON (\<open>core/src/domain/turn-vocabulary.entity.ts\<close>).

  \<^bold>\<open>Sessions and turns.\<close>
  \<^item> TurnWriter: the writer's phase (\<open>plugin-sessions/src/turn-writer.entity.functions.ts\<close>); a stop is final, a
    sealed turn ends once, with the ending it was sealed with.
  \<^item> SessionLog: the log and its in-memory store (\<open>core/src/session/session-log.memory.adapter.ts\<close>); the store
    stays well formed, a commit is a compare-and-swap, stale commits are fenced.
  \<^item> SessionsState, JournalKinds, Resume: the plugin's state in the head with its inbox, the kinds of events
    and reserved names, how an exit becomes a stored ending and which turn can be resumed.
  \<^item> WriterCommit, WriterSafety: the writer's guarded commit, retries, rebase and end
    (\<open>turn-writer.adapter.ts\<close>). The locale \<open>session_log\<close> is what it relies on of any log, \<open>writer_run\<close> adds
    other instances; both are interpreted on the in-memory store. A stored decision saw every event before
    it, attempts are bounded, an end is stored whole.
  \<^item> SessionPlans, SessionGuard, SessionRepeats, StoredRecords, SessionTurns: the service's operations
    (\<open>sessions.adapter.ts\<close>) as plans, the loop that commits them (refinement: a guarded operation is its plan
    applied in one step), repeats under a key (locale \<open>journal_codec\<close>, interpreted on the stored JSON of the
    schemas), and the step relation by which turns never overlap.
  \<^item> SessionInstance, InboxDrain: what an instance keeps beside the store, and the drainer that works off
    queued inputs (\<open>inbox-drain.entity.functions.ts\<close>); idle means nothing runs, a claimed session is not
    claimed again, the projection agrees with the head.
  \<^item> Lineage: forks, the history they inherit and the memory snapshot published in a head
    (\<open>memory-snapshot.adapter.ts\<close>). The walks are partial functions; on every reachable store they return.

  \<^bold>\<open>A turn's run.\<close>
  \<^item> ModelText, Messages, Media, Canonical: the text the model reads, the conversation's messages, images
    and their checks, canonical JSON and fingerprints (\<open>core/src/turn\<close>, \<open>core/src/domain\<close>).
  \<^item> MemoryLog, MemoryRender, MemoryText: the memory log and what is folded from it, the render (every call
    is answered at once by one result, images stay within a budget), transcripts, digests and retention
    (\<open>core/src/memory/memory-log.entity.functions.ts\<close>).
  \<^item> ModelFailure, Responses, StreamFold, ResponseGate, RequestAttempt: a failed request's classification,
    a response's usage, minted ids and messages, the fold of a stream into its settled shape (equal to a
    reference however chunks interleave), the verdict on a response, one step's request with its resends.
  \<^item> AgentLoop, LoopTrace, AgentRun: the step loop of \<open>plugin-agent-loop/src/loop.ts\<close>, rules for what its
    operations emit, and the run: bounded, each step settled once, no tool before the record of its call,
    every call answered in every buffer sent, the record equal to the new tail.
  \<^item> TurnPhase: where a running turn stands and what it hands the writer (\<open>sdk/src/turn\<close>).
  \<^item> PluginGraph: resolution of a configuration into an ordered graph and its activation
    (\<open>runtime/src/graph.ts\<close>); reported cycles are real, each plugin gets what it needs.

  \<^bold>\<open>Files and workspace tools.\<close>
  \<^item> Glob, GlobMatch: glob patterns (\<open>core/src/internal/glob.entity.functions.ts\<close>); a compiled glob is the union
    of the patterns its braces stand for, and the descent test reaches every match.
  \<^item> FileTree, FileTreeInv: the in-memory file system (\<open>core/src/workspace/file-system.memory.adapter.ts\<close>); every
    call keeps it a tree, real paths are final, a write is read back and changes nothing else.
  \<^item> GlobWalk: the walk every backend shares (\<open>core/src/domain/file-system.entity.functions.ts\<close>), over the locale
    \<open>directory_listing\<close>, interpreted on the tree: a glob finds exactly the matching paths.
  \<^item> WorkspacePaths, WorkspaceTree: the roots of a call and the confinement of paths
    (\<open>plugin-workspace/src/workspace-path.entity.functions.ts\<close>); the search for a real path returns and ends at
    a settled place (locale \<open>posix_paths\<close>, interpreted on POSIX paths).
  \<^item> Utf8, TextWindow: UTF-16 and UTF-8, and the windows, clips and tails of
    \<open>text-window.entity.functions.ts\<close>: bounded, never cutting a character, paged through without loss.
  \<^item> TextEdit: exact replacements in a file (\<open>text-edit.entity.functions.ts\<close>); edits touch only their own text
    and keep the file's line endings.
  \<^item> WorkspaceTools, ToolSafety: the handlers of write, edit, read, ls and find (\<open>write-tools.adapter.ts\<close>,
    \<open>read-tools.adapter.ts\<close>) on a port threaded through their calls; composed with the tree, a write or an
    edit changes one file, in a writable root of the call, whatever links its path goes through.

  \<^bold>\<open>Bounds and fuel.\<close> The step loop recurs on the step limit, which every continuing step uses up. A commit's
  retries and a drain's turns are the code's own limits. Braces expand to at most 1025 patterns before the
  glob is refused (\<open>maxAlternatives\<close> 1024), links are followed at most \<open>maxHops\<close> (40) times, as in the code. The
  glob walk alone has fuel the code lacks, for a listing that goes down without end: on the tree, its depth
  is shown to be enough. The walks of a lineage and \<open>canonicalOf\<close> are \<open>partial_function\<close>s with proofs that they
  return.

  \<^bold>\<open>Not modelled.\<close> Adapters to vendors, HTTP, processes, files on disk, SQL and telemetry: their correctness
  is agreement with code that is not in the repository (what the program relies on of a log is the locale
  \<open>session_log\<close>). The knowledge store and retrieval rank by floating point. Effect layers, scopes, fibers,
  interruption, spans and log lines are left out of every component, schemas' decoders are parameters except
  for the stored starts, endings and queued items, and texts that only describe a tool to the model are not
  modelled. Tests, conformance suites, evaluation tools and the website are not part of the program. The
  manifest lists each part with its reason.
\<close>

end
